(* ===== verification/Dns_Prelude.thy ===== *)
theory Dns_Prelude
  imports Main "HOL-Library.Word"
begin

text \<open>
  Shared vocabulary of the development: Rust's fixed-width integers as words, the outcome of a
  fallible Rust function (a value, an error, or a panic), the byte-order conversions of the
  standard library, and slices of byte buffers. A Rust \<open>str\<close> is the list of its UTF-8 bytes, each
  a \<open>char\<close> of HOL (eight bits), so string literals of the source can be written as they are.
\<close>

unbundle bit_operations_syntax

type_synonym u8 = "8 word"
type_synonym u16 = "16 word"
type_synonym u32 = "32 word"
type_synonym u64 = "64 word"
type_synonym bytes = "u8 list"

named_theorems byte_simps "lengths and round trips of byte-order conversions"
named_theorems layout_simps "reading and writing at known offsets of a buffer"


section \<open>Outcomes of Rust functions\<close>

text \<open>
  \<open>Ok\<close> and \<open>Err\<close> are the constructors of Rust's \<open>Result\<close>; \<open>Panic\<close> is a failed \<open>assert!\<close>,
  \<open>expect\<close>, \<open>unwrap\<close>, index or slice operation.
\<close>

datatype ('e, 'a) outcome = Ok 'a | Err 'e | Panic

fun bind_outcome :: "('e, 'a) outcome \<Rightarrow> ('a \<Rightarrow> ('e, 'b) outcome) \<Rightarrow> ('e, 'b) outcome" where
  "bind_outcome (Ok x) f = f x"
| "bind_outcome (Err e) f = Err e"
| "bind_outcome Panic f = Panic"

fun map_err :: "('e \<Rightarrow> 'f) \<Rightarrow> ('e, 'a) outcome \<Rightarrow> ('f, 'a) outcome" where
  "map_err f (Ok x) = Ok x"
| "map_err f (Err e) = Err (f e)"
| "map_err f Panic = Panic"

lemma bind_outcome_eq_Ok [simp]:
  "bind_outcome r f = Ok y \<longleftrightarrow> (\<exists>x. r = Ok x \<and> f x = Ok y)"
  by (cases r) auto

lemma bind_outcome_assoc:
  "bind_outcome (bind_outcome r f) g = bind_outcome r (\<lambda>x. bind_outcome (f x) g)"
  by (cases r) auto

lemma map_err_eq_Ok [simp]: "map_err f r = Ok x \<longleftrightarrow> r = Ok x"
  by (cases r) auto

lemma map_err_eq_Panic [simp]: "map_err f r = Panic \<longleftrightarrow> r = Panic"
  by (cases r) auto


text \<open>
  \<open>std::io::Error\<close>: its kind (the ones the program creates or tests for, and \<open>OtherKind\<close>) and message.
\<close>

datatype io_kind = InvalidData | InvalidInput | UnexpectedEof | OtherKind

datatype io_error = Io_Error io_kind string


section \<open>Bytes and characters\<close>

definition byte_of_char :: "char \<Rightarrow> u8" where
  "byte_of_char c = of_char c"

definition char_of_byte :: "u8 \<Rightarrow> char" where
  "char_of_byte b = char_of (unat b)"

definition as_bytes :: "string \<Rightarrow> bytes" where
  "as_bytes s = map byte_of_char s"

definition string_of_bytes :: "bytes \<Rightarrow> string" where
  "string_of_bytes bs = map char_of_byte bs"

lemma unat_byte_of_char [simp]: "unat (byte_of_char c) = of_char c"
proof -
  have "unat (of_nat (of_char c) :: u8) = of_char c mod 2 ^ LENGTH(8)"
    by (rule unat_of_nat)
  then show ?thesis
    by (simp add: byte_of_char_def of_nat_of_char)
qed

lemma char_of_byte_of_char [simp]: "char_of_byte (byte_of_char c) = c"
  by (simp add: char_of_byte_def)

lemma byte_of_char_of_byte [simp]: "byte_of_char (char_of_byte b) = b"
proof -
  have "unat (byte_of_char (char_of_byte b)) = unat b"
    using unsigned_less [of b, where 'a = nat] by (simp add: char_of_byte_def)
  then show ?thesis
    by (simp only: word_unat_eq_iff)
qed

lemma string_of_bytes_as_bytes [simp]: "string_of_bytes (as_bytes s) = s"
  by (simp add: string_of_bytes_def as_bytes_def comp_def map_idI)

lemma as_bytes_string_of_bytes [simp]: "as_bytes (string_of_bytes bs) = bs"
  by (simp add: string_of_bytes_def as_bytes_def comp_def map_idI)

lemma length_as_bytes [simp]: "length (as_bytes s) = length s"
  by (simp add: as_bytes_def)

lemma as_bytes_inject [simp]: "as_bytes s = as_bytes t \<longleftrightarrow> s = t"
  by (metis string_of_bytes_as_bytes)


section \<open>Byte order\<close>

text \<open>\<open>uN::to_le_bytes\<close>, \<open>uN::from_le_bytes\<close> and their big-endian counterparts.\<close>

definition to_le_bytes :: "'a::len word \<Rightarrow> bytes" where
  "to_le_bytes w = map (\<lambda>i. ucast (drop_bit (8 * i) w)) [0..<LENGTH('a) div 8]"

fun from_le_bytes :: "bytes \<Rightarrow> 'a::len word" where
  "from_le_bytes [] = 0"
| "from_le_bytes (b # bs) = ucast b OR push_bit 8 (from_le_bytes bs)"

definition to_be_bytes :: "'a::len word \<Rightarrow> bytes" where
  "to_be_bytes w = rev (to_le_bytes w)"

definition from_be_bytes :: "bytes \<Rightarrow> 'a::len word" where
  "from_be_bytes bs = from_le_bytes (rev bs)"

lemma length_to_le_bytes [byte_simps]: "length (to_le_bytes (w :: 'a::len word)) = LENGTH('a) div 8"
  by (simp add: to_le_bytes_def)

lemma length_to_be_bytes [byte_simps]: "length (to_be_bytes (w :: 'a::len word)) = LENGTH('a) div 8"
  by (simp add: to_be_bytes_def length_to_le_bytes)

lemma bit_from_le_bytes:
  "bit (from_le_bytes bs :: 'a::len word) n \<longleftrightarrow>
     n < LENGTH('a) \<and> n div 8 < length bs \<and> bit (bs ! (n div 8)) (n mod 8)"
proof (induction bs arbitrary: n)
  case Nil
  then show ?case by simp
next
  case (Cons b bs)
  show ?case
  proof (cases "n < 8")
    case True
    then show ?thesis by (auto simp: bit_simps)
  next
    case False
    then obtain m where m: "n = m + 8"
      by (metis add.commute le_add_diff_inverse not_less)
    have "(m + 8) div 8 = Suc (m div 8)"
      by simp
    have "\<not> bit b n"
      using False by (simp add: bit_imp_le_length linorder_not_less impossible_bit)
    then show ?thesis
      using Cons.IH [of m] \<open>(m + 8) div 8 = _\<close> by (auto simp: bit_simps m)
  qed
qed

lemma from_to_le_bytes [byte_simps]:
  assumes "LENGTH('a) mod 8 = 0"
  shows "from_le_bytes (to_le_bytes w) = (w :: 'a::len word)"
proof (rule bit_word_eqI)
  fix n assume n: "n < LENGTH('a)"
  then have d: "n div 8 < LENGTH('a) div 8"
    using assms by (auto elim!: dvdE simp: mod_eq_0_iff_dvd less_mult_imp_div_less)
  have "bit (from_le_bytes (to_le_bytes w) :: 'a word) n = bit (to_le_bytes w ! (n div 8)) (n mod 8)"
    using n d by (simp add: bit_from_le_bytes length_to_le_bytes)
  also have "\<dots> = bit w (8 * (n div 8) + n mod 8)"
    using d by (simp add: to_le_bytes_def bit_simps)
  finally show "bit (from_le_bytes (to_le_bytes w) :: 'a word) n = bit w n"
    by simp
qed

lemma to_from_le_bytes [byte_simps]:
  assumes "LENGTH('a) = 8 * length bs"
  shows "to_le_bytes (from_le_bytes bs :: 'a::len word) = bs"
proof (rule nth_equalityI)
  show "length (to_le_bytes (from_le_bytes bs :: 'a word)) = length bs"
    using assms by (simp add: length_to_le_bytes)
next
  fix i assume "i < length (to_le_bytes (from_le_bytes bs :: 'a word))"
  then have i: "i < length bs"
    using assms by (simp add: length_to_le_bytes)
  show "to_le_bytes (from_le_bytes bs :: 'a word) ! i = bs ! i"
  proof (rule bit_word_eqI)
    fix n assume "n < LENGTH(8)"
    then have "n < 8" by simp
    moreover from this have "(8 * i + n) div 8 = i" "(8 * i + n) mod 8 = n"
      by simp_all
    ultimately show "bit (to_le_bytes (from_le_bytes bs :: 'a word) ! i) n = bit (bs ! i) n"
      using i assms by (auto simp: to_le_bytes_def bit_simps bit_from_le_bytes)
  qed
qed

lemma from_to_be_bytes [byte_simps]:
  "LENGTH('a) mod 8 = 0 \<Longrightarrow> from_be_bytes (to_be_bytes w) = (w :: 'a::len word)"
  by (simp add: to_be_bytes_def from_be_bytes_def from_to_le_bytes)

lemma to_from_be_bytes [byte_simps]:
  "LENGTH('a) = 8 * length bs \<Longrightarrow> to_be_bytes (from_be_bytes bs :: 'a::len word) = bs"
  by (simp add: to_be_bytes_def from_be_bytes_def to_from_le_bytes)


section \<open>Slices of buffers\<close>

text \<open>
  \<open>slice_at bs i n\<close> is \<open>bs[i..i + n]\<close> and \<open>splice bs i src\<close> is
  \<open>bs[i..i + src.len()].copy_from_slice(src)\<close>, both for ranges inside the buffer.
\<close>

definition slice_at :: "'a list \<Rightarrow> nat \<Rightarrow> nat \<Rightarrow> 'a list" where
  "slice_at bs i n = take n (drop i bs)"

definition splice :: "'a list \<Rightarrow> nat \<Rightarrow> 'a list \<Rightarrow> 'a list" where
  "splice bs i src = take i bs @ src @ drop (i + length src) bs"

lemma length_splice [simp]: "i + length src \<le> length bs \<Longrightarrow> length (splice bs i src) = length bs"
  by (simp add: splice_def)

lemma slice_append_left [layout_simps]: "i + n \<le> length xs \<Longrightarrow> slice_at (xs @ ys) i n = slice_at xs i n"
  by (simp add: slice_at_def)

lemma slice_append_right [layout_simps]:
  "length xs \<le> i \<Longrightarrow> slice_at (xs @ ys) i n = slice_at ys (i - length xs) n"
  by (simp add: slice_at_def)

lemma slice_exact [layout_simps]: "slice_at xs 0 (length xs) = xs"
  by (simp add: slice_at_def)

lemma slice_middle: "length xs = i \<Longrightarrow> length ys = n \<Longrightarrow> slice_at (xs @ ys @ zs) i n = ys"
  by (simp add: slice_at_def)

lemma slice_prefix: "length xs = n \<Longrightarrow> slice_at (xs @ ys) 0 n = xs"
  by (simp add: slice_at_def)

lemma splice_middle:
  "length xs = i \<Longrightarrow> length old = length src \<Longrightarrow> splice (xs @ old @ ys) i src = xs @ src @ ys"
  by (simp add: splice_def)

lemma splice_append_zeros:
  assumes "length xs = i" "length src \<le> n"
  shows "splice (xs @ replicate n z) i src = xs @ src @ replicate (n - length src) z"
  using assms by (simp add: splice_def)

lemma slice_at_step: "slice_at bs 0 k @ slice_at (drop k bs) 0 n = slice_at bs 0 (k + n)"
  by (simp add: slice_at_def take_add)

text \<open>A buffer cut into equal groups, and an element of a concatenation of equal groups.\<close>

lemma concat_slices:
  assumes "length bs = k * m"
  shows "concat (map (\<lambda>g. slice_at bs (g * k) k) [0..<m]) = bs"
proof -
  have "concat (map (\<lambda>g. slice_at bs (g * k) k) [0..<j]) = take (j * k) bs" if "j \<le> m" for j
    using that
  proof (induction j)
    case (Suc j)
    then show ?case
      using take_add [of "j * k" k bs] by (simp add: slice_at_def add.commute)
  qed simp
  from this [of m] show ?thesis
    using assms by (simp add: mult.commute)
qed

lemma length_concat_groups: "(\<And>g. g < m \<Longrightarrow> length (f g) = k) \<Longrightarrow> length (concat (map f [0..<m])) = m * k"
  by (induction m) simp_all

lemma nth_concat_groups:
  assumes "\<And>g. g < m \<Longrightarrow> length (f g) = k" "g < m" "i < k"
  shows "concat (map f [0..<m]) ! (g * k + i) = f g ! i"
  using assms
proof (induction m)
  case (Suc m)
  have len: "length (concat (map f [0..<m])) = m * k"
    using Suc.prems(1) by (intro length_concat_groups) simp
  show ?case
  proof (cases "g = m")
    case True
    then show ?thesis
      using Suc.prems len by (simp add: nth_append)
  next
    case False
    then have g: "g < m" using Suc.prems(2) by simp
    then have "g * k + i < m * k"
      using Suc.prems(3) mult_le_mono1 [of "Suc g" m k] g by simp
    then show ?thesis
      using Suc.IH Suc.prems g len by (simp add: nth_append)
  qed
qed simp

text \<open>A bounded quantifier over eight positions (lanes, bits of a byte), spelt out.\<close>

lemma all_lt_8: "(\<forall>i < (8 :: nat). P i) \<longleftrightarrow> P 0 \<and> P 1 \<and> P 2 \<and> P 3 \<and> P 4 \<and> P 5 \<and> P 6 \<and> P 7"
proof -
  have "[0..<8] = [0, 1, 2, 3, 4, 5, 6, 7 :: nat]" by code_simp
  then have "set [0..<8] = {0, 1, 2, 3, 4, 5, 6, 7 :: nat}" by simp
  then have "{i. i < 8} = {0, 1, 2, 3, 4, 5, 6, 7 :: nat}"
    by (simp only: set_upt atLeast0LessThan lessThan_def)
  then have "(\<forall>i \<in> {i. i < 8}. P i) \<longleftrightarrow> (\<forall>i \<in> {0, 1, 2, 3, 4, 5, 6, 7}. P i)" by (rule arg_cong)
  then show ?thesis by simp
qed

end
