(* ===== verification/Net_Addr.thy ===== *)
theory Net_Addr
  imports Dns_Prelude
begin

text \<open>
  The address types of Rust's \<open>std::net\<close> that the program stores and sends: \<open>Ipv4Addr\<close> (four
  octets), \<open>Ipv6Addr\<close> (eight 16-bit segments, sixteen octets in network order), \<open>IpAddr\<close> and
  \<open>SocketAddr\<close>.
\<close>

datatype ipv4_addr = Ipv4Addr u8 u8 u8 u8

datatype ipv6_addr = Ipv6Addr u16 u16 u16 u16 u16 u16 u16 u16

datatype ip_addr = V4 ipv4_addr | V6 ipv6_addr

datatype socket_addr = SocketAddr ip_addr u16

fun v4_octets :: "ipv4_addr \<Rightarrow> bytes" where
  "v4_octets (Ipv4Addr a b c d) = [a, b, c, d]"

fun v6_segments :: "ipv6_addr \<Rightarrow> u16 list" where
  "v6_segments (Ipv6Addr a b c d e f g h) = [a, b, c, d, e, f, g, h]"

definition v6_octets :: "ipv6_addr \<Rightarrow> bytes" where
  "v6_octets ip = concat (map to_be_bytes (v6_segments ip))"

text \<open>\<open>Ipv4Addr::new\<close> on four bytes of a slice_at, and \<open>Ipv6Addr::from([u8; 16])\<close>.\<close>

definition v4_of_octets :: "bytes \<Rightarrow> ipv4_addr" where
  "v4_of_octets bs = Ipv4Addr (bs ! 0) (bs ! 1) (bs ! 2) (bs ! 3)"

definition v6_segment :: "bytes \<Rightarrow> nat \<Rightarrow> u16" where
  "v6_segment bs i = from_be_bytes (slice_at bs (2 * i) 2)"

definition v6_of_octets :: "bytes \<Rightarrow> ipv6_addr" where
  "v6_of_octets bs =
     Ipv6Addr (v6_segment bs 0) (v6_segment bs 1) (v6_segment bs 2) (v6_segment bs 3)
       (v6_segment bs 4) (v6_segment bs 5) (v6_segment bs 6) (v6_segment bs 7)"

definition v6_of_segments :: "u16 list \<Rightarrow> ipv6_addr" where
  "v6_of_segments s = Ipv6Addr (s ! 0) (s ! 1) (s ! 2) (s ! 3) (s ! 4) (s ! 5) (s ! 6) (s ! 7)"

lemma length_v4_octets [simp]: "length (v4_octets ip) = 4"
  by (cases ip) simp

lemma length_v6_segments [simp]: "length (v6_segments ip) = 8"
  by (cases ip) simp

lemma v6_of_segments_segments [simp]: "v6_of_segments (v6_segments ip) = ip"
  by (cases ip) (simp add: v6_of_segments_def)

lemma length_u16_be [simp]: "length (to_be_bytes (w :: u16)) = 2"
  by (simp add: length_to_be_bytes)

lemma length_v6_octets [simp]: "length (v6_octets ip) = 16"
  by (cases ip) (simp add: v6_octets_def)

lemma v4_of_octets_octets [simp]: "v4_of_octets (v4_octets ip) = ip"
  by (cases ip) (simp add: v4_of_octets_def)

lemma u16_from_be_to_be: "from_be_bytes (to_be_bytes (w :: u16)) = w"
  by (simp add: from_to_be_bytes)

lemma v6_of_octets_octets [simp]: "v6_of_octets (v6_octets ip) = ip"
  by (cases ip)
    (simp add: v6_of_octets_def v6_segment_def v6_octets_def slice_at_def u16_from_be_to_be)

end
