(* ===== verification/Rust_Text.thy ===== *)
theory Rust_Text
  imports Dns_Prelude
begin

text \<open>
  The parts of Rust's \<open>str\<close> and number formatting that the program uses: UTF-8 validity,
  \<open>trim\<close>, \<open>split_ascii_whitespace\<close>, \<open>rsplit\<close> and \<open>join\<close> on a separator,
  \<open>eq_ignore_ascii_case\<close>, decimal and hexadecimal numbers. A string is the list of its UTF-8 bytes.
\<close>

abbreviation code_of :: "char \<Rightarrow> nat" where
  "code_of c \<equiv> of_char c"


section \<open>UTF-8 validity\<close>

definition cont_byte :: "nat \<Rightarrow> bool" where
  "cont_byte n \<longleftrightarrow> 0x80 \<le> n \<and> n \<le> 0xBF"

definition utf8_pair :: "nat \<Rightarrow> nat \<Rightarrow> bool" where
  "utf8_pair a b \<longleftrightarrow> 0xC2 \<le> a \<and> a \<le> 0xDF \<and> cont_byte b"

definition utf8_triple :: "nat \<Rightarrow> nat \<Rightarrow> nat \<Rightarrow> bool" where
  "utf8_triple a b c \<longleftrightarrow>
     cont_byte c \<and>
     (a = 0xE0 \<and> 0xA0 \<le> b \<and> b \<le> 0xBF \<or>
      (0xE1 \<le> a \<and> a \<le> 0xEC \<or> 0xEE \<le> a \<and> a \<le> 0xEF) \<and> cont_byte b \<or>
      a = 0xED \<and> 0x80 \<le> b \<and> b \<le> 0x9F)"

definition utf8_quad :: "nat \<Rightarrow> nat \<Rightarrow> nat \<Rightarrow> nat \<Rightarrow> bool" where
  "utf8_quad a b c d \<longleftrightarrow>
     cont_byte c \<and> cont_byte d \<and>
     (a = 0xF0 \<and> 0x90 \<le> b \<and> b \<le> 0xBF \<or>
      0xF1 \<le> a \<and> a \<le> 0xF3 \<and> cont_byte b \<or>
      a = 0xF4 \<and> 0x80 \<le> b \<and> b \<le> 0x8F)"

text \<open>\<open>String::from_utf8\<close> succeeds exactly on these byte strings.\<close>

fun valid_utf8 :: "string \<Rightarrow> bool" where
  "valid_utf8 [] \<longleftrightarrow> True"
| "valid_utf8 (a # s) \<longleftrightarrow>
     (if code_of a < 0x80 then valid_utf8 s
      else case s of
        [] \<Rightarrow> False
      | b # s2 \<Rightarrow>
          if utf8_pair (code_of a) (code_of b) then valid_utf8 s2
          else (case s2 of
            [] \<Rightarrow> False
          | c # s3 \<Rightarrow>
              if utf8_triple (code_of a) (code_of b) (code_of c) then valid_utf8 s3
              else (case s3 of
                [] \<Rightarrow> False
              | d # s4 \<Rightarrow> utf8_quad (code_of a) (code_of b) (code_of c) (code_of d) \<and> valid_utf8 s4)))"

lemma valid_utf8_ascii: "\<forall>c \<in> set s. code_of c < 0x80 \<Longrightarrow> valid_utf8 s"
  by (induction s) auto

lemma valid_utf8_ascii_cons: "code_of a < 0x80 \<Longrightarrow> valid_utf8 (a # s) = valid_utf8 s"
  by simp


section \<open>Trimming Unicode white space\<close>

definition ws1 :: "nat \<Rightarrow> bool" where
  "ws1 a \<longleftrightarrow> 9 \<le> a \<and> a \<le> 13 \<or> a = 32"

definition ws2 :: "nat \<Rightarrow> nat \<Rightarrow> bool" where
  "ws2 a b \<longleftrightarrow> a = 0xC2 \<and> (b = 0x85 \<or> b = 0xA0)"

definition ws3 :: "nat \<Rightarrow> nat \<Rightarrow> nat \<Rightarrow> bool" where
  "ws3 a b c \<longleftrightarrow>
     a = 0xE1 \<and> b = 0x9A \<and> c = 0x80 \<or>
     a = 0xE2 \<and> b = 0x80 \<and> (0x80 \<le> c \<and> c \<le> 0x8A \<or> c = 0xA8 \<or> c = 0xA9 \<or> c = 0xAF) \<or>
     a = 0xE2 \<and> b = 0x81 \<and> c = 0x9F \<or>
     a = 0xE3 \<and> b = 0x80 \<and> c = 0x80"

fun trim_start :: "string \<Rightarrow> string" where
  "trim_start [] = []"
| "trim_start (a # s) =
     (if ws1 (code_of a) then trim_start s
      else case s of
        [] \<Rightarrow> a # s
      | b # s2 \<Rightarrow>
          if ws2 (code_of a) (code_of b) then trim_start s2
          else (case s2 of
            [] \<Rightarrow> a # s
          | c # s3 \<Rightarrow>
              if ws3 (code_of a) (code_of b) (code_of c) then trim_start s3 else a # s))"

text \<open>The same on the reversed string, so the last byte of a white-space character comes first.\<close>

fun trim_rev :: "string \<Rightarrow> string" where
  "trim_rev [] = []"
| "trim_rev (a # s) =
     (if ws1 (code_of a) then trim_rev s
      else case s of
        [] \<Rightarrow> a # s
      | b # s2 \<Rightarrow>
          if ws2 (code_of b) (code_of a) then trim_rev s2
          else (case s2 of
            [] \<Rightarrow> a # s
          | c # s3 \<Rightarrow>
              if ws3 (code_of c) (code_of b) (code_of a) then trim_rev s3 else a # s))"

definition trim :: "string \<Rightarrow> string" where
  "trim s = rev (trim_rev (rev (trim_start s)))"


section \<open>Splitting and joining\<close>

definition ascii_ws :: "char \<Rightarrow> bool" where
  "ascii_ws c \<longleftrightarrow> code_of c \<in> {9, 10, 12, 13, 32}"

fun split_ws_acc :: "string \<Rightarrow> string \<Rightarrow> string list" where
  "split_ws_acc acc [] = (if acc = [] then [] else [acc])"
| "split_ws_acc acc (c # s) =
     (if ascii_ws c then (if acc = [] then split_ws_acc [] s else acc # split_ws_acc [] s)
      else split_ws_acc (acc @ [c]) s)"

definition split_ascii_whitespace :: "string \<Rightarrow> string list" where
  "split_ascii_whitespace s = split_ws_acc [] s"

text \<open>\<open>str::split(sep)\<close> collects as many pieces as separators plus one; \<open>rsplit\<close> is its reverse.\<close>

fun split_on :: "char \<Rightarrow> string \<Rightarrow> string list" where
  "split_on sep [] = [[]]"
| "split_on sep (c # s) =
     (if c = sep then [] # split_on sep s
      else case split_on sep s of [] \<Rightarrow> [[c]] | p # ps \<Rightarrow> (c # p) # ps)"

fun join_with :: "string \<Rightarrow> string list \<Rightarrow> string" where
  "join_with sep [] = []"
| "join_with sep [p] = p"
| "join_with sep (p # q # ps) = p @ sep @ join_with sep (q # ps)"

lemma split_on_nonempty [simp]: "split_on sep s \<noteq> []"
  by (induction s) (auto split: list.splits)

lemma join_with_cons_head: "join_with sep ((c # p) # ps) = c # join_with sep (p # ps)"
  by (cases ps) simp_all

lemma join_with_cons_empty: "ps \<noteq> [] \<Longrightarrow> join_with sep ([] # ps) = sep @ join_with sep ps"
  by (cases ps) simp_all

lemma join_split [simp]: "join_with [sep] (split_on sep s) = s"
proof (induction s)
  case (Cons c s)
  then show ?case
    by (cases "split_on sep s") (simp_all add: join_with_cons_head join_with_cons_empty)
qed simp

lemma split_on_no_sep: "sep \<notin> set s \<Longrightarrow> split_on sep s = [s]"
  by (induction s) auto

lemma split_on_append_sep:
  "split_on sep (s @ sep # t) = split_on sep s @ split_on sep t"
proof (induction s)
  case (Cons c s)
  then show ?case
    by (cases "split_on sep s") auto
qed simp

lemma split_on_pieces: "p \<in> set (split_on sep s) \<Longrightarrow> sep \<notin> set p"
proof (induction s arbitrary: p)
  case (Cons c s)
  then show ?case
    by (cases "split_on sep s") (auto split: if_splits)
qed simp

lemma split_join:
  "ps \<noteq> [] \<Longrightarrow> \<forall>p \<in> set ps. sep \<notin> set p \<Longrightarrow> split_on sep (join_with [sep] ps) = ps"
proof (induction "[sep]" ps rule: join_with.induct)
  case (3 p q ps)
  then show ?case
    by (simp add: split_on_append_sep split_on_no_sep)
qed (simp_all add: split_on_no_sep)

lemma split_on_inject: "split_on sep s = split_on sep t \<longleftrightarrow> s = t"
  by (metis join_split)


section \<open>Numbers\<close>

definition digit_char :: "nat \<Rightarrow> char" where
  "digit_char d = (if d < 10 then char_of (48 + d) else char_of (87 + d))"

text \<open>\<open>char::to_digit(radix)\<close> for radix 10 and 16.\<close>

definition to_digit :: "nat \<Rightarrow> char \<Rightarrow> nat option" where
  "to_digit radix c =
     (let n = code_of c;
          d = (if 48 \<le> n \<and> n \<le> 57 then Some (n - 48)
               else if 97 \<le> n \<and> n \<le> 102 then Some (n - 87)
               else if 65 \<le> n \<and> n \<le> 70 then Some (n - 55)
               else None)
      in case d of Some k \<Rightarrow> if k < radix then Some k else None | None \<Rightarrow> None)"

definition is_ascii_digit :: "char \<Rightarrow> bool" where
  "is_ascii_digit c \<longleftrightarrow> 48 \<le> code_of c \<and> code_of c \<le> 57"

text \<open>\<open>{}\<close> and \<open>{:x}\<close> on unsigned integers.\<close>

fun show_radix :: "nat \<Rightarrow> nat \<Rightarrow> string" where
  "show_radix radix n =
     (if radix \<le> 1 \<or> n < radix then [digit_char n]
      else show_radix radix (n div radix) @ [digit_char (n mod radix)])"

declare show_radix.simps [simp del]

text \<open>A parser consumes a prefix of its input or fails, leaving the input as it was.\<close>

type_synonym 'a parser = "string \<Rightarrow> ('a \<times> string) option"

text \<open>
  \<open>Parser::read_number\<close> of \<open>std::net\<close>: all following digits, failing beyond \<open>max_digits\<close> or above
  \<open>limit\<close> (the checked arithmetic of the result type), and on a leading zero if not allowed.
\<close>

fun read_digits :: "nat \<Rightarrow> nat \<Rightarrow> nat \<Rightarrow> nat \<Rightarrow> nat \<Rightarrow> string \<Rightarrow> (nat \<times> nat \<times> string) option" where
  "read_digits radix limit max_digits acc count [] = Some (acc, count, [])"
| "read_digits radix limit max_digits acc count (c # s) =
     (case to_digit radix c of
        None \<Rightarrow> Some (acc, count, c # s)
      | Some d \<Rightarrow>
          if acc * radix + d > limit then None
          else if count + 1 > max_digits then None
          else read_digits radix limit max_digits (acc * radix + d) (count + 1) s)"

definition read_number :: "nat \<Rightarrow> nat \<Rightarrow> nat \<Rightarrow> bool \<Rightarrow> nat parser" where
  "read_number radix limit max_digits allow_zero_prefix s =
     (case read_digits radix limit max_digits 0 0 s of
        None \<Rightarrow> None
      | Some (n, count, rest) \<Rightarrow>
          if count = 0 then None
          else if \<not> allow_zero_prefix \<and> (case s of [] \<Rightarrow> False | c # _ \<Rightarrow> c = CHR ''0'') \<and> count > 1
          then None
          else Some (n, rest))"

fun read_char :: "char \<Rightarrow> unit parser" where
  "read_char c [] = None"
| "read_char c (x # s) = (if x = c then Some ((), s) else None)"

text \<open>\<open>Parser::read_separator\<close>: the separator first, except before item 0.\<close>

definition read_separator :: "char \<Rightarrow> nat \<Rightarrow> 'a parser \<Rightarrow> 'a parser" where
  "read_separator sep index p s =
     (if index > 0 then (case read_char sep s of None \<Rightarrow> None | Some (_, s') \<Rightarrow> p s') else p s)"

lemma code_digit_char:
  "d < 16 \<Longrightarrow> code_of (digit_char d) = (if d < 10 then 48 + d else 87 + d)"
  by (simp add: digit_char_def)

lemma to_digit_char: "d < radix \<Longrightarrow> radix \<le> 16 \<Longrightarrow> to_digit radix (digit_char d) = Some d"
  by (auto simp: to_digit_def code_digit_char Let_def)

end
