(* ===== verification/Ip_Text.thy ===== *)
theory Ip_Text
  imports Net_Addr Rust_Text
begin

text \<open>
  The text form of IP addresses, as Rust's \<open>std::net\<close> prints and parses it: \<open>Display\<close> and
  \<open>FromStr\<close> of \<open>Ipv4Addr\<close> and \<open>Ipv6Addr\<close>. Printing and parsing are inverse on every address.
\<close>

section \<open>Printing\<close>

fun show_v4 :: "ipv4_addr \<Rightarrow> string" where
  "show_v4 (Ipv4Addr a b c d) =
     join_with ''.'' (map (\<lambda>o'. show_radix 10 (unat o')) [a, b, c, d])"

definition fmt_subslice :: "u16 list \<Rightarrow> string" where
  "fmt_subslice chunk = join_with '':'' (map (\<lambda>seg. show_radix 16 (unat seg)) chunk)"

text \<open>The first longest run of zero segments, as (start, length); \<open>(cs, cl)\<close> is the current run.\<close>

fun longest_zeroes :: "nat \<Rightarrow> nat \<times> nat \<Rightarrow> nat \<times> nat \<Rightarrow> u16 list \<Rightarrow> nat \<times> nat" where
  "longest_zeroes i longest current [] = longest"
| "longest_zeroes i longest (cs, cl) (seg # segs) =
     (if seg = 0 then
        let current = (if cl = 0 then i else cs, cl + 1) in
        longest_zeroes (i + 1) (if snd current > snd longest then current else longest) current segs
      else longest_zeroes (i + 1) longest (0, 0) segs)"

definition to_ipv4_mapped :: "u16 list \<Rightarrow> ipv4_addr option" where
  "to_ipv4_mapped segs =
     (if take 6 segs = [0, 0, 0, 0, 0, 0xFFFF]
      then Some (v4_of_octets (to_be_bytes (segs ! 6) @ to_be_bytes (segs ! 7)))
      else None)"

definition show_v6 :: "ipv6_addr \<Rightarrow> string" where
  "show_v6 ip =
     (let segs = v6_segments ip in
      case to_ipv4_mapped segs of
        Some v4 \<Rightarrow> ''::ffff:'' @ show_v4 v4
      | None \<Rightarrow>
          let (start, len) = longest_zeroes 0 (0, 0) (0, 0) segs in
          if len > 1
          then fmt_subslice (take start segs) @ ''::'' @ fmt_subslice (drop (start + len) segs)
          else fmt_subslice segs)"


section \<open>Parsing\<close>

fun read_octets :: "nat \<Rightarrow> nat \<Rightarrow> nat list parser" where
  "read_octets i 0 s = Some ([], s)"
| "read_octets i (Suc n) s =
     (case read_separator (CHR ''.'') i (read_number 10 255 3 False) s of
        None \<Rightarrow> None
      | Some (v, s) \<Rightarrow>
          (case read_octets (i + 1) n s of None \<Rightarrow> None | Some (vs, s) \<Rightarrow> Some (v # vs, s)))"

definition read_ipv4_addr :: "ipv4_addr parser" where
  "read_ipv4_addr s =
     (case read_octets 0 4 s of
        None \<Rightarrow> None
      | Some (vs, s) \<Rightarrow> Some (v4_of_octets (map of_nat vs), s))"

definition parse_ipv4 :: "string \<Rightarrow> ipv4_addr option" where
  "parse_ipv4 s =
     (if length s > 15 then None
      else case read_ipv4_addr s of Some (ip, []) \<Rightarrow> Some ip | _ \<Rightarrow> None)"

text \<open>
  \<open>read_groups\<close>: the groups read, from index \<open>i\<close> and with \<open>n\<close> slots left, whether they end in an
  embedded IPv4 address, and the text that follows.
\<close>

fun read_groups :: "nat \<Rightarrow> nat \<Rightarrow> string \<Rightarrow> u16 list \<times> bool \<times> string" where
  "read_groups i 0 s = ([], False, s)"
| "read_groups i (Suc n) s =
     (case (if n > 0 then read_separator (CHR '':'') i read_ipv4_addr s else None) of
        Some (ip, s') \<Rightarrow>
          ([from_be_bytes (slice_at (v4_octets ip) 0 2), from_be_bytes (slice_at (v4_octets ip) 2 2)], True, s')
      | None \<Rightarrow>
          (case read_separator (CHR '':'') i (read_number 16 65535 4 True) s of
             None \<Rightarrow> ([], False, s)
           | Some (v, s') \<Rightarrow>
               (case read_groups (i + 1) n s' of (gs, v4, s'') \<Rightarrow> (of_nat v # gs, v4, s''))))"

definition read_ipv6_addr :: "ipv6_addr parser" where
  "read_ipv6_addr s =
     (let (head, head_ipv4, s) = read_groups 0 8 s in
      if length head = 8 then Some (v6_of_segments head, s)
      else if head_ipv4 then None
      else case read_char (CHR '':'') s of
        None \<Rightarrow> None
      | Some (_, s) \<Rightarrow>
          (case read_char (CHR '':'') s of
             None \<Rightarrow> None
           | Some (_, s) \<Rightarrow>
               let (tail, _, s) = read_groups 0 (8 - (length head + 1)) s in
               Some (v6_of_segments (head @ replicate (8 - length tail - length head) 0 @ tail), s)))"

definition parse_ipv6 :: "string \<Rightarrow> ipv6_addr option" where
  "parse_ipv6 s = (case read_ipv6_addr s of Some (ip, []) \<Rightarrow> Some ip | _ \<Rightarrow> None)"


section \<open>Numbers read back\<close>

lemma read_digits_append:
  assumes "read_digits radix limit k acc count s = Some (n, c, [])"
    and "rest = [] \<or> to_digit radix (hd rest) = None"
  shows "read_digits radix limit k acc count (s @ rest) = Some (n, c, rest)"
  using assms
proof (induction s arbitrary: acc count)
  case Nil
  then show ?case by (cases rest) auto
next
  case (Cons x s)
  then show ?case by (auto split: option.splits if_splits)
qed

lemma read_digits_rest:
  "read_digits radix limit k acc count s = Some (n, c, rest) \<Longrightarrow>
   rest = dropWhile (\<lambda>x. to_digit radix x \<noteq> None) s"
  by (induction s arbitrary: acc count) (auto split: option.splits if_splits)

lemma show_radix_step:
  "n < radix \<Longrightarrow> show_radix radix n = [digit_char n]"
  "1 < radix \<Longrightarrow> radix \<le> n \<Longrightarrow> show_radix radix n = show_radix radix (n div radix) @ [digit_char (n mod radix)]"
  by (subst show_radix.simps, simp)+

text \<open>
  A number of at most three decimal or four hexadecimal digits is a short concrete string of digit
  characters, so reading it back is a computation.
\<close>

lemma show_10_cases:
  assumes "n < 256"
  obtains (one) "n < 10" "show_radix 10 n = [digit_char n]"
  | (two) "10 \<le> n" "n < 100" "show_radix 10 n = [digit_char (n div 10), digit_char (n mod 10)]"
  | (three) "100 \<le> n"
      "show_radix 10 n = [digit_char (n div 100), digit_char (n div 10 mod 10), digit_char (n mod 10)]"
proof -
  consider "n < 10" | "10 \<le> n" "n < 100" | "100 \<le> n" by linarith
  then show thesis
  proof cases
    case 1
    then show ?thesis by (intro one) (simp_all add: show_radix_step)
  next
    case 2
    then show ?thesis by (intro two) (simp_all add: show_radix_step)
  next
    case 3
    moreover have "n div 10 div 10 = n div 100" "n div 100 < 10"
      using assms by (simp_all add: div_mult2_eq [symmetric])
    ultimately show ?thesis by (intro three) (simp_all add: show_radix_step)
  qed
qed

lemma show_16_cases:
  assumes "n < 65536"
  obtains (one) "n < 16" "show_radix 16 n = [digit_char n]"
  | (two) "16 \<le> n" "n < 256" "show_radix 16 n = [digit_char (n div 16), digit_char (n mod 16)]"
  | (three) "256 \<le> n" "n < 4096"
      "show_radix 16 n = [digit_char (n div 256), digit_char (n div 16 mod 16), digit_char (n mod 16)]"
  | (four) "4096 \<le> n"
      "show_radix 16 n = [digit_char (n div 4096), digit_char (n div 256 mod 16),
         digit_char (n div 16 mod 16), digit_char (n mod 16)]"
proof -
  have d: "n div 16 div 16 = n div 256" "n div 256 div 16 = n div 4096"
    by (simp_all add: div_mult2_eq [symmetric])
  consider "n < 16" | "16 \<le> n" "n < 256" | "256 \<le> n" "n < 4096" | "4096 \<le> n" by linarith
  then show thesis
  proof cases
    case 1
    then show ?thesis by (intro one) (simp_all add: show_radix_step)
  next
    case 2
    then show ?thesis by (intro two) (simp_all add: show_radix_step)
  next
    case 3
    then have "n div 256 < 16" by simp
    then show ?thesis using 3 d by (intro three) (simp_all add: show_radix_step)
  next
    case 4
    then have "n div 4096 < 16" using assms by simp
    then show ?thesis using 4 d by (intro four) (simp_all add: show_radix_step)
  qed
qed

lemma digit_char_zero: "d < 16 \<Longrightarrow> digit_char d = CHR ''0'' \<longleftrightarrow> d = 0"
  by (auto simp: code_digit_char dest!: arg_cong [of _ _ "of_char :: char \<Rightarrow> nat"] split: if_splits)
    (simp add: digit_char_def char_of_def bit_0)

lemma recombine_digit: "n div (k * r) * r + n div k mod r = n div (k :: nat)"
  by (simp add: div_mult2_eq)

lemma recombine_10: "(n div 100 * 10 + n div 10 mod 10) * 10 + n mod 10 = (n :: nat)"
  using recombine_digit [of n 10 10] by simp

lemma recombine_16:
  "(n div 256 * 16 + n div 16 mod 16) * 16 + n mod 16 = (n :: nat)"
  "((n div 4096 * 16 + n div 256 mod 16) * 16 + n div 16 mod 16) * 16 + n mod 16 = (n :: nat)"
  using recombine_digit [of n 16 16] recombine_digit [of n 256 16] by simp_all

lemma read_digits_show_10:
  assumes "n < 256"
  shows "read_digits 10 255 3 0 0 (show_radix 10 n) = Some (n, length (show_radix 10 n), [])"
  using assms
proof (cases n rule: show_10_cases)
  case three
  then show ?thesis
    using assms recombine_10 [of n] by (simp add: to_digit_char)
qed (simp_all add: to_digit_char)

lemma read_digits_show_16:
  assumes "n < 65536"
  shows "read_digits 16 65535 4 0 0 (show_radix 16 n) = Some (n, length (show_radix 16 n), [])"
  using assms
proof (cases n rule: show_16_cases)
  case three
  then show ?thesis
    using assms recombine_16 [of n] by (simp add: to_digit_char)
next
  case four
  have "n div 4096 < 16" using assms by simp
  with four show ?thesis
    using assms recombine_16 [of n] by (simp add: to_digit_char)
qed (simp_all add: to_digit_char)

lemma show_radix_nonempty [simp]: "show_radix radix n \<noteq> []"
  by (subst show_radix.simps) simp

lemma read_number_show_10:
  assumes "n < 256" "rest = [] \<or> to_digit 10 (hd rest) = None"
  shows "read_number 10 255 3 False (show_radix 10 n @ rest) = Some (n, rest)"
proof -
  have digits: "read_digits 10 255 3 0 0 (show_radix 10 n @ rest) = Some (n, length (show_radix 10 n), rest)"
    using read_digits_append [OF read_digits_show_10] assms by blast
  show ?thesis
    using assms(1)
  proof (cases n rule: show_10_cases)
    case two
    then show ?thesis using digits by (simp add: read_number_def digit_char_zero div_eq_0_iff)
  next
    case three
    then show ?thesis using digits assms(1) by (simp add: read_number_def digit_char_zero div_eq_0_iff)
  qed (use digits in \<open>simp add: read_number_def\<close>)
qed

lemma read_number_show_16:
  assumes "n < 65536" "rest = [] \<or> to_digit 16 (hd rest) = None"
  shows "read_number 16 65535 4 True (show_radix 16 n @ rest) = Some (n, rest)"
  using read_digits_append [OF read_digits_show_16] assms by (simp add: read_number_def)

lemma read_number_none:
  "s = [] \<or> to_digit radix (hd s) = None \<Longrightarrow> read_number radix limit k allow s = None"
  by (cases s) (auto simp: read_number_def)

lemma to_digit_separators [simp]:
  "to_digit radix (CHR ''.'') = None" "to_digit radix (CHR '':'') = None" "to_digit radix (CHR '']'') = None"
  by (simp_all add: to_digit_def)


section \<open>Dotted quads\<close>

lemma read_ipv4_show:
  assumes "rest = [] \<or> to_digit 10 (hd rest) = None"
  shows "read_ipv4_addr (show_v4 ip @ rest) = Some (ip, rest)"
proof (cases ip)
  case (Ipv4Addr a b c d)
  have lt: "unat w < 256" for w :: u8
    using unsigned_less [of w, where 'a = nat] by simp
  have num: "read_number 10 255 3 False (show_radix 10 (unat w) @ r) = Some (unat w, r)"
    if "r = [] \<or> to_digit 10 (hd r) = None" for w :: u8 and r
    using lt that by (rule read_number_show_10)
  have four: "read_octets 0 4 = read_octets 0 (Suc (Suc (Suc (Suc 0))))"
    by (simp add: eval_nat_numeral)
  show ?thesis
    unfolding Ipv4Addr read_ipv4_addr_def four
    using assms by (simp add: read_separator_def num v4_of_octets_def)
qed

lemma show_v4_length: "length (show_v4 ip) \<le> 15"
proof (cases ip)
  case (Ipv4Addr a b c d)
  have "length (show_radix 10 (unat w)) \<le> 3" for w :: u8
  proof -
    have "unat w < 256" using unsigned_less [of w, where 'a = nat] by simp
    then show ?thesis by (cases "unat w" rule: show_10_cases) simp_all
  qed
  note this [of a] this [of b] this [of c] this [of d]
  then show ?thesis
    by (simp add: Ipv4Addr)
qed

lemma parse_show_v4 [simp]: "parse_ipv4 (show_v4 ip) = Some ip"
  using read_ipv4_show [of "[]" ip] show_v4_length [of ip] by (simp add: parse_ipv4_def)


section \<open>Groups of an IPv6 address\<close>

lemma set_show_16:
  assumes "n < 65536" "x \<in> set (show_radix 16 n)"
  shows "to_digit 16 x \<noteq> None"
  using assms(1)
proof (cases n rule: show_16_cases)
  case four
  have "n div 4096 < 16" using assms(1) by simp
  with four show ?thesis using assms(2) by (auto simp: to_digit_char)
qed (use assms(2) in \<open>auto simp: to_digit_char\<close>)

lemma read_ipv4_Some_dot:
  assumes "read_ipv4_addr s = Some r"
  shows "\<exists>t. dropWhile (\<lambda>x. to_digit 10 x \<noteq> None) s = CHR ''.'' # t"
proof -
  have four: "read_octets 0 4 = read_octets 0 (Suc (Suc (Suc (Suc 0))))"
    by (simp add: eval_nat_numeral)
  obtain v s' where v: "read_number 10 255 3 False s = Some (v, s')"
    and dot: "read_octets 1 3 s' \<noteq> None"
    using assms unfolding read_ipv4_addr_def four
    by (auto simp: read_separator_def eval_nat_numeral split: option.splits prod.splits)
  have "s' = dropWhile (\<lambda>x. to_digit 10 x \<noteq> None) s"
    using v by (auto simp: read_number_def split: option.splits if_splits dest!: read_digits_rest)
  moreover have "\<exists>t. s' = CHR ''.'' # t"
    using dot by (cases s') (auto simp: read_separator_def numeral_3_eq_3 split: option.splits if_splits)
  ultimately show ?thesis by auto
qed

lemma read_ipv4_none:
  assumes "\<forall>x \<in> set hs. x \<noteq> CHR ''.''" "rest = [] \<or> hd rest = CHR '':'' \<or> hd rest = CHR '']''"
  shows "read_ipv4_addr (hs @ rest) = None"
proof (rule ccontr)
  assume "read_ipv4_addr (hs @ rest) \<noteq> None"
  then obtain t where t: "dropWhile (\<lambda>x. to_digit 10 x \<noteq> None) (hs @ rest) = CHR ''.'' # t"
    using read_ipv4_Some_dot by fastforce
  show False
    using assms t
  proof (induction hs)
    case Nil
    then show ?case by (cases rest) auto
  next
    case (Cons h hs)
    then show ?case by (auto split: if_splits)
  qed
qed

fun tail_text :: "u16 list \<Rightarrow> string" where
  "tail_text [] = []"
| "tail_text (g # gs) = CHR '':'' # show_radix 16 (unat g) @ tail_text gs"

lemma fmt_subslice_simps [simp]:
  "fmt_subslice [] = []"
  "fmt_subslice (g # gs) = show_radix 16 (unat g) @ tail_text gs"
proof -
  show "fmt_subslice (g # gs) = show_radix 16 (unat g) @ tail_text gs" for g gs
    by (induction gs arbitrary: g) (simp_all add: fmt_subslice_def)
qed (simp add: fmt_subslice_def)

text \<open>What can follow an address: nothing, or the bracket of a socket address.\<close>

definition at_end :: "string \<Rightarrow> bool" where
  "at_end rest \<longleftrightarrow> rest = [] \<or> hd rest = CHR '']''"

definition at_colon :: "string \<Rightarrow> bool" where
  "at_colon rest \<longleftrightarrow> at_end rest \<or> hd rest = CHR '':''"

definition at_gap :: "string \<Rightarrow> bool" where
  "at_gap rest \<longleftrightarrow> at_end rest \<or> (\<exists>t. rest = CHR '':'' # CHR '':'' # t)"

lemma at_end_imp: "at_end rest \<Longrightarrow> at_colon rest" "at_end rest \<Longrightarrow> at_gap rest"
  by (simp_all add: at_colon_def at_gap_def)

lemma at_colon_tail: "at_colon rest \<Longrightarrow> at_colon (tail_text gs @ rest)"
  by (cases gs) (auto simp: at_colon_def)

lemma unat_u16_lt: "unat (g :: u16) < 65536"
  using unsigned_less [of g, where 'a = nat] by simp

lemma read_group_item:
  assumes "at_colon rest"
  shows "read_ipv4_addr (show_radix 16 (unat (g :: u16)) @ rest) = None"
    and "read_number 16 65535 4 True (show_radix 16 (unat g) @ rest) = Some (unat g, rest)"
proof -
  have "x \<noteq> CHR ''.''" if "x \<in> set (show_radix 16 (unat g))" for x
    using set_show_16 [OF unat_u16_lt that] by auto
  then show "read_ipv4_addr (show_radix 16 (unat g) @ rest) = None"
    using assms by (intro read_ipv4_none) (auto simp: at_colon_def at_end_def)
  show "read_number 16 65535 4 True (show_radix 16 (unat g) @ rest) = Some (unat g, rest)"
    using assms by (intro read_number_show_16 unat_u16_lt) (auto simp: at_colon_def at_end_def)
qed

lemma read_groups_gap:
  assumes "at_gap rest"
  shows "read_groups (Suc i) n rest = ([], False, rest)" "read_groups 0 n rest = ([], False, rest)"
proof -
  have n: "read_ipv4_addr t = None" "read_number 16 65535 4 True t = None"
    if "t = [] \<or> hd t = CHR '':'' \<or> hd t = CHR '']''" for t
    using that read_ipv4_none [of "[]" t] by (auto intro: read_number_none)
  show "read_groups (Suc i) n rest = ([], False, rest)"
    using assms by (cases n; cases rest) (auto simp: at_gap_def at_end_def read_separator_def n)
  show "read_groups 0 n rest = ([], False, rest)"
    using assms n [of rest] by (cases n) (auto simp: at_gap_def at_end_def read_separator_def)
qed

lemma read_groups_tail:
  assumes "length gs \<le> n" "at_colon rest" "length gs = n \<or> at_gap rest"
  shows "read_groups (Suc i) n (tail_text gs @ rest) = (gs, False, rest)"
  using assms
proof (induction gs arbitrary: i n)
  case Nil
  then show ?case by (cases "n = 0") (auto simp del: read_groups.simps(2) simp: read_groups_gap)
next
  case (Cons g gs)
  then obtain m where n: "n = Suc m" by (cases n) auto
  then have IH: "read_groups (Suc (Suc i)) m (tail_text gs @ rest) = (gs, False, rest)"
    using Cons by auto
  show ?case
    using read_group_item [OF at_colon_tail [OF Cons.prems(2)], of g gs]
    using Cons.prems(1) by (auto simp: n read_separator_def IH)
qed

lemma read_groups_fmt:
  assumes "length gs \<le> n" "at_colon rest" "length gs = n \<or> at_gap rest"
  shows "read_groups 0 n (fmt_subslice gs @ rest) = (gs, False, rest)"
proof (cases gs)
  case Nil
  then show ?thesis
    using assms by (cases "n = 0") (auto simp del: read_groups.simps(2) simp: read_groups_gap)
next
  case (Cons g gs')
  then obtain m where n: "n = Suc m" using assms by (cases n) auto
  then have IH: "read_groups (Suc 0) m (tail_text gs' @ rest) = (gs', False, rest)"
    using assms Cons by (intro read_groups_tail) auto
  show ?thesis
    using read_group_item [OF at_colon_tail [OF assms(2)], of g gs']
    using assms(1) by (auto simp: n Cons read_separator_def IH)
qed


section \<open>IPv6 addresses read back\<close>

definition zero_run :: "u16 list \<Rightarrow> nat \<times> nat \<Rightarrow> bool" where
  "zero_run w r \<longleftrightarrow> (\<forall>j. fst r \<le> j \<and> j < fst r + snd r \<longrightarrow> w ! j = 0)"

lemma longest_zeroes_run:
  assumes "drop i w = suffix" "i + length suffix = length w"
    and "zero_run w longest" "fst longest + snd longest \<le> i"
    and "zero_run w (cs, cl)" "cl \<noteq> 0 \<longrightarrow> cs + cl = i"
  shows "zero_run w (longest_zeroes i longest (cs, cl) suffix) \<and>
    fst (longest_zeroes i longest (cs, cl) suffix) + snd (longest_zeroes i longest (cs, cl) suffix) \<le> length w"
  using assms
proof (induction suffix arbitrary: i longest cs cl)
  case Nil
  then show ?case by auto
next
  case (Cons seg segs)
  have seg: "w ! i = seg"
    using Cons.prems(1,2) by (metis Cons_nth_drop_Suc drop_eq_Nil2 linorder_not_le list.distinct(1) list.inject)
  have next': "drop (Suc i) w = segs" "Suc i + length segs = length w"
    using Cons.prems(1,2) by (auto simp: drop_Suc drop_tl)
  let ?c = "(if cl = 0 then i else cs, cl + 1)"
  show ?case
  proof (cases "seg = 0")
    case True
    have run: "zero_run w ?c" "fst ?c + snd ?c = Suc i"
      using Cons.prems(5,6) True seg by (auto simp: zero_run_def less_Suc_eq)
    then show ?thesis
      using Cons.IH [OF next', of "if snd ?c > snd longest then ?c else longest" "fst ?c" "snd ?c"]
        Cons.prems(3,4) True by (auto simp: Let_def split: if_splits)
  next
    case False
    then show ?thesis
      using Cons.IH [OF next', of longest 0 0] Cons.prems(3,4) by (auto simp: zero_run_def)
  qed
qed

lemma zero_run_split:
  assumes "zero_run w (start, len)" "start + len \<le> length w"
  shows "take start w @ replicate len 0 @ drop (start + len) w = w"
proof -
  have "take len (drop start w) = replicate len 0"
    using assms by (intro nth_equalityI) (auto simp: zero_run_def)
  then have "replicate len 0 @ drop (start + len) w = drop start w"
    by (metis add.commute append_take_drop_id drop_drop)
  then show ?thesis by simp
qed

lemma read_ipv6_gap:
  assumes "length a + length b < 8" "at_end rest"
  shows "read_ipv6_addr (fmt_subslice a @ ''::'' @ fmt_subslice b @ rest) =
    Some (v6_of_segments (a @ replicate (8 - length b - length a) 0 @ b), rest)"
proof -
  have a: "read_groups 0 8 (fmt_subslice a @ ''::'' @ fmt_subslice b @ rest) = (a, False, ''::'' @ fmt_subslice b @ rest)"
    using assms by (intro read_groups_fmt) (auto simp: at_colon_def at_gap_def)
  have b: "read_groups 0 (8 - (length a + 1)) (fmt_subslice b @ rest) = (b, False, rest)"
    using assms read_groups_fmt [of b "8 - (length a + 1)" rest] by (auto simp: at_end_imp)
  show ?thesis
    using assms b by (simp add: read_ipv6_addr_def a [simplified])
qed

lemma read_show_v6_compressed:
  assumes "to_ipv4_mapped (v6_segments ip) = None" "at_end rest"
  shows "read_ipv6_addr (show_v6 ip @ rest) = Some (ip, rest)"
proof -
  let ?w = "v6_segments ip"
  obtain start len where z: "longest_zeroes 0 (0, 0) (0, 0) ?w = (start, len)"
    by (cases "longest_zeroes 0 (0, 0) (0, 0) ?w")
  have run: "zero_run ?w (start, len)" "start + len \<le> 8"
    using longest_zeroes_run [of 0 ?w ?w "(0, 0)" 0 0] z by (auto simp: zero_run_def)
  show ?thesis
  proof (cases "len > 1")
    case True
    have "8 - length (drop (start + len) ?w) - length (take start ?w) = len"
      using run(2) by simp
    then have "read_ipv6_addr (show_v6 ip @ rest) =
        Some (v6_of_segments (take start ?w @ replicate len 0 @ drop (start + len) ?w), rest)"
      using True run(2) read_ipv6_gap [of "take start ?w" "drop (start + len) ?w" rest]
      by (simp add: show_v6_def assms z Let_def)
    then show ?thesis
      using zero_run_split [OF run(1)] run(2) by simp
  next
    case False
    have "read_groups 0 8 (fmt_subslice ?w @ rest) = (?w, False, rest)"
      using read_groups_fmt [of ?w 8 rest] by (simp add: at_end_imp assms(2))
    then show ?thesis
      using False by (simp add: show_v6_def assms z read_ipv6_addr_def Let_def)
  qed
qed

lemma read_show_v6_mapped:
  assumes "to_ipv4_mapped (v6_segments ip) = Some v4" "at_end rest"
  shows "read_ipv6_addr (show_v6 ip @ rest) = Some (ip, rest)"
proof -
  obtain h l where segs: "v6_segments ip = [0, 0, 0, 0, 0, 0xFFFF, h, l]"
    and v4: "v4 = v4_of_octets (to_be_bytes h @ to_be_bytes l)"
    using assms by (cases ip) (auto simp: to_ipv4_mapped_def split: if_splits)
  have "v4_octets v4 = to_be_bytes h @ to_be_bytes l"
    unfolding v4 v4_of_octets_def
    by (auto simp: to_be_bytes_def to_le_bytes_def upt_rec)
  then have parts: "from_be_bytes (slice_at (v4_octets v4) 0 2) = h"
    "from_be_bytes (slice_at (v4_octets v4) 2 2) = l"
    by (simp_all add: slice_at_def u16_from_be_to_be)
  have gap: "read_groups 0 8 (''::ffff:'' @ show_v4 v4 @ rest) = ([], False, ''::ffff:'' @ show_v4 v4 @ rest)"
    by (rule read_groups_gap) (simp add: at_gap_def)
  have ffff: "show_radix 16 65535 = ''ffff''"
    by (simp add: show_radix_step digit_char_def char_of_def bit_simps)
  have g: "read_groups 0 7 (''ffff:'' @ show_v4 v4 @ rest) = ([0xFFFF, h, l], True, rest)"
  proof -
    have "read_ipv4_addr (''ffff'' @ CHR '':'' # show_v4 v4 @ rest) = None"
      "read_number 16 65535 4 True (''ffff'' @ CHR '':'' # show_v4 v4 @ rest) = Some (65535, CHR '':'' # show_v4 v4 @ rest)"
      using read_group_item [where g = "0xFFFF" and rest = "CHR '':'' # show_v4 v4 @ rest"] by (simp_all add: ffff at_colon_def)
    then have "read_groups 0 (Suc (Suc n)) (''ffff:'' @ show_v4 v4 @ rest) = ([0xFFFF, h, l], True, rest)" if "n > 0" for n
      using that read_ipv4_show [where rest = rest and ip = v4] assms(2) parts by (auto simp: read_separator_def at_end_def)
    from this [of 5] show ?thesis by simp
  qed
  have "read_ipv6_addr (show_v6 ip @ rest) = Some (v6_of_segments (v6_segments ip), rest)"
  proof -
    have "show_v6 ip = ''::ffff:'' @ show_v4 v4" "replicate 5 (0 :: u16) = [0, 0, 0, 0, 0]"
      by (simp add: show_v6_def assms Let_def) (simp add: eval_nat_numeral)
    then show ?thesis
      using gap g by (simp add: read_ipv6_addr_def segs)
  qed
  then show ?thesis by simp
qed

lemma read_show_v6: "at_end rest \<Longrightarrow> read_ipv6_addr (show_v6 ip @ rest) = Some (ip, rest)"
  using read_show_v6_compressed read_show_v6_mapped by (cases "to_ipv4_mapped (v6_segments ip)") auto

lemma parse_show_v6 [simp]: "parse_ipv6 (show_v6 ip) = Some ip"
  using read_show_v6 [of "[]" ip] by (simp add: parse_ipv6_def at_end_def)

section \<open>Addresses survive printing\<close>

text \<open>
  Every IPv4 and every IPv6 address is parsed back from its printed form, including the compressed
  longest run of zero segments and the embedded form of IPv4-mapped addresses.
\<close>

theorem ip_text_roundtrip:
  "parse_ipv4 (show_v4 ip4) = Some ip4 \<and> parse_ipv6 (show_v6 ip6) = Some ip6"
  by simp

end
