(* ===== verification/Pir_Shape.thy ===== *)
theory Pir_Shape
  imports Dns_Prelude
begin

text \<open>
  The layout arithmetic of the PIR engine: \<open>IndexGroup\<close> and the ring constants of
  \<open>crates/pir/src/base_pir.rs\<close>, and the rule of \<open>crates/pir/src/pir_wrapper.rs\<close> that derives the
  shape of a database (\<open>get_database_shape\<close>, \<open>choose_index_group_secondary\<close>, \<open>num_databases\<close>)
  from its entry count. \<open>usize\<close> is a natural number: every value here is at most
  \<open>N\<^sup>2 = 2\<^sup>2\<^sup>2\<close> once the assertions have passed. The third-party function
  \<open>StaticRing::<i64>::RING.abs_log2_ceil\<close> is the parameter \<open>lg\<close>.
\<close>

section \<open>Constants\<close>

definition SIMD_COUNT :: nat where "SIMD_COUNT = 8"
definition LOG2_N :: nat where "LOG2_N = 11"
definition GK_DIGITS :: nat where "GK_DIGITS = 2"
definition RING_N :: nat where "RING_N = 2 ^ LOG2_N"

definition HALF_SIZE_PRIMARY_MAX_ENTRIES :: nat where
  "HALF_SIZE_PRIMARY_MAX_ENTRIES = 2 ^ LOG2_N * 2 ^ LOG2_N div 16"

lemma RING_N_eq: "RING_N = 2048"
  by (simp add: RING_N_def LOG2_N_def)

lemma HALF_SIZE_eq: "HALF_SIZE_PRIMARY_MAX_ENTRIES = 262144"
  by (simp add: HALF_SIZE_PRIMARY_MAX_ENTRIES_def LOG2_N_def)

lemmas pir_consts = SIMD_COUNT_def LOG2_N_def GK_DIGITS_def RING_N_eq HALF_SIZE_eq


section \<open>Index groups\<close>

record index_group =
  ig_N :: nat
  ig_l :: nat

definition full_group :: "nat \<Rightarrow> index_group" where
  "full_group N = \<lparr>ig_N = N, ig_l = N\<rparr>"

definition subgroup_of_size :: "nat \<Rightarrow> nat \<Rightarrow> ('e, index_group) outcome" where
  "subgroup_of_size N sz =
     (if sz = 0 then Panic
      else if \<not> N mod sz = 0 then Panic
      else if \<not> sz * 2 \<le> N then Panic
      else Ok \<lparr>ig_N = N, ig_l = sz\<rparr>)"

definition group_order :: "index_group \<Rightarrow> nat" where
  "group_order g = ig_l g"

definition loop_len :: "index_group \<Rightarrow> nat" where
  "loop_len g = (if ig_l g < ig_N g then ig_l g else ig_N g div 2)"

definition query_base_power :: "index_group \<Rightarrow> nat" where
  "query_base_power g = ig_N g div 2 div loop_len g"

definition requires_conj :: "index_group \<Rightarrow> bool" where
  "requires_conj g \<longleftrightarrow> ig_l g = ig_N g"

definition required_memory_general :: "index_group \<Rightarrow> nat \<Rightarrow> nat" where
  "required_memory_general g N = (GK_DIGITS + 1) * 2 * N * group_order g"

lemmas index_group_defs =
  full_group_def group_order_def loop_len_def query_base_power_def requires_conj_def


section \<open>The shape of a database\<close>

text \<open>\<open>usize::div_ceil\<close>\<close>

definition div_ceil :: "nat \<Rightarrow> nat \<Rightarrow> nat" where
  "div_ceil a b = (if a mod b = 0 then a div b else a div b + 1)"

definition choose_index_group_secondary ::
    "(int \<Rightarrow> nat option) \<Rightarrow> nat \<Rightarrow> ('e, index_group) outcome" where
  "choose_index_group_secondary lg num_shards =
     (let N = RING_N in
      if \<not> num_shards \<le> N div SIMD_COUNT then Panic
      else let log2_l = (case lg (int num_shards) of Some k \<Rightarrow> k | None \<Rightarrow> 0) in
        if SIMD_COUNT * 2 ^ log2_l = N then Ok (full_group N)
        else subgroup_of_size N (SIMD_COUNT * 2 ^ log2_l))"

definition get_database_shape ::
    "(int \<Rightarrow> nat option) \<Rightarrow> nat \<Rightarrow> ('e, index_group \<times> index_group) outcome" where
  "get_database_shape lg num_entries =
     (let N = RING_N in
      if \<not> num_entries \<ge> 1 then Panic
      else if \<not> num_entries \<le> N * N then Panic
      else bind_outcome
        (if num_entries \<le> HALF_SIZE_PRIMARY_MAX_ENTRIES then subgroup_of_size N (N div 2)
         else Ok (full_group N))
        (\<lambda>primary.
          let num_shards = div_ceil num_entries (SIMD_COUNT * group_order primary) in
          bind_outcome (choose_index_group_secondary lg num_shards)
            (\<lambda>secondary. Ok (primary, secondary))))"

definition num_databases :: "(int \<Rightarrow> nat option) \<Rightarrow> nat \<Rightarrow> ('e, nat) outcome" where
  "num_databases lg num_entries =
     bind_outcome (get_database_shape lg num_entries)
       (\<lambda>(primary, _). Ok (div_ceil num_entries (SIMD_COUNT * group_order primary)))"

text \<open>
  What the code relies on of \<open>abs_log2_ceil\<close>: \<open>None\<close> at zero, and the least exponent whose power
  of two reaches the absolute value otherwise.
\<close>

definition abs_log2_ceil_spec :: "(int \<Rightarrow> nat option) \<Rightarrow> bool" where
  "abs_log2_ceil_spec lg \<longleftrightarrow>
     lg 0 = None \<and>
     (\<forall>n. n \<noteq> 0 \<longrightarrow> (\<exists>k. lg n = Some k \<and> \<bar>n\<bar> \<le> 2 ^ k \<and> (k = 0 \<or> 2 ^ (k - 1) < \<bar>n\<bar>)))"

text \<open>A concrete function with that behaviour, for the witnesses.\<close>

function log2_ceil_from :: "nat \<Rightarrow> nat \<Rightarrow> nat" where
  "log2_ceil_from k n = (if n \<le> 2 ^ k then k else log2_ceil_from (Suc k) n)"
  by pat_completeness auto
termination
  by (relation "measure (\<lambda>(k, n). n - k)")
    (auto simp: not_le intro!: diff_less_mono2 intro: less_trans [OF less_exp])

declare log2_ceil_from.simps [simp del]

definition abs_log2_ceil_ref :: "int \<Rightarrow> nat option" where
  "abs_log2_ceil_ref n = (if n = 0 then None else Some (log2_ceil_from 0 (nat \<bar>n\<bar>)))"

lemma log2_ceil_from_spec:
  "k = 0 \<or> 2 ^ (k - 1) < n \<Longrightarrow>
   n \<le> 2 ^ log2_ceil_from k n \<and> (log2_ceil_from k n = 0 \<or> 2 ^ (log2_ceil_from k n - 1) < n)"
proof (induction k n rule: log2_ceil_from.induct)
  case (1 k n)
  then show ?case
    by (cases "n \<le> 2 ^ k") (simp_all add: log2_ceil_from.simps [of k n])
qed

lemma abs_log2_ceil_ref_spec: "abs_log2_ceil_spec abs_log2_ceil_ref"
proof -
  have "\<bar>n\<bar> \<le> 2 ^ log2_ceil_from 0 (nat \<bar>n\<bar>) \<and>
      (log2_ceil_from 0 (nat \<bar>n\<bar>) = 0 \<or> 2 ^ (log2_ceil_from 0 (nat \<bar>n\<bar>) - 1) < \<bar>n\<bar>)" for n :: int
    using log2_ceil_from_spec [of 0 "nat \<bar>n\<bar>"] by (simp add: nat_le_iff zless_nat_eq_int_zless)
  then show ?thesis
    by (simp add: abs_log2_ceil_spec_def abs_log2_ceil_ref_def)
qed


section \<open>Facts\<close>

lemma div_ceil_split:
  assumes "0 < b"
  obtains q r where "a = q * b + r" "r < b" "div_ceil a b = (if r = 0 then q else Suc q)"
  using that [of "a div b" "a mod b"] assms by (simp add: div_ceil_def)

lemma div_ceil_ge: "0 < b \<Longrightarrow> a \<le> div_ceil a b * b"
  by (rule div_ceil_split [of b a]) auto

lemma div_ceil_least: "0 < a \<Longrightarrow> 0 < b \<Longrightarrow> (div_ceil a b - 1) * b < a"
  by (rule div_ceil_split [of b a]) (auto simp: diff_mult_distrib)

lemma div_ceil_pos: "0 < a \<Longrightarrow> 0 < b \<Longrightarrow> 0 < div_ceil a b"
  by (rule div_ceil_split [of b a]) (auto split: if_splits)

lemma div_ceil_mono_bound:
  assumes b: "0 < b" and a: "a \<le> m * b"
  shows "div_ceil a b \<le> m"
proof -
  obtain q r where qr: "a = q * b + r" "div_ceil a b = (if r = 0 then q else Suc q)"
    using div_ceil_split [OF b] by metis
  have "r = 0 \<Longrightarrow> q * b \<le> m * b" and "r \<noteq> 0 \<Longrightarrow> q * b < m * b"
    using a qr(1) by linarith+
  then show ?thesis
    using b qr(2) by (auto simp: Suc_le_eq)
qed

lemma less_div_ceil: "0 < b \<Longrightarrow> s < a \<Longrightarrow> s div b < div_ceil a b"
proof -
  assume b: "0 < b" and s: "s < a"
  have "s div b * b < div_ceil a b * b"
    using div_ceil_ge [OF b, of a] s by (metis le_less_trans less_le_trans div_times_less_eq_dividend)
  then show ?thesis by simp
qed

lemma pow2_le_256: "2 ^ (k - 1) < (256 :: nat) \<Longrightarrow> k \<le> 8"
proof (rule ccontr)
  assume "2 ^ (k - 1) < (256 :: nat)" "\<not> k \<le> 8"
  then have "2 ^ 8 \<le> (2 :: nat) ^ (k - 1)"
    by (intro power_increasing) auto
  then show False using \<open>2 ^ (k - 1) < (256 :: nat)\<close> by simp
qed

text \<open>The secondary group of a fleet: it exists, holds every shard, and is full exactly above 128 shards.\<close>

definition secondary_group :: "(int \<Rightarrow> nat option) \<Rightarrow> nat \<Rightarrow> index_group" where
  "secondary_group lg s =
     (let k = the (lg (int s)) in
      if k = 8 then full_group RING_N else \<lparr>ig_N = RING_N, ig_l = 8 * 2 ^ k\<rparr>)"

lemma log2_ceil_cases:
  assumes "abs_log2_ceil_spec lg" "1 \<le> s" "s \<le> 256"
  obtains k where "lg (int s) = Some k" "s \<le> 2 ^ k" "k = 0 \<or> 2 ^ (k - 1) < s" "k \<le> 8"
proof -
  have "int s \<noteq> 0" using assms(2) by simp
  then obtain k where k: "lg (int s) = Some k" "\<bar>int s\<bar> \<le> 2 ^ k" "k = 0 \<or> 2 ^ (k - 1) < \<bar>int s\<bar>"
    using assms(1) unfolding abs_log2_ceil_spec_def by blast
  have up: "s \<le> 2 ^ k"
    using k(2) by (simp flip: of_nat_le_of_nat_power_cancel_iff [where 'a = int])
  have lo: "k = 0 \<or> 2 ^ (k - 1) < s"
    using k(3) by (simp flip: of_nat_power_less_of_nat_cancel_iff [where 'a = int])
  have "k \<le> 8"
    using lo assms(3) by (auto intro!: pow2_le_256)
  with k(1) up lo that show thesis by blast
qed

lemma choose_secondary_ok:
  assumes "abs_log2_ceil_spec lg" "1 \<le> s" "s \<le> 256"
  shows "choose_index_group_secondary lg s = Ok (secondary_group lg s)"
    and "ig_N (secondary_group lg s) = RING_N"
    and "s * SIMD_COUNT \<le> group_order (secondary_group lg s)"
    and "requires_conj (secondary_group lg s) \<longleftrightarrow> 128 < s"
proof -
  obtain k where k: "lg (int s) = Some k" "s \<le> 2 ^ k" "k = 0 \<or> 2 ^ (k - 1) < s" "k \<le> 8"
    using log2_ceil_cases [OF assms] .
  then have cases: "k \<in> {0, 1, 2, 3, 4, 5, 6, 7, 8}"
    by auto
  note defs = choose_index_group_secondary_def secondary_group_def subgroup_of_size_def
    index_group_defs pir_consts
  show "choose_index_group_secondary lg s = Ok (secondary_group lg s)"
    using cases k(1) assms(3) by (auto simp: defs)
  show "ig_N (secondary_group lg s) = RING_N"
    using k(1) by (simp add: defs)
  show "s * SIMD_COUNT \<le> group_order (secondary_group lg s)"
    using cases k(1,2) by (auto simp: defs)
  show "requires_conj (secondary_group lg s) \<longleftrightarrow> 128 < s"
    using cases k(1,2,3) by (auto simp: defs)
qed

definition primary_group :: "nat \<Rightarrow> index_group" where
  "primary_group n =
     (if n \<le> HALF_SIZE_PRIMARY_MAX_ENTRIES then \<lparr>ig_N = RING_N, ig_l = RING_N div 2\<rparr>
      else full_group RING_N)"

lemma primary_group_facts:
  "ig_N (primary_group n) = RING_N" "0 < group_order (primary_group n)"
  "group_order (primary_group n) \<le> RING_N"
  "requires_conj (primary_group n) \<longleftrightarrow> HALF_SIZE_PRIMARY_MAX_ENTRIES < n"
  by (auto simp: primary_group_def index_group_defs pir_consts)

lemma num_shards_bounds:
  assumes "1 \<le> n" "n \<le> RING_N * RING_N"
  shows "1 \<le> div_ceil n (SIMD_COUNT * group_order (primary_group n))"
    and "div_ceil n (SIMD_COUNT * group_order (primary_group n)) \<le> 256"
proof -
  show "1 \<le> div_ceil n (SIMD_COUNT * group_order (primary_group n))"
    using assms div_ceil_pos [of n "SIMD_COUNT * group_order (primary_group n)"] primary_group_facts(2) [of n]
    by (simp add: pir_consts Suc_le_eq)
  show "div_ceil n (SIMD_COUNT * group_order (primary_group n)) \<le> 256"
    using assms by (intro div_ceil_mono_bound) (auto simp: primary_group_def index_group_defs pir_consts)
qed

definition shard_count :: "nat \<Rightarrow> nat" where
  "shard_count n = div_ceil n (SIMD_COUNT * group_order (primary_group n))"

lemma shard_count_bounds:
  assumes "1 \<le> n" "n \<le> RING_N * RING_N"
  shows "1 \<le> shard_count n" and "shard_count n \<le> 256"
  using num_shards_bounds [OF assms] by (simp_all add: shard_count_def)

lemma get_database_shape_ok:
  assumes "abs_log2_ceil_spec lg" "1 \<le> n" "n \<le> RING_N * RING_N"
  shows "get_database_shape lg n = Ok (primary_group n, secondary_group lg (shard_count n))"
proof -
  have "(if n \<le> HALF_SIZE_PRIMARY_MAX_ENTRIES then subgroup_of_size RING_N (RING_N div 2)
      else Ok (full_group RING_N)) = Ok (primary_group n)"
    by (auto simp: primary_group_def subgroup_of_size_def pir_consts)
  then show ?thesis
    using assms choose_secondary_ok(1) [OF assms(1) shard_count_bounds [OF assms(2,3)]]
    by (simp add: get_database_shape_def Let_def shard_count_def)
qed

lemma get_database_shape_panics:
  "n = 0 \<or> RING_N * RING_N < n \<Longrightarrow> get_database_shape lg n = Panic"
  by (auto simp: get_database_shape_def Let_def)

lemma num_databases_ok:
  assumes "abs_log2_ceil_spec lg" "1 \<le> n" "n \<le> RING_N * RING_N"
  shows "num_databases lg n = Ok (shard_count n)"
  by (simp add: num_databases_def get_database_shape_ok [OF assms] shard_count_def)

end
