(* ===== verification/Bucket.thy ===== *)
theory Bucket
  imports Net_Addr Pir_Shape
begin

text \<open>
  \<open>crates/dns-over-pir/src/dns/bucket.rs\<close>: the hash functions that map a canonical name to a slot
  and a 14-bit discriminator, the byte layout of one bucket (salt header, entry count, entries), and
  the packing of bucket bytes into 10-bit plaintext coefficients. A \<open>[u8; BUCKET_BYTES]\<close> is a byte
  list of length \<open>BUCKET_BYTES\<close>; \<open>debug_assert!\<close> is compiled out, as in a release build.
\<close>

section \<open>Constants\<close>

definition COEFF_BITS :: nat where "COEFF_BITS = 10"
definition COEFFS_PER_GROUP :: nat where "COEFFS_PER_GROUP = 4"
definition COEFFS_PER_GROUP_BYTES :: nat where "COEFFS_PER_GROUP_BYTES = 5"

definition BUCKET_BYTES :: nat where
  "BUCKET_BYTES = RING_N div COEFFS_PER_GROUP * COEFFS_PER_GROUP_BYTES"

definition KIND_A :: u8 where "KIND_A = 0"
definition KIND_AAAA :: u8 where "KIND_AAAA = 1"
definition KIND_NS4 :: u8 where "KIND_NS4 = 2"
definition KIND_NS6 :: u8 where "KIND_NS6 = 3"

definition DISC_BITS :: nat where "DISC_BITS = 14"
definition DISC_MASK :: u16 where "DISC_MASK = push_bit DISC_BITS 1 - 1"

definition MAX_ENTRIES_PER_BUCKET :: nat where "MAX_ENTRIES_PER_BUCKET = 65535"
definition BUCKET_SALT_BYTES :: nat where "BUCKET_SALT_BYTES = 4"
definition COUNT_BYTES :: nat where "COUNT_BYTES = 2"
definition COUNT_OFFSET :: nat where "COUNT_OFFSET = BUCKET_SALT_BYTES"
definition FIRST_ENTRY_OFFSET :: nat where "FIRST_ENTRY_OFFSET = BUCKET_SALT_BYTES + COUNT_BYTES"

lemma BUCKET_BYTES_eq: "BUCKET_BYTES = 2560"
  by (simp add: BUCKET_BYTES_def RING_N_eq COEFFS_PER_GROUP_def COEFFS_PER_GROUP_BYTES_def)

lemma DISC_MASK_eq: "DISC_MASK = mask 14"
  by (simp add: DISC_MASK_def DISC_BITS_def mask_eq_exp_minus_1)

lemma FIRST_ENTRY_OFFSET_eq: "FIRST_ENTRY_OFFSET = 6"
  by (simp add: FIRST_ENTRY_OFFSET_def BUCKET_SALT_BYTES_def COUNT_BYTES_def)

lemmas bucket_consts =
  BUCKET_BYTES_eq FIRST_ENTRY_OFFSET_eq COUNT_OFFSET_def BUCKET_SALT_BYTES_def COUNT_BYTES_def
  MAX_ENTRIES_PER_BUCKET_def

lemmas kind_consts = KIND_A_def KIND_AAAA_def KIND_NS4_def KIND_NS6_def


section \<open>Names, hashing and slots\<close>

datatype dns_record = Rec_A ipv4_addr | Rec_Aaaa ipv6_addr | Rec_Ns ip_addr

text \<open>\<open>str::to_ascii_lowercase\<close> and \<open>str::trim_end_matches\<close>\<close>

definition to_ascii_lower_char :: "char \<Rightarrow> char" where
  "to_ascii_lower_char c =
     (let n = (of_char c :: nat) in if 65 \<le> n \<and> n \<le> 90 then char_of (n + 32) else c)"

definition to_ascii_lowercase :: "string \<Rightarrow> string" where
  "to_ascii_lowercase s = map to_ascii_lower_char s"

definition trim_end_matches :: "char \<Rightarrow> string \<Rightarrow> string" where
  "trim_end_matches c s = rev (dropWhile (\<lambda>x. x = c) (rev s))"

definition canonical :: "string \<Rightarrow> string" where
  "canonical name = to_ascii_lowercase (trim_end_matches (CHR ''.'') name)"

fun mix64_absorb :: "u64 \<Rightarrow> bytes \<Rightarrow> u64" where
  "mix64_absorb h [] = h"
| "mix64_absorb h (b # bs) =
     (let h = h + ucast b;
          h = h * 0x100000001b3;
          h = h XOR drop_bit 27 h
      in mix64_absorb h bs)"

definition mix64 :: "bytes \<Rightarrow> u64 \<Rightarrow> u64" where
  "mix64 input salt =
     (let h = mix64_absorb (salt XOR 0x9E3779B97F4A7C15) input;
          h = h XOR drop_bit 33 h;
          h = h * 0xff51afd7ed558ccd;
          h = h XOR drop_bit 33 h;
          h = h * 0xc4ceb9fe1a85ec53;
          h = h XOR drop_bit 33 h
      in h)"

definition discriminator :: "string \<Rightarrow> u64 \<Rightarrow> u32 \<Rightarrow> u16" where
  "discriminator canon_name global_salt bucket_salt =
     (let mixed = global_salt XOR 0xD15CD15CD15CD15C XOR (ucast bucket_salt * 0x9E3779B97F4A7C15)
      in ucast (mix64 (as_bytes canon_name) mixed) AND DISC_MASK)"

definition entries_per_shard :: "(int \<Rightarrow> nat option) \<Rightarrow> nat \<Rightarrow> ('e, nat) outcome" where
  "entries_per_shard lg num_entries =
     bind_outcome (get_database_shape lg num_entries)
       (\<lambda>(primary, _). Ok (SIMD_COUNT * group_order primary))"

definition slot :: "(int \<Rightarrow> nat option) \<Rightarrow> string \<Rightarrow> nat \<Rightarrow> u64 \<Rightarrow> ('e, nat \<times> nat) outcome" where
  "slot lg canon_name num_entries salt =
     (if \<not> num_entries > 0 then Panic
      else bind_outcome (entries_per_shard lg num_entries)
        (\<lambda>slots_per_shard.
          let s = unat (mix64 (as_bytes canon_name) (salt XOR 0x510751075107510)) mod num_entries
          in Ok (s div slots_per_shard, s mod slots_per_shard)))"


section \<open>Tags and headers\<close>

definition pack_tag :: "u16 \<Rightarrow> u8 \<Rightarrow> bytes" where
  "pack_tag disc kind =
     to_le_bytes ((disc AND DISC_MASK) OR push_bit DISC_BITS (ucast kind :: u16))"

definition parse_tag :: "bytes \<Rightarrow> u16 \<times> u8" where
  "parse_tag bs =
     (let v = from_le_bytes bs :: u16;
          kind = ucast (drop_bit DISC_BITS v);
          disc = v AND DISC_MASK
      in (disc, kind))"

definition rdata_bytes :: "u8 \<Rightarrow> nat option" where
  "rdata_bytes kind =
     (if kind = KIND_A \<or> kind = KIND_NS4 then Some 4
      else if kind = KIND_AAAA \<or> kind = KIND_NS6 then Some 16
      else None)"

definition entry_size :: "u8 \<Rightarrow> ('e, nat) outcome" where
  "entry_size kind = (case rdata_bytes kind of Some b \<Rightarrow> Ok (2 + b) | None \<Rightarrow> Panic)"

definition read_bucket_salt :: "bytes \<Rightarrow> u32" where
  "read_bucket_salt bucket = from_le_bytes (slice_at bucket 0 BUCKET_SALT_BYTES)"

definition write_bucket_salt :: "bytes \<Rightarrow> u32 \<Rightarrow> bytes" where
  "write_bucket_salt bucket salt = splice bucket 0 (to_le_bytes salt)"

definition read_entry_count :: "bytes \<Rightarrow> u16" where
  "read_entry_count bucket = from_le_bytes (slice_at bucket COUNT_OFFSET COUNT_BYTES)"

definition write_entry_count :: "bytes \<Rightarrow> u16 \<Rightarrow> bytes" where
  "write_entry_count bucket count = splice bucket COUNT_OFFSET (to_le_bytes count)"

lemmas header_defs =
  read_bucket_salt_def write_bucket_salt_def read_entry_count_def write_entry_count_def


section \<open>Coefficient packing\<close>

definition unpack_group :: "u16 list \<Rightarrow> nat \<Rightarrow> bytes" where
  "unpack_group coeffs g =
     (let c0 = (ucast (coeffs ! (g * 4 + 0)) :: u64) AND (push_bit COEFF_BITS 1 - 1);
          c1 = (ucast (coeffs ! (g * 4 + 1)) :: u64) AND (push_bit COEFF_BITS 1 - 1);
          c2 = (ucast (coeffs ! (g * 4 + 2)) :: u64) AND (push_bit COEFF_BITS 1 - 1);
          c3 = (ucast (coeffs ! (g * 4 + 3)) :: u64) AND (push_bit COEFF_BITS 1 - 1);
          v = c0 OR push_bit 10 c1 OR push_bit 20 c2 OR push_bit 30 c3
      in slice_at (to_le_bytes v) 0 5)"

definition unpack_coeffs_into_bytes :: "u16 list \<Rightarrow> bytes" where
  "unpack_coeffs_into_bytes coeffs =
     concat (map (unpack_group coeffs) [0..<RING_N div COEFFS_PER_GROUP])"

definition pack_group :: "bytes \<Rightarrow> nat \<Rightarrow> u16 list" where
  "pack_group bucket g =
     (let mask10 = (push_bit COEFF_BITS 1 - 1 :: u64);
          v = from_le_bytes (slice_at bucket (g * 5) 5 @ replicate 3 0) :: u64
      in [ucast (drop_bit 0 v AND mask10), ucast (drop_bit 10 v AND mask10),
          ucast (drop_bit 20 v AND mask10), ucast (drop_bit 30 v AND mask10)])"

definition pack_bytes_into_coeffs :: "bytes \<Rightarrow> u16 list" where
  "pack_bytes_into_coeffs bucket =
     concat (map (pack_group bucket) [0..<RING_N div COEFFS_PER_GROUP])"


section \<open>Writing and reading entries\<close>

datatype bucket_error =
  TooManyEntries nat nat   \<comment> \<open>\<open>got\<close>, \<open>max\<close>\<close>
| Overflow nat nat         \<comment> \<open>\<open>needed\<close>, \<open>available\<close>\<close>

fun record_octets :: "dns_record \<Rightarrow> bytes" where
  "record_octets (Rec_A ip) = v4_octets ip"
| "record_octets (Rec_Aaaa ip) = v6_octets ip"
| "record_octets (Rec_Ns (V4 ip)) = v4_octets ip"
| "record_octets (Rec_Ns (V6 ip)) = v6_octets ip"

text \<open>
  \<open>append_entry\<close> returns the buffer and the advanced position. An unknown kind fails the
  \<open>expect\<close> of \<open>entry_size\<close>; a kind whose width is not the record's fails \<open>copy_from_slice\<close>.
\<close>

definition append_entry ::
    "bytes \<Rightarrow> u16 \<Rightarrow> u8 \<Rightarrow> u16 \<Rightarrow> dns_record \<Rightarrow> (bucket_error, bytes \<times> u16) outcome" where
  "append_entry bucket pos kind disc rec =
     (let count = read_entry_count bucket in
      if unat count \<ge> MAX_ENTRIES_PER_BUCKET then
        Err (TooManyEntries (unat count + 1) MAX_ENTRIES_PER_BUCKET)
      else bind_outcome (entry_size kind)
        (\<lambda>sz.
          let start = unat pos; end' = start + sz in
          if end' > BUCKET_BYTES then Err (Overflow end' BUCKET_BYTES)
          else
            let bucket = splice bucket start (pack_tag disc kind) in
            if length (record_octets rec) \<noteq> end' - (start + 2) then Panic
            else
              let bucket = splice bucket (start + 2) (record_octets rec);
                  bucket = write_entry_count bucket (count + 1)
              in Ok (bucket, of_nat end')))"

type_synonym bucket_entry = "u8 \<times> u16 \<times> dns_record"

fun append_entries :: "bytes \<Rightarrow> u16 \<Rightarrow> bucket_entry list \<Rightarrow> (bucket_error, bytes \<times> u16) outcome" where
  "append_entries buf pos [] = Ok (buf, pos)"
| "append_entries buf pos ((kind, disc, rec) # es) =
     bind_outcome (append_entry buf pos kind disc rec) (\<lambda>(buf, pos). append_entries buf pos es)"

definition encode_bucket :: "u32 \<Rightarrow> bucket_entry list \<Rightarrow> (bucket_error, bytes) outcome" where
  "encode_bucket bucket_salt entries =
     (let buf = replicate BUCKET_BYTES 0;
          buf = write_bucket_salt buf bucket_salt
      in bind_outcome (append_entries buf (of_nat FIRST_ENTRY_OFFSET) entries) (\<lambda>(buf, _). Ok buf))"

definition decode_record :: "u8 \<Rightarrow> bytes \<Rightarrow> dns_record" where
  "decode_record kind rdata =
     (if kind = KIND_A then Rec_A (v4_of_octets rdata)
      else if kind = KIND_AAAA then Rec_Aaaa (v6_of_octets rdata)
      else if kind = KIND_NS4 then Rec_Ns (V4 (v4_of_octets rdata))
      else Rec_Ns (V6 (v6_of_octets rdata)))"

fun decode_entries :: "bytes \<Rightarrow> u16 \<Rightarrow> nat \<Rightarrow> nat \<Rightarrow> dns_record list" where
  "decode_entries bucket want_disc 0 pos = []"
| "decode_entries bucket want_disc (Suc n) pos =
     (if pos + 2 > BUCKET_BYTES then []
      else
        let (disc, kind) = parse_tag (slice_at bucket pos 2) in
        case rdata_bytes kind of
          None \<Rightarrow> []
        | Some body \<Rightarrow>
            let pos = pos + 2 in
            if pos + body > BUCKET_BYTES then []
            else
              (if disc = want_disc then [decode_record kind (slice_at bucket pos body)] else []) @
              decode_entries bucket want_disc n (pos + body))"

definition decode_bucket_matching :: "bytes \<Rightarrow> u16 \<Rightarrow> dns_record list" where
  "decode_bucket_matching bucket want_disc =
     decode_entries bucket want_disc (unat (read_entry_count bucket)) FIRST_ENTRY_OFFSET"

end
