(* ===== verification/Zone.thy ===== *)
theory Zone
  imports Ip_Text Bucket "HOL-Library.AList" "HOL-Library.List_Lexorder" "HOL-Library.Char_ord"
begin

text \<open>
  \<open>crates/dns-over-pir/src/dns/zone.rs\<close>: the zone-file parser, the in-memory zone, the text
  serializer with its size cap, and the gzip wrapper. A \<open>HashMap\<close> is an association list with
  distinct keys whose order stands for the iteration order; the compression functions of \<open>flate2\<close>
  are parameters. The warnings on stderr carry no state and are left out.
\<close>

section \<open>The zone\<close>

record name_records =
  nr_a :: "ipv4_addr list"
  nr_aaaa :: "ipv6_addr list"
  nr_ns :: "u32 list"

definition empty_records :: name_records where
  "empty_records = \<lparr>nr_a = [], nr_aaaa = [], nr_ns = []\<rparr>"

record zone =
  zn_records :: "(string \<times> name_records) list"
  zn_zone_name :: string
  zn_ns_pool :: "string list"

definition ns_hostname :: "zone \<Rightarrow> u32 \<Rightarrow> ('e, string) outcome" where
  "ns_hostname zone idx =
     (if unat idx < length (zn_ns_pool zone) then Ok (zn_ns_pool zone ! unat idx) else Panic)"

definition glue_for :: "zone \<Rightarrow> string \<Rightarrow> ip_addr option" where
  "glue_for zone name =
     (case map_of (zn_records zone) name of
        None \<Rightarrow> None
      | Some rec \<Rightarrow>
          (case nr_a rec of
             ip # _ \<Rightarrow> Some (V4 ip)
           | [] \<Rightarrow> (case nr_aaaa rec of ip # _ \<Rightarrow> Some (V6 ip) | [] \<Rightarrow> None)))"

fun dummy_hash :: "u32 \<Rightarrow> bytes \<Rightarrow> u32" where
  "dummy_hash h [] = h"
| "dummy_hash h (b # bs) = dummy_hash (h * 31 + ucast b) bs"

definition dummy_ip :: "string \<Rightarrow> ip_addr" where
  "dummy_ip hostname =
     (let h = dummy_hash 0 (as_bytes hostname) in V4 (Ipv4Addr 192 0 2 (ucast (h AND 0xFF))))"


section \<open>Suffixes\<close>

definition ends_with :: "string \<Rightarrow> string \<Rightarrow> bool" where
  "ends_with s t \<longleftrightarrow> length t \<le> length s \<and> drop (length s - length t) s = t"

definition name_in_suffix :: "string \<Rightarrow> string \<Rightarrow> bool" where
  "name_in_suffix name zone \<longleftrightarrow>
     (if zone = [] then True
      else if name = zone then True
      else length name > length zone \<and> ends_with name zone \<and>
        name ! (length name - length zone - 1) = CHR ''.'')"

fun shared_labels :: "string list \<Rightarrow> string list \<Rightarrow> string list" where
  "shared_labels (a # as) (b # bs) = (if a = b then a # shared_labels as bs else [])"
| "shared_labels _ _ = []"

definition rsplit :: "char \<Rightarrow> string \<Rightarrow> string list" where
  "rsplit sep s = rev (split_on sep s)"

definition common_suffix_str :: "string \<Rightarrow> string \<Rightarrow> string" where
  "common_suffix_str a b =
     join_with ''.'' (rev (shared_labels (rsplit (CHR ''.'') a) (rsplit (CHR ''.'') b)))"


section \<open>Parsing\<close>

record parse_state =
  ps_records :: "(string \<times> name_records) list"
  ps_ns_pool :: "string list"
  ps_ns_intern :: "(string \<times> u32) list"
  ps_suffix :: "string option"

definition init_parse :: parse_state where
  "init_parse = \<lparr>ps_records = [], ps_ns_pool = [], ps_ns_intern = [], ps_suffix = None\<rparr>"

definition eq_ignore_ascii_case :: "string \<Rightarrow> string \<Rightarrow> bool" where
  "eq_ignore_ascii_case s t \<longleftrightarrow> to_ascii_lowercase s = to_ascii_lowercase t"

definition is_ttl :: "string \<Rightarrow> bool" where
  "is_ttl tok \<longleftrightarrow> tok \<noteq> [] \<and> list_all is_ascii_digit tok"

definition is_class :: "string \<Rightarrow> bool" where
  "is_class tok \<longleftrightarrow>
     eq_ignore_ascii_case tok ''in'' \<or> eq_ignore_ascii_case tok ''cs'' \<or>
     eq_ignore_ascii_case tok ''ch'' \<or> eq_ignore_ascii_case tok ''hs''"

text \<open>Skips optional TTL and class tokens; the empty token when the fields run out.\<close>

fun rtype_token :: "string list \<Rightarrow> string \<times> string list" where
  "rtype_token [] = ([], [])"
| "rtype_token (tok # toks) =
     (if \<not> is_ttl tok \<and> \<not> is_class tok then (tok, toks) else rtype_token toks)"

definition track_suffix :: "string \<Rightarrow> string option \<Rightarrow> string option" where
  "track_suffix name suffix =
     (case suffix of
        None \<Rightarrow> Some name
      | Some current \<Rightarrow>
          if \<not> name_in_suffix name current then Some (common_suffix_str current name)
          else Some current)"

text \<open>The \<open>NS\<close> branch: the index of a hostname in the pool, interning it when it is new.\<close>

definition intern_ns :: "parse_state \<Rightarrow> string \<Rightarrow> (io_error, u32 \<times> parse_state) outcome" where
  "intern_ns st ns_canon =
     (case map_of (ps_ns_intern st) ns_canon of
        Some i \<Rightarrow> Ok (i, st)
      | None \<Rightarrow>
          if \<not> length (ps_ns_pool st) < 2 ^ 32 then Panic
          else
            let i = of_nat (length (ps_ns_pool st)) in
            Ok (i, st\<lparr>ps_ns_pool := ps_ns_pool st @ [ns_canon],
                     ps_ns_intern := AList.update ns_canon i (ps_ns_intern st)\<rparr>))"

text \<open>Adds one record to the entry of \<open>name\<close>; \<open>None\<close> is the \<open>continue\<close> on unparsable data.\<close>

definition add_rdata ::
    "parse_state \<Rightarrow> u8 \<Rightarrow> string \<Rightarrow> string \<Rightarrow> (io_error, parse_state option) outcome" where
  "add_rdata st kind name rdata =
     (let push = (\<lambda>f st. st\<lparr>ps_records := AList.map_entry name f (ps_records st)\<rparr>) in
      if kind = 0 then
        (case parse_ipv4 rdata of
           None \<Rightarrow> Ok None
         | Some ip \<Rightarrow> Ok (Some (push (\<lambda>e. e\<lparr>nr_a := nr_a e @ [ip]\<rparr>) st)))
      else if kind = 1 then
        (case parse_ipv6 rdata of
           None \<Rightarrow> Ok None
         | Some ip \<Rightarrow> Ok (Some (push (\<lambda>e. e\<lparr>nr_aaaa := nr_aaaa e @ [ip]\<rparr>) st)))
      else if kind = 2 then
        bind_outcome (intern_ns st (canonical rdata))
          (\<lambda>(idx, st). Ok (Some (push (\<lambda>e. e\<lparr>nr_ns := nr_ns e @ [idx]\<rparr>) st)))
      else Panic)"

definition keep_record ::
    "parse_state \<Rightarrow> u8 \<Rightarrow> string \<Rightarrow> string \<Rightarrow> (io_error, parse_state) outcome" where
  "keep_record st kind name_raw rdata =
     (let name = canonical name_raw;
          st = (if name \<notin> fst ` set (ps_records st)
                then st\<lparr>ps_records := AList.update name empty_records (ps_records st)\<rparr> else st)
      in bind_outcome (add_rdata st kind name rdata)
        (\<lambda>r. case r of
            None \<Rightarrow> Ok st
          | Some st \<Rightarrow> Ok (st\<lparr>ps_suffix := track_suffix name (ps_suffix st)\<rparr>)))"

definition parse_fields :: "parse_state \<Rightarrow> string list \<Rightarrow> (io_error, parse_state) outcome" where
  "parse_fields st toks =
     (case toks of
        [] \<Rightarrow> Ok st
      | name_raw # toks \<Rightarrow>
          let (rtype_raw, toks) = rtype_token toks in
          if rtype_raw = [] then Ok st
          else
            let kind = (if eq_ignore_ascii_case rtype_raw ''a'' then Some 0
                        else if eq_ignore_ascii_case rtype_raw ''aaaa'' then Some 1
                        else if eq_ignore_ascii_case rtype_raw ''ns'' then Some 2
                        else None)
            in case kind of
                 None \<Rightarrow> Ok st
               | Some kind \<Rightarrow>
                   (case toks of
                      [] \<Rightarrow> Ok st
                    | rdata # _ \<Rightarrow> keep_record st kind name_raw rdata))"

definition parse_line :: "parse_state \<Rightarrow> string \<Rightarrow> (io_error, parse_state) outcome" where
  "parse_line st line_buf =
     (let line = trim line_buf in
      if line = [] \<or> hd line = CHR '';'' then Ok st
      else parse_fields st (split_ascii_whitespace line))"

abbreviation newline :: char where
  "newline \<equiv> CHR 0x0A"

text \<open>What successive calls of \<open>read_line\<close> return: each line with its line feed, if it has one.\<close>

fun split_lines :: "string \<Rightarrow> string list" where
  "split_lines [] = []"
| "split_lines (c # s) =
     (if c = newline then [c] # split_lines s
      else case split_lines s of [] \<Rightarrow> [[c]] | l # ls \<Rightarrow> (c # l) # ls)"

fun parse_lines :: "parse_state \<Rightarrow> string list \<Rightarrow> (io_error, parse_state) outcome" where
  "parse_lines st [] = Ok st"
| "parse_lines st (l # ls) =
     (if \<not> valid_utf8 l then Err (Io_Error InvalidData ''stream did not contain valid UTF-8'')
      else bind_outcome (parse_line st l) (\<lambda>st. parse_lines st ls))"

definition parse_zone :: "string \<Rightarrow> (io_error, zone) outcome" where
  "parse_zone text =
     bind_outcome (parse_lines init_parse (split_lines text))
       (\<lambda>st. Ok \<lparr>zn_records = ps_records st,
                zn_zone_name = (case ps_suffix st of None \<Rightarrow> [] | Some s \<Rightarrow> s),
                zn_ns_pool = ps_ns_pool st\<rparr>)"


section \<open>Serializing\<close>

definition a_line :: "string \<Rightarrow> ipv4_addr \<Rightarrow> string" where
  "a_line name ip = name @ ''.'' @ [CHR 0x09] @ ''3600'' @ [CHR 0x09] @ ''in'' @ [CHR 0x09] @ ''a'' @
     [CHR 0x09] @ show_v4 ip @ [newline]"

definition aaaa_line :: "string \<Rightarrow> ipv6_addr \<Rightarrow> string" where
  "aaaa_line name ip = name @ ''.'' @ [CHR 0x09] @ ''3600'' @ [CHR 0x09] @ ''in'' @ [CHR 0x09] @ ''aaaa'' @
     [CHR 0x09] @ show_v6 ip @ [newline]"

definition ns_line :: "string \<Rightarrow> string \<Rightarrow> string" where
  "ns_line name nshost = name @ ''.'' @ [CHR 0x09] @ ''3600'' @ [CHR 0x09] @ ''in'' @ [CHR 0x09] @ ''ns'' @
     [CHR 0x09] @ nshost @ ''.'' @ [newline]"

text \<open>The loop over the records of one type: append a line, stop as soon as the cap is exceeded.\<close>

fun push_lines :: "nat \<Rightarrow> ('a \<Rightarrow> (nat, string) outcome) \<Rightarrow> 'a list \<Rightarrow> string \<Rightarrow> (nat, string) outcome" where
  "push_lines cap line [] out = Ok out"
| "push_lines cap line (x # xs) out =
     bind_outcome (line x)
       (\<lambda>l. let out = out @ l in
            if length out > cap then Err (length out) else push_lines cap line xs out)"

fun serialize_names :: "zone \<Rightarrow> nat \<Rightarrow> string list \<Rightarrow> string \<Rightarrow> (nat, string) outcome" where
  "serialize_names zone cap [] out = Ok out"
| "serialize_names zone cap (name # names) out =
     (case map_of (zn_records zone) name of
        None \<Rightarrow> Panic
      | Some rec \<Rightarrow>
          bind_outcome (push_lines cap (\<lambda>ip. Ok (a_line name ip)) (nr_a rec) out) (\<lambda>out.
          bind_outcome (push_lines cap (\<lambda>ip. Ok (aaaa_line name ip)) (nr_aaaa rec) out) (\<lambda>out.
          bind_outcome (push_lines cap
              (\<lambda>ns_idx. bind_outcome (ns_hostname zone ns_idx) (\<lambda>nshost. Ok (ns_line name nshost)))
              (nr_ns rec) out) (\<lambda>out.
          serialize_names zone cap names out))))"

definition serialize_bounded :: "zone \<Rightarrow> nat \<Rightarrow> (nat, string) outcome" where
  "serialize_bounded zone cap =
     (let names = sort (map fst (zn_records zone)) in serialize_names zone cap names [])"

definition USIZE_MAX :: nat where "USIZE_MAX = 2 ^ 64 - 1"

definition serialize :: "zone \<Rightarrow> ('e, string) outcome" where
  "serialize zone = (case serialize_bounded zone USIZE_MAX of Ok s \<Rightarrow> Ok s | _ \<Rightarrow> Panic)"

type_synonym codec = "bytes \<Rightarrow> (io_error, bytes) outcome"

definition dump_zone :: "codec \<Rightarrow> zone \<Rightarrow> (io_error, bytes) outcome" where
  "dump_zone compress zone = bind_outcome (serialize zone) (\<lambda>text. compress (as_bytes text))"

definition load_dump :: "codec \<Rightarrow> bytes \<Rightarrow> (io_error, zone) outcome" where
  "load_dump decompress gz = bind_outcome (decompress gz) (\<lambda>text. parse_zone (string_of_bytes text))"

end
