(* ===== verification/Protocol.thy ===== *)
theory Protocol
  imports Rust_Text
begin

text \<open>
  \<open>crates/dns-over-pir/src/dns/protocol.rs\<close>: length-prefixed frames with their byte counters, and the
  \<open>INFO\<close> reply. A connection is the bytes still to be received before the peer half-closes, the
  bytes sent so far, and the two thread-local counters of the thread that uses it. Errors of the
  operating system other than the end of the input are not modelled.
\<close>

section \<open>Constants\<close>

definition CMD_INFO :: u8 where "CMD_INFO = 1"
definition CMD_QUERY :: u8 where "CMD_QUERY = 2"
definition CMD_DUMP :: u8 where "CMD_DUMP = 3"

definition FLAG_PIR_AVAILABLE :: u8 where "FLAG_PIR_AVAILABLE = push_bit 0 1"
definition FLAG_DUMP_AVAILABLE :: u8 where "FLAG_DUMP_AVAILABLE = push_bit 1 1"

definition RESP_UNAVAILABLE :: bytes where "RESP_UNAVAILABLE = [0xFF]"

definition MAX_FRAME :: nat where "MAX_FRAME = 64 * 1024 * 1024"

lemmas protocol_consts = CMD_INFO_def CMD_QUERY_def CMD_DUMP_def


section \<open>Frames\<close>

record conn =
  inbox :: bytes
  outbox :: bytes
  cn_bytes_sent :: u64
  cn_bytes_recvd :: u64

text \<open>\<open>read_exact\<close>: all \<open>n\<close> bytes, or \<open>UnexpectedEof\<close> after the input is used up.\<close>

definition read_exact :: "conn \<Rightarrow> nat \<Rightarrow> (io_error, bytes) outcome \<times> conn" where
  "read_exact c n =
     (if length (inbox c) < n
      then (Err (Io_Error UnexpectedEof ''failed to fill whole buffer''), c\<lparr>inbox := []\<rparr>)
      else (Ok (take n (inbox c)), c\<lparr>inbox := drop n (inbox c)\<rparr>))"

definition write_all :: "conn \<Rightarrow> bytes \<Rightarrow> conn" where
  "write_all c bs = c\<lparr>outbox := outbox c @ bs\<rparr>"

definition write_frame :: "conn \<Rightarrow> bytes \<Rightarrow> (io_error, unit) outcome \<times> conn" where
  "write_frame c payload =
     (if \<not> length payload < 2 ^ 32 then (Err (Io_Error InvalidData ''frame too large''), c)
      else
        let len = of_nat (length payload) :: u32;
            c = write_all c (to_be_bytes len);
            c = write_all c payload
        in (Ok (), c\<lparr>cn_bytes_sent := cn_bytes_sent c + 4 + of_nat (length payload)\<rparr>))"

definition read_frame :: "conn \<Rightarrow> (io_error, bytes) outcome \<times> conn" where
  "read_frame c =
     (case read_exact c 4 of
        (Ok len, c) \<Rightarrow>
          let len = unat (from_be_bytes len :: u32) in
          if len > MAX_FRAME then (Err (Io_Error InvalidData ''frame too large''), c)
          else (case read_exact c len of
                  (Ok buf, c) \<Rightarrow> (Ok buf, c\<lparr>cn_bytes_recvd := cn_bytes_recvd c + 4 + of_nat len\<rparr>)
                | (e, c) \<Rightarrow> (e, c))
      | (e, c) \<Rightarrow> (e, c))"


section \<open>The INFO reply\<close>

record info_response =
  ir_flags :: u8
  ir_num_entries :: u32
  ir_zone_name :: string
  ir_dump_size :: u32
  ir_hash_salt :: u64

definition has_pir :: "info_response \<Rightarrow> bool" where
  "has_pir resp \<longleftrightarrow> ir_flags resp AND FLAG_PIR_AVAILABLE \<noteq> 0"

definition has_dump :: "info_response \<Rightarrow> bool" where
  "has_dump resp \<longleftrightarrow> ir_flags resp AND FLAG_DUMP_AVAILABLE \<noteq> 0"

definition encode_info :: "info_response \<Rightarrow> bytes" where
  "encode_info resp =
     (let z = as_bytes (ir_zone_name resp) in
      [ir_flags resp] @ to_be_bytes (ir_num_entries resp) @ to_be_bytes (of_nat (length z) :: u32) @ z @
      to_be_bytes (ir_dump_size resp) @ to_be_bytes (ir_hash_salt resp))"

definition decode_info :: "bytes \<Rightarrow> (io_error, info_response) outcome" where
  "decode_info payload =
     (if length payload < 1 + 4 + 4 then Err (Io_Error InvalidData ''short INFO reply'')
      else
        let flags = payload ! 0;
            num_entries = from_be_bytes (slice_at payload 1 4);
            zl = unat (from_be_bytes (slice_at payload 5 4) :: u32)
        in if length payload < 9 + zl + 4 + 8 then Err (Io_Error InvalidData ''short INFO reply'')
           else
             let zone_name = string_of_bytes (slice_at payload 9 zl) in
             if \<not> valid_utf8 zone_name then Err (Io_Error InvalidData ''bad zone name utf-8'')
             else Ok \<lparr>ir_flags = flags, ir_num_entries = num_entries, ir_zone_name = zone_name,
                      ir_dump_size = from_be_bytes (slice_at payload (9 + zl) 4),
                      ir_hash_salt = from_be_bytes (slice_at payload (9 + zl + 4) 8)\<rparr>)"


section \<open>Round trips\<close>

lemma length_be [simp]:
  "length (to_be_bytes (w :: u32)) = 4" "length (to_be_bytes (v :: u64)) = 8"
  by (simp_all add: length_to_be_bytes)

lemma from_to_be [simp]:
  "from_be_bytes (to_be_bytes (w :: u32)) = w" "from_be_bytes (to_be_bytes (v :: u64)) = v"
  by (simp_all add: from_to_be_bytes)

definition frame_bytes :: "bytes \<Rightarrow> bytes" where
  "frame_bytes payload = to_be_bytes (of_nat (length payload) :: u32) @ payload"

lemma length_frame_bytes [simp]: "length (frame_bytes p) = 4 + length p"
  by (simp add: frame_bytes_def)

lemma write_frame_ok:
  "length p < 2 ^ 32 \<Longrightarrow> write_frame c p =
     (Ok (), c\<lparr>outbox := outbox c @ frame_bytes p,
               cn_bytes_sent := cn_bytes_sent c + of_nat (length (frame_bytes p))\<rparr>)"
  by (simp add: write_frame_def write_all_def frame_bytes_def add.assoc Let_def)

lemma read_frame_ok:
  assumes "length p \<le> MAX_FRAME"
  shows "read_frame (c\<lparr>inbox := frame_bytes p @ rest\<rparr>) =
    (Ok p, c\<lparr>inbox := rest, cn_bytes_recvd := cn_bytes_recvd c + of_nat (length (frame_bytes p))\<rparr>)"
proof -
  have len: "unat (of_nat (length p) :: u32) = length p"
    using assms by (simp add: of_nat_inverse MAX_FRAME_def)
  show ?thesis
    using assms by (simp add: read_frame_def read_exact_def frame_bytes_def len add.assoc)
qed

lemma read_frame_shrinks: "read_frame c = (Ok p, c') \<Longrightarrow> length (inbox c') + 4 + length p = length (inbox c)"
  by (auto simp: read_frame_def read_exact_def Let_def split: if_splits prod.splits)

lemma write_frame_inbox: "write_frame c p = (r, c') \<Longrightarrow> inbox c' = inbox c"
  by (auto simp: write_frame_def write_all_def Let_def split: if_splits)

lemma read_frame_outbox: "read_frame c = (r, c') \<Longrightarrow> outbox c' = outbox c"
  by (auto simp: read_frame_def read_exact_def Let_def split: if_splits prod.splits)

lemma read_frame_bounded: "read_frame c = (Ok p, c') \<Longrightarrow> length p \<le> MAX_FRAME"
  by (auto simp: read_frame_def read_exact_def Let_def split: if_splits prod.splits)

lemma decode_encode_info:
  assumes "length (ir_zone_name resp) < 2 ^ 32" "valid_utf8 (ir_zone_name resp)"
  shows "decode_info (encode_info resp @ junk) = Ok resp"
proof -
  have len: "unat (of_nat (length (ir_zone_name resp)) :: u32) = length (ir_zone_name resp)"
    using assms by (simp add: of_nat_inverse)
  let ?head = "[ir_flags resp] @ to_be_bytes (ir_num_entries resp) @
    to_be_bytes (of_nat (length (ir_zone_name resp)) :: u32) @ as_bytes (ir_zone_name resp)"
  have parts: "encode_info resp @ junk =
      ?head @ to_be_bytes (ir_dump_size resp) @ (to_be_bytes (ir_hash_salt resp) @ junk)"
    "encode_info resp @ junk =
      (?head @ to_be_bytes (ir_dump_size resp)) @ to_be_bytes (ir_hash_salt resp) @ junk"
    by (simp_all add: encode_info_def Let_def)
  have slices:
    "slice_at (encode_info resp @ junk) 1 4 = to_be_bytes (ir_num_entries resp)"
    "slice_at (encode_info resp @ junk) 5 4 = to_be_bytes (of_nat (length (ir_zone_name resp)) :: u32)"
    "slice_at (encode_info resp @ junk) 9 (length (ir_zone_name resp)) = as_bytes (ir_zone_name resp)"
    by (simp_all add: encode_info_def slice_at_def Let_def)
  moreover have
    "slice_at (encode_info resp @ junk) (9 + length (ir_zone_name resp)) 4 = to_be_bytes (ir_dump_size resp)"
    unfolding parts(1) by (rule slice_middle) simp_all
  moreover have
    "slice_at (encode_info resp @ junk) (9 + length (ir_zone_name resp) + 4) 8 = to_be_bytes (ir_hash_salt resp)"
    unfolding parts(2) by (rule slice_middle) simp_all
  ultimately show ?thesis
    using assms len by (simp add: decode_info_def Let_def) (simp add: encode_info_def Let_def)
qed

section \<open>Properties of the wire protocol\<close>

text \<open>
  C19. Frames survive the wire: what one side writes with \<open>write_frame\<close>, whatever follows it in the
  stream, the other side reads back with \<open>read_frame\<close>, up to the cap of 64 MiB; exactly the frame is
  consumed, and both byte counters advance by its length on the wire, header included.
\<close>

theorem frame_roundtrip:
  assumes "length payload \<le> MAX_FRAME" "write_frame s payload = (Ok (), s')"
    and "outbox s' = outbox s @ wire" "inbox r = wire @ rest"
  shows "read_frame r = (Ok payload, r\<lparr>inbox := rest, cn_bytes_recvd := cn_bytes_recvd r + of_nat (length wire)\<rparr>) \<and>
    cn_bytes_sent s' = cn_bytes_sent s + of_nat (length wire) \<and> length wire = 4 + length payload"
proof -
  have "length payload < 2 ^ 32" using assms(1) by (simp add: MAX_FRAME_def)
  then have s': "s' = s\<lparr>outbox := outbox s @ frame_bytes payload,
      cn_bytes_sent := cn_bytes_sent s + of_nat (length (frame_bytes payload))\<rparr>"
    using assms(2) by (simp add: write_frame_ok)
  then have wire: "wire = frame_bytes payload" using assms(3) by simp
  have "r = r\<lparr>inbox := frame_bytes payload @ rest\<rparr>" using assms(4) wire by simp
  then show ?thesis
    using read_frame_ok [OF assms(1), where c = r and rest = rest] wire s' by simp
qed

definition fresh_conn :: "bytes \<Rightarrow> conn" where
  "fresh_conn bs = \<lparr>inbox = bs, outbox = [], cn_bytes_sent = 0, cn_bytes_recvd = 0\<rparr>"

theorem frame_roundtrip_witness:
  "read_frame (fresh_conn (frame_bytes [1, 2, 3] @ [9])) =
    (Ok [1, 2, 3], \<lparr>inbox = [9], outbox = [], cn_bytes_sent = 0, cn_bytes_recvd = 7\<rparr>)"
proof -
  have "write_frame (fresh_conn []) [1, 2, 3] =
      (Ok (), (fresh_conn [])\<lparr>outbox := frame_bytes [1, 2, 3], cn_bytes_sent := 7\<rparr>)"
    by (simp add: write_frame_ok fresh_conn_def)
  from frame_roundtrip [OF _ this, of "frame_bytes [1, 2, 3]" "fresh_conn (frame_bytes [1, 2, 3] @ [9])" "[9]"]
  show ?thesis by (simp add: fresh_conn_def MAX_FRAME_def)
qed

text \<open>
  \<open>read_frame\<close> on any input: it allocates at most 64 MiB, refuses a longer announced frame as
  invalid data before reading its body, reports the end of the input when the header or the body is
  cut short, and otherwise returns exactly the announced bytes. It writes nothing.
\<close>

theorem read_frame_outcomes:
  "case read_frame c of (res, c') \<Rightarrow> outbox c' = outbox c \<and>
    (if length (inbox c) < 4 then res = Err (Io_Error UnexpectedEof ''failed to fill whole buffer'')
     else let n = unat (from_be_bytes (take 4 (inbox c)) :: u32) in
       if n > MAX_FRAME then res = Err (Io_Error InvalidData ''frame too large'') \<and> inbox c' = drop 4 (inbox c)
       else if length (inbox c) < 4 + n then res = Err (Io_Error UnexpectedEof ''failed to fill whole buffer'')
       else res = Ok (take n (drop 4 (inbox c))) \<and> inbox c' = drop (4 + n) (inbox c) \<and> n \<le> 67108864)"
  by (auto simp: read_frame_def read_exact_def Let_def MAX_FRAME_def add.commute)



end
