(* ===== verification/Bucket_Layout.thy ===== *)
theory Bucket_Layout
  imports Bucket
begin

text \<open>
  Correctness of the bucket layer: what a well-formed bucket is (\<open>bucket_of salt es\<close>, the bytes of
  a salt header, a count and a list of entries, padded with zeros), that \<open>append_entry\<close> extends it
  by one entry exactly when the entry fits, that \<open>encode_bucket\<close> produces it, and that
  \<open>decode_bucket_matching\<close> returns the records with the wanted discriminator, in order. The
  coefficient packing is a bijection between buckets and vectors of 10-bit coefficients.
\<close>

section \<open>Tags\<close>

lemma length_u16_le [simp]: "length (to_le_bytes (w :: u16)) = 2"
  by (simp add: length_to_le_bytes)

lemma length_u32_le [simp]: "length (to_le_bytes (w :: u32)) = 4"
  by (simp add: length_to_le_bytes)

lemma length_u64_le [simp]: "length (to_le_bytes (w :: u64)) = 8"
  by (simp add: length_to_le_bytes)

lemma from_to_le_u16 [simp]: "from_le_bytes (to_le_bytes (w :: u16)) = w"
  by (simp add: from_to_le_bytes)

lemma from_to_le_u32 [simp]: "from_le_bytes (to_le_bytes (w :: u32)) = w"
  by (simp add: from_to_le_bytes)

lemma length_pack_tag [simp]: "length (pack_tag disc kind) = 2"
  by (simp add: pack_tag_def)

lemma parse_pack_tag:
  assumes "disc AND DISC_MASK = disc" "kind AND mask 2 = kind"
  shows "parse_tag (pack_tag disc kind) = (disc, kind)"
proof -
  let ?v = "(disc AND DISC_MASK) OR push_bit DISC_BITS (ucast kind :: u16)"
  have k: "bit kind n \<longleftrightarrow> n < 2 \<and> bit kind n" for n
    using assms(2) by (metis bit_and_iff bit_mask_iff)
  have "(ucast (drop_bit DISC_BITS ?v) :: u8) = kind"
  proof (rule bit_word_eqI)
    fix n assume "n < LENGTH(8)"
    then show "bit (ucast (drop_bit DISC_BITS ?v) :: u8) n = bit kind n"
      using k [of n] by (auto simp: bit_simps DISC_MASK_eq DISC_BITS_def)
  qed
  moreover have "?v AND DISC_MASK = disc"
  proof (rule bit_word_eqI)
    fix n assume "n < LENGTH(16)"
    have "bit disc n \<longleftrightarrow> n < 14 \<and> bit disc n"
      using assms(1) by (metis DISC_MASK_eq bit_and_iff bit_mask_iff)
    then show "bit (?v AND DISC_MASK) n = bit disc n"
      by (auto simp: bit_simps DISC_MASK_eq DISC_BITS_def)
  qed
  ultimately show ?thesis
    by (simp add: parse_tag_def pack_tag_def)
qed

lemma discriminator_masked: "discriminator name g b AND DISC_MASK = discriminator name g b"
  by (simp add: discriminator_def Let_def)


section \<open>Entries and well-formed buckets\<close>

fun kind_of :: "dns_record \<Rightarrow> u8" where
  "kind_of (Rec_A ip) = KIND_A"
| "kind_of (Rec_Aaaa ip) = KIND_AAAA"
| "kind_of (Rec_Ns (V4 ip)) = KIND_NS4"
| "kind_of (Rec_Ns (V6 ip)) = KIND_NS6"

fun entry_ok :: "bucket_entry \<Rightarrow> bool" where
  "entry_ok (kind, disc, rec) \<longleftrightarrow> kind = kind_of rec \<and> disc AND DISC_MASK = disc"

fun entry_bytes :: "bucket_entry \<Rightarrow> bytes" where
  "entry_bytes (kind, disc, rec) = pack_tag disc kind @ record_octets rec"

fun rdata_width :: "dns_record \<Rightarrow> nat" where
  "rdata_width (Rec_A ip) = 4"
| "rdata_width (Rec_Aaaa ip) = 16"
| "rdata_width (Rec_Ns (V4 ip)) = 4"
| "rdata_width (Rec_Ns (V6 ip)) = 16"

definition payload :: "bucket_entry list \<Rightarrow> bytes" where
  "payload es = concat (map entry_bytes es)"

definition used_bytes :: "bucket_entry list \<Rightarrow> nat" where
  "used_bytes es = FIRST_ENTRY_OFFSET + length (payload es)"

definition bucket_of :: "u32 \<Rightarrow> bucket_entry list \<Rightarrow> bytes" where
  "bucket_of salt es =
     to_le_bytes salt @ to_le_bytes (of_nat (length es) :: u16) @ payload es @
     replicate (BUCKET_BYTES - used_bytes es) 0"

lemma kind_distinct [simp]:
  "KIND_A \<noteq> KIND_AAAA" "KIND_A \<noteq> KIND_NS4" "KIND_A \<noteq> KIND_NS6"
  "KIND_AAAA \<noteq> KIND_A" "KIND_AAAA \<noteq> KIND_NS4" "KIND_AAAA \<noteq> KIND_NS6"
  "KIND_NS4 \<noteq> KIND_A" "KIND_NS4 \<noteq> KIND_AAAA" "KIND_NS4 \<noteq> KIND_NS6"
  "KIND_NS6 \<noteq> KIND_A" "KIND_NS6 \<noteq> KIND_AAAA" "KIND_NS6 \<noteq> KIND_NS4"
  by (simp_all add: kind_consts)

lemma length_record_octets [simp]: "length (record_octets rec) = rdata_width rec"
  by (induction rec rule: record_octets.induct) auto

lemma rdata_bytes_kind_of [simp]: "rdata_bytes (kind_of rec) = Some (rdata_width rec)"
  by (induction rec rule: kind_of.induct) (auto simp: rdata_bytes_def)

lemma entry_size_kind_of [simp]: "entry_size (kind_of rec) = Ok (2 + rdata_width rec)"
  by (simp add: entry_size_def)

lemma kind_of_masked: "kind_of rec AND mask 2 = kind_of rec"
  by (induction rec rule: kind_of.induct) (simp_all add: kind_consts mask_eq_exp_minus_1)

lemma decode_record_octets [simp]: "decode_record (kind_of rec) (record_octets rec) = rec"
  by (induction rec rule: kind_of.induct) (simp_all add: decode_record_def)

lemma length_entry_bytes [simp]: "length (entry_bytes (k, d, rec)) = 2 + rdata_width rec"
  by simp

lemma rdata_width_ge: "4 \<le> rdata_width rec"
  by (induction rec rule: rdata_width.induct) auto

lemma payload_simps [simp]:
  "payload [] = []" "payload (e # es) = entry_bytes e @ payload es"
  "payload (es @ fs) = payload es @ payload fs"
  by (simp_all add: payload_def)

lemma used_bytes_simps [simp]:
  "used_bytes [] = 6"
  "used_bytes (es @ [e]) = used_bytes es + length (entry_bytes e)"
  by (simp_all add: used_bytes_def FIRST_ENTRY_OFFSET_eq)

lemma used_bytes_ge: "6 + 6 * length es \<le> used_bytes es"
proof (induction es)
  case (Cons e es)
  then show ?case
    using rdata_width_ge [of "snd (snd e)"] by (cases e) (auto simp: used_bytes_def)
qed (simp add: used_bytes_def FIRST_ENTRY_OFFSET_eq)

lemma length_bucket_of [simp]: "used_bytes es \<le> BUCKET_BYTES \<Longrightarrow> length (bucket_of salt es) = BUCKET_BYTES"
  by (simp add: bucket_of_def used_bytes_def FIRST_ENTRY_OFFSET_eq)

text \<open>The headers of a well-formed bucket read back.\<close>

lemma read_salt_bucket_of [simp]: "read_bucket_salt (bucket_of salt es) = salt"
  by (simp add: bucket_of_def header_defs bucket_consts slice_prefix)

lemma read_count_bucket_of: "read_entry_count (bucket_of salt es) = of_nat (length es)"
  by (simp add: bucket_of_def header_defs bucket_consts slice_middle)

lemma entry_count_small:
  assumes "used_bytes es \<le> BUCKET_BYTES"
  shows "unat (of_nat (length es) :: u16) = length es" and "length es < MAX_ENTRIES_PER_BUCKET"
proof -
  have "length es < 65535"
    using used_bytes_ge [of es] assms by (simp add: bucket_consts)
  then show "unat (of_nat (length es) :: u16) = length es" "length es < MAX_ENTRIES_PER_BUCKET"
    by (simp_all add: of_nat_inverse bucket_consts)
qed

lemma write_salt_empty:
  "write_bucket_salt (replicate BUCKET_BYTES 0) salt = bucket_of salt []"
  by (simp add: bucket_of_def header_defs bucket_consts splice_def to_le_bytes_def
      map_replicate_const flip: replicate_add)


section \<open>Appending and encoding\<close>

lemma splice_next_zeros:
  assumes "length xs = i" "length src \<le> n"
  shows "splice (xs @ replicate n z) i src = (xs @ src) @ replicate (n - length src) z"
  using splice_append_zeros [OF assms] by simp

lemma append_entry_bucket_of:
  assumes fits: "used_bytes es \<le> BUCKET_BYTES"
  shows "append_entry (bucket_of salt es) (of_nat (used_bytes es)) (kind_of rec) disc rec =
    (let needed = used_bytes es + (2 + rdata_width rec) in
     if needed > BUCKET_BYTES then Err (Overflow needed BUCKET_BYTES)
     else Ok (bucket_of salt (es @ [(kind_of rec, disc, rec)]), of_nat needed))"
proof -
  let ?u = "used_bytes es" and ?e = "(kind_of rec, disc, rec)"
  let ?hd = "to_le_bytes salt" and ?cnt = "to_le_bytes (of_nat (length es) :: u16)"
  let ?pre = "?hd @ ?cnt @ payload es"
  have pos: "unat (of_nat ?u :: u16) = ?u"
    using fits by (simp add: of_nat_inverse bucket_consts)
  note cnt = entry_count_small [OF fits]
  have len: "length ?pre = ?u"
    by (simp add: used_bytes_def FIRST_ENTRY_OFFSET_eq)
  have buf: "bucket_of salt es = ?pre @ replicate (BUCKET_BYTES - ?u) 0"
    by (simp add: bucket_of_def)
  show ?thesis
  proof (cases "?u + (2 + rdata_width rec) > BUCKET_BYTES")
    case True
    then show ?thesis
      using cnt pos by (simp add: append_entry_def read_count_bucket_of Let_def)
  next
    case False
    have "splice (bucket_of salt es) ?u (pack_tag disc (kind_of rec)) =
        (?pre @ pack_tag disc (kind_of rec)) @ replicate (BUCKET_BYTES - ?u - 2) 0"
      unfolding buf using False by (subst splice_next_zeros [OF len]) auto
    then have "splice (splice (bucket_of salt es) ?u (pack_tag disc (kind_of rec))) (?u + 2) (record_octets rec) =
        ((?pre @ pack_tag disc (kind_of rec)) @ record_octets rec) @
          replicate (BUCKET_BYTES - ?u - 2 - rdata_width rec) 0"
      using False len by (simp only:) (subst splice_next_zeros, auto)
    also have "\<dots> = ?hd @ ?cnt @ payload (es @ [?e]) @ replicate (BUCKET_BYTES - used_bytes (es @ [?e])) 0"
      by simp
    finally have "write_entry_count
        (splice (splice (bucket_of salt es) ?u (pack_tag disc (kind_of rec))) (?u + 2) (record_octets rec))
        (of_nat (length es) + 1) = bucket_of salt (es @ [?e])"
      by (simp add: bucket_of_def write_entry_count_def splice_middle COUNT_OFFSET_def
          BUCKET_SALT_BYTES_def add.commute)
    then show ?thesis
      using False cnt pos by (simp add: append_entry_def read_count_bucket_of Let_def)
  qed
qed

text \<open>
  Appending a list of entries: it succeeds exactly when everything fits, and otherwise reports the
  overflow of the first entry that does not. The entry-count error never arises.
\<close>

fun first_overflow :: "nat \<Rightarrow> bucket_entry list \<Rightarrow> nat" where
  "first_overflow used [] = used"
| "first_overflow used (e # es) =
     (if used + length (entry_bytes e) > BUCKET_BYTES then used + length (entry_bytes e)
      else first_overflow (used + length (entry_bytes e)) es)"

lemma first_overflow_fits:
  "used + length (payload es) \<le> BUCKET_BYTES \<Longrightarrow> first_overflow used es = used + length (payload es)"
  by (induction es arbitrary: used) auto

lemma first_overflow_over:
  "BUCKET_BYTES < used + length (payload es) \<Longrightarrow> used \<le> BUCKET_BYTES \<Longrightarrow>
   BUCKET_BYTES < first_overflow used es"
  by (induction es arbitrary: used) (auto simp: add.assoc)

lemma append_entries_bucket_of:
  assumes "used_bytes es \<le> BUCKET_BYTES" "list_all entry_ok fs"
  shows "append_entries (bucket_of salt es) (of_nat (used_bytes es)) fs =
    (if used_bytes (es @ fs) \<le> BUCKET_BYTES
     then Ok (bucket_of salt (es @ fs), of_nat (used_bytes (es @ fs)))
     else Err (Overflow (first_overflow (used_bytes es) fs) BUCKET_BYTES))"
  using assms
proof (induction fs arbitrary: es)
  case Nil
  then show ?case by simp
next
  case (Cons f fs)
  obtain disc rec where f: "f = (kind_of rec, disc, rec)"
    using Cons.prems(2) by (cases f) auto
  have split: "used_bytes (es @ f # fs) = used_bytes (es @ [f]) + length (payload fs)"
    by (simp add: used_bytes_def)
  show ?case
  proof (cases "used_bytes (es @ [f]) \<le> BUCKET_BYTES")
    case True
    then have "append_entry (bucket_of salt es) (of_nat (used_bytes es)) (kind_of rec) disc rec =
        Ok (bucket_of salt (es @ [f]), of_nat (used_bytes (es @ [f])))"
      using Cons.prems(1) by (simp add: append_entry_bucket_of f)
    then show ?thesis
      using Cons.IH [OF True] Cons.prems(2) True f by simp
  next
    case False
    then show ?thesis
      using Cons.prems(1) split by (simp add: append_entry_bucket_of f)
  qed
qed

lemma encode_bucket_eq:
  assumes "list_all entry_ok es"
  shows "encode_bucket salt es =
    (if used_bytes es \<le> BUCKET_BYTES then Ok (bucket_of salt es)
     else Err (Overflow (first_overflow FIRST_ENTRY_OFFSET es) BUCKET_BYTES))"
proof -
  have "append_entries (bucket_of salt []) (of_nat (used_bytes [])) es =
    (if used_bytes ([] @ es) \<le> BUCKET_BYTES
     then Ok (bucket_of salt ([] @ es), of_nat (used_bytes ([] @ es)))
     else Err (Overflow (first_overflow (used_bytes []) es) BUCKET_BYTES))"
    using assms by (intro append_entries_bucket_of) (simp_all add: bucket_consts)
  then show ?thesis
    by (simp add: encode_bucket_def write_salt_empty FIRST_ENTRY_OFFSET_eq)
qed


section \<open>Decoding\<close>

definition matching :: "u16 \<Rightarrow> bucket_entry list \<Rightarrow> dns_record list" where
  "matching want es = map (\<lambda>(k, d, rec). rec) (filter (\<lambda>(k, d, rec). d = want) es)"

lemma matching_simps [simp]:
  "matching want [] = []"
  "matching want ((k, d, rec) # es) = (if d = want then [rec] else []) @ matching want es"
  "matching want (es @ fs) = matching want es @ matching want fs"
  by (simp_all add: matching_def)

lemma decode_entries_payload:
  assumes "list_all entry_ok es" "length pre + length (payload es) \<le> BUCKET_BYTES"
  shows "decode_entries (pre @ payload es @ zs) want (length es) (length pre) = matching want es"
  using assms
proof (induction es arbitrary: pre)
  case Nil
  then show ?case by simp
next
  case (Cons e es)
  obtain disc rec where e: "e = (kind_of rec, disc, rec)" and d: "disc AND DISC_MASK = disc"
    using Cons.prems(1) by (cases e) auto
  let ?tag = "pack_tag disc (kind_of rec)" and ?rd = "record_octets rec"
  let ?bucket = "pre @ payload (e # es) @ zs"
  have tag: "slice_at ?bucket (length pre) 2 = ?tag"
    by (simp add: e slice_at_def)
  have rd: "slice_at ?bucket (length pre + 2) (rdata_width rec) = ?rd"
    by (simp add: e slice_at_def)
  have "decode_entries ((pre @ ?tag @ ?rd) @ payload es @ zs) want (length es) (length (pre @ ?tag @ ?rd)) =
      matching want es"
    using Cons.prems by (intro Cons.IH) (auto simp: e)
  then have rest: "decode_entries ?bucket want (length es) (length pre + 2 + rdata_width rec) = matching want es"
    by (simp add: e add.assoc)
  show ?case
    using Cons.prems(2) tag rd rest
    by (simp add: parse_pack_tag d kind_of_masked Let_def e del: payload_simps(2)) (auto simp: e)
qed

lemma decode_bucket_of:
  assumes "list_all entry_ok es" "used_bytes es \<le> BUCKET_BYTES"
  shows "decode_bucket_matching (bucket_of salt es) want = matching want es"
proof -
  have "decode_entries ((to_le_bytes salt @ to_le_bytes (of_nat (length es) :: u16)) @ payload es @
      replicate (BUCKET_BYTES - used_bytes es) 0) want (length es)
      (length (to_le_bytes salt @ to_le_bytes (of_nat (length es) :: u16))) = matching want es"
    using assms by (intro decode_entries_payload) (simp_all add: used_bytes_def FIRST_ENTRY_OFFSET_eq)
  then show ?thesis
    using entry_count_small(1) [OF assms(2)]
    by (simp add: decode_bucket_matching_def read_count_bucket_of FIRST_ENTRY_OFFSET_eq)
      (simp add: bucket_of_def)
qed


section \<open>Properties of the bucket layer\<close>

text \<open>
  A tag packs a discriminator of 14 bits and a kind of 2 bits into two bytes, and parsing it gives
  both back; \<open>discriminator\<close> always yields such a value and every kind the program writes has 2 bits.
\<close>

theorem tag_roundtrip:
  "parse_tag (pack_tag (discriminator name g b) (kind_of rec)) = (discriminator name g b, kind_of rec) \<and>
   unat (discriminator name g b) < 2 ^ 14"
proof -
  have "discriminator name g b = take_bit 14 (discriminator name g b)"
    using discriminator_masked [of name g b] by (simp add: DISC_MASK_eq take_bit_eq_mask)
  then have "unat (discriminator name g b) = unat (discriminator name g b) mod 2 ^ 14"
    by (metis unsigned_take_bit_eq take_bit_eq_mod)
  then show ?thesis
    using mod_less_divisor [of "2 ^ 14" "unat (discriminator name g b)"]
    by (simp add: parse_pack_tag discriminator_masked kind_of_masked)
qed

text \<open>
  C11. Encoding a list of entries and decoding the bucket: the buffer has \<open>BUCKET_BYTES\<close> bytes, its
  header reads back the salt and the number of entries, and for every discriminator the decoder
  returns exactly the records stored under it, in the order they were appended.
\<close>

theorem encode_decode_bucket:
  assumes "list_all entry_ok es" "encode_bucket salt es = Ok bucket"
  shows "length bucket = BUCKET_BYTES \<and> read_bucket_salt bucket = salt \<and>
    unat (read_entry_count bucket) = length es \<and> decode_bucket_matching bucket want = matching want es"
proof -
  have fits: "used_bytes es \<le> BUCKET_BYTES" and b: "bucket = bucket_of salt es"
    using assms by (auto simp: encode_bucket_eq split: if_splits)
  then show ?thesis
    using entry_count_small(1) [OF fits] by (simp add: decode_bucket_of assms(1) read_count_bucket_of)
qed

definition demo_entries :: "bucket_entry list" where
  "demo_entries =
     [(KIND_A, 5, Rec_A (Ipv4Addr 1 2 3 4)),
      (KIND_NS6, 9, Rec_Ns (V6 (Ipv6Addr 0x2001 0xDB8 0 0 0 0 0 1))),
      (KIND_A, 5, Rec_A (Ipv4Addr 10 0 0 1))]"

lemma demo_entries_facts: "list_all entry_ok demo_entries" "used_bytes demo_entries \<le> BUCKET_BYTES"
  by (simp_all add: demo_entries_def DISC_MASK_eq mask_eq_exp_minus_1 used_bytes_def bucket_consts)

theorem encode_decode_bucket_witness:
  "\<exists>bucket. encode_bucket 7 demo_entries = Ok bucket \<and> read_bucket_salt bucket = 7 \<and>
     decode_bucket_matching bucket 5 = [Rec_A (Ipv4Addr 1 2 3 4), Rec_A (Ipv4Addr 10 0 0 1)]"
proof -
  have "encode_bucket 7 demo_entries = Ok (bucket_of 7 demo_entries)"
    using demo_entries_facts by (simp add: encode_bucket_eq)
  with encode_decode_bucket [OF demo_entries_facts(1) this, of 5] show ?thesis
    by (simp add: demo_entries_def)
qed

text \<open>
  C13. \<open>encode_bucket\<close> succeeds exactly when header and entries fit into \<open>BUCKET_BYTES\<close>; otherwise it
  reports an overflow whose \<open>needed\<close> exceeds the available bytes. It never panics, and the
  entry-count error cannot occur: the byte budget is exhausted first.
\<close>

theorem encode_bucket_outcome:
  assumes "list_all entry_ok es"
  shows "if FIRST_ENTRY_OFFSET + (\<Sum>(k, d, rec) \<leftarrow> es. 2 + rdata_width rec) \<le> BUCKET_BYTES
    then \<exists>bucket. encode_bucket salt es = Ok bucket
    else \<exists>needed > BUCKET_BYTES. encode_bucket salt es = Err (Overflow needed BUCKET_BYTES)"
proof -
  have len: "length (payload es) = (\<Sum>(k, d, rec) \<leftarrow> es. 2 + rdata_width rec)"
    by (induction es) auto
  have "FIRST_ENTRY_OFFSET \<le> BUCKET_BYTES" by (simp add: bucket_consts)
  then show ?thesis
    using assms first_overflow_over [of FIRST_ENTRY_OFFSET es]
    by (simp add: encode_bucket_eq used_bytes_def len)
qed

theorem encode_bucket_outcome_witness:
  "(\<exists>bucket. encode_bucket 7 demo_entries = Ok bucket) \<and>
   (\<exists>needed > BUCKET_BYTES. encode_bucket 7 (replicate 500 (KIND_A, 5, Rec_A (Ipv4Addr 1 2 3 4))) =
      Err (Overflow needed BUCKET_BYTES))"
proof -
  have ok: "list_all entry_ok (replicate 500 (KIND_A, 5, Rec_A (Ipv4Addr 1 2 3 4)))"
    by (simp add: list_all_iff DISC_MASK_eq mask_eq_exp_minus_1)
  have "(\<Sum>(k, d, rec) \<leftarrow> replicate 500 (KIND_A, 5 :: u16, Rec_A (Ipv4Addr 1 2 3 4)). 2 + rdata_width rec) = 3000"
    by (simp add: sum_list_replicate)
  then show ?thesis
    using encode_bucket_outcome [OF ok, of 7] encode_bucket_outcome [OF demo_entries_facts(1), of 7]
    by (simp add: bucket_consts demo_entries_def)
qed

end
