(* ===== verification/Coeff_Packing.thy ===== *)
theory Coeff_Packing
  imports Bucket_Layout
begin

text \<open>
  The boundary between bucket bytes and plaintext coefficients (\<open>pack_bytes_into_coeffs\<close> and
  \<open>unpack_coeffs_into_bytes\<close> of \<open>crates/dns-over-pir/src/dns/bucket.rs\<close>): the two functions are
  inverse to each other on buckets and on vectors of 10-bit coefficients.
\<close>

definition coeff_mask :: u64 where
  "coeff_mask = push_bit COEFF_BITS 1 - 1"

lemma coeff_mask_eq: "coeff_mask = mask 10"
  by (simp add: coeff_mask_def COEFF_BITS_def mask_eq_exp_minus_1)

lemma coeff_mask_fold: "(2 ^ COEFF_BITS - 1 :: u64) = coeff_mask"
  by (simp add: coeff_mask_def)

lemma masked_through_u16: "(ucast (ucast (x AND coeff_mask) :: u16) :: u64) AND coeff_mask = x AND coeff_mask"
  by (rule bit_word_eqI) (auto simp: bit_simps coeff_mask_eq)

lemma recombine_chunks:
  fixes v :: u64
  shows "(v AND coeff_mask) OR push_bit 10 (drop_bit 10 v AND coeff_mask) OR
     push_bit 20 (drop_bit 20 v AND coeff_mask) OR push_bit 30 (drop_bit 30 v AND coeff_mask) =
     take_bit 40 v"
proof (rule bit_word_eqI)
  fix n assume "n < LENGTH(64)"
  consider "n < 10" | "10 \<le> n" "n < 20" | "20 \<le> n" "n < 30" | "30 \<le> n" "n < 40" | "40 \<le> n"
    by linarith
  then show "bit ((v AND coeff_mask) OR push_bit 10 (drop_bit 10 v AND coeff_mask) OR
     push_bit 20 (drop_bit 20 v AND coeff_mask) OR push_bit 30 (drop_bit 30 v AND coeff_mask)) n =
     bit (take_bit 40 v) n"
    using \<open>n < LENGTH(64)\<close> by cases (auto simp: bit_simps coeff_mask_eq)
qed

lemma five_bytes_small:
  assumes "length bs = 5"
  shows "take_bit 40 (from_le_bytes (bs @ replicate 3 0) :: u64) = from_le_bytes (bs @ replicate 3 0)"
proof (rule bit_word_eqI)
  fix n assume n: "n < LENGTH(64)"
  have "\<not> bit (from_le_bytes (bs @ replicate 3 0) :: u64) n" if "40 \<le> n"
  proof -
    have "5 \<le> n div 8" "n div 8 < 8" using that n by auto
    then have "(bs @ replicate 3 0) ! (n div 8) = 0"
      using assms by (simp add: nth_append)
    then show ?thesis
      using assms by (simp add: bit_from_le_bytes)
  qed
  then show "bit (take_bit 40 (from_le_bytes (bs @ replicate 3 0) :: u64)) n =
      bit (from_le_bytes (bs @ replicate 3 0) :: u64) n"
    by (cases "40 \<le> n") (auto simp: bit_simps)
qed

lemma length_pack_group [simp]: "length (pack_group bucket g) = 4"
  by (simp add: pack_group_def Let_def)

lemma length_unpack_group [simp]: "length (unpack_group coeffs g) = 5"
  by (simp add: unpack_group_def Let_def slice_at_def)

lemma length_pack_bytes [simp]: "length (pack_bytes_into_coeffs bucket) = RING_N"
  unfolding pack_bytes_into_coeffs_def
  by (subst length_concat_groups [where k = 4]) (simp_all add: RING_N_eq COEFFS_PER_GROUP_def)

lemma length_unpack_coeffs [simp]: "length (unpack_coeffs_into_bytes coeffs) = BUCKET_BYTES"
  unfolding unpack_coeffs_into_bytes_def
  by (subst length_concat_groups [where k = 5])
    (simp_all add: RING_N_eq COEFFS_PER_GROUP_def BUCKET_BYTES_eq)

lemma pack_bytes_nth:
  "g < 512 \<Longrightarrow> i < 4 \<Longrightarrow> pack_bytes_into_coeffs bucket ! (g * 4 + i) = pack_group bucket g ! i"
  unfolding pack_bytes_into_coeffs_def
  by (subst nth_concat_groups [where k = 4]) (simp_all add: RING_N_eq COEFFS_PER_GROUP_def)

lemma unpack_pack_group:
  assumes "length bucket = BUCKET_BYTES" "g < 512"
  shows "unpack_group (pack_bytes_into_coeffs bucket) g = slice_at bucket (g * 5) 5"
proof -
  let ?bs = "slice_at bucket (g * 5) 5"
  let ?v = "from_le_bytes (?bs @ replicate 3 0) :: u64"
  have len: "length ?bs = 5"
    using assms by (simp add: slice_at_def BUCKET_BYTES_eq)
  have c: "pack_bytes_into_coeffs bucket ! (g * 4 + i) = ucast (drop_bit (10 * i) ?v AND coeff_mask)"
    if "i < 4" for i
  proof -
    from that have "i \<in> {0, 1, 2, 3}" by auto
    then show ?thesis
      using pack_bytes_nth [OF assms(2) that, of bucket]
      by (auto simp: pack_group_def Let_def coeff_mask_fold)
  qed
  have "unpack_group (pack_bytes_into_coeffs bucket) g =
      slice_at (to_le_bytes ((?v AND coeff_mask) OR push_bit 10 (drop_bit 10 ?v AND coeff_mask) OR
     push_bit 20 (drop_bit 20 ?v AND coeff_mask) OR push_bit 30 (drop_bit 30 ?v AND coeff_mask))) 0 5"
    using c [of 0] c [of 1] c [of 2] c [of 3]
    by (simp add: unpack_group_def Let_def masked_through_u16 coeff_mask_fold)
  also have "\<dots> = slice_at (to_le_bytes ?v) 0 5"
    by (simp only: recombine_chunks five_bytes_small [OF len])
  also have "\<dots> = ?bs"
    using len by (simp add: to_from_le_bytes slice_prefix)
  finally show ?thesis .
qed

lemma unpack_pack_bytes:
  assumes "length bucket = BUCKET_BYTES"
  shows "unpack_coeffs_into_bytes (pack_bytes_into_coeffs bucket) = bucket"
proof -
  have "map (unpack_group (pack_bytes_into_coeffs bucket)) [0..<512] =
      map (\<lambda>g. slice_at bucket (g * 5) 5) [0..<512]"
    using assms by (intro map_cong) (auto simp: unpack_pack_group)
  then show ?thesis
    using assms concat_slices [of bucket 5 512]
    by (simp del: map_eq_conv add: unpack_coeffs_into_bytes_def RING_N_eq COEFFS_PER_GROUP_def BUCKET_BYTES_eq)
qed

lemma pack_bytes_small:
  assumes "c \<in> set (pack_bytes_into_coeffs bucket)"
  shows "unat c < 2 ^ COEFF_BITS"
proof -
  obtain x :: u64 where "c = ucast (x AND coeff_mask)"
    using assms by (auto simp: pack_bytes_into_coeffs_def pack_group_def Let_def simp: coeff_mask_fold)
  then have "c = c AND mask 10"
    by (intro bit_word_eqI) (auto simp: bit_simps coeff_mask_eq)
  then have "unat c = unat c mod 2 ^ 10"
    by (metis take_bit_eq_mask take_bit_eq_mod unsigned_take_bit_eq)
  then show ?thesis
    using mod_less_divisor [of "2 ^ 10" "unat c"] by (simp add: COEFF_BITS_def)
qed


section \<open>The other direction\<close>

lemma from_le_take5: "from_le_bytes (slice_at (to_le_bytes (v :: u64)) 0 5 @ replicate 3 0) = take_bit 40 v"
proof (rule bit_word_eqI)
  fix n assume n: "n < LENGTH(64)"
  have len: "length (slice_at (to_le_bytes v) 0 5) = 5"
    by (simp add: slice_at_def)
  show "bit (from_le_bytes (slice_at (to_le_bytes v) 0 5 @ replicate 3 0) :: u64) n = bit (take_bit 40 v) n"
  proof (cases "n < 40")
    case True
    then have d: "n div 8 < 5" by simp
    then have "(slice_at (to_le_bytes v) 0 5 @ replicate 3 0) ! (n div 8) = ucast (drop_bit (8 * (n div 8)) v)"
      by (simp add: nth_append len) (simp add: slice_at_def to_le_bytes_def)
    then show ?thesis
      using n d True by (simp add: bit_from_le_bytes len bit_simps)
  next
    case False
    then have "(slice_at (to_le_bytes v) 0 5 @ replicate 3 0) ! (n div 8) = 0" if "n div 8 < 8"
      using that False by (auto simp: nth_append len nth_replicate)
    then show ?thesis
      using n False by (auto simp: bit_from_le_bytes len bit_simps)
  qed
qed

definition joined :: "u64 \<Rightarrow> u64 \<Rightarrow> u64 \<Rightarrow> u64 \<Rightarrow> u64" where
  "joined a b c d = (a AND coeff_mask) OR push_bit 10 (b AND coeff_mask) OR
     push_bit 20 (c AND coeff_mask) OR push_bit 30 (d AND coeff_mask)"

lemma bit_joined:
  "bit (joined a b c d) n \<longleftrightarrow>
     (if n < 10 then bit a n else if n < 20 then bit b (n - 10) else if n < 30 then bit c (n - 20)
      else n < 40 \<and> bit d (n - 30))"
proof -
  consider "n < 10" | "10 \<le> n" "n < 20" | "20 \<le> n" "n < 30" | "30 \<le> n" "n < 40" | "40 \<le> n"
    by linarith
  then show ?thesis
    by cases (auto simp: joined_def coeff_mask_eq bit_simps less_diff_conv2)
qed

lemma joined_small: "take_bit 40 (joined a b c d) = joined a b c d"
  by (rule bit_word_eqI) (auto simp: bit_take_bit_iff bit_joined)

lemma joined_chunks:
  "joined a b c d AND coeff_mask = a AND coeff_mask"
  "drop_bit 10 (joined a b c d) AND coeff_mask = b AND coeff_mask"
  "drop_bit 20 (joined a b c d) AND coeff_mask = c AND coeff_mask"
  "drop_bit 30 (joined a b c d) AND coeff_mask = d AND coeff_mask"
  by (rule bit_word_eqI, auto simp: coeff_mask_eq bit_and_iff bit_mask_iff bit_drop_bit_eq bit_joined)+

lemma unpack_coeffs_slice:
  "g < 512 \<Longrightarrow> slice_at (unpack_coeffs_into_bytes coeffs) (g * 5) 5 = unpack_group coeffs g"
proof -
  assume g: "g < 512"
  have nth: "unpack_coeffs_into_bytes coeffs ! (g * 5 + i) = unpack_group coeffs g ! i" if "i < 5" for i
    unfolding unpack_coeffs_into_bytes_def
    using g that by (subst nth_concat_groups [where k = 5]) (simp_all add: RING_N_eq COEFFS_PER_GROUP_def)
  show ?thesis
    using g nth by (intro nth_equalityI) (simp_all add: slice_at_def BUCKET_BYTES_eq)
qed

lemma small_coeff: "unat (c :: u16) < 1024 \<Longrightarrow> ucast ((ucast c :: u64) AND coeff_mask) = c"
proof -
  assume "unat c < 1024"
  then have "take_bit 10 c = c"
    by (simp add: word_unat_eq_iff unsigned_take_bit_eq take_bit_nat_eq_self)
  then have "bit c n \<longleftrightarrow> n < 10 \<and> bit c n" for n
    by (metis bit_take_bit_iff)
  then show ?thesis
    unfolding coeff_mask_eq by (intro bit_word_eqI) (simp add: bit_simps, blast)
qed

lemma slice_four:
  assumes "i + 4 \<le> length xs"
  shows "slice_at xs i 4 = [xs ! i, xs ! (i + 1), xs ! (i + 2), xs ! (i + 3)]"
proof -
  have "drop i xs = xs ! i # xs ! Suc i # xs ! Suc (Suc i) # xs ! Suc (Suc (Suc i)) # drop (Suc (Suc (Suc (Suc i)))) xs"
    using assms by (simp add: Cons_nth_drop_Suc)
  then show ?thesis
    by (simp add: slice_at_def numeral_3_eq_3)
qed

lemma pack_unpack_coeffs:
  assumes "length coeffs = RING_N" "\<forall>c \<in> set coeffs. unat c < 1024"
  shows "pack_bytes_into_coeffs (unpack_coeffs_into_bytes coeffs) = coeffs"
proof -
  have group: "pack_group (unpack_coeffs_into_bytes coeffs) g = slice_at coeffs (g * 4) 4" if g: "g < 512" for g
  proof -
    let ?c = "\<lambda>i. ucast (coeffs ! (g * 4 + i)) :: u64"
    have u: "unpack_group coeffs g = slice_at (to_le_bytes (joined (?c 0) (?c 1) (?c 2) (?c 3))) 0 5"
      by (simp add: unpack_group_def joined_def Let_def coeff_mask_fold)
    have small: "ucast (?c i AND coeff_mask) = coeffs ! (g * 4 + i)" if "i < 4" for i
      using assms g that by (intro small_coeff) (simp add: RING_N_eq)
    have "pack_group (unpack_coeffs_into_bytes coeffs) g =
        [coeffs ! (g * 4), coeffs ! (g * 4 + 1), coeffs ! (g * 4 + 2), coeffs ! (g * 4 + 3)]"
      using small [of 0] small [of 1] small [of 2] small [of 3]
      by (simp add: pack_group_def unpack_coeffs_slice [OF g] u from_le_take5 joined_small Let_def
          coeff_mask_fold joined_chunks)
    also have "\<dots> = slice_at coeffs (g * 4) 4"
      using g assms(1) by (intro slice_four [symmetric]) (simp add: RING_N_eq)
    finally show ?thesis .
  qed
  have "map (pack_group (unpack_coeffs_into_bytes coeffs)) [0..<512] = map (\<lambda>g. slice_at coeffs (g * 4) 4) [0..<512]"
    using group by (intro map_cong) auto
  then show ?thesis
    using assms(1) concat_slices [of coeffs 4 512]
    by (simp del: map_eq_conv add: pack_bytes_into_coeffs_def RING_N_eq COEFFS_PER_GROUP_def)
qed


section \<open>The packing is a bijection\<close>

text \<open>
  C12. \<open>pack_bytes_into_coeffs\<close> and \<open>unpack_coeffs_into_bytes\<close> are inverse to each other: unpacking the
  coefficients of a bucket gives the bucket back, all of the \<open>N\<close> coefficients fit into the 10 payload
  bits of the plaintext modulus 1025, and every vector of \<open>N\<close> such coefficients is the packing of
  the bytes it unpacks to.
\<close>

theorem packing_bijection:
  "(length bucket = BUCKET_BYTES \<longrightarrow>
     unpack_coeffs_into_bytes (pack_bytes_into_coeffs bucket) = bucket \<and>
     length (pack_bytes_into_coeffs bucket) = RING_N \<and>
     (\<forall>c \<in> set (pack_bytes_into_coeffs bucket). unat c < 1024)) \<and>
   (length coeffs = RING_N \<and> (\<forall>c \<in> set coeffs. unat c < 1024) \<longrightarrow>
     length (unpack_coeffs_into_bytes coeffs) = BUCKET_BYTES \<and>
     pack_bytes_into_coeffs (unpack_coeffs_into_bytes coeffs) = coeffs)"
  using pack_bytes_small [of _ bucket]
  by (simp add: unpack_pack_bytes pack_unpack_coeffs COEFF_BITS_def)

theorem packing_bijection_witness:
  "unpack_coeffs_into_bytes (pack_bytes_into_coeffs (replicate BUCKET_BYTES 0xA5)) = replicate BUCKET_BYTES 0xA5 \<and>
   pack_bytes_into_coeffs (unpack_coeffs_into_bytes (replicate RING_N 1023)) = replicate RING_N 1023"
  using packing_bijection [of "replicate BUCKET_BYTES 0xA5" "replicate RING_N 1023"]
  by simp

end
