(* ===== verification/Client.thy ===== *)
theory Client
  imports Zone Protocol Coeff_Packing
begin

text \<open>
  \<open>crates/dns-over-pir/src/dns/client.rs\<close>: the walk over one server's zone, the iterative resolver,
  the answers of a downloaded zone, the session set-up over one connection, the PIR query, the cache
  of the global zone and the top-level run. Servers are seen through the \<open>DnsServer\<close> trait: a zone
  name and a query function. The outside world is an argument: \<open>connect\<close> gives the outcome of each
  connection attempt (numbered, since a later attempt may end differently), and the PIR engine
  prepares queries and decodes replies.
\<close>

section \<open>Names\<close>

fun strip_leftmost :: "string \<Rightarrow> string option" where
  "strip_leftmost [] = None"
| "strip_leftmost (c # s) = (if c = CHR ''.'' then Some s else strip_leftmost s)"

definition target_belongs_to_zone :: "string \<Rightarrow> string \<Rightarrow> bool" where
  "target_belongs_to_zone target zone \<longleftrightarrow>
     (if zone = [] then True
      else if target = zone then True
      else length target > length zone \<and> ends_with target zone \<and>
        target ! (length target - length zone - 1) = CHR ''.'')"

lemma strip_leftmost_shorter: "strip_leftmost s = Some t \<Longrightarrow> length t < length s"
  by (induction s) (auto split: if_splits)


section \<open>One hop\<close>

record dns_server =
  srv_zone_name :: string
  srv_query :: "string \<Rightarrow> (io_error, dns_record list) outcome"

datatype hop_outcome =
  Answer "dns_record list"
| Delegation string "ip_addr list"
| Hop_NotFound
| OutOfZone

fun is_address :: "dns_record \<Rightarrow> bool" where
  "is_address (Rec_A _) = True"
| "is_address (Rec_Aaaa _) = True"
| "is_address (Rec_Ns _) = False"

fun ns_ips_of :: "dns_record list \<Rightarrow> ip_addr list" where
  "ns_ips_of [] = []"
| "ns_ips_of (Rec_Ns ip # rs) = ip # ns_ips_of rs"
| "ns_ips_of (r # rs) = ns_ips_of rs"

function hop_loop :: "dns_server \<Rightarrow> string \<Rightarrow> string \<Rightarrow> (io_error, hop_outcome) outcome" where
  "hop_loop server target try_name =
     bind_outcome (srv_query server try_name)
       (\<lambda>records.
         let a_recs = filter is_address records; ns_ips = ns_ips_of records in
         if try_name = target \<and> a_recs \<noteq> [] then Ok (Answer a_recs)
         else if ns_ips \<noteq> [] then Ok (Delegation try_name ns_ips)
         else if try_name = srv_zone_name server then Ok Hop_NotFound
         else case strip_leftmost try_name of
           Some stripped \<Rightarrow> hop_loop server target stripped
         | None \<Rightarrow> Ok Hop_NotFound)"
  by pat_completeness auto
termination
  by (relation "measure (\<lambda>(_, _, try_name). length try_name)") (auto dest: strip_leftmost_shorter)

declare hop_loop.simps [simp del]

definition one_hop :: "dns_server \<Rightarrow> string \<Rightarrow> (io_error, hop_outcome) outcome" where
  "one_hop server target =
     (if \<not> target_belongs_to_zone target (srv_zone_name server) then Ok OutOfZone
      else hop_loop server target target)"


section \<open>Iterative resolution\<close>

definition DEFAULT_PORT :: u16 where "DEFAULT_PORT = 9000"
definition MAX_HOPS :: nat where "MAX_HOPS = 16"
definition DUMP_FETCH_CAP_BYTES :: nat where "DUMP_FETCH_CAP_BYTES = 2 * 1024 * 1024"

datatype resolution_result = Found "dns_record list" | Res_NotFound | Failed string

datatype resolution_event =
  Ev_ConnectFailed socket_addr string
| Ev_HopStart nat socket_addr string
| Ev_Delegation string "ip_addr list"

fun err_text :: "io_error \<Rightarrow> string" where
  "err_text (Io_Error kind msg) = msg"

type_synonym connector = "nat \<Rightarrow> socket_addr \<Rightarrow> (io_error, dns_server) outcome"

text \<open>
  The candidate pool is a stack; the model keeps it with the next candidate first. The loop pops
  until a connection succeeds, counting the attempts and reporting the failures.
\<close>

fun connect_any ::
    "connector \<Rightarrow> nat \<Rightarrow> socket_addr list \<Rightarrow> resolution_event list
     \<Rightarrow> (io_error, (socket_addr \<times> dns_server) option) outcome \<times> nat \<times> resolution_event list" where
  "connect_any connect tried [] evs = (Ok None, tried, evs)"
| "connect_any connect tried (addr # candidates) evs =
     (case connect tried addr of
        Ok s \<Rightarrow> (Ok (Some (addr, s)), tried + 1, evs)
      | Err e \<Rightarrow> connect_any connect (tried + 1) candidates (evs @ [Ev_ConnectFailed addr (err_text e)])
      | Panic \<Rightarrow> (Panic, tried + 1, evs))"

function resolve_loop ::
    "connector \<Rightarrow> string \<Rightarrow> nat \<Rightarrow> nat \<Rightarrow> socket_addr list \<Rightarrow> resolution_event list
     \<Rightarrow> (io_error, resolution_result) outcome \<times> resolution_event list" where
  "resolve_loop connect target hops tried candidates evs =
     (if candidates = [] then (Ok (Failed ''no candidates left to try''), evs)
      else if hops \<ge> MAX_HOPS then
        (Ok (Failed (''too many hops ('' @ show_radix 10 MAX_HOPS @ '')'')), evs)
      else case connect_any connect tried candidates evs of
        (Panic, tried, evs) \<Rightarrow> (Panic, evs)
      | (Err e, tried, evs) \<Rightarrow> (Err e, evs)
      | (Ok None, tried, evs) \<Rightarrow>
          (Ok (Failed (''no candidate server reachable (tried '' @ show_radix 10 tried @ '')'')), evs)
      | (Ok (Some (addr, server)), tried, evs) \<Rightarrow>
          let hops = hops + 1;
              evs = evs @ [Ev_HopStart hops addr (srv_zone_name server)]
          in case one_hop server target of
            Ok (Answer recs) \<Rightarrow> (Ok (Found recs), evs)
          | Ok (Delegation from_name ns_ips) \<Rightarrow>
              resolve_loop connect target hops tried
                (map (\<lambda>ip. SocketAddr ip DEFAULT_PORT) ns_ips) (evs @ [Ev_Delegation from_name ns_ips])
          | Ok Hop_NotFound \<Rightarrow> (Ok Res_NotFound, evs)
          | Ok OutOfZone \<Rightarrow>
              (Ok (Failed (''target '' @ target @ '' doesn'' @ [CHR 0x27] @ ''t belong to zone .'' @
                 srv_zone_name server)), evs)
          | Err e \<Rightarrow> (Ok (Failed (''query error: '' @ err_text e)), evs)
          | Panic \<Rightarrow> (Panic, evs))"
  by pat_completeness auto
termination
  by (relation "measure (\<lambda>(_, _, hops, _). MAX_HOPS - hops)") auto

declare resolve_loop.simps [simp del]

definition resolve_iteratively ::
    "string \<Rightarrow> socket_addr list \<Rightarrow> connector
     \<Rightarrow> (io_error, resolution_result) outcome \<times> resolution_event list" where
  "resolve_iteratively target initial_candidates connect =
     (let target = canonical target in
      if target = [] then (Ok (Failed ''empty domain name''), [])
      else if initial_candidates = [] then (Ok (Failed ''no servers to try''), [])
      else resolve_loop connect target 0 0 initial_candidates [])"


section \<open>A downloaded zone as a server\<close>

fun local_ns :: "zone \<Rightarrow> u32 list \<Rightarrow> (io_error, dns_record list) outcome" where
  "local_ns zone [] = Ok []"
| "local_ns zone (ns_idx # idxs) =
     bind_outcome (ns_hostname zone ns_idx) (\<lambda>nshost.
     let ip = (case glue_for zone nshost of Some ip \<Rightarrow> ip | None \<Rightarrow> dummy_ip nshost) in
     bind_outcome (local_ns zone idxs) (\<lambda>rest. Ok (Rec_Ns ip # rest)))"

definition local_query :: "zone \<Rightarrow> string \<Rightarrow> (io_error, dns_record list) outcome" where
  "local_query zone canon_name =
     (case map_of (zn_records zone) canon_name of
        None \<Rightarrow> Ok []
      | Some rec \<Rightarrow>
          bind_outcome (local_ns zone (nr_ns rec))
            (\<lambda>ns. Ok (map Rec_A (nr_a rec) @ map Rec_Aaaa (nr_aaaa rec) @ ns)))"

definition local_zone_server :: "zone \<Rightarrow> dns_server" where
  "local_zone_server zone = \<lparr>srv_zone_name = zn_zone_name zone, srv_query = local_query zone\<rparr>"


section \<open>Sessions over a connection\<close>

definition show_socket_addr :: "socket_addr \<Rightarrow> string" where
  "show_socket_addr addr =
     (case addr of
        SocketAddr (V4 ip) port \<Rightarrow> show_v4 ip @ '':'' @ show_radix 10 (unat port)
      | SocketAddr (V6 ip) port \<Rightarrow> ''['' @ show_v6 ip @ '']:'' @ show_radix 10 (unat port))"

text \<open>\<open>HybridFactory::connect\<close> ends with a downloaded zone, or with the open connection for PIR queries.\<close>

datatype session = Local_Session zone | Tcp_Session info_response

definition request :: "conn \<Rightarrow> bytes \<Rightarrow> (io_error, bytes) outcome \<times> conn" where
  "request c msg =
     (case write_frame c msg of
        (Ok _, c) \<Rightarrow> read_frame c
      | (Err e, c) \<Rightarrow> (Err e, c)
      | (Panic, c) \<Rightarrow> (Panic, c))"

text \<open>
  \<open>cache\<close> is the content of the cache file, \<open>cache_path\<close> whether the factory has one, and
  \<open>write_ok\<close> whether writing it succeeds; a failed write is only reported.
\<close>

definition save_cache :: "(bytes \<Rightarrow> bool) \<Rightarrow> bytes \<Rightarrow> bytes option \<Rightarrow> bytes option" where
  "save_cache write_ok gz cache = (if write_ok gz then Some gz else cache)"

definition hybrid_connect ::
    "codec \<Rightarrow> bool \<Rightarrow> (bytes \<Rightarrow> bool) \<Rightarrow> socket_addr \<Rightarrow> conn \<Rightarrow> bytes option
     \<Rightarrow> (io_error, session) outcome \<times> conn \<times> bytes option" where
  "hybrid_connect decompress cache_path write_ok addr c cache =
     (case request c [CMD_INFO] of
        (Err e, c) \<Rightarrow> (Err e, c, cache)
      | (Panic, c) \<Rightarrow> (Panic, c, cache)
      | (Ok info_bytes, c) \<Rightarrow>
        (case decode_info info_bytes of
           Err e \<Rightarrow> (Err e, c, cache)
         | Panic \<Rightarrow> (Panic, c, cache)
         | Ok info \<Rightarrow>
           if has_dump info \<and> unat (ir_dump_size info) \<le> DUMP_FETCH_CAP_BYTES then
             (case request c [CMD_DUMP] of
                (Err e, c) \<Rightarrow> (Err e, c, cache)
              | (Panic, c) \<Rightarrow> (Panic, c, cache)
              | (Ok gz, c) \<Rightarrow>
                if gz = RESP_UNAVAILABLE then
                  (Err (Io_Error OtherKind (''server at '' @ show_socket_addr addr @
                     '' advertised a dump but refused to send it'')), c, cache)
                else if length gz > DUMP_FETCH_CAP_BYTES then
                  (Err (Io_Error InvalidData (''dump '' @ show_radix 10 (length gz) @ '' B exceeds cap '' @
                     show_radix 10 DUMP_FETCH_CAP_BYTES @ '' B'')), c, cache)
                else
                  let cache = (if ir_zone_name info = [] \<and> cache_path
                               then save_cache write_ok gz cache else cache)
                  in (bind_outcome (load_dump decompress gz) (\<lambda>zone. Ok (Local_Session zone)), c, cache))
           else if has_pir info then (Ok (Tcp_Session info), c, cache)
           else (Err (Io_Error OtherKind (''server at '' @ show_socket_addr addr @
                   '' offers neither PIR nor a fetchable dump'')), c, cache)))"

text \<open>
  \<open>TcpDnsServer::query\<close>. The engine's \<open>prepare\<close> (with its random seed) gives the query bytes and
  the key seed, its \<open>process_reply\<close> the coefficients, as their smallest non-negative lifts.
\<close>

definition coeffs_to_bucket :: "nat list \<Rightarrow> (io_error, bytes) outcome" where
  "coeffs_to_bucket coeffs =
     (if \<not> length coeffs \<ge> RING_N then Panic
      else Ok (unpack_coeffs_into_bytes (map (\<lambda>i. of_nat (coeffs ! i)) [0..<RING_N])))"

definition read_answer :: "u64 \<Rightarrow> string \<Rightarrow> nat list \<Rightarrow> (io_error, dns_record list) outcome" where
  "read_answer salt canon_name coeffs =
     bind_outcome (coeffs_to_bucket coeffs) (\<lambda>bucket_bytes.
     let bucket_salt = read_bucket_salt bucket_bytes;
         disc = discriminator canon_name salt bucket_salt
     in Ok (decode_bucket_matching bucket_bytes disc))"

definition tcp_query ::
    "(int \<Rightarrow> nat option) \<Rightarrow> (nat \<Rightarrow> nat \<Rightarrow> nat \<Rightarrow> bytes \<times> 'seed)
     \<Rightarrow> (bytes \<Rightarrow> 'seed \<Rightarrow> (io_error, nat list) outcome) \<Rightarrow> info_response \<Rightarrow> conn \<Rightarrow> string
     \<Rightarrow> (io_error, dns_record list) outcome \<times> conn" where
  "tcp_query lg prepare process_reply info c canon_name =
     (let salt = ir_hash_salt info; num_entries = unat (ir_num_entries info) in
      case slot lg canon_name num_entries salt of
        Err e \<Rightarrow> (Err e, c)
      | Panic \<Rightarrow> (Panic, c)
      | Ok (secondary_idx, primary_idx) \<Rightarrow>
        let (query_bytes, sk_seed) = prepare primary_idx secondary_idx num_entries in
        case request c (CMD_QUERY # query_bytes) of
          (Err e, c) \<Rightarrow> (Err e, c)
        | (Panic, c) \<Rightarrow> (Panic, c)
        | (Ok reply, c) \<Rightarrow>
            if reply = RESP_UNAVAILABLE
            then (Err (Io_Error OtherKind ''server refused PIR query (no PIR mode)''), c)
            else (bind_outcome (process_reply reply sk_seed) (read_answer salt canon_name), c))"


section \<open>The cache and the top-level run\<close>

definition load_cache :: "codec \<Rightarrow> bytes option \<Rightarrow> (io_error, zone option) outcome" where
  "load_cache decompress cache =
     (case cache of
        None \<Rightarrow> Ok None
      | Some gz \<Rightarrow>
          (case load_dump decompress gz of
             Ok zone \<Rightarrow> Ok (Some zone)
           | Err e \<Rightarrow> Ok None
           | Panic \<Rightarrow> Panic))"

text \<open>What \<open>run_inner\<close> prints at its end.\<close>

datatype run_report =
  Printed_Answer string "dns_record list"
| Printed_NotFound string
| Printed_Failed string

definition cached_candidates ::
    "codec \<Rightarrow> bytes option \<Rightarrow> string \<Rightarrow> (io_error, run_report + socket_addr list) outcome" where
  "cached_candidates decompress cache canon =
     bind_outcome (load_cache decompress cache) (\<lambda>cached.
       case cached of
         None \<Rightarrow> Ok (Inr [])
       | Some zone \<Rightarrow>
           if zn_zone_name zone = [] then
             (case one_hop (local_zone_server zone) canon of
                Ok (Answer recs) \<Rightarrow> Ok (Inl (Printed_Answer canon (filter is_address recs)))
              | Ok (Delegation from_name ns_ips) \<Rightarrow>
                  Ok (Inr (map (\<lambda>ip. SocketAddr ip DEFAULT_PORT) ns_ips))
              | Panic \<Rightarrow> Panic
              | _ \<Rightarrow> Ok (Inr []))
           else Ok (Inr []))"

definition add_bootstrap :: "socket_addr option \<Rightarrow> socket_addr list \<Rightarrow> socket_addr list" where
  "add_bootstrap cli_bootstrap candidates =
     (case cli_bootstrap of
        Some b \<Rightarrow> if b \<notin> set candidates then candidates @ [b] else candidates
      | None \<Rightarrow> candidates)"

definition run_inner ::
    "codec \<Rightarrow> connector \<Rightarrow> bytes option \<Rightarrow> string \<Rightarrow> socket_addr option \<Rightarrow> (io_error, run_report) outcome" where
  "run_inner decompress connect cache target cli_bootstrap =
     (let canon = canonical target in
      if canon = [] then Err (Io_Error InvalidInput ''empty domain name'')
      else bind_outcome (cached_candidates decompress cache canon) (\<lambda>cached.
        case cached of
          Inl report \<Rightarrow> Ok report
        | Inr initial_candidates \<Rightarrow>
            let initial_candidates = add_bootstrap cli_bootstrap initial_candidates in
            if initial_candidates = []
            then Ok (Printed_Failed ''no global zone cached and no --server provided'')
            else bind_outcome (fst (resolve_iteratively canon initial_candidates connect))
              (\<lambda>result. Ok (case result of
                  Found recs \<Rightarrow> Printed_Answer canon (filter is_address recs)
                | Res_NotFound \<Rightarrow> Printed_NotFound canon
                | Failed why \<Rightarrow> Printed_Failed why))))"

end
