(* ===== verification/Server.thy ===== *)
theory Server
  imports Bucket_Layout Zone Protocol
begin

text \<open>
  \<open>crates/dns-over-pir/src/dns/server.rs\<close>: choosing the number of PIR slots, grouping the names of
  a zone by slot, the salt searches, writing the buckets, deciding between dump and PIR mode, and
  the request loop of a connection. Log output and the statistics that only feed it are left out.
\<close>

section \<open>Retrying with salts\<close>

definition DUMP_THRESHOLD_BYTES :: nat where "DUMP_THRESHOLD_BYTES = 100 * 1024"
definition SKIP_COMPRESSION_ABOVE_BYTES :: nat where "SKIP_COMPRESSION_ABOVE_BYTES = 100 * DUMP_THRESHOLD_BYTES"
definition MAX_REHASH_RETRIES :: nat where "MAX_REHASH_RETRIES = 16"
definition MAX_BUCKET_SALT_ATTEMPTS :: nat where "MAX_BUCKET_SALT_ATTEMPTS = 65536"

abbreviation show_nat :: "nat \<Rightarrow> string" where
  "show_nat n \<equiv> show_radix 10 n"

definition salt_for_attempt :: "u64 \<Rightarrow> u64" where
  "salt_for_attempt attempt = (if attempt = 0 then 0 else attempt * 0x9E3779B97F4A7C15)"

fun try_salts_from ::
    "nat \<Rightarrow> nat \<Rightarrow> nat \<Rightarrow> string option \<Rightarrow> (u64 \<Rightarrow> (string, 't) outcome) \<Rightarrow> (io_error, 't \<times> u64) outcome" where
  "try_salts_from max_attempts attempt 0 last_err builder =
     Err (Io_Error OtherKind
       (''bucket build failed after '' @ show_nat max_attempts @ '' re-hash attempts; last error: '' @
        (case last_err of None \<Rightarrow> [] | Some e \<Rightarrow> e)))"
| "try_salts_from max_attempts attempt (Suc n) last_err builder =
     (let salt = salt_for_attempt (of_nat attempt) in
      case builder salt of
        Ok t \<Rightarrow> Ok (t, salt)
      | Err e \<Rightarrow> try_salts_from max_attempts (attempt + 1) n (Some e) builder
      | Panic \<Rightarrow> Panic)"

definition try_salts :: "nat \<Rightarrow> (u64 \<Rightarrow> (string, 't) outcome) \<Rightarrow> (io_error, 't \<times> u64) outcome" where
  "try_salts max_attempts builder = try_salts_from max_attempts 0 max_attempts None builder"


section \<open>Sizing\<close>

text \<open>
  The candidates of \<open>pick_num_entries\<close>. Its \<open>f64\<close> test on one candidate (the predicted maximal load
  fits into a bucket) is the argument \<open>fits\<close>.
\<close>

definition half_shard :: nat where "half_shard = SIMD_COUNT * RING_N div 2"
definition full_shard :: nat where "full_shard = SIMD_COUNT * RING_N"
definition max_shards :: nat where "max_shards = RING_N div SIMD_COUNT"

definition entry_candidates :: "nat list" where
  "entry_candidates =
     (let max_half_shards = HALF_SIZE_PRIMARY_MAX_ENTRIES div half_shard in
      map (\<lambda>k. k * half_shard) [1..<max_half_shards + 1] @
      map (\<lambda>k. k * full_shard) [HALF_SIZE_PRIMARY_MAX_ENTRIES div full_shard + 1..<max_shards + 1])"

fun first_fitting :: "(nat \<Rightarrow> bool) \<Rightarrow> nat \<Rightarrow> nat list \<Rightarrow> nat" where
  "first_fitting fits num_entries [] = num_entries"
| "first_fitting fits num_entries (candidate # candidates) =
     (if fits candidate then candidate else first_fitting fits candidate candidates)"

definition pick_num_entries :: "(nat \<Rightarrow> bool) \<Rightarrow> nat" where
  "pick_num_entries fits = first_fitting fits 0 entry_candidates"


section \<open>Building the buckets\<close>

datatype build_error =
  No_Salt nat nat nat nat                  \<comment> \<open>shard, bucket, names, shard count\<close>
| Bucket_Failure nat nat bucket_error nat  \<comment> \<open>shard, bucket, cause, shard count\<close>

fun show_bucket_error :: "bucket_error \<Rightarrow> string" where
  "show_bucket_error (TooManyEntries got limit) =
     ''too many entries: '' @ show_nat got @ '' > '' @ show_nat limit"
| "show_bucket_error (Overflow needed available) =
     ''bucket overflow: needed '' @ show_nat needed @ '' bytes, have '' @ show_nat available"

fun show_build_error :: "build_error \<Rightarrow> string" where
  "show_build_error (No_Salt sh pri names n_shards) =
     ''shard '' @ show_nat sh @ '' bucket '' @ show_nat pri @
     '': could not find a salt avoiding 14-bit discriminator collisions among '' @ show_nat names @
     '' names after '' @ show_nat MAX_BUCKET_SALT_ATTEMPTS @
     '' attempts; bucket likely overfull '' @ map char_of [0xE2, 0x80, 0x94 :: nat] @
     '' raise shard count (currently '' @ show_nat n_shards @ '') or split the zone''"
| "show_build_error (Bucket_Failure sh pri e n_shards) =
     ''shard '' @ show_nat sh @ '' bucket '' @ show_nat pri @ '': '' @ show_bucket_error e @
     ''; raise shard count (currently '' @ show_nat n_shards @ '') or split the zone''"

text \<open>The inner loop of \<open>find_bucket_salt\<close>: insert discriminators until one is already present.\<close>

fun collision_free :: "u64 \<Rightarrow> u32 \<Rightarrow> u16 set \<Rightarrow> string list \<Rightarrow> bool" where
  "collision_free global_salt salt disc_seen [] \<longleftrightarrow> True"
| "collision_free global_salt salt disc_seen (name # names) \<longleftrightarrow>
     (let d = discriminator name global_salt salt in
      if d \<in> disc_seen then False else collision_free global_salt salt (insert d disc_seen) names)"

fun find_salt_from :: "string list \<Rightarrow> u64 \<Rightarrow> nat \<Rightarrow> nat \<Rightarrow> (u32 \<times> u32) option" where
  "find_salt_from names global_salt salt 0 = None"
| "find_salt_from names global_salt salt (Suc n) =
     (if collision_free global_salt (of_nat salt) {} names
      then Some (of_nat salt, of_nat salt + 1)
      else find_salt_from names global_salt (salt + 1) n)"

definition find_bucket_salt :: "string list \<Rightarrow> u64 \<Rightarrow> (u32 \<times> u32) option" where
  "find_bucket_salt names global_salt = find_salt_from names global_salt 0 MAX_BUCKET_SALT_ATTEMPTS"

fun group_names ::
    "(int \<Rightarrow> nat option) \<Rightarrow> nat \<Rightarrow> u64 \<Rightarrow> string list list list \<Rightarrow> string list
     \<Rightarrow> (build_error, string list list list) outcome" where
  "group_names lg num_entries global_salt nib [] = Ok nib"
| "group_names lg num_entries global_salt nib (name # names) =
     bind_outcome (slot lg name num_entries global_salt)
       (\<lambda>(sh, pri).
         if sh < length nib \<and> pri < length (nib ! sh)
         then group_names lg num_entries global_salt
                (nib[sh := (nib ! sh)[pri := nib ! sh ! pri @ [name]]]) names
         else Panic)"

definition ns_record :: "zone \<Rightarrow> string \<Rightarrow> ip_addr" where
  "ns_record zone nshost = (case glue_for zone nshost of Some ip \<Rightarrow> ip | None \<Rightarrow> dummy_ip nshost)"

definition ns_kind :: "ip_addr \<Rightarrow> u8" where
  "ns_kind ip = (case ip of V4 _ \<Rightarrow> KIND_NS4 | V6 _ \<Rightarrow> KIND_NS6)"

fun append_ns ::
    "zone \<Rightarrow> u16 \<Rightarrow> bytes \<Rightarrow> u16 \<Rightarrow> u32 list \<Rightarrow> (bucket_error, bytes \<times> u16) outcome" where
  "append_ns zone disc buf pos [] = Ok (buf, pos)"
| "append_ns zone disc buf pos (ns_idx # idxs) =
     bind_outcome (ns_hostname zone ns_idx)
       (\<lambda>nshost.
         let ip = ns_record zone nshost in
         bind_outcome (append_entry buf pos (ns_kind ip) disc (Rec_Ns ip))
           (\<lambda>(buf, pos). append_ns zone disc buf pos idxs))"

definition append_name ::
    "zone \<Rightarrow> u64 \<Rightarrow> u32 \<Rightarrow> bytes \<Rightarrow> u16 \<Rightarrow> string \<Rightarrow> (bucket_error, bytes \<times> u16) outcome" where
  "append_name zone global_salt bucket_salt buf pos name =
     (let disc = discriminator name global_salt bucket_salt in
      case map_of (zn_records zone) name of
        None \<Rightarrow> Panic
      | Some rec \<Rightarrow>
          bind_outcome (append_entries buf pos (map (\<lambda>ip. (KIND_A, disc, Rec_A ip)) (nr_a rec))) (\<lambda>(buf, pos).
          bind_outcome (append_entries buf pos (map (\<lambda>ip. (KIND_AAAA, disc, Rec_Aaaa ip)) (nr_aaaa rec))) (\<lambda>(buf, pos).
          append_ns zone disc buf pos (nr_ns rec))))"

fun append_names ::
    "zone \<Rightarrow> u64 \<Rightarrow> u32 \<Rightarrow> bytes \<Rightarrow> u16 \<Rightarrow> string list \<Rightarrow> (bucket_error, bytes \<times> u16) outcome" where
  "append_names zone global_salt bucket_salt buf pos [] = Ok (buf, pos)"
| "append_names zone global_salt bucket_salt buf pos (name # names) =
     bind_outcome (append_name zone global_salt bucket_salt buf pos name)
       (\<lambda>(buf, pos). append_names zone global_salt bucket_salt buf pos names)"

definition fill_bucket ::
    "zone \<Rightarrow> u64 \<Rightarrow> nat \<Rightarrow> nat \<Rightarrow> nat \<Rightarrow> string list \<Rightarrow> bytes \<Rightarrow> (build_error, bytes) outcome" where
  "fill_bucket zone global_salt n_shards sh pri names buf =
     (if names = [] then Ok buf
      else case find_bucket_salt names global_salt of
        None \<Rightarrow> Err (No_Salt sh pri (length names) n_shards)
      | Some (bucket_salt, attempts) \<Rightarrow>
          let buf = write_bucket_salt buf bucket_salt in
          bind_outcome
            (map_err (\<lambda>e. Bucket_Failure sh pri e n_shards)
              (append_names zone global_salt bucket_salt buf (of_nat FIRST_ENTRY_OFFSET) names))
            (\<lambda>(buf, _). Ok buf))"

fun collect_ok :: "('a \<Rightarrow> ('e, 'b) outcome) \<Rightarrow> 'a list \<Rightarrow> ('e, 'b list) outcome" where
  "collect_ok f [] = Ok []"
| "collect_ok f (x # xs) = bind_outcome (f x) (\<lambda>y. bind_outcome (collect_ok f xs) (\<lambda>ys. Ok (y # ys)))"

definition build_buckets ::
    "(int \<Rightarrow> nat option) \<Rightarrow> zone \<Rightarrow> nat \<Rightarrow> u64 \<Rightarrow> (build_error, bytes list list) outcome" where
  "build_buckets lg zone num_entries global_salt =
     bind_outcome (entries_per_shard lg num_entries) (\<lambda>eps.
     bind_outcome (num_databases lg num_entries) (\<lambda>n_shards.
     bind_outcome (group_names lg num_entries global_salt
         (replicate n_shards (replicate eps [])) (map fst (zn_records zone))) (\<lambda>names_in_bucket.
     collect_ok (\<lambda>sh. collect_ok
         (\<lambda>pri. fill_bucket zone global_salt n_shards sh pri (names_in_bucket ! sh ! pri)
                  (replicate BUCKET_BYTES 0))
         [0..<eps]) [0..<n_shards])))"


section \<open>Server state\<close>

record pir_state =
  pir_dbs :: "u16 list list list"
  pir_num_entries :: nat

record server_state =
  st_zone_name :: string
  st_pir :: "pir_state option"
  st_dump :: "bytes option"
  st_hash_salt :: u64

text \<open>
  \<open>preprocess\<close> gives every shard to one database, each bucket packed into the coefficients of a
  ring element; a database holds them slot by slot. \<open>set_db\<close> demands a full shard.
\<close>

definition set_db :: "index_group \<Rightarrow> bytes list \<Rightarrow> (io_error, u16 list list) outcome" where
  "set_db primary slot_buckets =
     (if length slot_buckets \<noteq> SIMD_COUNT * group_order primary then Panic
      else Ok (map pack_bytes_into_coeffs slot_buckets))"

definition preprocess ::
    "(int \<Rightarrow> nat option) \<Rightarrow> bytes list list \<Rightarrow> nat \<Rightarrow> (io_error, pir_state) outcome" where
  "preprocess lg buckets num_entries =
     bind_outcome (num_databases lg num_entries)
       (\<lambda>n. if length buckets \<noteq> n then Panic
            else bind_outcome (get_database_shape lg num_entries) (\<lambda>(primary, _).
                 bind_outcome (collect_ok (set_db primary) buckets) (\<lambda>dbs.
                 Ok \<lparr>pir_dbs = dbs, pir_num_entries = num_entries\<rparr>)))"

definition build_state ::
    "(int \<Rightarrow> nat option) \<Rightarrow> codec \<Rightarrow> (zone \<Rightarrow> nat \<Rightarrow> bool) \<Rightarrow> zone \<Rightarrow> bool \<Rightarrow> (io_error, server_state) outcome" where
  "build_state lg compress fits zone always_dump =
     bind_outcome
       (if always_dump then
          bind_outcome (serialize zone) (\<lambda>serialized.
          bind_outcome (compress (as_bytes serialized)) (\<lambda>gz. Ok (Some gz)))
        else (case serialize_bounded zone SKIP_COMPRESSION_ABOVE_BYTES of
          Ok serialized \<Rightarrow> bind_outcome (compress (as_bytes serialized)) (\<lambda>gz. Ok (Some gz))
        | Err produced \<Rightarrow> Ok None
        | Panic \<Rightarrow> Panic))
     (\<lambda>dump.
       let go_dump_only = always_dump \<or> (case dump of Some d \<Rightarrow> length d \<le> DUMP_THRESHOLD_BYTES | None \<Rightarrow> False) in
       if go_dump_only then
         Ok \<lparr>st_zone_name = zn_zone_name zone, st_pir = None, st_dump = dump, st_hash_salt = 0\<rparr>
       else
         let num_entries = pick_num_entries (fits zone) in
         bind_outcome
           (try_salts MAX_REHASH_RETRIES
             (\<lambda>salt. map_err show_build_error (build_buckets lg zone num_entries salt)))
           (\<lambda>(buckets, hash_salt).
             bind_outcome (preprocess lg buckets num_entries)
               (\<lambda>pir. Ok \<lparr>st_zone_name = zn_zone_name zone, st_pir = Some pir, st_dump = None,
                         st_hash_salt = hash_salt\<rparr>)))"


section \<open>Requests\<close>

definition info_of_state :: "server_state \<Rightarrow> info_response" where
  "info_of_state state =
     (let flags = 0;
          flags = (if st_pir state \<noteq> None then flags OR FLAG_PIR_AVAILABLE else flags);
          flags = (if st_dump state \<noteq> None then flags OR FLAG_DUMP_AVAILABLE else flags)
      in \<lparr>ir_flags = flags,
          ir_num_entries = (case st_pir state of Some p \<Rightarrow> of_nat (pir_num_entries p) | None \<Rightarrow> 0),
          ir_zone_name = st_zone_name state,
          ir_dump_size = (case st_dump state of Some d \<Rightarrow> of_nat (length d) | None \<Rightarrow> 0),
          ir_hash_salt = st_hash_salt state\<rparr>)"

text \<open>
  The body of the loop of \<open>handle\<close>: the reply to one request. \<open>process_query\<close> is the PIR
  engine's answer, which may panic on a malformed query.
\<close>

definition reply_to ::
    "(pir_state \<Rightarrow> bytes \<Rightarrow> (io_error, bytes) outcome) \<Rightarrow> server_state \<Rightarrow> bytes \<Rightarrow> (io_error, bytes) outcome" where
  "reply_to process_query state req =
     (if req = [] then Err (Io_Error InvalidData ''empty request'')
      else if hd req = CMD_INFO then Ok (encode_info (info_of_state state))
      else if hd req = CMD_QUERY then
        (case st_pir state of
           None \<Rightarrow> Ok RESP_UNAVAILABLE
         | Some pir \<Rightarrow> process_query pir (tl req))
      else if hd req = CMD_DUMP then
        (case st_dump state of
           None \<Rightarrow> Ok RESP_UNAVAILABLE
         | Some dump \<Rightarrow> Ok dump)
      else Err (Io_Error InvalidData (''unknown command '' @ show_nat (unat (hd req)))))"

function handle ::
    "(pir_state \<Rightarrow> bytes \<Rightarrow> (io_error, bytes) outcome) \<Rightarrow> server_state \<Rightarrow> conn
     \<Rightarrow> (io_error, unit) outcome \<times> conn" where
  "handle process_query state c =
     (case read_frame c of
        (Ok req, c) \<Rightarrow>
          (case reply_to process_query state req of
             Ok reply \<Rightarrow>
               (case write_frame c reply of
                  (Ok _, c) \<Rightarrow> handle process_query state c
                | (Err e, c) \<Rightarrow> (Err e, c)
                | (Panic, c) \<Rightarrow> (Panic, c))
           | Err e \<Rightarrow> (Err e, c)
           | Panic \<Rightarrow> (Panic, c))
      | (Err (Io_Error kind msg), c) \<Rightarrow>
          (if kind = UnexpectedEof then Ok () else Err (Io_Error kind msg), c)
      | (Panic, c) \<Rightarrow> (Panic, c))"
  by pat_completeness auto
termination
  by (relation "measure (\<lambda>(_, _, c). length (inbox c))")
    (auto dest!: read_frame_shrinks [OF sym] write_frame_inbox [OF sym])

declare handle.simps [simp del]

end
