(* ===== verification/Zone_Correct.thy ===== *)
theory Zone_Correct
  imports Zone
begin

text \<open>
  Invariants of the zone parser: distinct canonical names, NS indices inside a pool without
  duplicates that the intern map mirrors, and nothing else. They are what the server and the client
  rely on when they follow the indices without a check.
\<close>

section \<open>Well-formed zones\<close>

text \<open>Distinct names, and NS indices inside the pool.\<close>

definition ns_valid :: "zone \<Rightarrow> name_records \<Rightarrow> bool" where
  "ns_valid zone rec \<longleftrightarrow> (\<forall>i \<in> set (nr_ns rec). unat i < length (zn_ns_pool zone))"

definition zone_wf :: "zone \<Rightarrow> bool" where
  "zone_wf zone \<longleftrightarrow>
     distinct (map fst (zn_records zone)) \<and> (\<forall>(name, rec) \<in> set (zn_records zone). ns_valid zone rec)"

definition zone_names :: "zone \<Rightarrow> string list" where
  "zone_names zone = map fst (zn_records zone)"


section \<open>Canonical names\<close>

lemma code_lower:
  "code_of (to_ascii_lower_char c) = (if 65 \<le> code_of c \<and> code_of c \<le> 90 then code_of c + 32 else code_of c)"
  by (simp add: to_ascii_lower_char_def Let_def)

lemma char_eq_code: "c = d \<longleftrightarrow> code_of c = code_of d"
  by simp

lemma lower_char_dot [simp]: "to_ascii_lower_char c = CHR ''.'' \<longleftrightarrow> c = CHR ''.''"
  unfolding char_eq_code code_lower by auto

lemma lower_char_idem [simp]: "to_ascii_lower_char (to_ascii_lower_char c) = to_ascii_lower_char c"
  unfolding char_eq_code code_lower by auto

lemma ascii_ws_lower [simp]: "ascii_ws (to_ascii_lower_char c) = ascii_ws c"
  unfolding ascii_ws_def code_lower by auto

lemma lowercase_idem [simp]: "to_ascii_lowercase (to_ascii_lowercase s) = to_ascii_lowercase s"
  by (simp add: to_ascii_lowercase_def comp_def)

lemma trim_dots_lower: "trim_end_matches CHR ''.'' (to_ascii_lowercase s) = to_ascii_lowercase (trim_end_matches CHR ''.'' s)"
  by (simp add: trim_end_matches_def to_ascii_lowercase_def rev_map dropWhile_map comp_def)

lemma trim_dots_idem: "trim_end_matches CHR ''.'' (trim_end_matches CHR ''.'' s) = trim_end_matches CHR ''.'' s"
  by (simp add: trim_end_matches_def)

lemma canonical_idem [simp]: "canonical (canonical s) = canonical s"
  by (simp add: canonical_def trim_dots_lower trim_dots_idem)

lemma trim_dots_prefix: "\<exists>d. s = trim_end_matches CHR ''.'' s @ d \<and> set d \<subseteq> {CHR ''.''}"
  unfolding trim_end_matches_def
  by (intro exI [of _ "rev (takeWhile (\<lambda>x. x = CHR ''.'') (rev s))"])
    (auto simp flip: rev_append dest: set_takeWhileD)

lemma trim_dots_append: "trim_end_matches CHR ''.'' (s @ ''.'') = trim_end_matches CHR ''.'' s"
  by (simp add: trim_end_matches_def)

lemma canonical_dot: "canonical (s @ ''.'') = canonical s"
  by (simp add: canonical_def trim_dots_append)


section \<open>The parser's invariant\<close>

definition parse_inv :: "parse_state \<Rightarrow> bool" where
  "parse_inv st \<longleftrightarrow>
     distinct (map fst (ps_records st)) \<and>
     (\<forall>(name, rec) \<in> set (ps_records st). canonical name = name \<and>
        (\<forall>i \<in> set (nr_ns rec). unat i < length (ps_ns_pool st))) \<and>
     distinct (ps_ns_pool st) \<and>
     (\<forall>h \<in> set (ps_ns_pool st). canonical h = h) \<and>
     length (ps_ns_pool st) \<le> 2 ^ 32 \<and>
     (\<forall>h i. map_of (ps_ns_intern st) h = Some i \<longrightarrow>
        unat i < length (ps_ns_pool st) \<and> ps_ns_pool st ! unat i = h) \<and>
     (\<forall>h \<in> set (ps_ns_pool st). map_of (ps_ns_intern st) h \<noteq> None)"

lemma parse_inv_init: "parse_inv init_parse"
  by (simp add: parse_inv_def init_parse_def)

lemma intern_ns_inv:
  assumes "parse_inv st" "canonical h = h" "intern_ns st h = Ok (i, st')"
  shows "parse_inv st'" "unat i < length (ps_ns_pool st')" "ps_ns_pool st' ! unat i = h"
    "ps_records st' = ps_records st" "ps_suffix st' = ps_suffix st"
proof -
  have "parse_inv st' \<and> unat i < length (ps_ns_pool st') \<and> ps_ns_pool st' ! unat i = h \<and>
    ps_records st' = ps_records st \<and> ps_suffix st' = ps_suffix st"
  proof (cases "map_of (ps_ns_intern st) h")
    case (Some j)
    then show ?thesis
      using assms by (auto simp: intern_ns_def parse_inv_def)
  next
    case None
    then have small: "length (ps_ns_pool st) < 2 ^ 32"
      and i: "i = of_nat (length (ps_ns_pool st))"
      and st': "st' = st\<lparr>ps_ns_pool := ps_ns_pool st @ [h], ps_ns_intern := AList.update h i (ps_ns_intern st)\<rparr>"
      using assms(3) by (auto simp: intern_ns_def Let_def split: if_splits)
    have u: "unat i = length (ps_ns_pool st)"
      using small by (simp add: i of_nat_inverse)
    have new: "h \<notin> set (ps_ns_pool st)"
      using assms(1) None by (auto simp: parse_inv_def)
    show ?thesis
      using assms(1,2) small new u
      by (fastforce simp: st' parse_inv_def update_conv' nth_append split: if_splits)
  qed
  then show "parse_inv st'" "unat i < length (ps_ns_pool st')" "ps_ns_pool st' ! unat i = h"
    "ps_records st' = ps_records st" "ps_suffix st' = ps_suffix st"
    by blast+
qed

lemma map_of_map_entry_set:
  assumes "distinct (map fst al)" "(k, v) \<in> set (AList.map_entry name f al)"
  shows "(k, v) \<in> set al \<and> k \<noteq> name \<or> k = name \<and> (\<exists>v'. (k, v') \<in> set al \<and> v = f v')"
  using assms by (induction al) (auto split: if_splits simp: rev_image_eqI)

lemma map_fst_map_entry [simp]: "map fst (AList.map_entry name f al) = map fst al"
  by (induction al) auto

lemma parse_inv_update:
  assumes "parse_inv st"
    and "\<And>rec i. i \<in> set (nr_ns (f rec)) \<Longrightarrow> i \<in> set (nr_ns rec) \<or> unat i < length (ps_ns_pool st)"
  shows "parse_inv (st\<lparr>ps_records := AList.map_entry name f (ps_records st)\<rparr>)"
proof -
  have d: "distinct (map fst (ps_records st))"
    using assms(1) by (simp add: parse_inv_def)
  have "canonical k = k \<and> (\<forall>i \<in> set (nr_ns v). unat i < length (ps_ns_pool st))"
    if "(k, v) \<in> set (AList.map_entry name f (ps_records st))" for k v
    using map_of_map_entry_set [OF d that] assms by (fastforce simp: parse_inv_def)
  then show ?thesis
    using assms(1) by (auto simp: parse_inv_def)
qed

lemma parse_inv_suffix [simp]: "parse_inv (st\<lparr>ps_suffix := s\<rparr>) = parse_inv st"
  by (simp add: parse_inv_def)

lemma add_rdata_inv:
  assumes "parse_inv st" "add_rdata st kind name rdata = Ok (Some st')"
  shows "parse_inv st'"
proof -
  consider (a) ip where "st' = st\<lparr>ps_records := AList.map_entry name (\<lambda>e. e\<lparr>nr_a := nr_a e @ [ip]\<rparr>) (ps_records st)\<rparr>"
    | (aaaa) ip where "st' = st\<lparr>ps_records := AList.map_entry name (\<lambda>e. e\<lparr>nr_aaaa := nr_aaaa e @ [ip]\<rparr>) (ps_records st)\<rparr>"
    | (ns) i st1 where "intern_ns st (canonical rdata) = Ok (i, st1)"
      "st' = st1\<lparr>ps_records := AList.map_entry name (\<lambda>e. e\<lparr>nr_ns := nr_ns e @ [i]\<rparr>) (ps_records st1)\<rparr>"
    using assms(2) by (auto simp: add_rdata_def Let_def split: if_splits option.splits)
  then show ?thesis
  proof cases
    case ns
    note i = intern_ns_inv [OF assms(1) canonical_idem ns(1)]
    show ?thesis
      unfolding ns(2) using i(1,2) by (intro parse_inv_update) auto
  qed (use assms(1) in \<open>auto intro!: parse_inv_update\<close>)
qed

lemma keep_record_inv:
  assumes "parse_inv st" "keep_record st kind name_raw rdata = Ok st'"
  shows "parse_inv st'"
proof -
  let ?name = "canonical name_raw"
  let ?st = "if ?name \<notin> fst ` set (ps_records st)
    then st\<lparr>ps_records := AList.update ?name empty_records (ps_records st)\<rparr> else st"
  have upd: "(k, v) \<in> set (AList.update ?name empty_records al) \<Longrightarrow> (k, v) \<in> set al \<or> k = ?name \<and> v = empty_records"
    for k v al
    by (induction al) (auto split: if_splits)
  have "parse_inv ?st"
  proof (cases "?name \<in> fst ` set (ps_records st)")
    case False
    have "canonical k = k \<and> (\<forall>i \<in> set (nr_ns v). unat i < length (ps_ns_pool st))"
      if "(k, v) \<in> set (AList.update ?name empty_records (ps_records st))" for k v
      using upd [OF that] assms(1) by (auto simp: parse_inv_def empty_records_def)
    then show ?thesis
      using assms(1) False by (auto simp: parse_inv_def distinct_update)
  qed (use assms(1) in simp)
  then show ?thesis
    using assms(2) add_rdata_inv [of ?st kind ?name rdata]
    by (auto simp: keep_record_def Let_def split: option.splits)
qed

lemma parse_line_inv:
  assumes "parse_inv st" "parse_line st line = Ok st'"
  shows "parse_inv st'"
  using assms
  by (auto simp: parse_line_def parse_fields_def Let_def
      split: if_splits list.splits option.splits prod.splits dest: keep_record_inv)

lemma parse_lines_inv: "parse_inv st \<Longrightarrow> parse_lines st ls = Ok st' \<Longrightarrow> parse_inv st'"
  by (induction ls arbitrary: st) (auto split: if_splits dest: parse_line_inv)

lemma parse_zone_inv:
  assumes "parse_zone text = Ok zone"
  shows "zone_wf zone" "distinct (zn_ns_pool zone)" "length (zn_ns_pool zone) \<le> 2 ^ 32"
    "\<And>name. name \<in> set (zone_names zone) \<Longrightarrow> canonical name = name"
    "\<And>h. h \<in> set (zn_ns_pool zone) \<Longrightarrow> canonical h = h"
proof -
  obtain st where st: "parse_lines init_parse (split_lines text) = Ok st"
    and z: "zn_records zone = ps_records st" "zn_ns_pool zone = ps_ns_pool st"
    using assms by (auto simp: parse_zone_def)
  have "parse_inv st"
    using parse_lines_inv [OF parse_inv_init st] .
  then show "zone_wf zone" "distinct (zn_ns_pool zone)" "length (zn_ns_pool zone) \<le> 2 ^ 32"
    "\<And>name. name \<in> set (zone_names zone) \<Longrightarrow> canonical name = name"
    "\<And>h. h \<in> set (zn_ns_pool zone) \<Longrightarrow> canonical h = h"
    by (auto simp: parse_inv_def zone_wf_def ns_valid_def zone_names_def z)
qed

section \<open>Properties of the parser\<close>

text \<open>
  C21. Every zone the parser returns is well formed: names are distinct and canonical, name-server
  hostnames are canonical, interned without duplicates and at most \<open>2 ^ 32\<close>, and every index stored
  with a name points into the pool, so that following it never fails.
\<close>

theorem parsed_zone_wf:
  assumes "parse_zone content = Ok zone"
  shows "zone_wf zone \<and> distinct (zn_ns_pool zone) \<and> length (zn_ns_pool zone) \<le> 2 ^ 32 \<and>
    (\<forall>name \<in> set (zone_names zone). canonical name = name) \<and>
    (\<forall>h \<in> set (zn_ns_pool zone). canonical h = h) \<and>
    (\<forall>(name, rec) \<in> set (zn_records zone). \<forall>i \<in> set (nr_ns rec). \<exists>h. ns_hostname zone i = (Ok h :: (unit, string) outcome))"
  using parse_zone_inv [OF assms] by (auto simp: zone_wf_def ns_valid_def ns_hostname_def)

definition demo_text :: string where
  "demo_text = ''A.org. A 1.2.3.4'' @ [newline] @ ''; x'' @ [newline] @ ''b.a.org IN AAAA ::1'' @ [newline]"

lemmas text_eval =
  cont_byte_def utf8_pair_def utf8_triple_def utf8_quad_def ws1_def ws2_def ws3_def trim_def ascii_ws_def
  split_ascii_whitespace_def to_digit_def is_ascii_digit_def eq_ignore_ascii_case_def is_ttl_def
  is_class_def canonical_def trim_end_matches_def to_ascii_lowercase_def to_ascii_lower_char_def

lemma demo_lines: "split_lines demo_text =
    [''A.org. A 1.2.3.4'' @ [newline], ''; x'' @ [newline], ''b.a.org IN AAAA ::1'' @ [newline]]"
  by (simp add: demo_text_def)

lemma demo_utf8: "list_all valid_utf8 (split_lines demo_text)"
  unfolding demo_lines by (simp add: valid_utf8_ascii)

lemma demo_fields:
  "split_ascii_whitespace (trim (''A.org. A 1.2.3.4'' @ [newline])) = [''A.org.'', ''A'', ''1.2.3.4'']"
  "trim (''; x'' @ [newline]) = ''; x''"
  "split_ascii_whitespace (trim (''b.a.org IN AAAA ::1'' @ [newline])) = [''b.a.org'', ''IN'', ''AAAA'', ''::1'']"
  by (simp_all add: text_eval)

lemma demo_canonical_names:
  "canonical ''A.org.'' = ''a.org''" "canonical ''b.a.org'' = ''b.a.org''"
  by (simp_all add: text_eval char_of_def bit_simps Let_def)

lemma demo_addresses:
  "parse_ipv4 ''1.2.3.4'' = Some (Ipv4Addr 1 2 3 4)" "parse_ipv6 ''::1'' = Some (Ipv6Addr 0 0 0 0 0 0 0 1)"
  using parse_show_v4 [of "Ipv4Addr 1 2 3 4"] parse_show_v6 [of "Ipv6Addr 0 0 0 0 0 0 0 1"]
  by (simp_all add: show_radix_step digit_char_def char_of_def bit_simps show_v6_def to_ipv4_mapped_def Let_def)

lemma demo_types:
  "rtype_token [''A'', ''1.2.3.4''] = (''A'', [''1.2.3.4''])" "rtype_token [''IN'', ''AAAA'', ''::1''] = (''AAAA'', [''::1''])"
  "eq_ignore_ascii_case ''A'' ''a''" "\<not> eq_ignore_ascii_case ''AAAA'' ''a''" "eq_ignore_ascii_case ''AAAA'' ''aaaa''"
  by (simp_all add: text_eval char_of_def bit_simps Let_def)

lemma demo_parse:
  "parse_zone demo_text = Ok \<lparr>zn_records = [(''a.org'', \<lparr>nr_a = [Ipv4Addr 1 2 3 4], nr_aaaa = [], nr_ns = []\<rparr>),
       (''b.a.org'', \<lparr>nr_a = [], nr_aaaa = [Ipv6Addr 0 0 0 0 0 0 0 1], nr_ns = []\<rparr>)],
     zn_zone_name = ''a.org'', zn_ns_pool = []\<rparr>"
proof -
  have "valid_utf8 l" if "l \<in> set (split_lines demo_text)" for l
    using demo_utf8 that by (simp add: list_all_iff)
  note u = this [unfolded demo_lines, simplified]
  have t: "trim (''A.org. A 1.2.3.4'' @ [newline]) = ''A.org. A 1.2.3.4''"
    "trim (''b.a.org IN AAAA ::1'' @ [newline]) = ''b.a.org IN AAAA ::1''"
    by (simp_all add: text_eval)
  have l1: "parse_line init_parse (''A.org. A 1.2.3.4'' @ [newline]) = Ok
      \<lparr>ps_records = [(''a.org'', \<lparr>nr_a = [Ipv4Addr 1 2 3 4], nr_aaaa = [], nr_ns = []\<rparr>)],
       ps_ns_pool = [], ps_ns_intern = [], ps_suffix = Some ''a.org''\<rparr>"
    unfolding parse_line_def demo_fields Let_def t
    by (simp add: parse_fields_def demo_fields demo_types demo_canonical_names demo_addresses
        keep_record_def add_rdata_def init_parse_def empty_records_def track_suffix_def
        demo_fields(1) [unfolded t(1)] Let_def del: rtype_token.simps)
  have l2: "parse_line st (''; x'' @ [newline]) = Ok st" for st
    unfolding parse_line_def demo_fields by simp
  have l3: "parse_line \<lparr>ps_records = [(''a.org'', \<lparr>nr_a = [Ipv4Addr 1 2 3 4], nr_aaaa = [], nr_ns = []\<rparr>)],
       ps_ns_pool = [], ps_ns_intern = [], ps_suffix = Some ''a.org''\<rparr> (''b.a.org IN AAAA ::1'' @ [newline]) = Ok
      \<lparr>ps_records = [(''a.org'', \<lparr>nr_a = [Ipv4Addr 1 2 3 4], nr_aaaa = [], nr_ns = []\<rparr>),
         (''b.a.org'', \<lparr>nr_a = [], nr_aaaa = [Ipv6Addr 0 0 0 0 0 0 0 1], nr_ns = []\<rparr>)],
       ps_ns_pool = [], ps_ns_intern = [], ps_suffix = Some ''a.org''\<rparr>"
    unfolding parse_line_def Let_def t
    by (simp add: parse_fields_def demo_types demo_canonical_names demo_addresses
        keep_record_def add_rdata_def empty_records_def track_suffix_def name_in_suffix_def ends_with_def
        demo_fields(3) [unfolded t(2)] Let_def del: rtype_token.simps)
  show ?thesis
    unfolding parse_zone_def demo_lines parse_lines.simps l1
    using u by (simp add: l2 [simplified] l3 [simplified])
qed

theorem parsed_zone_wf_witness:
  "\<exists>zone. parse_zone demo_text = Ok zone \<and> zone_wf zone \<and> zone_names zone = [''a.org'', ''b.a.org'']"
  using parsed_zone_wf [OF demo_parse] demo_parse by (simp add: zone_names_def)

end
