(* ===== verification/Server_Correct.thy ===== *)
theory Server_Correct
  imports Server Coeff_Packing Zone_Correct
begin

text \<open>
  What \<open>build_buckets\<close> guarantees: the bucket at a name's slot, read the way the client reads it
  (its salt header, then the discriminator of the name under that salt), gives exactly the records
  the zone holds for the name; a name the zone does not hold gives nothing, or the records of one
  other name of the same slot whose 14-bit discriminator happens to agree.
\<close>

section \<open>Zones\<close>

definition records_of :: "zone \<Rightarrow> name_records \<Rightarrow> dns_record list" where
  "records_of zone rec =
     map Rec_A (nr_a rec) @ map Rec_Aaaa (nr_aaaa rec) @
     map (\<lambda>i. Rec_Ns (ns_record zone (zn_ns_pool zone ! unat i))) (nr_ns rec)"

text \<open>The answer to a query for \<open>name\<close>, whichever way the zone is served.\<close>

definition zone_answer :: "zone \<Rightarrow> string \<Rightarrow> dns_record list" where
  "zone_answer zone name =
     (case map_of (zn_records zone) name of None \<Rightarrow> [] | Some rec \<Rightarrow> records_of zone rec)"

lemma map_of_zone_name:
  "zone_wf zone \<Longrightarrow> name \<in> set (zone_names zone) \<Longrightarrow>
   \<exists>rec. map_of (zn_records zone) name = Some rec \<and> ns_valid zone rec"
  unfolding zone_names_def zone_wf_def
  by (metis (no_types, lifting) case_prodD list.set_map map_of_SomeD map_of_eq_None_iff not_None_eq)

lemma ns_hostname_valid:
  "ns_valid zone rec \<Longrightarrow> i \<in> set (nr_ns rec) \<Longrightarrow> ns_hostname zone i = Ok (zn_ns_pool zone ! unat i)"
  by (simp add: ns_valid_def ns_hostname_def)


section \<open>Monadic maps\<close>

lemma collect_ok_Ok:
  "collect_ok f xs = Ok ys \<longleftrightarrow> length ys = length xs \<and> (\<forall>i < length xs. f (xs ! i) = Ok (ys ! i))"
proof (induction xs arbitrary: ys)
  case (Cons x xs)
  then show ?case
    by (cases ys) (auto simp: less_Suc_eq_0_disj)
qed auto

lemma collect_ok_upt:
  "collect_ok f [0..<n] = Ok ys \<longleftrightarrow> length ys = n \<and> (\<forall>i < n. f i = Ok (ys ! i))"
  by (auto simp: collect_ok_Ok)

lemma collect_ok_no_panic: "(\<And>x. x \<in> set xs \<Longrightarrow> f x \<noteq> Panic) \<Longrightarrow> collect_ok f xs \<noteq> Panic"
proof (induction xs)
  case (Cons x xs)
  moreover from Cons have "f x \<noteq> Panic" "collect_ok f xs \<noteq> Panic" by auto
  ultimately show ?case by (cases "f x"; cases "collect_ok f xs") auto
qed simp


section \<open>The entries of a name\<close>

definition name_entries :: "zone \<Rightarrow> u64 \<Rightarrow> u32 \<Rightarrow> string \<Rightarrow> bucket_entry list" where
  "name_entries zone global_salt bucket_salt name =
     map (\<lambda>rec. (kind_of rec, discriminator name global_salt bucket_salt, rec)) (zone_answer zone name)"

lemma entry_ok_name_entries: "list_all entry_ok (name_entries zone g b name)"
  by (auto simp: name_entries_def list_all_iff discriminator_masked)

lemma append_entries_append:
  "append_entries buf pos (es @ fs) =
   bind_outcome (append_entries buf pos es) (\<lambda>(buf, pos). append_entries buf pos fs)"
proof (induction es arbitrary: buf pos)
  case (Cons e es)
  then show ?case
    by (cases e) (auto simp: bind_outcome_assoc intro!: arg_cong2 [where f = bind_outcome])
qed simp

lemma ns_kind_kind_of: "ns_kind ip = kind_of (Rec_Ns ip)"
  by (cases ip) (simp_all add: ns_kind_def)

abbreviation ns_ip :: "zone \<Rightarrow> u32 \<Rightarrow> ip_addr" where
  "ns_ip zone i \<equiv> ns_record zone (zn_ns_pool zone ! unat i)"

lemma append_ns_eq:
  assumes "\<forall>i \<in> set idxs. unat i < length (zn_ns_pool zone)"
  shows "append_ns zone disc buf pos idxs =
    append_entries buf pos (map (\<lambda>i. (kind_of (Rec_Ns (ns_ip zone i)), disc, Rec_Ns (ns_ip zone i))) idxs)"
  using assms
proof (induction idxs arbitrary: buf pos)
  case (Cons i idxs)
  then have "append_ns zone disc buf pos idxs = append_entries buf pos
      (map (\<lambda>i. (kind_of (Rec_Ns (ns_ip zone i)), disc, Rec_Ns (ns_ip zone i))) idxs)" for buf pos
    by auto
  then show ?case
    using Cons.prems by (simp add: Let_def ns_kind_kind_of ns_hostname_def)
qed simp

lemma append_name_eq:
  assumes "zone_wf zone" "name \<in> set (zone_names zone)"
  shows "append_name zone g b buf pos name = append_entries buf pos (name_entries zone g b name)"
proof -
  obtain rec where rec: "map_of (zn_records zone) name = Some rec" "ns_valid zone rec"
    using map_of_zone_name [OF assms] by blast
  let ?disc = "discriminator name g b"
  have ns: "append_ns zone ?disc buf pos (nr_ns rec) = append_entries buf pos
      (map (\<lambda>i. (kind_of (Rec_Ns (ns_ip zone i)), ?disc, Rec_Ns (ns_ip zone i))) (nr_ns rec))" for buf pos
    using rec(2) by (intro append_ns_eq) (simp add: ns_valid_def)
  show ?thesis
    by (simp add: append_name_def name_entries_def zone_answer_def records_of_def rec comp_def ns
        append_entries_append case_prod_unfold Let_def del: kind_of.simps(3,4) record_octets.simps)
qed

lemma append_names_eq:
  assumes "zone_wf zone" "set names \<subseteq> set (zone_names zone)"
  shows "append_names zone g b buf pos names =
    append_entries buf pos (concat (map (name_entries zone g b) names))"
  using assms(2)
proof (induction names arbitrary: buf pos)
  case (Cons n ns)
  then show ?case
    using append_name_eq [OF assms(1), of n] by (simp add: append_entries_append)
qed simp


section \<open>Salts\<close>

lemma collision_free_iff:
  "collision_free g b seen names \<longleftrightarrow>
     distinct (map (\<lambda>n. discriminator n g b) names) \<and> (\<forall>n \<in> set names. discriminator n g b \<notin> seen)"
  by (induction names arbitrary: seen) (auto simp: Let_def image_iff)

lemma find_salt_from_Some:
  "find_salt_from names g s n = Some (b, k) \<Longrightarrow>
     \<exists>j. s \<le> j \<and> j < s + n \<and> b = of_nat j \<and> k = of_nat j + 1 \<and> collision_free g (of_nat j) {} names \<and>
       (\<forall>i. s \<le> i \<and> i < j \<longrightarrow> \<not> collision_free g (of_nat i) {} names)"
proof (induction n arbitrary: s)
  case (Suc n)
  show ?case
  proof (cases "collision_free g (of_nat s) {} names")
    case True
    then show ?thesis using Suc.prems by (intro exI [of _ s]) auto
  next
    case False
    then have "find_salt_from names g (Suc s) n = Some (b, k)"
      using Suc.prems by simp
    from Suc.IH [OF this] obtain j where j: "Suc s \<le> j" "j < Suc s + n" "b = of_nat j" "k = of_nat j + 1"
      "collision_free g (of_nat j) {} names"
      "\<forall>i. Suc s \<le> i \<and> i < j \<longrightarrow> \<not> collision_free g (of_nat i) {} names"
      by blast
    have "\<not> collision_free g (of_nat i) {} names" if "s \<le> i" "i < j" for i
      using that j(6) False by (cases "i = s") auto
    then show ?thesis
      using j(1-5) by (intro exI [of _ j]) auto
  qed
qed simp

lemma find_salt_from_None:
  "find_salt_from names g s n = None \<Longrightarrow> s \<le> i \<Longrightarrow> i < s + n \<Longrightarrow> \<not> collision_free g (of_nat i) {} names"
proof (induction n arbitrary: s)
  case (Suc n)
  then show ?case by (cases "i = s") (auto split: if_splits)
qed simp


section \<open>Slots\<close>

abbreviation shard_size :: "nat \<Rightarrow> nat" where
  "shard_size n \<equiv> SIMD_COUNT * group_order (primary_group n)"

lemma shard_size_pos: "0 < shard_size n"
  using primary_group_facts(2) [of n] by (simp add: SIMD_COUNT_def)

lemma entries_per_shard_ok:
  "abs_log2_ceil_spec lg \<Longrightarrow> 1 \<le> n \<Longrightarrow> n \<le> RING_N * RING_N \<Longrightarrow> entries_per_shard lg n = Ok (shard_size n)"
  by (simp add: entries_per_shard_def get_database_shape_ok)

definition slot_index :: "nat \<Rightarrow> u64 \<Rightarrow> string \<Rightarrow> nat" where
  "slot_index n salt name = unat (mix64 (as_bytes name) (salt XOR 0x510751075107510)) mod n"

lemma slot_ok:
  assumes "abs_log2_ceil_spec lg" "1 \<le> n" "n \<le> RING_N * RING_N"
  shows "slot lg name n salt =
    Ok (slot_index n salt name div shard_size n, slot_index n salt name mod shard_size n)"
  using assms(2) entries_per_shard_ok [OF assms] by (simp add: slot_def slot_index_def Let_def entries_per_shard_ok [OF assms] del: bind_outcome_eq_Ok)

lemma slot_in_range:
  assumes "abs_log2_ceil_spec lg" "1 \<le> n" "n \<le> RING_N * RING_N"
  obtains sh pri where "slot lg name n salt = Ok (sh, pri)" "sh < shard_count n" "pri < shard_size n"
proof
  let ?s = "slot_index n salt name"
  show "slot lg name n salt = Ok (?s div shard_size n, ?s mod shard_size n)"
    by (rule slot_ok [OF assms])
  have "?s < n" using assms(2) by (simp add: slot_index_def)
  then show "?s div shard_size n < shard_count n"
    unfolding shard_count_def by (rule less_div_ceil [OF shard_size_pos])
  show "?s mod shard_size n < shard_size n"
    by (rule mod_less_divisor [OF shard_size_pos])
qed


section \<open>Grouping\<close>

definition slot_is :: "(int \<Rightarrow> nat option) \<Rightarrow> nat \<Rightarrow> u64 \<Rightarrow> nat \<Rightarrow> nat \<Rightarrow> string \<Rightarrow> bool" where
  "slot_is lg n salt sh pri name \<longleftrightarrow> (slot lg name n salt :: (build_error, nat \<times> nat) outcome) = Ok (sh, pri)"

definition grid :: "nat \<Rightarrow> nat \<Rightarrow> 'a list list \<Rightarrow> bool" where
  "grid rows cols g \<longleftrightarrow> length g = rows \<and> (\<forall>r < rows. length (g ! r) = cols)"

lemma grid_update:
  "grid rows cols g \<Longrightarrow> r < rows \<Longrightarrow> grid rows cols (g[r := (g ! r)[c := x]])"
  by (auto simp: grid_def nth_list_update)

lemma group_names_spec:
  assumes "group_names lg n salt nib names = Ok nib'" "grid rows cols nib"
  shows "grid rows cols nib' \<and>
    (\<forall>sh < rows. \<forall>pri < cols. nib' ! sh ! pri = nib ! sh ! pri @ filter (slot_is lg n salt sh pri) names)"
  using assms
proof (induction names arbitrary: nib)
  case (Cons name names)
  obtain s p where s: "slot lg name n salt = (Ok (s, p) :: (build_error, _) outcome)"
    and in': "s < length nib" "p < length (nib ! s)"
    and rest: "group_names lg n salt (nib[s := (nib ! s)[p := nib ! s ! p @ [name]]]) names = Ok nib'"
    using Cons.prems(1) by (auto split: if_splits)
  have g: "grid rows cols (nib[s := (nib ! s)[p := nib ! s ! p @ [name]]])"
    using Cons.prems(2) in' by (intro grid_update) (auto simp: grid_def)
  have slot: "slot_is lg n salt sh pri name \<longleftrightarrow> sh = s \<and> pri = p" for sh pri
    using s by (auto simp: slot_is_def)
  show ?case
    using Cons.IH [OF rest g] Cons.prems(2) in' by (auto simp: slot nth_list_update grid_def)
qed simp

lemma group_names_ok:
  assumes "abs_log2_ceil_spec lg" "1 \<le> n" "n \<le> RING_N * RING_N" "grid (shard_count n) (shard_size n) nib"
  shows "\<exists>nib'. group_names lg n salt nib names = Ok nib'"
  using assms(4)
proof (induction names arbitrary: nib)
  case (Cons name names)
  obtain sh pri where sl: "slot lg name n salt = (Ok (sh, pri) :: (build_error, _) outcome)"
    and r: "sh < shard_count n" "pri < shard_size n"
    using slot_in_range [OF assms(1-3)] .
  then show ?case
    using Cons.IH [OF grid_update [OF Cons.prems r(1)]] Cons.prems by (auto simp: grid_def)
qed simp

lemma grid_replicate: "grid rows cols (replicate rows (replicate cols x))"
  by (simp add: grid_def)


section \<open>Buckets\<close>

definition bucket_entries :: "zone \<Rightarrow> u64 \<Rightarrow> u32 \<Rightarrow> string list \<Rightarrow> bucket_entry list" where
  "bucket_entries zone g b names = concat (map (name_entries zone g b) names)"

lemma entry_ok_bucket_entries: "list_all entry_ok (bucket_entries zone g b names)"
  using entry_ok_name_entries by (auto simp: bucket_entries_def list_all_iff)

lemma fill_bucket_eq:
  assumes "zone_wf zone" "set names \<subseteq> set (zone_names zone)"
  shows "fill_bucket zone g n_shards sh pri names (replicate BUCKET_BYTES 0) =
    (if names = [] then Ok (bucket_of 0 [])
     else case find_bucket_salt names g of
       None \<Rightarrow> Err (No_Salt sh pri (length names) n_shards)
     | Some (b, _) \<Rightarrow>
         if used_bytes (bucket_entries zone g b names) \<le> BUCKET_BYTES
         then Ok (bucket_of b (bucket_entries zone g b names))
         else Err (Bucket_Failure sh pri
           (Overflow (first_overflow FIRST_ENTRY_OFFSET (bucket_entries zone g b names)) BUCKET_BYTES) n_shards))"
proof (cases "names = []")
  case True
  have "write_bucket_salt (replicate BUCKET_BYTES 0) 0 = replicate BUCKET_BYTES 0"
    by (simp add: header_defs bucket_consts splice_def to_le_bytes_def map_replicate_const flip: replicate_add)
  then show ?thesis
    using True by (simp add: fill_bucket_def flip: write_salt_empty)
next
  case False
  show ?thesis
  proof (cases "find_bucket_salt names g")
    case None
    then show ?thesis using False by (simp add: fill_bucket_def)
  next
    case (Some r)
    obtain b k where r: "r = (b, k)" by (cases r)
    have "append_names zone g b (bucket_of b []) (of_nat FIRST_ENTRY_OFFSET) names =
        append_entries (bucket_of b []) (of_nat (used_bytes [])) (bucket_entries zone g b names)"
      unfolding bucket_entries_def
      using append_names_eq [OF assms] by (simp add: FIRST_ENTRY_OFFSET_eq)
    also have "\<dots> = (if used_bytes (bucket_entries zone g b names) \<le> BUCKET_BYTES
       then Ok (bucket_of b (bucket_entries zone g b names), of_nat (used_bytes (bucket_entries zone g b names)))
       else Err (Overflow (first_overflow FIRST_ENTRY_OFFSET (bucket_entries zone g b names)) BUCKET_BYTES))"
      using append_entries_bucket_of [of "[]", OF _ entry_ok_bucket_entries]
      by (simp add: bucket_consts)
    finally show ?thesis
      using False by (simp add: fill_bucket_def Some r write_salt_empty)
  qed
qed

text \<open>What the bucket of a list of names answers for a wanted name.\<close>

definition bucket_answer :: "u64 \<Rightarrow> string \<Rightarrow> bytes \<Rightarrow> dns_record list" where
  "bucket_answer g name bucket =
     decode_bucket_matching bucket (discriminator name g (read_bucket_salt bucket))"

lemma matching_name_entries:
  "matching want (name_entries zone g b name) =
     (if discriminator name g b = want then zone_answer zone name else [])"
  by (simp add: matching_def name_entries_def filter_map comp_def case_prod_unfold)

lemma matching_bucket_entries:
  "matching want (bucket_entries zone g b names) =
     concat (map (\<lambda>n. if discriminator n g b = want then zone_answer zone n else []) names)"
  by (induction names) (simp_all add: bucket_entries_def matching_name_entries)

lemma concat_unique:
  assumes "distinct (map d names)" "m \<in> set names" "d m = want"
  shows "concat (map (\<lambda>n. if d n = want then f n else []) names) = f m"
  using assms
proof (induction names)
  case (Cons n names)
  show ?case
  proof (cases "n = m")
    case True
    then have "concat (map (\<lambda>n. if d n = want then f n else []) names) = []"
      using Cons.prems by (auto simp: image_iff)
    then show ?thesis using True Cons.prems by simp
  next
    case False
    then show ?thesis using Cons by (auto simp: image_iff)
  qed
qed simp

lemma bucket_answer_filled:
  assumes "zone_wf zone" "set names \<subseteq> set (zone_names zone)"
    and "fill_bucket zone g n_shards sh pri names (replicate BUCKET_BYTES 0) = Ok bucket"
  shows "length bucket = BUCKET_BYTES" and
    "m \<in> set names \<Longrightarrow> bucket_answer g m bucket = zone_answer zone m" and
    "bucket_answer g name bucket = [] \<or>
      (\<exists>other \<in> set names. discriminator other g (read_bucket_salt bucket) =
          discriminator name g (read_bucket_salt bucket) \<and> bucket_answer g name bucket = zone_answer zone other)"
proof -
  consider (empty) "names = []" "bucket = bucket_of 0 []"
    | (filled) b j where "find_bucket_salt names g = Some (b, j)"
        "used_bytes (bucket_entries zone g b names) \<le> BUCKET_BYTES"
        "bucket = bucket_of b (bucket_entries zone g b names)"
    using assms(3) unfolding fill_bucket_eq [OF assms(1,2)] by (auto split: if_splits option.splits)
  then have "length bucket = BUCKET_BYTES \<and> (m \<in> set names \<longrightarrow> bucket_answer g m bucket = zone_answer zone m) \<and>
    (bucket_answer g name bucket = [] \<or>
      (\<exists>other \<in> set names. discriminator other g (read_bucket_salt bucket) =
          discriminator name g (read_bucket_salt bucket) \<and> bucket_answer g name bucket = zone_answer zone other))"
  proof cases
    case empty
    then show ?thesis
      by (simp add: bucket_answer_def decode_bucket_of bucket_consts)
  next
    case filled
    have dist: "distinct (map (\<lambda>n. discriminator n g b) names)"
      using filled(1) by (auto simp: find_bucket_salt_def collision_free_iff dest!: find_salt_from_Some)
    have ans: "bucket_answer g x bucket =
        concat (map (\<lambda>n. if discriminator n g b = discriminator x g b then zone_answer zone n else []) names)" for x
      using filled(2,3) by (simp add: bucket_answer_def decode_bucket_of entry_ok_bucket_entries matching_bucket_entries)
    have hit: "bucket_answer g x bucket = zone_answer zone y"
      if "y \<in> set names" "discriminator y g b = discriminator x g b" for x y
      unfolding ans using that by (intro concat_unique [OF dist])
    have "bucket_answer g name bucket = []" if "\<forall>y \<in> set names. discriminator y g b \<noteq> discriminator name g b"
      using that by (auto simp: ans)
    then show ?thesis
      using filled(2,3) hit by (simp add: length_bucket_of) blast
  qed
  then show "length bucket = BUCKET_BYTES"
    "m \<in> set names \<Longrightarrow> bucket_answer g m bucket = zone_answer zone m"
    "bucket_answer g name bucket = [] \<or>
      (\<exists>other \<in> set names. discriminator other g (read_bucket_salt bucket) =
          discriminator name g (read_bucket_salt bucket) \<and> bucket_answer g name bucket = zone_answer zone other)"
    by blast+
qed


section \<open>The whole fleet\<close>

definition names_of_slot :: "(int \<Rightarrow> nat option) \<Rightarrow> zone \<Rightarrow> nat \<Rightarrow> u64 \<Rightarrow> nat \<Rightarrow> nat \<Rightarrow> string list" where
  "names_of_slot lg zone n g sh pri = filter (slot_is lg n g sh pri) (zone_names zone)"

lemma names_of_slot_subset: "set (names_of_slot lg zone n g sh pri) \<subseteq> set (zone_names zone)"
  by (auto simp: names_of_slot_def)

lemma build_buckets_eq:
  assumes "abs_log2_ceil_spec lg" "1 \<le> n" "n \<le> RING_N * RING_N"
  obtains nib where "\<And>sh pri. sh < shard_count n \<Longrightarrow> pri < shard_size n \<Longrightarrow> nib ! sh ! pri = names_of_slot lg zone n g sh pri"
    "build_buckets lg zone n g =
      collect_ok (\<lambda>sh. collect_ok (\<lambda>pri. fill_bucket zone g (shard_count n) sh pri (nib ! sh ! pri)
        (replicate BUCKET_BYTES 0)) [0..<shard_size n]) [0..<shard_count n]"
proof -
  let ?nib = "replicate (shard_count n) (replicate (shard_size n) []) :: string list list list"
  have g: "grid (shard_count n) (shard_size n) ?nib"
    by (rule grid_replicate)
  obtain nib where nib: "group_names lg n g ?nib (zone_names zone) = Ok nib"
    using group_names_ok [OF assms g] by blast
  show thesis
  proof
    show "nib ! sh ! pri = names_of_slot lg zone n g sh pri" if "sh < shard_count n" "pri < shard_size n" for sh pri
      using group_names_spec [OF nib g] that by (simp add: names_of_slot_def)
    show "build_buckets lg zone n g =
      collect_ok (\<lambda>sh. collect_ok (\<lambda>pri. fill_bucket zone g (shard_count n) sh pri (nib ! sh ! pri)
        (replicate BUCKET_BYTES 0)) [0..<shard_size n]) [0..<shard_count n]"
      using nib by (simp add: build_buckets_def entries_per_shard_ok [OF assms] num_databases_ok [OF assms]
          zone_names_def)
  qed
qed

lemma build_buckets_shape:
  assumes "abs_log2_ceil_spec lg" "1 \<le> n" "n \<le> RING_N * RING_N" "build_buckets lg zone n g = Ok buckets"
  shows "grid (shard_count n) (shard_size n) buckets" and
    "sh < shard_count n \<Longrightarrow> pri < shard_size n \<Longrightarrow>
     fill_bucket zone g (shard_count n) sh pri (names_of_slot lg zone n g sh pri) (replicate BUCKET_BYTES 0)
       = Ok (buckets ! sh ! pri)"
proof -
  obtain nib where nib: "\<And>sh pri. sh < shard_count n \<Longrightarrow> pri < shard_size n \<Longrightarrow> nib ! sh ! pri = names_of_slot lg zone n g sh pri"
    and eq: "build_buckets lg zone n g =
      collect_ok (\<lambda>sh. collect_ok (\<lambda>pri. fill_bucket zone g (shard_count n) sh pri (nib ! sh ! pri)
        (replicate BUCKET_BYTES 0)) [0..<shard_size n]) [0..<shard_count n]"
    using build_buckets_eq [OF assms(1-3), where zone = zone and g = g] by blast
  have rows: "length buckets = shard_count n \<and> (\<forall>sh < shard_count n.
      collect_ok (\<lambda>pri. fill_bucket zone g (shard_count n) sh pri (nib ! sh ! pri)
        (replicate BUCKET_BYTES 0)) [0..<shard_size n] = Ok (buckets ! sh))"
    using assms(4) unfolding eq collect_ok_upt .
  then show "grid (shard_count n) (shard_size n) buckets"
    by (auto simp: grid_def collect_ok_upt)
  show "fill_bucket zone g (shard_count n) sh pri (names_of_slot lg zone n g sh pri) (replicate BUCKET_BYTES 0)
       = Ok (buckets ! sh ! pri)" if "sh < shard_count n" "pri < shard_size n"
    using rows that nib [OF that] unfolding collect_ok_upt by metis
qed

text \<open>The lookup of a name in the fleet, with the answer it must give.\<close>

definition faithful_at :: "zone \<Rightarrow> u64 \<Rightarrow> string \<Rightarrow> bytes \<Rightarrow> bool" where
  "faithful_at zone g name bucket \<longleftrightarrow>
     (name \<in> set (zone_names zone) \<longrightarrow> bucket_answer g name bucket = zone_answer zone name) \<and>
     (bucket_answer g name bucket = [] \<or>
      (\<exists>other \<in> set (zone_names zone).
         discriminator other g (read_bucket_salt bucket) = discriminator name g (read_bucket_salt bucket) \<and>
         bucket_answer g name bucket = zone_answer zone other))"

lemma build_buckets_faithful:
  assumes "abs_log2_ceil_spec lg" "1 \<le> n" "n \<le> RING_N * RING_N" "zone_wf zone"
    and "build_buckets lg zone n g = Ok buckets"
    and "slot lg name n g = (Ok (sh, pri) :: (build_error, nat \<times> nat) outcome)"
  shows "sh < length buckets" "pri < length (buckets ! sh)" "length (buckets ! sh ! pri) = BUCKET_BYTES"
    "faithful_at zone g name (buckets ! sh ! pri)"
proof -
  obtain sh' pri' where "slot lg name n g = (Ok (sh', pri') :: (build_error, nat \<times> nat) outcome)"
    "sh' < shard_count n" "pri' < shard_size n"
    using slot_in_range [OF assms(1-3)] .
  then have r: "sh < shard_count n" "pri < shard_size n"
    using assms(6) by simp_all
  show "sh < length buckets" "pri < length (buckets ! sh)"
    using build_buckets_shape(1) [OF assms(1-3,5)] r by (simp_all add: grid_def)
  note filled = bucket_answer_filled [OF assms(4) names_of_slot_subset
      build_buckets_shape(2) [OF assms(1-3,5) r]]
  show "length (buckets ! sh ! pri) = BUCKET_BYTES"
    by (rule filled(1))
  have "name \<in> set (zone_names zone) \<Longrightarrow> name \<in> set (names_of_slot lg zone n g sh pri)"
    using assms(6) by (simp add: names_of_slot_def slot_is_def)
  then show "faithful_at zone g name (buckets ! sh ! pri)"
    unfolding faithful_at_def
    using filled(2) filled(3) [of name] names_of_slot_subset [of lg zone n g sh pri] by blast
qed

lemma fill_bucket_cases:
  assumes "zone_wf zone" "set names \<subseteq> set (zone_names zone)"
  shows "fill_bucket zone g k sh pri names (replicate BUCKET_BYTES 0) \<noteq> Panic"
    and "fill_bucket zone g k sh pri names (replicate BUCKET_BYTES 0) = Err e \<Longrightarrow>
      (\<forall>b < MAX_BUCKET_SALT_ATTEMPTS. \<not> distinct (map (\<lambda>n. discriminator n g (of_nat b)) names)) \<and>
        e = No_Salt sh pri (length names) k \<or>
      (\<exists>needed > BUCKET_BYTES. e = Bucket_Failure sh pri (Overflow needed BUCKET_BYTES) k)"
proof -
  show "fill_bucket zone g k sh pri names (replicate BUCKET_BYTES 0) \<noteq> Panic"
    by (auto simp: fill_bucket_eq [OF assms] split: option.splits)
  assume err: "fill_bucket zone g k sh pri names (replicate BUCKET_BYTES 0) = Err e"
  show "(\<forall>b < MAX_BUCKET_SALT_ATTEMPTS. \<not> distinct (map (\<lambda>n. discriminator n g (of_nat b)) names)) \<and>
        e = No_Salt sh pri (length names) k \<or>
      (\<exists>needed > BUCKET_BYTES. e = Bucket_Failure sh pri (Overflow needed BUCKET_BYTES) k)"
  proof (cases "find_bucket_salt names g")
    case None
    then have "\<not> collision_free g (of_nat b) {} names" if "b < MAX_BUCKET_SALT_ATTEMPTS" for b
      using that find_salt_from_None [of names g 0 MAX_BUCKET_SALT_ATTEMPTS b] by (simp add: find_bucket_salt_def)
    then show ?thesis
      using err None by (auto simp: fill_bucket_eq [OF assms] collision_free_iff split: if_splits)
  next
    case (Some r)
    have "FIRST_ENTRY_OFFSET \<le> BUCKET_BYTES" by (simp add: bucket_consts)
    then show ?thesis
      using Some err first_overflow_over [of FIRST_ENTRY_OFFSET "bucket_entries zone g (fst r) names"]
      by (cases r) (auto simp: fill_bucket_eq [OF assms] used_bytes_def not_le split: if_splits)
  qed
qed

lemma collect_ok_Err: "collect_ok f xs = Err e \<Longrightarrow> \<exists>x \<in> set xs. f x = Err e"
proof (induction xs)
  case (Cons x xs)
  then show ?case by (cases "f x"; cases "collect_ok f xs") auto
qed simp

end
