(* ===== verification/Client_Correct.thy ===== *)
theory Client_Correct
  imports Client Server_Correct
begin

text \<open>
  The resolver against the contract of the servers it talks to. The interface \<open>name_service\<close> states
  what a server promises of its query function; the walk of one hop is specified once against it and
  the contract is then discharged by both kinds of server: a downloaded zone (\<open>exact_service\<close>) and a
  fleet of PIR buckets.
\<close>

section \<open>Zones and suffixes\<close>

lemma ends_with_iff: "ends_with s t \<longleftrightarrow> (\<exists>p. s = p @ t)"
proof
  assume "ends_with s t"
  then have "s = take (length s - length t) s @ t"
    by (metis append_take_drop_id ends_with_def)
  then show "\<exists>p. s = p @ t" by blast
qed (auto simp: ends_with_def)

lemma belongs_iff:
  "target_belongs_to_zone target zone \<longleftrightarrow>
     zone = [] \<or> target = zone \<or> (\<exists>p. target = p @ CHR ''.'' # zone)"
proof -
  have "length target > length zone \<and> ends_with target zone \<and>
      target ! (length target - length zone - 1) = CHR ''.'' \<longleftrightarrow> (\<exists>p. target = p @ CHR ''.'' # zone)"
    (is "?l \<longleftrightarrow> ?r")
  proof
    assume l: ?l
    then obtain q where q: "target = q @ zone" by (auto simp: ends_with_iff)
    then have "q \<noteq> []" using l by auto
    then obtain p c where "q = p @ [c]" by (metis rev_exhaust)
    then show ?r using l q by (auto simp: nth_append)
  next
    assume ?r
    then show ?l by (auto simp: ends_with_iff nth_append)
  qed
  then show ?thesis by (auto simp: target_belongs_to_zone_def)
qed

lemma strip_leftmost_append:
  "strip_leftmost (p @ CHR ''.'' # s) = Some (case strip_leftmost p of None \<Rightarrow> s | Some p' \<Rightarrow> p' @ CHR ''.'' # s)"
  by (induction p) auto

lemma strip_leftmost_Some: "strip_leftmost s = Some t \<Longrightarrow> \<exists>p. s = p @ CHR ''.'' # t"
proof (induction s)
  case (Cons c s)
  show ?case
  proof (cases "c = CHR ''.''")
    case True
    then show ?thesis using Cons.prems by auto
  next
    case False
    then obtain p where "s = p @ CHR ''.'' # t" using Cons by auto
    then show ?thesis by (intro exI [of _ "c # p"]) simp
  qed
qed simp

lemma strip_stays_in_zone:
  assumes "target_belongs_to_zone name zone" "name \<noteq> zone" "strip_leftmost name = Some t"
  shows "target_belongs_to_zone t zone"
  using assms strip_leftmost_append unfolding belongs_iff by (auto split: option.splits)

text \<open>The names a hop may ask: the suffixes of the target at label boundaries, from longest to shortest.\<close>

function name_chain :: "string \<Rightarrow> string list" where
  "name_chain name = name # (case strip_leftmost name of None \<Rightarrow> [] | Some t \<Rightarrow> name_chain t)"
  by pat_completeness auto
termination
  by (relation "measure length") (auto dest: strip_leftmost_shorter)

declare name_chain.simps [simp del]

definition hop_names :: "string \<Rightarrow> string \<Rightarrow> string list" where
  "hop_names zone name = takeWhile (\<lambda>n. n \<noteq> zone) (name_chain name) @
     (if zone \<in> set (name_chain name) then [zone] else [])"

lemma hop_names_step:
  "hop_names zone name =
     (if name = zone then [name]
      else name # (case strip_leftmost name of None \<Rightarrow> [] | Some t \<Rightarrow> hop_names zone t))"
  by (auto simp: hop_names_def name_chain.simps [of name] split: option.splits)

lemma set_hop_names:
  "q \<in> set (hop_names zone name) \<longleftrightarrow>
     q = name \<or> (name \<noteq> zone \<and> (\<exists>t. strip_leftmost name = Some t \<and> q \<in> set (hop_names zone t)))"
  by (subst hop_names_step) (auto split: option.splits)

lemma hop_names_in_zone:
  "target_belongs_to_zone name zone \<Longrightarrow> q \<in> set (hop_names zone name) \<Longrightarrow> target_belongs_to_zone q zone"
proof (induction name rule: name_chain.induct)
  case (1 name)
  from "1.prems"(2) consider "q = name"
    | t where "name \<noteq> zone" "strip_leftmost name = Some t" "q \<in> set (hop_names zone t)"
    unfolding set_hop_names [of q zone name] by blast
  then show ?case
    using "1.IH" "1.prems"(1) strip_stays_in_zone by cases auto
qed

lemma hop_names_suffix: "q \<in> set (hop_names zone name) \<Longrightarrow> \<exists>p. name = p @ q"
proof (induction name rule: name_chain.induct)
  case (1 name)
  from "1.prems" consider "q = name"
    | t where "strip_leftmost name = Some t" "q \<in> set (hop_names zone t)"
    unfolding set_hop_names [of q zone name] by blast
  then show ?case
  proof cases
    case 2
    then show ?thesis
      using "1.IH" [OF 2] strip_leftmost_Some [OF 2(1)] by (metis append.assoc append_Cons)
  qed simp
qed


section \<open>What a hop returns\<close>

text \<open>The walk as a search: the first name of the list whose answer is useful.\<close>

fun hop_search :: "(string \<Rightarrow> dns_record list) \<Rightarrow> string \<Rightarrow> string list \<Rightarrow> hop_outcome" where
  "hop_search answers target [] = Hop_NotFound"
| "hop_search answers target (name # names) =
     (if name = target \<and> filter is_address (answers name) \<noteq> []
      then Answer (filter is_address (answers name))
      else if ns_ips_of (answers name) \<noteq> [] then Delegation name (ns_ips_of (answers name))
      else hop_search answers target names)"

lemma hop_loop_search:
  assumes "\<And>q. q \<in> set (hop_names (srv_zone_name server) name) \<Longrightarrow> srv_query server q = Ok (answers q)"
  shows "hop_loop server target name =
    Ok (hop_search answers target (hop_names (srv_zone_name server) name))"
  using assms
proof (induction server target name rule: hop_loop.induct)
  case (1 server target name)
  let ?zone = "srv_zone_name server"
  have here: "srv_query server name = Ok (answers name)"
    by (rule "1.prems") (subst hop_names_step, simp)
  show ?case
  proof (cases "name = ?zone")
    case True
    then show ?thesis
      using here True by (subst hop_loop.simps, subst hop_names_step) (auto simp: Let_def)
  next
    case False
    show ?thesis
    proof (cases "strip_leftmost name")
      case None
      then show ?thesis
        using here False by (subst hop_loop.simps, subst hop_names_step) (auto simp: Let_def)
    next
      case (Some t)
      have sub: "q \<in> set (hop_names ?zone t) \<Longrightarrow> q \<in> set (hop_names ?zone name)" for q
        using False Some by (subst hop_names_step) simp
      then show ?thesis
        using here False Some "1.IH" [OF refl refl _ _ False Some] "1.prems"
        by (subst hop_loop.simps, subst hop_names_step) (auto simp: Let_def)
    qed
  qed
qed

lemma hop_search_Answer:
  "hop_search answers target names = Answer recs \<Longrightarrow>
     recs = filter is_address (answers target) \<and> recs \<noteq> [] \<and> target \<in> set names"
  by (induction names) (auto split: if_splits)

lemma hop_search_Delegation:
  "hop_search answers target names = Delegation d ips \<Longrightarrow>
     d \<in> set names \<and> ips = ns_ips_of (answers d) \<and> ips \<noteq> [] \<and>
     (\<forall>n \<in> set (takeWhile (\<lambda>n. n \<noteq> d) names). ns_ips_of (answers n) = [])"
  by (induction names) (auto split: if_splits)

lemma hop_search_NotFound:
  "hop_search answers target names = Hop_NotFound \<Longrightarrow> n \<in> set names \<Longrightarrow>
     ns_ips_of (answers n) = [] \<and> (n = target \<longrightarrow> filter is_address (answers n) = [])"
  by (induction names) (auto split: if_splits)


section \<open>The contract of a server\<close>

locale name_service =
  fixes ok :: "'z \<Rightarrow> bool"
    and held :: "'z \<Rightarrow> string set"
    and zone_of :: "'z \<Rightarrow> string"
    and ask :: "'z \<Rightarrow> string \<Rightarrow> (io_error, dns_record list) outcome"
    and holds :: "'z \<Rightarrow> string \<Rightarrow> dns_record list"
  assumes ask_held: "ok z \<Longrightarrow> name \<in> held z \<Longrightarrow> ask z name = Ok (holds z name)"
    and ask_other: "ok z \<Longrightarrow> name \<notin> held z \<Longrightarrow>
      \<exists>rs. ask z name = Ok rs \<and> (rs = [] \<or> (\<exists>other \<in> held z. rs = holds z other))"
begin

lemma ask_total: "ok z \<Longrightarrow> \<exists>rs. ask z name = Ok rs"
  using ask_held ask_other by (cases "name \<in> held z") blast+

lemma hop_total:
  assumes "ok z"
  shows "\<exists>r. one_hop \<lparr>srv_zone_name = zone_of z, srv_query = ask z\<rparr> target = Ok r"
proof -
  have "ask z q = Ok (case ask z q of Ok rs \<Rightarrow> rs | _ \<Rightarrow> [])" for q
    using ask_total [OF assms, of q] by auto
  then have "hop_loop \<lparr>srv_zone_name = zone_of z, srv_query = ask z\<rparr> target target =
      Ok (hop_search (\<lambda>q. case ask z q of Ok rs \<Rightarrow> rs | _ \<Rightarrow> []) target (hop_names (zone_of z) target))"
    using hop_loop_search [of "\<lparr>srv_zone_name = zone_of z, srv_query = ask z\<rparr>" target] by simp
  then show ?thesis
    by (simp add: one_hop_def)
qed

lemma hop_answers:
  assumes "ok z" "target \<in> held z" "target_belongs_to_zone target (zone_of z)"
    and "filter is_address (holds z target) \<noteq> []"
  shows "one_hop \<lparr>srv_zone_name = zone_of z, srv_query = ask z\<rparr> target =
    Ok (Answer (filter is_address (holds z target)))"
  using assms ask_held [OF assms(1,2)] by (subst one_hop_def, subst hop_loop.simps) (simp add: Let_def)

end

locale exact_service = name_service +
  assumes ask_absent: "ok z \<Longrightarrow> name \<notin> held z \<Longrightarrow> ask z name = Ok []"
    and holds_absent: "name \<notin> held z \<Longrightarrow> holds z name = []"
begin

lemma ask_exact: "ok z \<Longrightarrow> ask z name = Ok (holds z name)"
  using ask_held ask_absent holds_absent by (cases "name \<in> held z") simp_all

lemma hop_exact:
  assumes "ok z"
  shows "one_hop \<lparr>srv_zone_name = zone_of z, srv_query = ask z\<rparr> target =
    Ok (if target_belongs_to_zone target (zone_of z)
        then hop_search (holds z) target (hop_names (zone_of z) target) else OutOfZone)"
  using hop_loop_search [of "\<lparr>srv_zone_name = zone_of z, srv_query = ask z\<rparr>" target "holds z"]
    ask_exact [OF assms] by (simp add: one_hop_def)

end


section \<open>A downloaded zone keeps the contract\<close>

lemma local_ns_eq:
  assumes "\<forall>i \<in> set idxs. unat i < length (zn_ns_pool zone)"
  shows "local_ns zone idxs = Ok (map (\<lambda>i. Rec_Ns (ns_ip zone i)) idxs)"
  using assms by (induction idxs) (simp_all add: ns_hostname_def ns_record_def)

lemma map_of_zone_names: "map_of (zn_records zone) name = Some rec \<Longrightarrow> name \<in> set (zone_names zone)"
  unfolding zone_names_def by (metis domI dom_map_of_conv_image_fst list.set_map)

lemma local_query_eq: "zone_wf zone \<Longrightarrow> local_query zone name = Ok (zone_answer zone name)"
  using map_of_zone_name [of zone name] map_of_zone_names [of zone name]
  by (cases "map_of (zn_records zone) name")
    (auto simp: local_query_def zone_answer_def records_of_def local_ns_eq ns_valid_def)

lemma zone_answer_absent: "name \<notin> set (zone_names zone) \<Longrightarrow> zone_answer zone name = []"
  using map_of_zone_names by (auto simp: zone_answer_def split: option.splits)

interpretation local_zone: exact_service zone_wf "\<lambda>zone. set (zone_names zone)" zn_zone_name local_query zone_answer
  by unfold_locales (auto simp: local_query_eq zone_answer_absent)


section \<open>A fleet of PIR buckets keeps the contract\<close>

text \<open>
  A query answered with the coefficients the databases hold at the slot of the name, which is what
  the PIR engine computes under encryption.
\<close>

definition fleet_query ::
    "(int \<Rightarrow> nat option) \<Rightarrow> pir_state \<Rightarrow> u64 \<Rightarrow> string \<Rightarrow> (io_error, dns_record list) outcome" where
  "fleet_query lg pir salt name =
     bind_outcome (slot lg name (pir_num_entries pir) salt) (\<lambda>(sh, pri).
       if sh < length (pir_dbs pir) \<and> pri < length (pir_dbs pir ! sh)
       then read_answer salt name (map unat (pir_dbs pir ! sh ! pri)) else Panic)"

definition fleet_serves :: "(int \<Rightarrow> nat option) \<Rightarrow> zone \<Rightarrow> pir_state \<Rightarrow> u64 \<Rightarrow> bool" where
  "fleet_serves lg zone pir salt \<longleftrightarrow>
     abs_log2_ceil_spec lg \<and> zone_wf zone \<and>
     1 \<le> pir_num_entries pir \<and> pir_num_entries pir \<le> RING_N * RING_N \<and>
     (\<exists>buckets. build_buckets lg zone (pir_num_entries pir) salt = Ok buckets \<and>
        preprocess lg buckets (pir_num_entries pir) = Ok pir)"

lemma read_answer_packed:
  assumes "length bucket = BUCKET_BYTES"
  shows "read_answer salt name (map unat (pack_bytes_into_coeffs bucket)) = Ok (bucket_answer salt name bucket)"
proof -
  have len: "length (pack_bytes_into_coeffs bucket) = RING_N"
    by simp
  have "map (\<lambda>i. of_nat (map unat (pack_bytes_into_coeffs bucket) ! i)) [0..<RING_N] = pack_bytes_into_coeffs bucket"
    by (rule nth_equalityI) (simp_all add: len)
  then show ?thesis
    by (simp add: read_answer_def coeffs_to_bucket_def len unpack_pack_bytes assms bucket_answer_def Let_def)
qed

lemma set_db_Ok: "set_db primary bs = Ok db \<Longrightarrow> db = map pack_bytes_into_coeffs bs"
  by (simp add: set_db_def split: if_splits)

lemma preprocess_Ok:
  assumes "preprocess lg buckets n = Ok pir"
  shows "pir_dbs pir = map (map pack_bytes_into_coeffs) buckets" "pir_num_entries pir = n"
proof -
  obtain primary dbs where dbs: "collect_ok (set_db primary) buckets = Ok dbs"
    and pir: "pir = \<lparr>pir_dbs = dbs, pir_num_entries = n\<rparr>"
    using assms by (auto simp: preprocess_def split: if_splits)
  have "dbs = map (map pack_bytes_into_coeffs) buckets"
    using dbs set_db_Ok by (intro nth_equalityI [of dbs]) (auto simp: collect_ok_Ok)
  then show "pir_dbs pir = map (map pack_bytes_into_coeffs) buckets" "pir_num_entries pir = n"
    using pir by simp_all
qed

lemma fleet_query_faithful:
  assumes "fleet_serves lg zone pir salt"
  obtains bucket where "fleet_query lg pir salt name = Ok (bucket_answer salt name bucket)"
    "faithful_at zone salt name bucket"
proof -
  let ?n = "pir_num_entries pir"
  obtain buckets where b: "build_buckets lg zone ?n salt = Ok buckets" "preprocess lg buckets ?n = Ok pir"
    and h: "abs_log2_ceil_spec lg" "1 \<le> ?n" "?n \<le> RING_N * RING_N" "zone_wf zone"
    using assms by (auto simp: fleet_serves_def)
  let ?i = "slot_index ?n salt name"
  note sl = slot_ok [OF h(1-3), of name salt]
  note f = build_buckets_faithful [OF h(1-4) b(1) sl]
  show thesis
  proof
    show "fleet_query lg pir salt name =
        Ok (bucket_answer salt name (buckets ! (?i div shard_size ?n) ! (?i mod shard_size ?n)))"
      using f(1-3) by (simp add: fleet_query_def sl preprocess_Ok(1) [OF b(2)] read_answer_packed del: bind_outcome_eq_Ok)
    show "faithful_at zone salt name (buckets ! (?i div shard_size ?n) ! (?i mod shard_size ?n))"
      by (rule f(4))
  qed
qed

interpretation fleet: name_service
  "\<lambda>(lg, zone, pir, salt). fleet_serves lg zone pir salt"
  "\<lambda>(lg, zone, pir, salt). set (zone_names zone)"
  "\<lambda>(lg, zone, pir, salt). zn_zone_name zone"
  "\<lambda>(lg, zone, pir, salt). fleet_query lg pir salt"
  "\<lambda>(lg, zone, pir, salt). zone_answer zone"
proof (unfold_locales, goal_cases)
  case (1 z name)
  then show ?case
    by (cases z) (auto elim!: fleet_query_faithful [where name = name] simp: faithful_at_def)
next
  case (2 z name)
  then show ?case
    by (cases z) (auto elim!: fleet_query_faithful [where name = name] simp: faithful_at_def)
qed

end
