(* ===== verification/Resolver.thy ===== *)
theory Resolver
  imports Client_Correct
begin

text \<open>
  The iterative resolver as a state machine: the candidate pools reachable from the initial servers
  through delegations (\<open>delegates\<close>), the runs that end in an answer (\<open>resolves_in\<close>), and the
  invariants of \<open>resolve_loop\<close> over them: where an answer comes from, how many hops are made, and
  that a run within the hop limit is found.
\<close>

section \<open>Pools reachable through delegations\<close>

abbreviation next_pool :: "ip_addr list \<Rightarrow> socket_addr list" where
  "next_pool ips \<equiv> map (\<lambda>ip. SocketAddr ip DEFAULT_PORT) ips"

inductive delegates :: "connector \<Rightarrow> string \<Rightarrow> socket_addr list \<Rightarrow> nat \<Rightarrow> socket_addr list \<Rightarrow> bool"
  for connect target initial where
  start: "delegates connect target initial 0 initial"
| hop: "delegates connect target initial h pool \<Longrightarrow> addr \<in> set pool \<Longrightarrow> connect k addr = Ok server \<Longrightarrow>
    one_hop server target = Ok (Delegation d ips) \<Longrightarrow>
    delegates connect target initial (Suc h) (next_pool ips)"

inductive_cases delegates_SucE: "delegates connect target initial (Suc h) pool"

lemma connect_any_Some:
  "connect_any connect tried pool evs = (Ok (Some (addr, server)), tried', evs') \<Longrightarrow>
     addr \<in> set pool \<and> (\<exists>k. connect k addr = Ok server)"
proof (induction pool arbitrary: tried evs)
  case (Cons a pool)
  then show ?case
    by (auto split: outcome.splits dest: Cons.IH)
qed simp

lemma connect_any_no_Err: "connect_any connect tried pool evs \<noteq> (Err e, tried', evs')"
  by (induction pool arbitrary: tried evs) (auto split: outcome.splits)

definition hop_starts :: "resolution_event list \<Rightarrow> nat" where
  "hop_starts evs = length (filter (\<lambda>e. case e of Ev_HopStart _ _ _ \<Rightarrow> True | _ \<Rightarrow> False) evs)"

lemma hop_starts_simps [simp]:
  "hop_starts [] = 0"
  "hop_starts (evs @ evs') = hop_starts evs + hop_starts evs'"
  "hop_starts (Ev_HopStart n addr z # evs) = Suc (hop_starts evs)"
  "hop_starts (Ev_ConnectFailed addr msg # evs) = hop_starts evs"
  "hop_starts (Ev_Delegation d ips # evs) = hop_starts evs"
  by (simp_all add: hop_starts_def)

lemma connect_any_hop_starts:
  "connect_any connect tried pool evs = (r, tried', evs') \<Longrightarrow> hop_starts evs' = hop_starts evs"
  by (induction pool arbitrary: tried evs) (auto split: outcome.splits)

lemma one_hop_Delegation: "one_hop server target = Ok (Delegation d ips) \<Longrightarrow> ips \<noteq> []"
proof -
  have "hop_loop server target name = Ok (Delegation d ips) \<Longrightarrow> ips \<noteq> []" for name
  proof (induction server target name rule: hop_loop.induct)
    case (1 server target name)
    show ?case
      using "1.prems" "1.IH"
      by (subst (asm) hop_loop.simps) (auto simp: Let_def split: if_splits option.splits)
  qed
  then show "one_hop server target = Ok (Delegation d ips) \<Longrightarrow> ips \<noteq> []"
    by (auto simp: one_hop_def split: if_splits)
qed

text \<open>The single step of the resolver, by the outcome of the connection loop and of the hop.\<close>

lemma resolve_loop_step:
  assumes "pool \<noteq> []" "hops < MAX_HOPS"
    and "connect_any connect tried pool evs = (Ok (Some (addr, server)), tried', evs')"
  shows "resolve_loop connect target hops tried pool evs =
    (let evs'' = evs' @ [Ev_HopStart (Suc hops) addr (srv_zone_name server)] in
     case one_hop server target of
       Ok (Answer recs) \<Rightarrow> (Ok (Found recs), evs'')
     | Ok (Delegation d ips) \<Rightarrow>
         resolve_loop connect target (Suc hops) tried' (next_pool ips) (evs'' @ [Ev_Delegation d ips])
     | Ok Hop_NotFound \<Rightarrow> (Ok Res_NotFound, evs'')
     | Ok OutOfZone \<Rightarrow>
         (Ok (Failed (''target '' @ target @ '' doesn'' @ [CHR 0x27] @ ''t belong to zone .'' @
            srv_zone_name server)), evs'')
     | Err e \<Rightarrow> (Ok (Failed (''query error: '' @ err_text e)), evs'')
     | Panic \<Rightarrow> (Panic, evs''))"
  using assms by (subst resolve_loop.simps) (simp add: Let_def)

lemma resolve_loop_cases:
  assumes "resolve_loop connect target hops tried pool evs = (res, evs')"
  obtains (stuck) "pool = []" "res = Ok (Failed ''no candidates left to try'')" "evs' = evs"
  | (limit) "pool \<noteq> []" "MAX_HOPS \<le> hops" "res = Ok (Failed ''too many hops (16)'')" "evs' = evs"
  | (panic) tried' where "pool \<noteq> []" "hops < MAX_HOPS"
      "connect_any connect tried pool evs = (Panic, tried', evs')" "res = Panic"
  | (dead) tried' where "pool \<noteq> []" "hops < MAX_HOPS"
      "connect_any connect tried pool evs = (Ok None, tried', evs')"
      "res = Ok (Failed (''no candidate server reachable (tried '' @ show_radix 10 tried' @ '')''))"
  | (hop) addr server tried' evs1 where "pool \<noteq> []" "hops < MAX_HOPS"
      "connect_any connect tried pool evs = (Ok (Some (addr, server)), tried', evs1)"
proof (cases "pool = [] \<or> MAX_HOPS \<le> hops")
  case True
  have "show_radix 10 MAX_HOPS = ''16''"
    by (simp add: MAX_HOPS_def show_radix_step digit_char_def char_of_def bit_simps)
  then show thesis
    using True assms stuck limit by (subst (asm) resolve_loop.simps) (auto split: if_splits)
next
  case False
  obtain r tried' evs1 where c: "connect_any connect tried pool evs = (r, tried', evs1)"
    by (metis prod_cases3)
  show thesis
  proof (cases r)
    case (Ok x)
    show thesis
    proof (cases x)
      case None
      then show thesis
        using False Ok c assms dead by (subst (asm) resolve_loop.simps) auto
    next
      case (Some y)
      then show thesis using False Ok c hop by (cases y) auto
    qed
  next
    case (Err e)
    then show thesis using c connect_any_no_Err by fast
  next
    case Panic
    then show thesis
      using False c assms panic by (subst (asm) resolve_loop.simps) auto
  qed
qed

lemma resolve_loop_found:
  assumes "resolve_loop connect target hops tried pool evs = (Ok (Found recs), evs')"
    and "delegates connect target initial hops pool"
  shows "\<exists>h pool' addr k server. delegates connect target initial h pool' \<and> h < MAX_HOPS \<and>
    addr \<in> set pool' \<and> connect k addr = Ok server \<and> one_hop server target = Ok (Answer recs)"
  using assms
proof (induction "MAX_HOPS - hops" arbitrary: hops tried pool evs)
  case 0
  then show ?case by (auto elim!: resolve_loop_cases)
next
  case (Suc n)
  from Suc.prems(1) show ?case
  proof (cases rule: resolve_loop_cases)
    case (hop addr server tried' evs1)
    note step = resolve_loop_step [OF hop]
    obtain k where k: "addr \<in> set pool" "connect k addr = Ok server"
      using connect_any_Some [OF hop(3)] by blast
    show ?thesis
    proof (cases "one_hop server target")
      case (Ok out)
      show ?thesis
      proof (cases out)
        case (Answer rs)
        then have "rs = recs" using Suc.prems(1) step Ok by (simp add: Let_def)
        then show ?thesis using Suc.prems(2) hop(2) k Ok Answer by blast
      next
        case (Delegation d ips)
        have "delegates connect target initial (Suc hops) (next_pool ips)"
          using Suc.prems(2) k Ok Delegation by (auto intro: delegates.hop)
        moreover have "n = MAX_HOPS - Suc hops" using Suc.hyps(2) by simp
        ultimately show ?thesis
          using Suc.hyps(1) Ok Delegation Suc.prems(1) step by (simp add: Let_def)
      qed (use Suc.prems(1) step Ok in \<open>simp_all add: Let_def\<close>)
    qed (use Suc.prems(1) step in \<open>simp_all add: Let_def\<close>)
  qed auto
qed

text \<open>The hop limit, and that the pool never runs empty once it was not.\<close>

lemma resolve_loop_hops:
  assumes "resolve_loop connect target hops tried pool evs = (res, evs')" "hops \<le> MAX_HOPS"
  shows "hop_starts evs' \<le> hop_starts evs + (MAX_HOPS - hops)"
  using assms
proof (induction "MAX_HOPS - hops" arbitrary: hops tried pool evs)
  case 0
  then show ?case by (auto elim!: resolve_loop_cases)
next
  case (Suc n)
  from Suc.prems(1) show ?case
  proof (cases rule: resolve_loop_cases)
    case (hop addr server tried' evs1)
    have starts: "hop_starts evs1 = hop_starts evs"
      using connect_any_hop_starts [OF hop(3)] .
    have IH: "hop_starts evs' \<le> hop_starts evs2 + (MAX_HOPS - Suc hops)"
      if "resolve_loop connect target (Suc hops) t p evs2 = (res, evs')" for t p evs2
      using Suc.hyps(1) [OF _ that] Suc.hyps(2) by simp
    show ?thesis
      using Suc.prems(1) hop(2) starts
      by (auto simp: resolve_loop_step [OF hop] Let_def split: outcome.splits hop_outcome.splits dest!: IH)
  qed (auto dest: connect_any_hop_starts)
qed

lemma resolve_loop_not_stuck:
  assumes "resolve_loop connect target hops tried pool evs = (res, evs')" "pool \<noteq> []"
  shows "res \<noteq> Ok (Failed ''no candidates left to try'') \<and> (\<forall>e. res \<noteq> Err e)"
  using assms
proof (induction "MAX_HOPS - hops" arbitrary: hops tried pool evs)
  case 0
  then show ?case by (auto elim!: resolve_loop_cases)
next
  case (Suc n)
  from Suc.prems(1) show ?case
  proof (cases rule: resolve_loop_cases)
    case (hop addr server tried' evs1)
    have IH: "res \<noteq> Ok (Failed ''no candidates left to try'') \<and> (\<forall>e. res \<noteq> Err e)"
      if "resolve_loop connect target (Suc hops) t p evs2 = (res, evs')" "p \<noteq> []" for t p evs2
      using Suc.hyps(1) [OF _ that] Suc.hyps(2) by simp
    show ?thesis
      using Suc.prems(1) IH one_hop_Delegation [of server target]
      by (auto simp: resolve_loop_step [OF hop] Let_def split: outcome.splits hop_outcome.splits)
  qed (use Suc.prems(2) in auto)
qed


section \<open>Runs that end in an answer\<close>

fun first_reachable :: "(socket_addr \<Rightarrow> (io_error, dns_server) outcome) \<Rightarrow> socket_addr list \<Rightarrow> (socket_addr \<times> dns_server) option" where
  "first_reachable conn [] = None"
| "first_reachable conn (addr # pool) =
     (case conn addr of Ok s \<Rightarrow> Some (addr, s) | Err e \<Rightarrow> first_reachable conn pool | Panic \<Rightarrow> None)"

text \<open>\<open>n\<close> hops from \<open>pool\<close>, always through the first reachable candidate, end in the answer \<open>recs\<close>.\<close>

inductive resolves_in ::
    "(socket_addr \<Rightarrow> (io_error, dns_server) outcome) \<Rightarrow> string \<Rightarrow> socket_addr list \<Rightarrow> nat \<Rightarrow> dns_record list \<Rightarrow> bool"
  for conn target where
  answered: "first_reachable conn pool = Some (addr, server) \<Longrightarrow> one_hop server target = Ok (Answer recs) \<Longrightarrow>
    resolves_in conn target pool 1 recs"
| delegated: "first_reachable conn pool = Some (addr, server) \<Longrightarrow> one_hop server target = Ok (Delegation d ips) \<Longrightarrow>
    resolves_in conn target (next_pool ips) n recs \<Longrightarrow> resolves_in conn target pool (Suc n) recs"

lemma connect_any_first:
  "first_reachable conn pool = Some (addr, server) \<Longrightarrow>
     \<exists>tried' evs'. connect_any (\<lambda>_. conn) tried pool evs = (Ok (Some (addr, server)), tried', evs')"
  by (induction pool arbitrary: tried evs) (auto split: outcome.splits)

lemma first_reachable_nonempty: "first_reachable conn pool = Some x \<Longrightarrow> pool \<noteq> []"
  by auto

lemma resolves_in_pos: "resolves_in conn target pool n recs \<Longrightarrow> pool \<noteq> [] \<and> 0 < n"
  by (induction rule: resolves_in.induct) (auto dest: first_reachable_nonempty)

lemma resolve_loop_complete:
  assumes "resolves_in conn target pool n recs" "hops \<le> MAX_HOPS"
  shows "fst (resolve_loop (\<lambda>_. conn) target hops tried pool evs) =
    Ok (if hops + n \<le> MAX_HOPS then Found recs else Failed ''too many hops (16)'')"
  using assms
proof (induction arbitrary: hops tried evs rule: resolves_in.induct)
  case (answered pool addr server recs)
  show ?case
  proof (cases "hops < MAX_HOPS")
    case True
    obtain tried' evs' where "connect_any (\<lambda>_. conn) tried pool evs = (Ok (Some (addr, server)), tried', evs')"
      using connect_any_first [OF answered(1)] by blast
    from resolve_loop_step [OF first_reachable_nonempty [OF answered(1)] True this] show ?thesis
      using True answered(2) by (simp add: Let_def)
  next
    case False
    then show ?thesis
      using first_reachable_nonempty [OF answered(1)] answered.prems
      by (cases "resolve_loop (\<lambda>_. conn) target hops tried pool evs") (auto elim!: resolve_loop_cases)
  qed
next
  case (delegated pool addr server d ips n recs)
  show ?case
  proof (cases "hops < MAX_HOPS")
    case True
    obtain tried' evs' where "connect_any (\<lambda>_. conn) tried pool evs = (Ok (Some (addr, server)), tried', evs')"
      using connect_any_first [OF delegated(1)] by blast
    from resolve_loop_step [OF first_reachable_nonempty [OF delegated(1)] True this] show ?thesis
      using True delegated(2) delegated.IH [of "Suc hops"] by (simp add: Let_def)
  next
    case False
    then show ?thesis
      using first_reachable_nonempty [OF delegated(1)] delegated.prems resolves_in_pos [OF delegated(3)]
      by (cases "resolve_loop (\<lambda>_. conn) target hops tried pool evs") (auto elim!: resolve_loop_cases)
  qed
qed

section \<open>Properties of the resolver\<close>

text \<open>
  C8. One hop asks its server only for suffixes of the target at label boundaries that lie inside the
  server's zone, from the longest to the shortest: two servers that agree on the zone name and on
  those names give the same outcome. The apex of the zone is the last name asked.
\<close>

theorem hop_asks_in_zone:
  assumes "srv_zone_name s = srv_zone_name s'"
    and "\<And>q. q \<in> set (hop_names (srv_zone_name s) target) \<Longrightarrow>
      target_belongs_to_zone q (srv_zone_name s) \<Longrightarrow> \<exists>p. target = p @ q \<Longrightarrow>
      srv_query s q = Ok (answers q) \<and> srv_query s' q = Ok (answers q)"
  shows "one_hop s target = one_hop s' target \<and>
    one_hop s target = Ok (if target_belongs_to_zone target (srv_zone_name s)
      then hop_search answers target (hop_names (srv_zone_name s) target) else OutOfZone)"
proof (cases "target_belongs_to_zone target (srv_zone_name s)")
  case True
  have "srv_query s q = Ok (answers q)" "srv_query s' q = Ok (answers q)"
    if "q \<in> set (hop_names (srv_zone_name s) target)" for q
    using assms(2) [OF that hop_names_in_zone [OF True that] hop_names_suffix [OF that]] by simp_all
  then show ?thesis
    using True hop_loop_search [of s target answers target] hop_loop_search [of s' target answers target] assms(1)
    by (simp add: one_hop_def)
qed (use assms(1) in \<open>simp add: one_hop_def\<close>)

definition demo_server :: dns_server where
  "demo_server = \<lparr>srv_zone_name = ''org'', srv_query = (\<lambda>q. Ok (if q = ''b.org'' then [Rec_Ns (V4 (Ipv4Addr 10 0 0 2))] else []))\<rparr>"

lemma hop_names_demo: "hop_names ''org'' ''a.b.org'' = [''a.b.org'', ''b.org'', ''org'']"
  by (simp add: hop_names_step)

theorem hop_asks_in_zone_witness:
  "one_hop demo_server ''a.b.org'' = Ok (Delegation ''b.org'' [V4 (Ipv4Addr 10 0 0 2)])"
proof -
  have z: "srv_zone_name demo_server = ''org''" by (simp add: demo_server_def)
  have "one_hop demo_server ''a.b.org'' = Ok (if target_belongs_to_zone ''a.b.org'' (srv_zone_name demo_server)
      then hop_search (\<lambda>q. if q = ''b.org'' then [Rec_Ns (V4 (Ipv4Addr 10 0 0 2))] else []) ''a.b.org''
        (hop_names (srv_zone_name demo_server) ''a.b.org'') else OutOfZone)"
    using hop_asks_in_zone [of demo_server demo_server "''a.b.org''"
        "\<lambda>q. if q = ''b.org'' then [Rec_Ns (V4 (Ipv4Addr 10 0 0 2))] else []"]
    by (simp add: demo_server_def)
  then show ?thesis
    unfolding z hop_names_demo by (simp add: belongs_iff)
qed

text \<open>
  C9. What the three outcomes of a hop mean, for a server whose answers are \<open>answers\<close>: an answer is the
  non-empty list of address records of the target itself; a delegation names a suffix of the target
  with name servers while no longer suffix has any; and without either, no suffix up to the zone apex
  has a name server and the target has no address.
\<close>

theorem hop_outcomes:
  assumes "\<And>q. srv_query s q = Ok (answers q)"
  shows "case one_hop s target of
      Ok (Answer recs) \<Rightarrow> recs = filter is_address (answers target) \<and> recs \<noteq> []
    | Ok (Delegation d ips) \<Rightarrow> d \<in> set (hop_names (srv_zone_name s) target) \<and> ips = ns_ips_of (answers d) \<and> ips \<noteq> [] \<and>
        (\<forall>n \<in> set (takeWhile (\<lambda>n. n \<noteq> d) (hop_names (srv_zone_name s) target)). ns_ips_of (answers n) = [])
    | Ok Hop_NotFound \<Rightarrow> filter is_address (answers target) = [] \<and>
        (\<forall>n \<in> set (hop_names (srv_zone_name s) target). ns_ips_of (answers n) = [])
    | Ok OutOfZone \<Rightarrow> \<not> target_belongs_to_zone target (srv_zone_name s)
    | _ \<Rightarrow> False"
proof (cases "target_belongs_to_zone target (srv_zone_name s)")
  case True
  let ?ns = "hop_names (srv_zone_name s) target"
  have hop: "one_hop s target = Ok (hop_search answers target ?ns)"
    using True hop_loop_search [of s target answers target] assms by (simp add: one_hop_def)
  have self: "target \<in> set ?ns"
    by (subst hop_names_step) simp
  show ?thesis
  proof (cases "hop_search answers target ?ns")
    case (Answer recs)
    then show ?thesis using hop hop_search_Answer [OF Answer] by auto
  next
    case (Delegation d ips)
    then show ?thesis using hop hop_search_Delegation [OF Delegation] by auto
  next
    case Hop_NotFound
    then show ?thesis using hop hop_search_NotFound [OF Hop_NotFound] self by auto
  next
    case OutOfZone
    have "hop_search answers target ns \<noteq> OutOfZone" for ns by (induction ns) auto
    then show ?thesis using OutOfZone by simp
  qed
qed (simp add: one_hop_def)

theorem hop_outcomes_witness:
  "case one_hop demo_server ''a.b.org'' of
      Ok (Delegation d ips) \<Rightarrow> d \<in> set (hop_names ''org'' ''a.b.org'') \<and> ips \<noteq> []
    | Ok Hop_NotFound \<Rightarrow> True | Ok (Answer recs) \<Rightarrow> recs \<noteq> [] | Ok OutOfZone \<Rightarrow> False | _ \<Rightarrow> False"
proof -
  have "target_belongs_to_zone ''a.b.org'' ''org''" by (simp add: belongs_iff)
  then show ?thesis
    using hop_outcomes [of demo_server "\<lambda>q. if q = ''b.org'' then [Rec_Ns (V4 (Ipv4Addr 10 0 0 2))] else []" "''a.b.org''"]
    by (auto simp: demo_server_def split: outcome.splits hop_outcome.splits)
qed

text \<open>
  C6. Where an answer comes from: if the resolver reports records as found, they are the answer of one
  hop for the canonical target, at a server that was reached from the initial candidates through a
  chain of fewer than \<open>MAX_HOPS\<close> delegations, each given by a hop of that chain.
\<close>

theorem resolver_soundness:
  assumes "resolve_iteratively target initial connect = (Ok (Found recs), evs)"
  shows "\<exists>h pool addr k server. delegates connect (canonical target) initial h pool \<and> h < MAX_HOPS \<and>
    addr \<in> set pool \<and> connect k addr = Ok server \<and> one_hop server (canonical target) = Ok (Answer recs)"
proof -
  have "resolve_loop connect (canonical target) 0 0 initial [] = (Ok (Found recs), evs)"
    using assms by (auto simp: resolve_iteratively_def Let_def split: if_splits)
  from resolve_loop_found [OF this delegates.start] show ?thesis .
qed

definition demo_root :: dns_server where
  "demo_root = \<lparr>srv_zone_name = [], srv_query = (\<lambda>q. Ok (if q = ''org'' then [Rec_Ns (V4 (Ipv4Addr 10 0 0 1))] else []))\<rparr>"

definition demo_org :: dns_server where
  "demo_org = \<lparr>srv_zone_name = ''org'', srv_query = (\<lambda>q. Ok (if q = ''a.org'' then [Rec_A (Ipv4Addr 1 2 3 4)] else []))\<rparr>"

definition demo_net :: "socket_addr \<Rightarrow> (io_error, dns_server) outcome" where
  "demo_net addr = (if addr = SocketAddr (V4 (Ipv4Addr 10 0 0 0)) 9000 then Ok demo_root
     else if addr = SocketAddr (V4 (Ipv4Addr 10 0 0 1)) 9000 then Ok demo_org
     else Err (Io_Error OtherKind ''refused''))"

lemma demo_hops:
  "one_hop demo_root ''a.org'' = Ok (Delegation ''org'' [V4 (Ipv4Addr 10 0 0 1)])"
  "one_hop demo_org ''a.org'' = Ok (Answer [Rec_A (Ipv4Addr 1 2 3 4)])"
  by (simp_all add: one_hop_def belongs_iff demo_root_def demo_org_def hop_loop.simps Let_def)

lemma demo_canonical: "canonical ''A.org.'' = ''a.org''"
  by (simp add: canonical_def trim_end_matches_def to_ascii_lowercase_def to_ascii_lower_char_def char_of_def
      bit_simps Let_def)

lemma demo_resolves:
  "resolves_in demo_net ''a.org'' [SocketAddr (V4 (Ipv4Addr 10 0 0 0)) 9000] 2 [Rec_A (Ipv4Addr 1 2 3 4)]"
proof -
  have "resolves_in demo_net ''a.org'' (next_pool [V4 (Ipv4Addr 10 0 0 1)]) 1 [Rec_A (Ipv4Addr 1 2 3 4)]"
    using demo_hops(2)
    by (intro resolves_in.answered [of _ _ "SocketAddr (V4 (Ipv4Addr 10 0 0 1)) 9000" demo_org])
      (simp_all add: demo_net_def DEFAULT_PORT_def)
  moreover have "first_reachable demo_net [SocketAddr (V4 (Ipv4Addr 10 0 0 0)) 9000] =
      Some (SocketAddr (V4 (Ipv4Addr 10 0 0 0)) 9000, demo_root)"
    by (simp add: demo_net_def)
  ultimately have "resolves_in demo_net ''a.org'' [SocketAddr (V4 (Ipv4Addr 10 0 0 0)) 9000] (Suc 1) [Rec_A (Ipv4Addr 1 2 3 4)]"
    using resolves_in.delegated [OF _ demo_hops(1)] by blast
  then show ?thesis by (simp add: numeral_2_eq_2)
qed

lemma demo_resolution:
  "\<exists>evs. resolve_iteratively ''A.org.'' [SocketAddr (V4 (Ipv4Addr 10 0 0 0)) 9000] (\<lambda>_. demo_net) =
     (Ok (Found [Rec_A (Ipv4Addr 1 2 3 4)]), evs)"
  using resolve_loop_complete [OF demo_resolves, of 0 0 "[]"]
  by (simp add: resolve_iteratively_def demo_canonical MAX_HOPS_def prod_eq_iff)

theorem resolver_soundness_witness:
  "\<exists>h pool addr k server. delegates (\<lambda>_. demo_net) ''a.org'' [SocketAddr (V4 (Ipv4Addr 10 0 0 0)) 9000] h pool \<and>
     h < MAX_HOPS \<and> addr \<in> set pool \<and> demo_net addr = Ok server \<and>
     one_hop server ''a.org'' = Ok (Answer [Rec_A (Ipv4Addr 1 2 3 4)]) \<and> k = (0 :: nat)"
proof -
  obtain evs where "resolve_iteratively ''A.org.'' [SocketAddr (V4 (Ipv4Addr 10 0 0 0)) 9000] (\<lambda>_. demo_net) =
      (Ok (Found [Rec_A (Ipv4Addr 1 2 3 4)]), evs)"
    using demo_resolution by blast
  from resolver_soundness [OF this] show ?thesis
    unfolding demo_canonical by blast
qed



text \<open>
  C10. Every resolution ends after at most \<open>MAX_HOPS\<close> hops, whatever the servers answer, and it never
  ends with an exhausted candidate pool: a delegation always lists at least one name server.
\<close>

theorem resolver_bounded:
  "case resolve_iteratively target initial connect of (res, evs) \<Rightarrow>
     hop_starts evs \<le> 16 \<and> res \<noteq> Ok (Failed ''no candidates left to try'') \<and> (\<forall>e. res \<noteq> Err e)"
proof (cases "canonical target = [] \<or> initial = []")
  case False
  obtain res evs where r: "resolve_loop connect (canonical target) 0 0 initial [] = (res, evs)"
    by (metis surj_pair)
  show ?thesis
    using False r resolve_loop_hops [OF r] resolve_loop_not_stuck [OF r]
    by (auto simp: resolve_iteratively_def Let_def MAX_HOPS_def)
qed (auto simp: resolve_iteratively_def Let_def)

end
