(* ===== verification/Deployment.thy ===== *)
theory Deployment
  imports Resolver
begin

text \<open>
  The server as it is started, seen by its clients: the state \<open>build_state\<close> chooses, the number of
  slots, the salts, and the request loop of \<open>handle\<close> on a sequence of framed requests.
\<close>

section \<open>Salts and sizes\<close>

lemma try_salts_from_Ok:
  "try_salts_from m attempt n prev builder = Ok (t, salt) \<Longrightarrow>
     \<exists>i. attempt \<le> i \<and> i < attempt + n \<and> salt = salt_for_attempt (of_nat i) \<and> builder salt = Ok t \<and>
       (\<forall>j. attempt \<le> j \<and> j < i \<longrightarrow> (\<exists>e. builder (salt_for_attempt (of_nat j)) = Err e))"
proof (induction n arbitrary: attempt prev)
  case (Suc n)
  show ?case
  proof (cases "builder (salt_for_attempt (of_nat attempt))")
    case (Ok x)
    then show ?thesis using Suc.prems by (intro exI [of _ attempt]) auto
  next
    case (Err e)
    then have "try_salts_from m (Suc attempt) n (Some e) builder = Ok (t, salt)"
      using Suc.prems by simp
    from Suc.IH [OF this] obtain i where i: "Suc attempt \<le> i" "i < Suc attempt + n"
      "salt = salt_for_attempt (of_nat i)" "builder salt = Ok t"
      "\<forall>j. Suc attempt \<le> j \<and> j < i \<longrightarrow> (\<exists>e. builder (salt_for_attempt (of_nat j)) = Err e)"
      by blast
    have "\<exists>e. builder (salt_for_attempt (of_nat j)) = Err e" if "attempt \<le> j" "j < i" for j
      using that i(5) Err by (cases "j = attempt") auto
    then show ?thesis
      using i(1-4) by (intro exI [of _ i]) auto
  qed (use Suc.prems in simp)
qed simp

lemma first_fitting_in: "cs \<noteq> [] \<Longrightarrow> first_fitting fits d cs \<in> set cs"
proof (induction cs arbitrary: d)
  case (Cons c cs)
  then show ?case by (cases "cs = []") auto
qed simp

lemma first_fitting_least:
  "sorted cs \<Longrightarrow> c \<in> set cs \<Longrightarrow> fits c \<Longrightarrow> fits (first_fitting fits d cs) \<and> first_fitting fits d cs \<le> c"
  by (induction cs arbitrary: d) auto

lemma first_fitting_none: "\<forall>c \<in> set cs. \<not> fits c \<Longrightarrow> cs \<noteq> [] \<Longrightarrow> first_fitting fits d cs = last cs"
  by (induction cs arbitrary: d) auto

lemma entry_candidates_eq:
  "entry_candidates = map (\<lambda>k. k * 8192) [1..<33] @ map (\<lambda>k. k * 16384) [17..<257]"
proof -
  have "half_shard = 8192" "full_shard = 16384" "max_shards + 1 = 257"
    "HALF_SIZE_PRIMARY_MAX_ENTRIES div 8192 + 1 = 33" "HALF_SIZE_PRIMARY_MAX_ENTRIES div 16384 + 1 = 17"
    by (simp_all add: half_shard_def full_shard_def max_shards_def pir_consts)
  then show ?thesis
    by (simp only: entry_candidates_def Let_def)
qed

lemma entry_candidates_nonempty: "entry_candidates \<noteq> []"
  by (simp add: entry_candidates_eq)

lemma pick_num_entries_in: "pick_num_entries fits \<in> set entry_candidates"
  unfolding pick_num_entries_def by (rule first_fitting_in [OF entry_candidates_nonempty])

lemma entry_candidates_range: "c \<in> set entry_candidates \<Longrightarrow> 8192 \<le> c \<and> c \<le> RING_N * RING_N"
  by (auto simp: entry_candidates_eq RING_N_eq)

lemma sorted_multiples: "sorted (map (\<lambda>k. k * m) [a..<b :: nat])"
  by (induction b) (auto simp: sorted_append)

lemma sorted_entry_candidates: "sorted entry_candidates"
  unfolding entry_candidates_eq sorted_append
proof (intro conjI ballI)
  fix x y assume "x \<in> set (map (\<lambda>k. k * 8192) [1..<33 :: nat])" "y \<in> set (map (\<lambda>k. k * 16384) [17..<257 :: nat])"
  then obtain k l :: nat where "x = k * 8192" "k < 33" "y = l * 16384" "17 \<le> l" by (simp only: set_map set_upt) auto
  then show "x \<le> y" by linarith
qed (rule sorted_multiples)+


section \<open>The state of a started server\<close>

lemma build_state_pir:
  assumes "abs_log2_ceil_spec lg" "zone_wf zone"
    and "build_state lg compress fits zone always_dump = Ok st" "st_pir st = Some pir"
  shows "fleet_serves lg zone pir (st_hash_salt st)" "st_dump st = None" "\<not> always_dump"
    "pir_num_entries pir = pick_num_entries (fits zone)" "st_zone_name st = zn_zone_name zone"
proof -
  let ?n = "pick_num_entries (fits zone)"
  have n: "1 \<le> ?n" "?n \<le> RING_N * RING_N"
    using entry_candidates_range [OF pick_num_entries_in [of "fits zone"]] by auto
  obtain buckets salt where b:
    "try_salts MAX_REHASH_RETRIES (\<lambda>salt. map_err show_build_error (build_buckets lg zone ?n salt)) = Ok (buckets, salt)"
    "preprocess lg buckets ?n = Ok pir"
    and st: "st = \<lparr>st_zone_name = zn_zone_name zone, st_pir = Some pir, st_dump = None, st_hash_salt = salt\<rparr>"
    "\<not> always_dump"
    using assms(3,4) by (auto simp: build_state_def Let_def split: if_splits)
  then have "build_buckets lg zone ?n salt = Ok buckets"
    by (auto simp: try_salts_def dest!: try_salts_from_Ok)
  then show "fleet_serves lg zone pir (st_hash_salt st)" "st_dump st = None" "\<not> always_dump"
    "pir_num_entries pir = ?n" "st_zone_name st = zn_zone_name zone"
    using assms(1,2) n b(2) st preprocess_Ok(2) [OF b(2)] by (auto simp: fleet_serves_def)
qed

lemma build_state_dump:
  assumes "build_state lg compress fits zone always_dump = Ok st" "st_pir st = None"
  obtains content gz where "serialize_bounded zone (if always_dump then USIZE_MAX else SKIP_COMPRESSION_ABOVE_BYTES) = Ok content"
    "compress (as_bytes content) = Ok gz" "st_dump st = Some gz" "always_dump \<or> length gz \<le> DUMP_THRESHOLD_BYTES"
    "st_hash_salt st = 0" "st_zone_name st = zn_zone_name zone"
  using assms
  by (auto simp: build_state_def Let_def serialize_def split: if_splits outcome.splits option.splits)


section \<open>The request loop\<close>

lemma handle_step:
  assumes "length req \<le> MAX_FRAME" "reply_to process_query state req = Ok reply" "length reply < 2 ^ 32"
  shows "handle process_query state (c\<lparr>inbox := frame_bytes req @ rest\<rparr>) =
    handle process_query state
      (c\<lparr>inbox := rest, outbox := outbox c @ frame_bytes reply,
         cn_bytes_sent := cn_bytes_sent c + of_nat (length (frame_bytes reply)),
         cn_bytes_recvd := cn_bytes_recvd c + of_nat (length (frame_bytes req))\<rparr>)"
  by (subst handle.simps, simp add: read_frame_ok [OF assms(1)] assms(2) write_frame_ok [OF assms(3)]) (cases c, simp)

lemma handle_eof:
  assumes "length (inbox c) < 4 \<or>
    (let n = unat (from_be_bytes (take 4 (inbox c)) :: u32) in n \<le> MAX_FRAME \<and> length (inbox c) < 4 + n)"
  shows "handle process_query state c = (Ok (), c\<lparr>inbox := []\<rparr>)"
  using assms by (subst handle.simps) (auto simp: read_frame_def read_exact_def Let_def)

definition total_frames :: "bytes list \<Rightarrow> nat" where
  "total_frames ps = length (concat (map frame_bytes ps))"

lemma total_frames_simps [simp]:
  "total_frames [] = 0" "total_frames (p # ps) = length (frame_bytes p) + total_frames ps"
  by (simp_all add: total_frames_def)

lemma handle_requests:
  assumes "list_all2 (\<lambda>req reply. length req \<le> MAX_FRAME \<and> length reply < 2 ^ 32 \<and>
      reply_to process_query state req = Ok reply) reqs replies"
  shows "handle process_query state (c\<lparr>inbox := concat (map frame_bytes reqs)\<rparr>) =
    (Ok (), c\<lparr>inbox := [], outbox := outbox c @ concat (map frame_bytes replies),
               cn_bytes_sent := cn_bytes_sent c + of_nat (total_frames replies),
               cn_bytes_recvd := cn_bytes_recvd c + of_nat (total_frames reqs)\<rparr>)"
  using assms
proof (induction arbitrary: c rule: list_all2_induct)
  case Nil
  then show ?case by (subst handle_eof) simp_all
next
  case (Cons req reqs reply replies)
  note step = handle_step [where c = c and req = req and reply = reply and state = state and
      process_query = process_query and rest = "concat (map frame_bytes reqs)"]
  show ?case
    using step Cons.hyps(1)
      Cons.IH [of "c\<lparr>outbox := outbox c @ frame_bytes reply,
         cn_bytes_sent := cn_bytes_sent c + of_nat (length (frame_bytes reply)),
         cn_bytes_recvd := cn_bytes_recvd c + of_nat (length (frame_bytes req))\<rparr>"]
    by (cases c) (simp add: add.assoc)
qed


section \<open>The INFO reply of a started server\<close>

lemma flags_of_state:
  "has_pir (info_of_state state) \<longleftrightarrow> st_pir state \<noteq> None"
  "has_dump (info_of_state state) \<longleftrightarrow> st_dump state \<noteq> None"
  by (simp_all add: info_of_state_def has_pir_def has_dump_def FLAG_PIR_AVAILABLE_def
      FLAG_DUMP_AVAILABLE_def Let_def)

lemma reply_to_info:
  "reply_to process_query state [CMD_INFO] = Ok (encode_info (info_of_state state))"
  by (simp add: reply_to_def)

lemma reply_to_dump:
  "reply_to process_query state [CMD_DUMP] = Ok (case st_dump state of None \<Rightarrow> RESP_UNAVAILABLE | Some d \<Rightarrow> d)"
  by (simp add: reply_to_def protocol_consts split: option.splits)


section \<open>A server that starts\<close>

lemma collect_ok_total: "(\<And>x. x \<in> set xs \<Longrightarrow> \<exists>y. f x = Ok y) \<Longrightarrow> \<exists>ys. collect_ok f xs = Ok ys"
  by (induction xs) fastforce+

lemma preprocess_total:
  assumes "abs_log2_ceil_spec lg" "1 \<le> n" "n \<le> RING_N * RING_N" "build_buckets lg zone n g = Ok buckets"
  shows "\<exists>pir. preprocess lg buckets n = Ok pir"
proof -
  have g: "grid (shard_count n) (shard_size n) buckets"
    by (rule build_buckets_shape(1) [OF assms])
  have "\<exists>dbs. collect_ok (set_db (primary_group n)) buckets = Ok dbs"
    using g by (intro collect_ok_total) (auto simp: set_db_def grid_def in_set_conv_nth)
  then show ?thesis
    using g by (simp add: preprocess_def num_databases_ok [OF assms(1-3)] get_database_shape_ok [OF assms(1-3)] grid_def)
qed

text \<open>A zone whose only name fits into one bucket can always be built, with the first salt.\<close>

lemma find_bucket_salt_single: "find_bucket_salt [name] g = Some (0, 1)"
proof -
  have "find_salt_from [name] g 0 (Suc n) = Some (0, 1)" for n by simp
  from this [of 65535] show ?thesis
    by (simp add: find_bucket_salt_def MAX_BUCKET_SALT_ATTEMPTS_def)
qed

lemma build_buckets_single:
  assumes "abs_log2_ceil_spec lg" "1 \<le> n" "n \<le> RING_N * RING_N" "zone_wf zone" "zone_names zone = [name]"
    and "used_bytes (name_entries zone g 0 name) \<le> BUCKET_BYTES"
  shows "\<exists>buckets. build_buckets lg zone n g = Ok buckets"
proof -
  obtain nib where nib: "\<And>sh pri. sh < shard_count n \<Longrightarrow> pri < shard_size n \<Longrightarrow> nib ! sh ! pri = names_of_slot lg zone n g sh pri"
    and eq: "build_buckets lg zone n g =
      collect_ok (\<lambda>sh. collect_ok (\<lambda>pri. fill_bucket zone g (shard_count n) sh pri (nib ! sh ! pri)
        (replicate BUCKET_BYTES 0)) [0..<shard_size n]) [0..<shard_count n]"
    using build_buckets_eq [OF assms(1-3), where zone = zone and g = g] by blast
  have fill: "\<exists>b. fill_bucket zone g (shard_count n) sh pri (nib ! sh ! pri) (replicate BUCKET_BYTES 0) = Ok b"
    if "sh < shard_count n" "pri < shard_size n" for sh pri
  proof -
    have "nib ! sh ! pri = [] \<or> nib ! sh ! pri = [name]"
      using nib [OF that] assms(5) by (auto simp: names_of_slot_def)
    then show ?thesis
      using assms(5,6) by (auto simp: fill_bucket_eq [OF assms(4)] find_bucket_salt_single bucket_entries_def)
  qed
  show ?thesis
    unfolding eq by (intro collect_ok_total) (use fill in auto)
qed

definition demo_zone :: zone where
  "demo_zone = \<lparr>zn_records = [(''a.org'', \<lparr>nr_a = [Ipv4Addr 1 2 3 4], nr_aaaa = [], nr_ns = []\<rparr>)],
     zn_zone_name = ''a.org'', zn_ns_pool = []\<rparr>"

lemma demo_zone_facts:
  "zone_wf demo_zone" "zone_names demo_zone = [''a.org'']"
  "zone_answer demo_zone ''a.org'' = [Rec_A (Ipv4Addr 1 2 3 4)]"
  by (simp_all add: demo_zone_def zone_wf_def ns_valid_def zone_names_def zone_answer_def records_of_def)

lemma demo_buckets: "1 \<le> n \<Longrightarrow> n \<le> RING_N * RING_N \<Longrightarrow> \<exists>buckets. build_buckets abs_log2_ceil_ref demo_zone n g = Ok buckets"
  by (rule build_buckets_single [OF abs_log2_ceil_ref_spec _ _ demo_zone_facts(1,2)])
    (simp_all add: name_entries_def demo_zone_facts(3) used_bytes_def bucket_consts)

lemma try_salts_first: "0 < m \<Longrightarrow> builder 0 = Ok t \<Longrightarrow> try_salts m builder = Ok (t, 0)"
  by (cases m) (simp_all add: try_salts_def salt_for_attempt_def)

text \<open>With a compressor that does not compress, the same zone is served through PIR.\<close>

definition no_compress :: codec where
  "no_compress bs = Ok (replicate 200000 0)"

lemma demo_state_pir:
  "\<exists>st pir. build_state abs_log2_ceil_ref no_compress (\<lambda>_ _. True) demo_zone False = Ok st \<and> st_pir st = Some pir"
proof -
  have n: "pick_num_entries (\<lambda>_. True) = 8192"
    by (simp add: pick_num_entries_def entry_candidates_eq upt_rec)
  obtain buckets where b: "build_buckets abs_log2_ceil_ref demo_zone 8192 0 = Ok buckets"
    using demo_buckets [of 8192 0] by (auto simp: RING_N_eq)
  obtain pir where p: "preprocess abs_log2_ceil_ref buckets 8192 = Ok pir"
    using preprocess_total [OF abs_log2_ceil_ref_spec _ _ b] by (auto simp: RING_N_eq)
  have salt: "try_salts MAX_REHASH_RETRIES
      (\<lambda>salt. map_err show_build_error (build_buckets abs_log2_ceil_ref demo_zone 8192 salt)) = Ok (buckets, 0)"
    by (rule try_salts_first) (simp_all add: MAX_REHASH_RETRIES_def b)
  have "\<exists>content. serialize_bounded demo_zone SKIP_COMPRESSION_ABOVE_BYTES = Ok content"
    by (simp add: serialize_bounded_def demo_zone_def SKIP_COMPRESSION_ABOVE_BYTES_def DUMP_THRESHOLD_BYTES_def
        a_line_def show_radix_step Let_def)
  then obtain content where c: "serialize_bounded demo_zone SKIP_COMPRESSION_ABOVE_BYTES = Ok content"
    by blast
  have "build_state abs_log2_ceil_ref no_compress (\<lambda>_ _. True) demo_zone False =
      Ok \<lparr>st_zone_name = zn_zone_name demo_zone, st_pir = Some pir, st_dump = None, st_hash_salt = 0\<rparr>"
    by (simp add: build_state_def no_compress_def DUMP_THRESHOLD_BYTES_def Let_def c n salt p del: bind_outcome_eq_Ok)
  then show ?thesis by auto
qed

end
