(* ===== verification/Condense.thy ===== *)
theory Condense
  imports Dns_Prelude
begin

text \<open>
  \<open>condense\<close> and \<open>uncondense\<close> of \<open>crates/pir/src/pir_wrapper.rs\<close>: coefficients of \<open>BITS\<close> significant
  bits as a tight byte stream. Whole bytes come first, one plane after the other, then the remaining
  four, two and one bits packed two, four and eight to a byte. The iterator of \<open>uncondense\<close> is a byte
  list; what it leaves is returned, since its callers read several vectors from one stream.
\<close>

section \<open>Packing\<close>

text \<open>\<open>array_chunks\<close>: complete chunks only.\<close>

function chunks :: "nat \<Rightarrow> 'a list \<Rightarrow> 'a list list" where
  "chunks k xs = (if k = 0 \<or> length xs < k then [] else take k xs # chunks k (drop k xs))"
  by pat_completeness auto
termination
  by (relation "measure (\<lambda>(k, xs). length xs)") auto

declare chunks.simps [simp del]

definition condense_bytes :: "nat \<Rightarrow> u64 list \<Rightarrow> bytes" where
  "condense_bytes BITS data = concat (map (\<lambda>i. map (\<lambda>x. ucast (drop_bit (8 * i) x)) data) [0..<BITS div 8])"

definition condense_nibbles :: "nat \<Rightarrow> u64 list \<Rightarrow> bytes" where
  "condense_nibbles BITS data =
     (let extract = (\<lambda>x. ucast (drop_bit ((BITS div 8) * 8) x AND (push_bit 4 1 - 1)) :: u8)
      in map (\<lambda>d. push_bit 4 (extract (d ! 0)) OR extract (d ! 1)) (chunks 2 data))"

definition condense_pairs :: "nat \<Rightarrow> u64 list \<Rightarrow> bytes" where
  "condense_pairs BITS data =
     (let extract = (\<lambda>x. ucast (drop_bit ((BITS div 4) * 4) x AND (push_bit 2 1 - 1)) :: u8)
      in map (\<lambda>d. push_bit 6 (extract (d ! 0)) OR push_bit 4 (extract (d ! 1)) OR push_bit 2 (extract (d ! 2)) OR
           extract (d ! 3)) (chunks 4 data))"

definition condense_bits :: "nat \<Rightarrow> u64 list \<Rightarrow> bytes" where
  "condense_bits BITS data =
     (let extract = (\<lambda>x. ucast (drop_bit ((BITS div 2) * 2) x AND 1) :: u8)
      in map (\<lambda>d. push_bit 7 (extract (d ! 0)) OR push_bit 6 (extract (d ! 1)) OR push_bit 5 (extract (d ! 2)) OR
           push_bit 4 (extract (d ! 3)) OR push_bit 3 (extract (d ! 4)) OR push_bit 2 (extract (d ! 5)) OR
           push_bit 1 (extract (d ! 6)) OR extract (d ! 7)) (chunks 8 data))"

text \<open>
  The number of padding zeros, \<open>(len / 8) * 8 - len\<close>, is zero for multiples of eight and underflows for
  every other length; the unsigned wrap-around then asks for almost \<open>2 ^ 64\<close> zeros, which no allocation
  satisfies (a checked build panics at the subtraction).
\<close>

definition condense :: "nat \<Rightarrow> u64 list \<Rightarrow> ('e, bytes) outcome" where
  "condense BITS data =
     (if (length data div 8) * 8 < length data then Panic
      else Ok (condense_bytes BITS data @
        (if BITS mod 8 \<ge> 4 then condense_nibbles BITS data else []) @
        (if BITS mod 4 \<ge> 2 then condense_pairs BITS data else []) @
        (if BITS mod 2 \<ge> 1 then condense_bits BITS data else [])))"


section \<open>Unpacking\<close>

fun fill_bytes :: "nat \<Rightarrow> u64 list \<Rightarrow> bytes \<Rightarrow> ('e, u64 list \<times> bytes) outcome" where
  "fill_bytes sh [] bs = Ok ([], bs)"
| "fill_bytes sh (t # ts) [] = Panic"
| "fill_bytes sh (t # ts) (source # bs) =
     bind_outcome (fill_bytes sh ts bs) (\<lambda>(ts, bs). Ok ((t OR push_bit sh (ucast source)) # ts, bs))"

fun fill_planes :: "nat \<Rightarrow> nat \<Rightarrow> u64 list \<Rightarrow> bytes \<Rightarrow> ('e, u64 list \<times> bytes) outcome" where
  "fill_planes i 0 ts bs = Ok (ts, bs)"
| "fill_planes i (Suc n) ts bs =
     bind_outcome (fill_bytes (8 * i) ts bs) (\<lambda>(ts, bs). fill_planes (i + 1) n ts bs)"

fun fill_nibbles :: "nat \<Rightarrow> u64 list \<Rightarrow> bytes \<Rightarrow> ('e, u64 list \<times> bytes) outcome" where
  "fill_nibbles sh (t0 # t1 # ts) (source # bs) =
     bind_outcome (fill_nibbles sh ts bs)
       (\<lambda>(ts, bs). Ok ((t0 OR push_bit sh (ucast (drop_bit 4 source))) #
         (t1 OR push_bit sh (ucast (source AND 0xF))) # ts, bs))"
| "fill_nibbles sh (t0 # t1 # ts) [] = Panic"
| "fill_nibbles sh ts bs = Ok (ts, bs)"

fun fill_pairs :: "nat \<Rightarrow> u64 list \<Rightarrow> bytes \<Rightarrow> ('e, u64 list \<times> bytes) outcome" where
  "fill_pairs sh (t0 # t1 # t2 # t3 # ts) (source # bs) =
     bind_outcome (fill_pairs sh ts bs)
       (\<lambda>(ts, bs). Ok ((t0 OR push_bit sh (ucast (drop_bit 6 source))) #
         (t1 OR push_bit sh (ucast (drop_bit 4 source AND 0x3))) #
         (t2 OR push_bit sh (ucast (drop_bit 2 source AND 0x3))) #
         (t3 OR push_bit sh (ucast (source AND 0x3))) # ts, bs))"
| "fill_pairs sh (t0 # t1 # t2 # t3 # ts) [] = Panic"
| "fill_pairs sh ts bs = Ok (ts, bs)"

fun fill_bits :: "nat \<Rightarrow> u64 list \<Rightarrow> bytes \<Rightarrow> ('e, u64 list \<times> bytes) outcome" where
  "fill_bits sh (t0 # t1 # t2 # t3 # t4 # t5 # t6 # t7 # ts) (source # bs) =
     bind_outcome (fill_bits sh ts bs)
       (\<lambda>(ts, bs). Ok ((t0 OR push_bit sh (ucast (drop_bit 7 source))) #
         (t1 OR push_bit sh (ucast (drop_bit 6 source AND 1))) #
         (t2 OR push_bit sh (ucast (drop_bit 5 source AND 1))) #
         (t3 OR push_bit sh (ucast (drop_bit 4 source AND 1))) #
         (t4 OR push_bit sh (ucast (drop_bit 3 source AND 1))) #
         (t5 OR push_bit sh (ucast (drop_bit 2 source AND 1))) #
         (t6 OR push_bit sh (ucast (drop_bit 1 source AND 1))) #
         (t7 OR push_bit sh (ucast (source AND 1))) # ts, bs))"
| "fill_bits sh (t0 # t1 # t2 # t3 # t4 # t5 # t6 # t7 # ts) [] = Panic"
| "fill_bits sh ts bs = Ok (ts, bs)"

definition uncondense :: "nat \<Rightarrow> nat \<Rightarrow> bytes \<Rightarrow> ('e, u64 list \<times> bytes) outcome" where
  "uncondense BITS n data =
     bind_outcome (fill_planes 0 (BITS div 8) (replicate n 0) data) (\<lambda>(result, data).
     bind_outcome (if BITS mod 8 \<ge> 4 then fill_nibbles ((BITS div 8) * 8) result data else Ok (result, data)) (\<lambda>(result, data).
     bind_outcome (if BITS mod 4 \<ge> 2 then fill_pairs ((BITS div 4) * 4) result data else Ok (result, data)) (\<lambda>(result, data).
     if BITS mod 2 \<ge> 1 then fill_bits ((BITS div 2) * 2) result data else Ok (result, data))))"

end
