(* ===== verification/Condense_Correct.thy ===== *)
theory Condense_Correct
  imports Condense
begin

text \<open>
  \<open>uncondense\<close> inverts \<open>condense\<close>: after each stage every coefficient has its low bits restored, up to
  the shift of the next stage. The output has \<open>BITS\<close> bytes for eight coefficients.
\<close>

section \<open>Fields of a byte\<close>

text \<open>Joining a field of width \<open>w\<close> to the low \<open>sh\<close> bits.\<close>

lemma field_join:
  "take_bit sh x OR push_bit sh (take_bit w (drop_bit sh x)) = take_bit (sh + w) (x :: u64)"
  by (rule bit_word_eqI) (auto simp: bit_simps)

lemma byte_field: "(ucast (ucast y :: u8) :: u64) = take_bit 8 y"
  by (rule bit_word_eqI) (auto simp: bit_simps)

lemma masks:
  "(push_bit 4 1 - 1 :: u64) = mask 4" "(push_bit 2 1 - 1 :: u64) = mask 2"
  "(15 :: u8) = mask 4" "(3 :: u8) = mask 2"
  by (simp_all add: mask_eq_exp_minus_1 push_bit_eq_mult)

lemma nibble_source:
  fixes y0 y1 :: u64
  shows "ucast (drop_bit 4 (push_bit 4 (ucast (y0 AND mask 4)) OR ucast (y1 AND mask 4) :: u8)) = take_bit 4 y0"
    and "ucast ((push_bit 4 (ucast (y0 AND mask 4)) OR ucast (y1 AND mask 4) :: u8) AND mask 4) = take_bit 4 y1"
  by (rule bit_word_eqI; auto simp: bit_simps)+

text \<open>A byte with the low two bits of four words, the first word on top.\<close>

definition pair_byte :: "u64 \<Rightarrow> u64 \<Rightarrow> u64 \<Rightarrow> u64 \<Rightarrow> u8" where
  "pair_byte y0 y1 y2 y3 = push_bit 6 (ucast (y0 AND mask 2)) OR push_bit 4 (ucast (y1 AND mask 2)) OR
     push_bit 2 (ucast (y2 AND mask 2)) OR ucast (y3 AND mask 2)"

lemma pair_source:
  "ucast (drop_bit 6 (pair_byte y0 y1 y2 y3)) = take_bit 2 y0"
  "ucast (drop_bit 4 (pair_byte y0 y1 y2 y3) AND mask 2) = take_bit 2 y1"
  "ucast (drop_bit 2 (pair_byte y0 y1 y2 y3) AND mask 2) = take_bit 2 y2"
  "ucast (pair_byte y0 y1 y2 y3 AND mask 2) = take_bit 2 y3"
  unfolding pair_byte_def by (rule bit_word_eqI; auto simp: bit_simps)+

text \<open>A byte with the lowest bit of eight words, the first word on top.\<close>

definition bits_byte :: "(nat \<Rightarrow> u64) \<Rightarrow> u8" where
  "bits_byte y = push_bit 7 (ucast (y 0 AND 1)) OR push_bit 6 (ucast (y 1 AND 1)) OR push_bit 5 (ucast (y 2 AND 1)) OR
     push_bit 4 (ucast (y 3 AND 1)) OR push_bit 3 (ucast (y 4 AND 1)) OR push_bit 2 (ucast (y 5 AND 1)) OR
     push_bit 1 (ucast (y 6 AND 1)) OR ucast (y 7 AND 1)"

lemma bit_bits_byte: "bit (bits_byte y) n \<longleftrightarrow> n < 8 \<and> bit (y (7 - n)) 0"
proof -
  have e: "bit (ucast (x AND 1 :: u64) :: u8) k \<longleftrightarrow> k = 0 \<and> bit x 0" for x k
    by (auto simp: bit_simps)
  have "\<forall>n < 8. bit (bits_byte y) n \<longleftrightarrow> bit (y (7 - n)) 0"
    unfolding all_lt_8 bits_byte_def bit_or_iff bit_push_bit_iff e by simp
  then show ?thesis
    by (cases "n < 8") (auto dest: bit_imp_le_length)
qed

lemma bits_source:
  "ucast (drop_bit 7 (bits_byte y)) = take_bit 1 (y 0)"
  "ucast (drop_bit 6 (bits_byte y) AND 1) = take_bit 1 (y 1)"
  "ucast (drop_bit 5 (bits_byte y) AND 1) = take_bit 1 (y 2)"
  "ucast (drop_bit 4 (bits_byte y) AND 1) = take_bit 1 (y 3)"
  "ucast (drop_bit 3 (bits_byte y) AND 1) = take_bit 1 (y 4)"
  "ucast (drop_bit 2 (bits_byte y) AND 1) = take_bit 1 (y 5)"
  "ucast (drop_bit 1 (bits_byte y) AND 1) = take_bit 1 (y 6)"
  "ucast (bits_byte y AND 1) = take_bit 1 (y 7)"
  by (rule bit_word_eqI; auto simp: bit_simps bit_bits_byte bit_0)+


section \<open>Stages\<close>

lemma fill_bytes_stage:
  "fill_bytes sh (map (take_bit sh) data) (map (\<lambda>x. ucast (drop_bit sh x)) data @ rest) =
     Ok (map (take_bit (sh + 8)) data, rest)"
  by (induction data) (simp_all add: byte_field field_join)

lemma fill_planes_stage:
  "fill_planes i n (map (take_bit (8 * i)) data)
     (concat (map (\<lambda>j. map (\<lambda>x. ucast (drop_bit (8 * j) x)) data) [i..<i + n]) @ rest) =
   Ok (map (take_bit (8 * (i + n))) data, rest)"
proof (induction n arbitrary: i)
  case (Suc n)
  have split: "[i..<i + Suc n] = i # [Suc i..<Suc i + n]"
    by (simp add: upt_conv_Cons del: upt_Suc)
  have "8 * i + 8 = 8 * Suc i" by simp
  then show ?case
    unfolding split list.map concat.simps append_assoc fill_planes.simps fill_bytes_stage
    using Suc.IH [of "Suc i"] by (simp add: add.commute del: upt_Suc)
qed simp

lemma chunks_Cons: "length d = k \<Longrightarrow> 0 < k \<Longrightarrow> chunks k (d @ xs) = d # chunks k xs"
  by (subst chunks.simps) simp

lemma chunks_Nil: "0 < k \<Longrightarrow> chunks k [] = []"
  by (subst chunks.simps) simp

text \<open>Induction over a list of complete chunks.\<close>

lemma chunk_induct [consumes 1, case_names Nil Chunk]:
  assumes "length data mod k = 0" and nil: "P []"
    and step: "\<And>d xs. length d = k \<Longrightarrow> length xs mod k = 0 \<Longrightarrow> P xs \<Longrightarrow> P (d @ xs)"
  shows "P data"
  using assms(1)
proof (induction data rule: length_induct)
  case (1 data)
  show ?case
  proof (cases "data = [] \<or> k = 0")
    case True
    then show ?thesis using 1(2) nil by auto
  next
    case False
    then have le: "k \<le> length data" using 1(2) by (auto intro: dvd_imp_le simp: mod_eq_0_iff_dvd)
    then have m: "length (drop k data) mod k = 0" using 1(2) by (simp add: le_mod_geq)
    have "P (drop k data)" using 1(1) m False le by simp
    from step [OF _ m this, of "take k data"] show ?thesis using le by simp
  qed
qed

lemma length_two: "length d = 2 \<Longrightarrow> \<exists>a b. d = [a, b]"
  and length_four: "length d = 4 \<Longrightarrow> \<exists>a b c e. d = [a, b, c, e]"
  and length_eight: "length d = 8 \<Longrightarrow> \<exists>a b c e f g h i. d = [a, b, c, e, f, g, h, i]"
  by (auto simp: length_Suc_conv eval_nat_numeral)

lemma condense_nibbles_Cons:
  "condense_nibbles BITS (a # b # xs) =
    (let f = (\<lambda>x :: u64. drop_bit (BITS div 8 * 8) x)
     in push_bit 4 (ucast (f a AND mask 4)) OR ucast (f b AND mask 4)) # condense_nibbles BITS xs"
  unfolding condense_nibbles_def masks Let_def by (simp add: chunks_Cons [of "[a, b]" 2 xs, simplified])

lemma condense_pairs_Cons:
  "condense_pairs BITS (a # b # c # d # xs) =
    (let f = (\<lambda>x :: u64. drop_bit (BITS div 4 * 4) x) in pair_byte (f a) (f b) (f c) (f d)) # condense_pairs BITS xs"
  unfolding condense_pairs_def masks Let_def pair_byte_def
  by (simp add: chunks_Cons [of "[a, b, c, d]" 4 xs, simplified])

lemma condense_bits_Cons:
  "length d = 8 \<Longrightarrow> condense_bits BITS (d @ xs) =
    bits_byte (\<lambda>i. drop_bit (BITS div 2 * 2) (d ! i)) # condense_bits BITS xs"
  unfolding condense_bits_def Let_def bits_byte_def by (simp add: chunks_Cons)

lemma condense_Nil:
  "condense_nibbles BITS [] = []" "condense_pairs BITS [] = []" "condense_bits BITS [] = []"
  by (simp_all add: condense_nibbles_def condense_pairs_def condense_bits_def chunks_Nil)

lemma fill_nibbles_stage:
  assumes "length data mod 2 = 0"
  shows "fill_nibbles (BITS div 8 * 8) (map (take_bit (BITS div 8 * 8)) data) (condense_nibbles BITS data @ rest) =
    Ok (map (take_bit (BITS div 8 * 8 + 4)) data, rest)"
  using assms
proof (induction data rule: chunk_induct)
  case (Chunk d xs)
  then obtain a b where d: "d = [a, b]" using length_two by blast
  show ?case
    unfolding d condense_nibbles_Cons Let_def map_append list.map append_Cons append_Nil
      fill_nibbles.simps masks nibble_source field_join Chunk.IH bind_outcome.simps prod.case ..
qed (simp add: condense_Nil)

lemma fill_pairs_stage:
  assumes "length data mod 4 = 0"
  shows "fill_pairs (BITS div 4 * 4) (map (take_bit (BITS div 4 * 4)) data) (condense_pairs BITS data @ rest) =
    Ok (map (take_bit (BITS div 4 * 4 + 2)) data, rest)"
  using assms
proof (induction data rule: chunk_induct)
  case (Chunk d xs)
  then obtain a b c e where d: "d = [a, b, c, e]" using length_four by blast
  show ?case
    unfolding d condense_pairs_Cons Let_def map_append list.map append_Cons append_Nil
      fill_pairs.simps masks pair_source field_join Chunk.IH bind_outcome.simps prod.case ..
qed (simp add: condense_Nil)

lemma eight_nth:
  "[a0, a1, a2, a3, a4, a5, a6, a7] ! 0 = a0" "[a0, a1, a2, a3, a4, a5, a6, a7] ! 1 = a1"
  "[a0, a1, a2, a3, a4, a5, a6, a7] ! 2 = a2" "[a0, a1, a2, a3, a4, a5, a6, a7] ! 3 = a3"
  "[a0, a1, a2, a3, a4, a5, a6, a7] ! 4 = a4" "[a0, a1, a2, a3, a4, a5, a6, a7] ! 5 = a5"
  "[a0, a1, a2, a3, a4, a5, a6, a7] ! 6 = a6" "[a0, a1, a2, a3, a4, a5, a6, a7] ! 7 = a7"
  by simp_all

lemma fill_bits_stage:
  assumes "length data mod 8 = 0"
  shows "fill_bits (BITS div 2 * 2) (map (take_bit (BITS div 2 * 2)) data) (condense_bits BITS data @ rest) =
    Ok (map (take_bit (BITS div 2 * 2 + 1)) data, rest)"
  using assms
proof (induction data rule: chunk_induct)
  case (Chunk d xs)
  then obtain a0 a1 a2 a3 a4 a5 a6 a7 where d: "d = [a0, a1, a2, a3, a4, a5, a6, a7]"
    using length_eight by blast
  show ?case
    unfolding condense_bits_Cons [OF Chunk.hyps(1)]
    unfolding d map_append list.map append_Cons append_Nil
      fill_bits.simps bits_source eight_nth field_join Chunk.IH bind_outcome.simps prod.case ..
qed (simp add: condense_Nil)


section \<open>The whole stream\<close>

lemma length_chunks: "0 < k \<Longrightarrow> length (chunks k xs) = length xs div k"
proof (induction k xs rule: chunks.induct)
  case (1 k xs)
  then show ?case
    by (subst chunks.simps) (simp add: le_div_geq not_less)
qed

lemma length_stages:
  "length (condense_bytes BITS data) = BITS div 8 * length data"
  "length (condense_nibbles BITS data) = length data div 2"
  "length (condense_pairs BITS data) = length data div 4"
  "length (condense_bits BITS data) = length data div 8"
  by (simp_all add: condense_bytes_def condense_nibbles_def condense_pairs_def condense_bits_def Let_def
      length_concat comp_def length_chunks sum_list_triv)

lemma bits_split:
  "BITS = 8 * (BITS div 8) + (if BITS mod 8 \<ge> 4 then 4 else 0) + (if BITS mod 4 \<ge> 2 then 2 else 0) +
     (if BITS mod 2 \<ge> 1 then 1 else 0 :: nat)"
  by presburger

text \<open>Where the next stage starts: the bits restored so far.\<close>

lemma stage_starts:
  fixes BITS :: nat
  shows "BITS div 4 * 4 = BITS div 8 * 8 + (if BITS mod 8 \<ge> 4 then 4 else 0)"
    and "BITS div 2 * 2 = BITS div 4 * 4 + (if BITS mod 4 \<ge> 2 then 2 else 0)"
    and "BITS div 2 * 2 + (if BITS mod 2 \<ge> 1 then 1 else 0) = BITS"
  by presburger+

definition condensed :: "nat \<Rightarrow> u64 list \<Rightarrow> bytes" where
  "condensed BITS data = condense_bytes BITS data @
     (if BITS mod 8 \<ge> 4 then condense_nibbles BITS data else []) @
     (if BITS mod 4 \<ge> 2 then condense_pairs BITS data else []) @
     (if BITS mod 2 \<ge> 1 then condense_bits BITS data else [])"

lemma condense_eq: "condense BITS data = (if length data mod 8 = 0 then Ok (condensed BITS data) else Panic)"
proof -
  have "length data div 8 * 8 < length data \<longleftrightarrow> length data mod 8 \<noteq> 0" by presburger
  then show ?thesis by (simp add: condense_def condensed_def)
qed

lemma length_condensed:
  assumes "length data mod 8 = 0"
  shows "length (condensed BITS data) = length data div 8 * BITS"
proof -
  obtain q where q: "length data = 8 * q" using assms by auto
  have "length (condensed BITS data) = q * (8 * (BITS div 8) + (if BITS mod 8 \<ge> 4 then 4 else 0) +
      (if BITS mod 4 \<ge> 2 then 2 else 0) + (if BITS mod 2 \<ge> 1 then 1 else 0))"
    using q by (simp add: condensed_def length_stages distrib_left)
  then show ?thesis using q bits_split [of BITS] by simp
qed

lemma uncondense_condensed:
  assumes len: "length data mod 8 = 0"
  shows "uncondense BITS (length data) (condensed BITS data @ rest) = Ok (map (take_bit BITS) data, rest)"
proof -
  let ?at = "\<lambda>sh. map (take_bit sh) data"
  have "length data mod 2 = 0" "length data mod 4 = 0" using len by presburger+
  note nibbles = fill_nibbles_stage [OF this(1), of BITS] and pairs = fill_pairs_stage [OF this(2), of BITS]
    and bits = fill_bits_stage [OF len, of BITS]
  have planes: "fill_planes 0 (BITS div 8) (replicate (length data) 0) (condense_bytes BITS data @ rest) =
      Ok (?at (BITS div 8 * 8), rest)" for rest
    using fill_planes_stage [of 0 "BITS div 8" data rest] map_replicate_const [of "0 :: u64" data]
    by (simp add: condense_bytes_def take_bit_0 [abs_def] mult.commute)
  have n: "(if BITS mod 8 \<ge> 4 then fill_nibbles (BITS div 8 * 8) (?at (BITS div 8 * 8))
        ((if BITS mod 8 \<ge> 4 then condense_nibbles BITS data else []) @ rest)
      else Ok (?at (BITS div 8 * 8), (if BITS mod 8 \<ge> 4 then condense_nibbles BITS data else []) @ rest)) =
      Ok (?at (BITS div 4 * 4), rest)" for rest
    using stage_starts(1) [of BITS] by (simp add: nibbles)
  have p: "(if BITS mod 4 \<ge> 2 then fill_pairs (BITS div 4 * 4) (?at (BITS div 4 * 4))
        ((if BITS mod 4 \<ge> 2 then condense_pairs BITS data else []) @ rest)
      else Ok (?at (BITS div 4 * 4), (if BITS mod 4 \<ge> 2 then condense_pairs BITS data else []) @ rest)) =
      Ok (?at (BITS div 2 * 2), rest)" for rest
    using stage_starts(2) [of BITS] by (simp add: pairs)
  have b: "(if BITS mod 2 \<ge> 1 then fill_bits (BITS div 2 * 2) (?at (BITS div 2 * 2))
        ((if BITS mod 2 \<ge> 1 then condense_bits BITS data else []) @ rest)
      else Ok (?at (BITS div 2 * 2), (if BITS mod 2 \<ge> 1 then condense_bits BITS data else []) @ rest)) =
      Ok (?at BITS, rest)" for rest
    using stage_starts(3) [of BITS]
    by (cases "BITS mod 2 \<ge> 1") (simp_all only: if_True if_False bits append_Nil simp_thms add_0_right)
  show ?thesis
    unfolding uncondense_def condensed_def append_assoc planes n p b bind_outcome.simps prod.case ..
qed

text \<open>
  C22. \<open>uncondense\<close> inverts \<open>condense\<close>: packing a vector whose length is a multiple of eight and whose
  coefficients have at most \<open>BITS\<close> significant bits gives \<open>BITS\<close> bytes for eight coefficients, and
  reading them back from the front of a stream returns the vector and leaves the rest of the stream.
  Any other length makes \<open>condense\<close> panic, although its code looks as if it padded the vector.
\<close>

theorem condense_roundtrip:
  "(length data mod 8 = 0 \<and> (\<forall>x \<in> set data. x = take_bit BITS x) \<longrightarrow>
      (\<exists>bs. (condense BITS data :: ('e, bytes) outcome) = Ok bs \<and> length bs = length data div 8 * BITS \<and>
        (uncondense BITS (length data) (bs @ rest) :: ('e, u64 list \<times> bytes) outcome) = Ok (data, rest))) \<and>
    (length data mod 8 \<noteq> 0 \<longrightarrow> (condense BITS data :: ('e, bytes) outcome) = Panic)"
proof -
  have "map (take_bit BITS) data = data" if "\<forall>x \<in> set data. x = take_bit BITS x"
    using that by (intro map_idI) simp
  then show ?thesis
    using uncondense_condensed [of data BITS rest] length_condensed [of data BITS] by (auto simp: condense_eq)
qed

theorem condense_roundtrip_witness:
  "\<exists>bs. (condense 13 [1, 2, 8191, 4096, 5, 6, 7, 8] :: (unit, bytes) outcome) = Ok bs \<and> length bs = 13 \<and>
     (uncondense 13 8 (bs @ [42]) :: (unit, u64 list \<times> bytes) outcome) = Ok ([1, 2, 8191, 4096, 5, 6, 7, 8], [42])"
proof -
  have l: "length [1, 2, 8191, 4096, 5, 6, 7, 8 :: u64] = 8" by simp
  have "\<forall>x \<in> set [1, 2, 8191, 4096, 5, 6, 7, 8 :: u64]. x = take_bit 13 x" by simp
  then show ?thesis
    using condense_roundtrip [of "[1, 2, 8191, 4096, 5, 6, 7, 8]" 13 "[42]", where 'e = unit] unfolding l by simp
qed

end
