(* ===== verification/Avx.thy ===== *)
theory Avx
  imports Dns_Prelude
begin

text \<open>
  \<open>crates/pir/src/avx.rs\<close>: the vector operations of the inner loops. A 512-bit register is the list of
  its eight 64-bit lanes, lane 0 first, and a 512-bit comparison mask is a byte with one bit per lane.
  The portable path (feature \<open>emulate_avx512\<close>) keeps two registers of four lanes, and its masks are
  registers whose lanes are all ones or zero; the last section shows that it computes the same lanes.
  The prefetch hint has no effect on values and is left out.
\<close>

named_theorems lane_simps "lanes of vector operations"

type_synonym m512i = "u64 list"
type_synonym m256i = "u32 list"
type_synonym m512_mask = u8

abbreviation lanes8 :: "m512i \<Rightarrow> bool" where
  "lanes8 v \<equiv> length v = 8"


section \<open>AVX-512\<close>

definition mm512_set1_epi64 :: "u64 \<Rightarrow> m512i" where
  "mm512_set1_epi64 a = replicate 8 a"

definition mm512_setr_epi64 :: "u64 \<Rightarrow> u64 \<Rightarrow> u64 \<Rightarrow> u64 \<Rightarrow> u64 \<Rightarrow> u64 \<Rightarrow> u64 \<Rightarrow> u64 \<Rightarrow> m512i" where
  "mm512_setr_epi64 e0 e1 e2 e3 e4 e5 e6 e7 = [e0, e1, e2, e3, e4, e5, e6, e7]"

definition mm512_extract_epi64 :: "nat \<Rightarrow> m512i \<Rightarrow> ('e, u64) outcome" where
  "mm512_extract_epi64 k a = (if k < 8 then Ok (a ! k) else Panic)"

definition mm512_srli_epi64 :: "nat \<Rightarrow> m512i \<Rightarrow> m512i" where
  "mm512_srli_epi64 k x = map (drop_bit k) x"

definition mm512_srai_epi64 :: "nat \<Rightarrow> m512i \<Rightarrow> m512i" where
  "mm512_srai_epi64 k x = map (signed_drop_bit k) x"

definition mm512_slli_epi64 :: "nat \<Rightarrow> m512i \<Rightarrow> m512i" where
  "mm512_slli_epi64 k x = map (push_bit k) x"

definition mm512_sub_epi64 :: "m512i \<Rightarrow> m512i \<Rightarrow> m512i" where
  "mm512_sub_epi64 lhs rhs = map2 (-) lhs rhs"

definition mm512_add_epi64 :: "m512i \<Rightarrow> m512i \<Rightarrow> m512i" where
  "mm512_add_epi64 lhs rhs = map2 (+) lhs rhs"

text \<open>Only the low 32 bits of each lane are multiplied, giving a full 64-bit product.\<close>

definition mul_epu32 :: "u64 \<Rightarrow> u64 \<Rightarrow> u64" where
  "mul_epu32 a b = take_bit 32 a * take_bit 32 b"

definition mm512_mul_epu32 :: "m512i \<Rightarrow> m512i \<Rightarrow> m512i" where
  "mm512_mul_epu32 lhs rhs = map2 mul_epu32 lhs rhs"

definition mask_of_bools :: "bool list \<Rightarrow> m512_mask" where
  "mask_of_bools bs = horner_sum of_bool 2 bs"

definition mm512_cmpgt_epi64_mask :: "m512i \<Rightarrow> m512i \<Rightarrow> m512_mask" where
  "mm512_cmpgt_epi64_mask lhs rhs = mask_of_bools (map2 (\<lambda>a b. sint a > sint b) lhs rhs)"

definition mm512_cmpeq_epi64_mask :: "m512i \<Rightarrow> m512i \<Rightarrow> m512_mask" where
  "mm512_cmpeq_epi64_mask lhs rhs = mask_of_bools (map2 (=) lhs rhs)"

definition mm512_maskz_set1_epi64 :: "m512_mask \<Rightarrow> u64 \<Rightarrow> m512i" where
  "mm512_maskz_set1_epi64 k a = map (\<lambda>i. if bit k i then a else 0) [0..<8]"

definition mm512_mask :: "m512i \<Rightarrow> m512_mask \<Rightarrow> m512i" where
  "mm512_mask x k = map2 (AND) x (mm512_maskz_set1_epi64 k (- 1))"

definition mm512_cvtepi32_epi64 :: "m256i \<Rightarrow> m512i" where
  "mm512_cvtepi32_epi64 x = map scast x"

definition mm256_setr_epi32 :: "u32 \<Rightarrow> u32 \<Rightarrow> u32 \<Rightarrow> u32 \<Rightarrow> u32 \<Rightarrow> u32 \<Rightarrow> u32 \<Rightarrow> u32 \<Rightarrow> m256i" where
  "mm256_setr_epi32 e0 e1 e2 e3 e4 e5 e6 e7 = [e0, e1, e2, e3, e4, e5, e6, e7]"

text \<open>The two 256-bit halves, each read as eight 32-bit lanes.\<close>

definition split_lanes :: "u64 list \<Rightarrow> m256i" where
  "split_lanes v = concat (map (\<lambda>w. [ucast w, ucast (drop_bit 32 w)]) v)"

definition mm512_extract_si256 :: "m512i \<Rightarrow> m256i \<times> m256i" where
  "mm512_extract_si256 data = (split_lanes (take 4 data), split_lanes (drop 4 data))"


section \<open>Lanes of the operations\<close>

lemma length_mm512 [simp]:
  "lanes8 (mm512_set1_epi64 a)" "lanes8 x \<Longrightarrow> lanes8 (mm512_srli_epi64 k x)"
  "lanes8 x \<Longrightarrow> lanes8 y \<Longrightarrow> lanes8 (mm512_sub_epi64 x y)"
  "lanes8 x \<Longrightarrow> lanes8 y \<Longrightarrow> lanes8 (mm512_add_epi64 x y)"
  "lanes8 x \<Longrightarrow> lanes8 y \<Longrightarrow> lanes8 (mm512_mul_epu32 x y)"
  "lanes8 x \<Longrightarrow> lanes8 (mm512_mask x m)"
  "lanes8 (mm512_setr_epi64 e0 e1 e2 e3 e4 e5 e6 e7)"
  by (simp_all add: mm512_set1_epi64_def mm512_srli_epi64_def mm512_sub_epi64_def mm512_add_epi64_def
      mm512_mul_epu32_def mm512_mask_def mm512_maskz_set1_epi64_def mm512_setr_epi64_def)

lemma bit_mask_of_bools: "bit (mask_of_bools bs) i \<longleftrightarrow> i < 8 \<and> i < length bs \<and> bs ! i"
  by (simp add: mask_of_bools_def bit_horner_sum_bit_word_iff)

lemma lane_set1 [lane_simps]: "i < 8 \<Longrightarrow> mm512_set1_epi64 a ! i = a"
  by (simp add: mm512_set1_epi64_def)

lemma lane_srli [lane_simps]: "lanes8 x \<Longrightarrow> i < 8 \<Longrightarrow> mm512_srli_epi64 k x ! i = drop_bit k (x ! i)"
  by (simp add: mm512_srli_epi64_def)

lemma lane_ops [lane_simps]:
  assumes "lanes8 x" "lanes8 y" "i < 8"
  shows "mm512_sub_epi64 x y ! i = x ! i - y ! i" "mm512_add_epi64 x y ! i = x ! i + y ! i"
    "mm512_mul_epu32 x y ! i = mul_epu32 (x ! i) (y ! i)"
  using assms by (simp_all add: mm512_sub_epi64_def mm512_add_epi64_def mm512_mul_epu32_def)

lemma lane_masked [lane_simps]:
  assumes "lanes8 v" "lanes8 x" "lanes8 y" "i < 8"
  shows "mm512_mask v (mm512_cmpgt_epi64_mask x y) ! i = (if sint (x ! i) > sint (y ! i) then v ! i else 0)"
    "mm512_mask v (mm512_cmpeq_epi64_mask x y) ! i = (if x ! i = y ! i then v ! i else 0)"
  using assms by (simp_all add: mm512_mask_def mm512_maskz_set1_epi64_def mm512_cmpgt_epi64_mask_def
      mm512_cmpeq_epi64_mask_def bit_mask_of_bools)


section \<open>The portable path\<close>

record m512i_emu =
  data0 :: "u64 list"
  data1 :: "u64 list"

definition emu_set1_epi64 :: "u64 \<Rightarrow> m512i_emu" where
  "emu_set1_epi64 a = \<lparr>data0 = replicate 4 a, data1 = replicate 4 a\<rparr>"

definition emu_setr_epi64 :: "u64 \<Rightarrow> u64 \<Rightarrow> u64 \<Rightarrow> u64 \<Rightarrow> u64 \<Rightarrow> u64 \<Rightarrow> u64 \<Rightarrow> u64 \<Rightarrow> m512i_emu" where
  "emu_setr_epi64 e0 e1 e2 e3 e4 e5 e6 e7 = \<lparr>data0 = [e0, e1, e2, e3], data1 = [e4, e5, e6, e7]\<rparr>"

definition emu_extract_epi64 :: "nat \<Rightarrow> m512i_emu \<Rightarrow> ('e, u64) outcome" where
  "emu_extract_epi64 k a =
     (if k < 4 then Ok (data0 a ! k) else if k < 8 then Ok (data1 a ! (k - 4)) else Panic)"

text \<open>The shifts are instantiated for the constants 0 to 31; any other one is \<open>unreachable!\<close>.\<close>

definition emu_srli_epi64 :: "nat \<Rightarrow> m512i_emu \<Rightarrow> ('e, m512i_emu) outcome" where
  "emu_srli_epi64 k x =
     (if k < 32 then Ok \<lparr>data0 = map (drop_bit k) (data0 x), data1 = map (drop_bit k) (data1 x)\<rparr> else Panic)"

definition mm256_cmpgt_epi64 :: "u64 list \<Rightarrow> u64 list \<Rightarrow> u64 list" where
  "mm256_cmpgt_epi64 a b = map2 (\<lambda>x y. if sint x > sint y then - 1 else 0) a b"

definition mm256_srai_epi64 :: "nat \<Rightarrow> u64 list \<Rightarrow> u64 list" where
  "mm256_srai_epi64 k x =
     (let sign_mask = map (push_bit (64 - k)) (mm256_cmpgt_epi64 (replicate 4 0) x)
      in map2 (OR) (map (drop_bit k) x) sign_mask)"

definition emu_srai_epi64 :: "nat \<Rightarrow> m512i_emu \<Rightarrow> ('e, m512i_emu) outcome" where
  "emu_srai_epi64 k x =
     (if k < 32 then Ok \<lparr>data0 = mm256_srai_epi64 k (data0 x), data1 = mm256_srai_epi64 k (data1 x)\<rparr> else Panic)"

definition emu_slli_epi64 :: "nat \<Rightarrow> m512i_emu \<Rightarrow> ('e, m512i_emu) outcome" where
  "emu_slli_epi64 k x =
     (if k < 32 then Ok \<lparr>data0 = map (push_bit k) (data0 x), data1 = map (push_bit k) (data1 x)\<rparr> else Panic)"

definition emu_sub_epi64 :: "m512i_emu \<Rightarrow> m512i_emu \<Rightarrow> m512i_emu" where
  "emu_sub_epi64 lhs rhs = \<lparr>data0 = map2 (-) (data0 lhs) (data0 rhs), data1 = map2 (-) (data1 lhs) (data1 rhs)\<rparr>"

definition emu_add_epi64 :: "m512i_emu \<Rightarrow> m512i_emu \<Rightarrow> m512i_emu" where
  "emu_add_epi64 lhs rhs = \<lparr>data0 = map2 (+) (data0 lhs) (data0 rhs), data1 = map2 (+) (data1 lhs) (data1 rhs)\<rparr>"

definition emu_mul_epu32 :: "m512i_emu \<Rightarrow> m512i_emu \<Rightarrow> m512i_emu" where
  "emu_mul_epu32 lhs rhs =
     \<lparr>data0 = map2 mul_epu32 (data0 lhs) (data0 rhs), data1 = map2 mul_epu32 (data1 lhs) (data1 rhs)\<rparr>"

definition emu_cmpgt_epi64_mask :: "m512i_emu \<Rightarrow> m512i_emu \<Rightarrow> m512i_emu" where
  "emu_cmpgt_epi64_mask lhs rhs =
     \<lparr>data0 = mm256_cmpgt_epi64 (data0 lhs) (data0 rhs), data1 = mm256_cmpgt_epi64 (data1 lhs) (data1 rhs)\<rparr>"

definition mm256_cmpeq_epi64 :: "u64 list \<Rightarrow> u64 list \<Rightarrow> u64 list" where
  "mm256_cmpeq_epi64 a b = map2 (\<lambda>x y. if x = y then - 1 else 0) a b"

definition emu_cmpeq_epi64_mask :: "m512i_emu \<Rightarrow> m512i_emu \<Rightarrow> m512i_emu" where
  "emu_cmpeq_epi64_mask lhs rhs =
     \<lparr>data0 = mm256_cmpeq_epi64 (data0 lhs) (data0 rhs), data1 = mm256_cmpeq_epi64 (data1 lhs) (data1 rhs)\<rparr>"

definition emu_mask :: "m512i_emu \<Rightarrow> m512i_emu \<Rightarrow> m512i_emu" where
  "emu_mask x k = \<lparr>data0 = map2 (AND) (data0 x) (data0 k), data1 = map2 (AND) (data1 x) (data1 k)\<rparr>"

definition emu_cvtepi32_epi64 :: "m256i \<Rightarrow> m512i_emu" where
  "emu_cvtepi32_epi64 x = \<lparr>data0 = map scast (take 4 x), data1 = map scast (drop 4 x)\<rparr>"

definition emu_extract_si256 :: "m512i_emu \<Rightarrow> m256i \<times> m256i" where
  "emu_extract_si256 data = (split_lanes (data0 data), split_lanes (data1 data))"

definition emu_lanes :: "m512i_emu \<Rightarrow> m512i" where
  "emu_lanes v = data0 v @ data1 v"

definition emu_wf :: "m512i_emu \<Rightarrow> bool" where
  "emu_wf v \<longleftrightarrow> length (data0 v) = 4 \<and> length (data1 v) = 4"

lemma srai_lane:
  fixes x :: u64
  assumes "k < 32"
  shows "drop_bit k x OR push_bit (64 - k) (if sint (0 :: u64) > sint x then - 1 else 0) = signed_drop_bit k x"
proof (rule bit_word_eqI)
  fix n :: nat assume n: "n < LENGTH(64)"
  have neg: "sint (0 :: u64) > sint x \<longleftrightarrow> bit x 63"
    using bit_last_iff [of x] by simp
  show "bit (drop_bit k x OR push_bit (64 - k) (if sint (0 :: u64) > sint x then - 1 else 0)) n =
      bit (signed_drop_bit k x) n"
  proof (cases "k + n < 64")
    case True
    have "bit (drop_bit k x) n = bit x (k + n)" by (simp add: bit_simps)
    moreover have "bit (signed_drop_bit k x) n = bit x (k + n)"
      using True by (auto simp: bit_signed_drop_bit_iff)
    moreover have "\<not> bit (push_bit (64 - k) (if sint (0 :: u64) > sint x then - 1 else 0 :: u64)) n"
      using True by (auto simp: bit_simps)
    ultimately show ?thesis by (simp only: bit_or_iff simp_thms)
  next
    case False
    have "\<not> bit (drop_bit k x) n" using False by (simp add: bit_simps bit_imp_le_length impossible_bit)
    moreover have "bit (signed_drop_bit k x) n = bit x 63"
      using False n by (auto simp: bit_signed_drop_bit_iff)
    moreover have "bit (push_bit (64 - k) (if sint (0 :: u64) > sint x then - 1 else 0 :: u64)) n = bit x 63"
      using False n neg by (auto simp: bit_simps)
    ultimately show ?thesis by (simp only: bit_or_iff simp_thms)
  qed
qed

lemma emu_srai_lanes: "k < 32 \<Longrightarrow> length x = 4 \<Longrightarrow> mm256_srai_epi64 k x = map (signed_drop_bit k) x"
  by (rule nth_equalityI)
    (simp_all add: mm256_srai_epi64_def mm256_cmpgt_epi64_def Let_def srai_lane [simplified])

lemma mm512_mask_cmp:
  assumes "lanes8 v" "lanes8 x" "lanes8 y"
  shows "mm512_mask v (mm512_cmpgt_epi64_mask x y) = map2 (AND) v (map2 (\<lambda>a b. if sint a > sint b then - 1 else 0) x y)"
    "mm512_mask v (mm512_cmpeq_epi64_mask x y) = map2 (AND) v (map2 (\<lambda>a b. if a = b then - 1 else 0) x y)"
  using assms by (auto intro!: nth_equalityI simp: lane_simps)

lemma map2_halves:
  assumes "emu_wf a" "emu_wf b"
  shows "map2 f (emu_lanes a) (emu_lanes b) = map2 f (data0 a) (data0 b) @ map2 f (data1 a) (data1 b)"
  using assms by (simp add: emu_lanes_def emu_wf_def)

lemmas mm512_arith_defs = mm512_sub_epi64_def mm512_add_epi64_def mm512_mul_epu32_def
lemmas mm512_shift_defs = mm512_srli_epi64_def mm512_srai_epi64_def mm512_slli_epi64_def
lemmas emu_arith_defs = emu_sub_epi64_def emu_add_epi64_def emu_mul_epu32_def
lemmas emu_shift_defs = emu_srli_epi64_def emu_srai_epi64_def emu_slli_epi64_def

text \<open>
  C28. The portable path refines the AVX-512 path: on well-formed register pairs every arithmetic
  operation, every shift by less than 32 (also the arithmetic shift the portable path composes from a
  logical shift and a sign mask), every lane extraction and every comparison followed by masking yields
  the same eight lanes; shifts by 32 or more panic.
\<close>

theorem emulation_refines:
  assumes "emu_wf a" "emu_wf b" "emu_wf v"
  shows "emu_lanes (emu_add_epi64 a b) = mm512_add_epi64 (emu_lanes a) (emu_lanes b) \<and>
    emu_lanes (emu_sub_epi64 a b) = mm512_sub_epi64 (emu_lanes a) (emu_lanes b) \<and>
    emu_lanes (emu_mul_epu32 a b) = mm512_mul_epu32 (emu_lanes a) (emu_lanes b) \<and>
    emu_lanes (emu_mask v (emu_cmpgt_epi64_mask a b)) =
      mm512_mask (emu_lanes v) (mm512_cmpgt_epi64_mask (emu_lanes a) (emu_lanes b)) \<and>
    emu_lanes (emu_mask v (emu_cmpeq_epi64_mask a b)) =
      mm512_mask (emu_lanes v) (mm512_cmpeq_epi64_mask (emu_lanes a) (emu_lanes b)) \<and>
    (\<forall>k. if k < 32 then
        (\<exists>l r t. emu_srli_epi64 k a = (Ok l :: (unit, m512i_emu) outcome) \<and> emu_lanes l = mm512_srli_epi64 k (emu_lanes a) \<and>
          emu_srai_epi64 k a = (Ok r :: (unit, m512i_emu) outcome) \<and> emu_lanes r = mm512_srai_epi64 k (emu_lanes a) \<and>
          emu_slli_epi64 k a = (Ok t :: (unit, m512i_emu) outcome) \<and> emu_lanes t = mm512_slli_epi64 k (emu_lanes a))
      else emu_srli_epi64 k a = (Panic :: (unit, m512i_emu) outcome) \<and> emu_srai_epi64 k a = (Panic :: (unit, m512i_emu) outcome) \<and>
        emu_slli_epi64 k a = (Panic :: (unit, m512i_emu) outcome)) \<and>
    (\<forall>k. emu_extract_epi64 k a = (mm512_extract_epi64 k (emu_lanes a) :: (unit, u64) outcome)) \<and>
    emu_extract_si256 a = mm512_extract_si256 (emu_lanes a)"
  (is "?add \<and> ?sub \<and> ?mul \<and> ?gt \<and> ?eq \<and> ?shift \<and> ?lane \<and> ?half")
proof (intro conjI)
  show ?add ?sub ?mul
    using assms by (simp_all add: emu_arith_defs mm512_arith_defs map2_halves) (simp_all add: emu_lanes_def)
  have l: "lanes8 (emu_lanes a)" "lanes8 (emu_lanes b)" "lanes8 (emu_lanes v)"
    using assms by (simp_all add: emu_lanes_def emu_wf_def)
  show ?gt ?eq
    unfolding mm512_mask_cmp [OF l(3,1,2)]
    using assms by (simp_all add: emu_mask_def emu_cmpgt_epi64_mask_def emu_cmpeq_epi64_mask_def
        mm256_cmpgt_epi64_def mm256_cmpeq_epi64_def emu_lanes_def emu_wf_def)
  show ?shift
    using assms(1) by (simp add: emu_shift_defs mm512_shift_defs emu_lanes_def emu_srai_lanes emu_wf_def)
  show ?lane ?half
    using assms(1) by (auto simp: emu_extract_epi64_def mm512_extract_epi64_def emu_extract_si256_def
        mm512_extract_si256_def emu_lanes_def emu_wf_def nth_append)
qed

theorem emulation_refines_witness:
  "emu_lanes (emu_mul_epu32 (emu_set1_epi64 3) (emu_setr_epi64 0 1 2 3 4 5 6 7)) = [0, 3, 6, 9, 12, 15, 18, 21]"
proof -
  have "mm512_mul_epu32 (emu_lanes (emu_set1_epi64 3)) (emu_lanes (emu_setr_epi64 0 1 2 3 4 5 6 7)) =
      [0, 3, 6, 9, 12, 15, 18, 21]"
    by code_simp
  moreover have "emu_wf (emu_set1_epi64 3)" "emu_wf (emu_setr_epi64 0 1 2 3 4 5 6 7)"
    by (simp_all add: emu_wf_def emu_set1_epi64_def emu_setr_epi64_def)
  ultimately show ?thesis
    using emulation_refines [of "emu_set1_epi64 3" "emu_setr_epi64 0 1 2 3 4 5 6 7" "emu_set1_epi64 3"] by simp
qed

end
