(* ===== verification/Simd_Zn.thy ===== *)
theory Simd_Zn
  imports Avx
begin

text \<open>
  \<open>crates/pir/src/simd_zn.rs\<close>: arithmetic modulo \<open>p = 2^K - alpha\<close> on eight lanes at a time. Lanes hold
  representatives up to \<open>2 * p\<close> (\<open>SpecialZnx8\<close>) or up to \<open>p\<close> (\<open>CompletelyReducedSpecialZnx8\<close>).
  The scalar ring \<open>Zn\<close> of \<open>feanor_math\<close> is a parameter: its modulus, the map from the integers, the
  smallest non-negative lift and the checked division.
\<close>

section \<open>The ring\<close>

record 'z zn_ring =
  zn_modulus :: int
  zn_of_int :: "int \<Rightarrow> 'z"
  zn_lift :: "'z \<Rightarrow> int"
  zn_checked_div :: "'z \<Rightarrow> 'z \<Rightarrow> 'z option"

text \<open>Documented behaviour of \<open>Zn\<close>: its elements are the residues, lifted to \<open>0..modulus\<close>.\<close>

definition zn_spec :: "'z zn_ring \<Rightarrow> bool" where
  "zn_spec R \<longleftrightarrow> zn_modulus R > 1 \<and>
     (\<forall>x. zn_lift R (zn_of_int R x) = x mod zn_modulus R) \<and>
     (\<forall>z. 0 \<le> zn_lift R z \<and> zn_lift R z < zn_modulus R) \<and>
     (\<forall>a b q. zn_checked_div R a b = Some q \<longrightarrow>
        (zn_lift R b * zn_lift R q) mod zn_modulus R = zn_lift R a)"

record 'z special_zn =
  sz_K :: nat
  sz_alpha :: u64
  sz_component_ring :: "'z zn_ring"
  sz_modulusx8 :: m512i
  sz_double_modulusx8 :: m512i

text \<open>\<open>i64\<close> shifts mask their count in a release build.\<close>

definition shl64 :: "u64 \<Rightarrow> nat \<Rightarrow> u64" where
  "shl64 w k = push_bit (k mod 64) w"

definition check_invariant :: "'z special_zn \<Rightarrow> bool" where
  "check_invariant r \<longleftrightarrow>
     sint (sz_alpha r) \<ge> 0 \<and>
     sint (shl64 2 (sz_K r)) \<le> 2 ^ 32 - 1 \<and>
     sint (2 * sz_alpha r + 2 * sz_alpha r * sz_alpha r) \<le> sint (shl64 1 (sz_K r)) \<and>
     sint (2 * sz_alpha r) < zn_modulus (sz_component_ring r)"

definition special_new ::
    "(u64 \<Rightarrow> ('e, 'z zn_ring) outcome) \<Rightarrow> nat \<Rightarrow> u64 \<Rightarrow> ('e, 'z special_zn) outcome" where
  "special_new zn_new K alpha =
     (let modulus = shl64 1 K - alpha in
      bind_outcome (zn_new modulus) (\<lambda>ring.
        let result = \<lparr>sz_K = K, sz_alpha = alpha, sz_component_ring = ring,
                      sz_modulusx8 = mm512_set1_epi64 modulus,
                      sz_double_modulusx8 = mm512_set1_epi64 (2 * modulus)\<rparr>
        in if check_invariant result then Ok result else Panic))"

definition repr_bound :: "'z special_zn \<Rightarrow> int" where
  "repr_bound r = zn_modulus (sz_component_ring r) * 2"


section \<open>Reduction\<close>

definition reduce_step :: "'z special_zn \<Rightarrow> m512i \<Rightarrow> m512i" where
  "reduce_step r data =
     (let approx_quo = mm512_srli_epi64 (sz_K r) data
      in mm512_sub_epi64 data (mm512_mul_epu32 approx_quo (sz_modulusx8 r)))"

definition reduce_after_mul :: "'z special_zn \<Rightarrow> m512i \<Rightarrow> m512i" where
  "reduce_after_mul r data = (let reduced1 = reduce_step r data in reduce_step r reduced1)"

definition reduce_from_2p :: "'z special_zn \<Rightarrow> m512i \<Rightarrow> m512i" where
  "reduce_from_2p r data =
     (let to_reduce = mm512_cmpgt_epi64_mask data (sz_modulusx8 r);
          subtract = mm512_mask (sz_modulusx8 r) to_reduce
      in mm512_sub_epi64 data subtract)"

definition reduce_from_4p :: "'z special_zn \<Rightarrow> m512i \<Rightarrow> m512i" where
  "reduce_from_4p r data =
     (let to_reduce = mm512_cmpgt_epi64_mask data (sz_double_modulusx8 r);
          subtract = mm512_mask (sz_double_modulusx8 r) to_reduce
      in mm512_sub_epi64 data subtract)"

definition simd_smallest_positive_lift :: "'z special_zn \<Rightarrow> m512i \<Rightarrow> m512i" where
  "simd_smallest_positive_lift r el =
     (let result = reduce_from_2p r el
      in mm512_sub_epi64 result
           (mm512_mask (sz_modulusx8 r) (mm512_cmpeq_epi64_mask result (sz_modulusx8 r))))"

definition simd_from_p_sqr :: "'z special_zn \<Rightarrow> m512i \<Rightarrow> m512i" where
  "simd_from_p_sqr r x = reduce_after_mul r x"


section \<open>Components and the compressed form\<close>

definition compress_lanes :: "m512i \<Rightarrow> u32 list" where
  "compress_lanes val = map (\<lambda>i. ucast (val ! i)) [0..<8]"

definition uncompress_lanes :: "u32 list \<Rightarrow> m512i" where
  "uncompress_lanes val = mm512_setr_epi64 (scast (val ! 0)) (scast (val ! 1)) (scast (val ! 2)) (scast (val ! 3))
     (scast (val ! 4)) (scast (val ! 5)) (scast (val ! 6)) (scast (val ! 7))"

definition get_components :: "'z special_zn \<Rightarrow> m512i \<Rightarrow> 'z list" where
  "get_components r val = map (\<lambda>x. zn_of_int (sz_component_ring r) (sint x)) (compress_lanes val)"

definition from_components :: "'z special_zn \<Rightarrow> 'z list \<Rightarrow> m512i" where
  "from_components r values =
     (let lift = (\<lambda>i. word_of_int (zn_lift (sz_component_ring r) (values ! i)))
      in mm512_setr_epi64 (lift 0) (lift 1) (lift 2) (lift 3) (lift 4) (lift 5) (lift 6) (lift 7))"

definition reduce_from_u64 :: "'z special_zn \<Rightarrow> m512i \<Rightarrow> m512i" where
  "reduce_from_u64 r data =
     from_components r (map (\<lambda>i. zn_of_int (sz_component_ring r) (uint (data ! i))) [0..<8])"


section \<open>Ring operations\<close>

definition add_assign :: "'z special_zn \<Rightarrow> m512i \<Rightarrow> m512i \<Rightarrow> m512i" where
  "add_assign r lhs rhs = (let sum = mm512_add_epi64 lhs rhs in reduce_from_4p r sum)"

definition sub_assign :: "'z special_zn \<Rightarrow> m512i \<Rightarrow> m512i \<Rightarrow> m512i" where
  "sub_assign r lhs rhs =
     (let increased = mm512_add_epi64 lhs (sz_double_modulusx8 r);
          diff = mm512_sub_epi64 increased rhs
      in reduce_from_4p r diff)"

definition negate_inplace :: "'z special_zn \<Rightarrow> m512i \<Rightarrow> m512i" where
  "negate_inplace r lhs = mm512_sub_epi64 (sz_double_modulusx8 r) lhs"

definition mul_assign :: "'z special_zn \<Rightarrow> m512i \<Rightarrow> m512i \<Rightarrow> m512i" where
  "mul_assign r lhs rhs =
     (let prod = mm512_mul_epu32 (reduce_from_2p r lhs) rhs in reduce_after_mul r prod)"

definition fma :: "'z special_zn \<Rightarrow> m512i \<Rightarrow> m512i \<Rightarrow> m512i \<Rightarrow> m512i" where
  "fma r lhs rhs summand =
     (let prod = mm512_add_epi64 (mm512_mul_epu32 (reduce_from_2p r lhs) rhs) summand
      in reduce_after_mul r prod)"

definition from_int :: "'z special_zn \<Rightarrow> int \<Rightarrow> m512i" where
  "from_int r v = mm512_set1_epi64 (word_of_int (zn_lift (sz_component_ring r) (zn_of_int (sz_component_ring r) v)))"

definition eq_el :: "'z special_zn \<Rightarrow> m512i \<Rightarrow> m512i \<Rightarrow> bool" where
  "eq_el r lhs rhs =
     (let diff = reduce_from_2p r (reduce_from_2p r (sub_assign r lhs rhs))
      in list_all (\<lambda>x. zn_lift (sz_component_ring r) x = 0) (get_components r diff))"

text \<open>\<open>sum\<close> adds without reducing until \<open>summands_before_reduction\<close> elements are in the accumulator.\<close>

fun sum_loop :: "'z special_zn \<Rightarrow> nat \<Rightarrow> m512i \<Rightarrow> m512i list \<Rightarrow> m512i" where
  "sum_loop r i result [] = reduce_after_mul r result"
| "sum_loop r i result (x # it) =
     (if int i = zn_modulus (sz_component_ring r)
      then sum_loop r 1 (mm512_add_epi64 (reduce_after_mul r result) x) it
      else sum_loop r (i + 1) (mm512_add_epi64 result x) it)"

definition sum_els :: "'z special_zn \<Rightarrow> m512i list \<Rightarrow> ('e, m512i) outcome" where
  "sum_els r els =
     (if \<not> zn_modulus (sz_component_ring r) \<ge> 1 then Panic else Ok (sum_loop r 0 (from_int r 0) els))"

definition checked_left_div :: "'z special_zn \<Rightarrow> m512i \<Rightarrow> m512i \<Rightarrow> m512i option" where
  "checked_left_div r lhs rhs =
     (let lhs = get_components r (reduce_from_2p r lhs);
          rhs = get_components r (reduce_from_2p r rhs);
          qs = map (\<lambda>i. zn_checked_div (sz_component_ring r) (lhs ! i) (rhs ! i)) [0..<8]
      in if None \<in> set qs then None else Some (from_components r (map the qs)))"


section \<open>Complete reduction and butterflies\<close>

definition rev_delegate :: "'z special_zn \<Rightarrow> m512i \<Rightarrow> m512i" where
  "rev_delegate r el = reduce_from_2p r el"

definition butterfly :: "'z special_zn \<Rightarrow> m512i \<Rightarrow> m512i \<Rightarrow> m512i \<Rightarrow> m512i \<times> m512i" where
  "butterfly r x y twiddle =
     (let twiddled_y = reduce_after_mul r (mm512_mul_epu32 twiddle y);
          y = reduce_from_4p r (mm512_sub_epi64 (mm512_add_epi64 x (sz_double_modulusx8 r)) twiddled_y);
          x = reduce_from_4p r (mm512_add_epi64 x twiddled_y)
      in (x, y))"

definition inv_butterfly :: "'z special_zn \<Rightarrow> m512i \<Rightarrow> m512i \<Rightarrow> m512i \<Rightarrow> m512i \<times> m512i" where
  "inv_butterfly r x y twiddle =
     (let x_new = reduce_from_4p r (mm512_add_epi64 x y);
          y = reduce_after_mul r (mm512_mul_epu32 twiddle
                (reduce_from_4p r (mm512_sub_epi64 (mm512_add_epi64 x (sz_double_modulusx8 r)) y)))
      in (x_new, y))"


section \<open>The deployed moduli\<close>

definition Q_FACTOR1 :: int where "Q_FACTOR1 = 2 ^ 26 - 2 ^ 12 + 1"
definition Q_FACTOR2 :: int where "Q_FACTOR2 = 2 ^ 25 - 2 ^ 12 + 1"
definition FIXED_Q :: int where "FIXED_Q = Q_FACTOR1 * Q_FACTOR2"

end
