(* ===== verification/Bfv.thy ===== *)
theory Bfv
  imports Simd_Zn "HOL-Library.Signed_Division"
begin

text \<open>
  \<open>crates/pir/src/bfv.rs\<close>: the encryption scheme under the retrieval protocol, over polynomials modulo
  \<open>X ^ N + 1\<close>. The rings and the random generators come from other crates and are parameters: an
  arithmetic \<open>Z/n\<close>, a polynomial ring over it with its canonical basis, and a generator state. The
  ring elements of the ciphertext and of the plaintext ring may have different types.
\<close>

section \<open>Parameters\<close>

record 'z zn_arith = "'z zn_ring" +
  zn_mul :: "'z \<Rightarrow> 'z \<Rightarrow> 'z"
  zn_neg :: "'z \<Rightarrow> 'z"
  zn_smallest_lift :: "'z \<Rightarrow> int"
  zn_invert :: "'z \<Rightarrow> 'z option"

text \<open>
  Documented behaviour: on top of \<open>zn_spec\<close>, products and negatives of residues, a lift of smallest
  absolute value, and inverses of units.
\<close>

definition zn_arith_spec :: "'z zn_arith \<Rightarrow> bool" where
  "zn_arith_spec R \<longleftrightarrow> zn_spec (zn_ring.truncate R) \<and>
     (\<forall>a b. zn_lift R (zn_mul R a b) = (zn_lift R a * zn_lift R b) mod zn_modulus R) \<and>
     (\<forall>a. zn_lift R (zn_neg R a) = (- zn_lift R a) mod zn_modulus R) \<and>
     (\<forall>a. zn_smallest_lift R a mod zn_modulus R = zn_lift R a \<and> 2 * \<bar>zn_smallest_lift R a\<bar> \<le> zn_modulus R) \<and>
     (\<forall>a. coprime (zn_lift R a) (zn_modulus R) \<longrightarrow>
        (\<exists>b. zn_invert R a = Some b \<and> (zn_lift R a * zn_lift R b) mod zn_modulus R = 1))"

record ('z, 'r) poly_ring =
  pr_base :: "'z zn_arith"
  pr_rank :: nat
  pr_add :: "'r \<Rightarrow> 'r \<Rightarrow> 'r"
  pr_sub :: "'r \<Rightarrow> 'r \<Rightarrow> 'r"
  pr_mul :: "'r \<Rightarrow> 'r \<Rightarrow> 'r"
  pr_scale :: "'r \<Rightarrow> 'z \<Rightarrow> 'r"
  pr_gen_pow :: "nat \<Rightarrow> 'r"
  pr_basis :: "'r \<Rightarrow> 'z list"
  pr_from_basis :: "'z list \<Rightarrow> 'r"
  pr_random :: "(nat \<Rightarrow> u64) \<Rightarrow> 'r"

definition coeff :: "('z, 'r) poly_ring \<Rightarrow> 'r \<Rightarrow> nat \<Rightarrow> int" where
  "coeff R x i = zn_lift (pr_base R) (pr_basis R x ! i)"

definition poly_spec :: "('z, 'r) poly_ring \<Rightarrow> bool" where
  "poly_spec R \<longleftrightarrow> zn_arith_spec (pr_base R) \<and>
     (\<forall>x. length (pr_basis R x) = pr_rank R) \<and>
     (\<forall>zs. length zs = pr_rank R \<longrightarrow> map (zn_lift (pr_base R)) (pr_basis R (pr_from_basis R zs)) = map (zn_lift (pr_base R)) zs) \<and>
     (\<forall>x y i. i < pr_rank R \<longrightarrow> coeff R (pr_add R x y) i = (coeff R x i + coeff R y i) mod zn_modulus (pr_base R)) \<and>
     (\<forall>x y i. i < pr_rank R \<longrightarrow> coeff R (pr_sub R x y) i = (coeff R x i - coeff R y i) mod zn_modulus (pr_base R)) \<and>
     (\<forall>x c i. i < pr_rank R \<longrightarrow> coeff R (pr_scale R x c) i = (coeff R x i * zn_lift (pr_base R) c) mod zn_modulus (pr_base R))"

type_synonym seed = bytes

text \<open>
  A generator: its seeding, its two integer outputs, and the normal sample, scaled by \<open>sigma\<close>, rounded
  and cast to \<open>i32\<close>.
\<close>

record 'g rng_ops =
  rng_from_seed :: "seed \<Rightarrow> 'g"
  rng_next_u64 :: "'g \<Rightarrow> u64 \<times> 'g"
  rng_next_u32 :: "'g \<Rightarrow> u32 \<times> 'g"
  rng_gauss :: "'g \<Rightarrow> int \<times> 'g"

definition rng_stream :: "'g rng_ops \<Rightarrow> 'g \<Rightarrow> nat \<Rightarrow> u64" where
  "rng_stream rng g n = fst (rng_next_u64 rng (((snd \<circ> rng_next_u64 rng) ^^ n) g))"


section \<open>Keys\<close>

fun gen_sk_loop :: "'g rng_ops \<Rightarrow> ('z, 'r) poly_ring \<Rightarrow> nat \<Rightarrow> 'z list \<Rightarrow> 'g \<Rightarrow> 'z list \<times> 'g" where
  "gen_sk_loop rng C 0 result_data g = (result_data, g)"
| "gen_sk_loop rng C (Suc hwt) result_data g =
     (let (w, g) = rng_next_u64 rng g;
          idx = unat w mod pr_rank C;
          (v, g) = rng_next_u32 rng g
      in gen_sk_loop rng C hwt (result_data[idx := zn_of_int (pr_base C) (int (unat v mod 3) - 1)]) g)"

definition gen_sk :: "'g rng_ops \<Rightarrow> ('z, 'r) poly_ring \<Rightarrow> 'g \<Rightarrow> nat \<Rightarrow> 'r" where
  "gen_sk rng C g hwt =
     pr_from_basis C (fst (gen_sk_loop rng C hwt (replicate (pr_rank C) (zn_of_int (pr_base C) 0)) g))"

definition expand :: "'g rng_ops \<Rightarrow> ('z, 'r) poly_ring \<Rightarrow> seed \<Rightarrow> 'r" where
  "expand rng C seed = pr_random C (rng_stream rng (rng_from_seed rng seed))"


section \<open>Modulus switching\<close>

text \<open>
  \<open>rounded_div\<close> of \<open>feanor_math\<close> rounds to the nearest integer. The shifts are \<open>i128\<close> shifts by at most
  64 and \<open>try_into\<close> panics outside the range of its target.
\<close>

definition rounded_div_spec :: "(int \<Rightarrow> int \<Rightarrow> int) \<Rightarrow> bool" where
  "rounded_div_spec rdiv \<longleftrightarrow> (\<forall>a b. b > 0 \<longrightarrow> 2 * \<bar>a - b * rdiv a b\<bar> \<le> b)"

definition to_u64 :: "int \<Rightarrow> ('e, u64) outcome" where
  "to_u64 x = (if 0 \<le> x \<and> x < 2 ^ 64 then Ok (word_of_int x) else Panic)"

fun try_map :: "('a \<Rightarrow> ('e, 'b) outcome) \<Rightarrow> 'a list \<Rightarrow> ('e, 'b list) outcome" where
  "try_map f [] = Ok []"
| "try_map f (x # xs) = bind_outcome (f x) (\<lambda>y. bind_outcome (try_map f xs) (\<lambda>ys. Ok (y # ys)))"

definition mod_switch_encode ::
    "(int \<Rightarrow> int \<Rightarrow> int) \<Rightarrow> nat \<Rightarrow> ('z, 'r) poly_ring \<Rightarrow> 'r \<Rightarrow> ('e, u64 list) outcome" where
  "mod_switch_encode rdiv BITS C x =
     (if BITS > 64 then Panic
      else let q = zn_modulus (pr_base C) in
        try_map (\<lambda>c. to_u64 ((rdiv (zn_smallest_lift (pr_base C) c * 2 ^ BITS) q + 2 ^ BITS) smod 2 ^ BITS)) (pr_basis C x))"

definition mod_switch_decode :: "nat \<Rightarrow> ('z, 'r) poly_ring \<Rightarrow> u64 list \<Rightarrow> ('e, 'r) outcome" where
  "mod_switch_decode BITS C x =
     (if BITS > 64 \<or> pr_rank C \<noteq> length x then Panic
      else let q = zn_modulus (pr_base C) in
        bind_outcome (try_map (\<lambda>c. let v = (uint c * q) sdiv 2 ^ BITS in
            if v < 2 ^ 63 then Ok (zn_of_int (pr_base C) v) else Panic) x)
          (\<lambda>cs. Ok (pr_from_basis C cs)))"


section \<open>Encryption\<close>

fun noise_coeffs :: "'g rng_ops \<Rightarrow> nat \<Rightarrow> 'g \<Rightarrow> int list \<times> 'g" where
  "noise_coeffs rng 0 g = ([], g)"
| "noise_coeffs rng (Suc n) g =
     (let (e, g) = rng_gauss rng g; (es, g) = noise_coeffs rng n g in (e # es, g))"

text \<open>
  Both \<open>rescale\<close> closures, from \<open>Z/a\<close> to \<open>Z/b\<close>: \<open>inv_a\<close> is the inverse of \<open>a\<close> in \<open>Z/b\<close>. The products are
  \<open>i64\<close> products, which \<open>rescale_fits\<close> keeps in range for the moduli in use.
\<close>

definition rescale :: "'a zn_arith \<Rightarrow> 'b zn_arith \<Rightarrow> 'b \<Rightarrow> 'a \<Rightarrow> 'b" where
  "rescale A B inv_a c =
     (let c_upscaled = zn_smallest_lift A c * zn_modulus B;
          delta = zn_smallest_lift A (zn_of_int A c_upscaled)
      in zn_mul B (zn_of_int B (c_upscaled - delta)) inv_a)"

definition unwrap :: "'a option \<Rightarrow> ('e, 'a) outcome" where
  "unwrap x = (case x of Some y \<Rightarrow> Ok y | None \<Rightarrow> Panic)"

definition modulus_inv :: "'a zn_arith \<Rightarrow> 'b zn_arith \<Rightarrow> ('e, 'b) outcome" where
  "modulus_inv A B = unwrap (zn_invert B (zn_of_int B (zn_modulus A)))"

definition enc_sym_b ::
    "'g rng_ops \<Rightarrow> ('w, 'p) poly_ring \<Rightarrow> ('z, 'r) poly_ring \<Rightarrow> seed \<Rightarrow> 'g \<Rightarrow> 'r \<Rightarrow> 'p \<Rightarrow> ('e, 'r \<times> 'g) outcome" where
  "enc_sym_b rng P C a g sk m =
     (let a = expand rng C a;
          (es, g) = noise_coeffs rng (pr_rank C) g;
          e = pr_from_basis C (map (zn_of_int (pr_base C)) es)
      in bind_outcome (modulus_inv (pr_base P) (pr_base C)) (\<lambda>P_modulus_inv.
        let payload = pr_from_basis C (map (rescale (pr_base P) (pr_base C) P_modulus_inv) (pr_basis P m));
            b = pr_add C (pr_sub C e (pr_mul C a sk)) payload
        in Ok (b, g)))"

definition dec :: "('w, 'p) poly_ring \<Rightarrow> ('z, 'r) poly_ring \<Rightarrow> 'r \<Rightarrow> 'r \<times> 'r \<Rightarrow> ('e, 'p) outcome" where
  "dec P C sk ct =
     (let noisy_dec = pr_add C (pr_mul C (fst ct) sk) (snd ct)
      in bind_outcome (modulus_inv (pr_base C) (pr_base P)) (\<lambda>C_modulus_inv.
        Ok (pr_from_basis P (map (rescale (pr_base C) (pr_base P) C_modulus_inv) (pr_basis C noisy_dec)))))"


section \<open>Galois keys\<close>

text \<open>\<open>Gal\<close> is the ring \<open>Z/2N\<close>; the index comparison is the code's.\<close>

definition gal_coeff :: "('z, 'r) poly_ring \<Rightarrow> 'w zn_arith \<Rightarrow> 'w \<Rightarrow> 'z list \<Rightarrow> nat \<Rightarrow> 'z" where
  "gal_coeff C Gal inv_g s_wrt_basis i =
     (let new_idx = nat (zn_lift Gal (zn_mul Gal (zn_of_int Gal (int i)) inv_g)) in
      if new_idx > pr_rank C then zn_neg (pr_base C) (s_wrt_basis ! (new_idx - pr_rank C))
      else s_wrt_basis ! new_idx)"

fun zn_pow :: "'z zn_arith \<Rightarrow> 'z \<Rightarrow> nat \<Rightarrow> 'z" where
  "zn_pow R x 0 = zn_of_int R 1"
| "zn_pow R x (Suc n) = zn_mul R x (zn_pow R x n)"

fun gk_digits ::
    "'g rng_ops \<Rightarrow> ('z, 'r) poly_ring \<Rightarrow> 'r \<Rightarrow> 'r \<Rightarrow> nat \<Rightarrow> nat \<Rightarrow> seed list \<Rightarrow> 'g \<Rightarrow> 'r list \<times> 'g" where
  "gk_digits rng C sk gal_s log2_B i [] g = ([], g)"
| "gk_digits rng C sk gal_s log2_B i (seed_a # seeds_a) g =
     (let a = expand rng C seed_a;
          (es, g) = noise_coeffs rng (pr_rank C) g;
          e = pr_from_basis C (map (zn_of_int (pr_base C)) es);
          payload = pr_scale C gal_s (zn_pow (pr_base C) (zn_of_int (pr_base C) (2 ^ log2_B)) i);
          b = pr_add C (pr_sub C e (pr_mul C a sk)) payload;
          (bs, g) = gk_digits rng C sk gal_s log2_B (i + 1) seeds_a g
      in (b # bs, g))"

definition gen_gk_b ::
    "'g rng_ops \<Rightarrow> 'w zn_arith \<Rightarrow> ('z, 'r) poly_ring \<Rightarrow> seed list \<Rightarrow> 'g \<Rightarrow> 'r \<Rightarrow> nat \<Rightarrow> nat \<Rightarrow> nat \<Rightarrow> ('e, 'r list \<times> 'g) outcome" where
  "gen_gk_b rng Gal C seeds_a g sk gal digits log2_B =
     bind_outcome (unwrap (zn_invert Gal (zn_of_int Gal (int gal)))) (\<lambda>inv_g.
       let s_wrt_basis = pr_basis C sk;
           gal_s = pr_from_basis C (map (gal_coeff C Gal inv_g s_wrt_basis) [0..<pr_rank C])
       in if digits > length seeds_a then Panic
          else Ok (gk_digits rng C sk gal_s log2_B 0 (take digits seeds_a) g))"

end
