(* ===== verification/Double_Pir.thy ===== *)
theory Double_Pir
  imports Bfv Pir_Shape
begin

text \<open>
  \<open>crates/pir/src/double_pir.rs\<close> and the seed sets of \<open>crates/pir/src/base_pir.rs\<close>: the ciphertexts of a
  query, the re-encoding of first-level results as plaintexts of the second level, the layout of the
  second-level database, and the decoding of a reply. The rings, the generator and the rounding
  division are the parameters of \<open>Bfv\<close>; evaluating a query on a database is left out.
\<close>

section \<open>Constants and seeds\<close>

definition CTXT_PARTS :: nat where "CTXT_PARTS = 3"
definition BATCH_COUNT :: nat where "BATCH_COUNT = 2"
definition PRIMARY_PLAIN_MODULUS :: int where "PRIMARY_PLAIN_MODULUS = 1025"
definition SECONDARY_PLAIN_MODULUS :: int where "SECONDARY_PLAIN_MODULUS = 1025"
definition PRIMARY_A_LOG2_RESPONSE_Q :: nat where "PRIMARY_A_LOG2_RESPONSE_Q = 17"
definition PRIMARY_B_LOG2_RESPONSE_Q :: nat where "PRIMARY_B_LOG2_RESPONSE_Q = 12"
definition LOG2_B :: nat where "LOG2_B = 26"

lemmas double_consts = CTXT_PARTS_def BATCH_COUNT_def PRIMARY_PLAIN_MODULUS_def SECONDARY_PLAIN_MODULUS_def
  PRIMARY_A_LOG2_RESPONSE_Q_def PRIMARY_B_LOG2_RESPONSE_Q_def LOG2_B_def

definition SEEDS :: "seed list" where
  "SEEDS = [
     [0xda, 0xd2, 0x0c, 0x14, 0x2d, 0xeb, 0x8b, 0xb4, 0xd6, 0x63, 0x20, 0xee, 0x07, 0xb1, 0xc1, 0x90,
      0xec, 0x25, 0xc0, 0xa1, 0x54, 0x1c, 0xca, 0xf5, 0x98, 0xfa, 0x22, 0xff, 0xdf, 0xdd, 0x68, 0xba],
     [0xd3, 0xc5, 0xf6, 0xee, 0xb3, 0x3a, 0x4c, 0xf3, 0x33, 0x51, 0x6c, 0xe2, 0x73, 0xd5, 0x74, 0x76,
      0xb5, 0x79, 0x6c, 0xce, 0x9c, 0xf3, 0x37, 0xa1, 0x9c, 0x84, 0xbc, 0xbe, 0xa4, 0x3d, 0x2c, 0xb5],
     [0x95, 0x27, 0xb8, 0x6c, 0x30, 0xdc, 0x30, 0xcf, 0x1b, 0xb1, 0x74, 0xc3, 0xcd, 0x6c, 0xd7, 0x50,
      0x72, 0x09, 0xda, 0xa5, 0x4b, 0xbd, 0xb9, 0x99, 0x04, 0x14, 0x00, 0x08, 0x3d, 0x68, 0x24, 0x8a],
     [0x4c, 0xa2, 0xf6, 0x47, 0x8a, 0x58, 0x11, 0x91, 0x67, 0x67, 0x41, 0x00, 0x2a, 0x00, 0xed, 0xd1,
      0xac, 0x97, 0xf9, 0x30, 0x98, 0x0b, 0x7f, 0xbe, 0xf0, 0x33, 0xb4, 0x48, 0x23, 0x4b, 0x21, 0x6b],
     [0x98, 0xfc, 0x62, 0xc5, 0x17, 0x52, 0x0e, 0x5d, 0x29, 0xfc, 0x30, 0x7e, 0x73, 0xef, 0xb1, 0x0e,
      0x14, 0x18, 0xaa, 0x07, 0x0e, 0x32, 0x36, 0x4f, 0x89, 0x3f, 0xa8, 0xbd, 0x92, 0x13, 0x03, 0x27],
     [0xb3, 0x61, 0xdc, 0x94, 0x34, 0xdb, 0xba, 0xe9, 0x28, 0xe5, 0xc9, 0x64, 0xdc, 0x18, 0x02, 0x54,
      0x02, 0xfe, 0x81, 0xaa, 0xf7, 0x49, 0x17, 0x20, 0x8a, 0x6e, 0x6f, 0xd9, 0x55, 0x70, 0x2a, 0x21]]"

datatype used_seeds = FirstSet | SecondSet

definition get_gk_seeds :: "used_seeds \<Rightarrow> seed list" where
  "get_gk_seeds s = [SEEDS ! 0, SEEDS ! 1]"

fun get_qry_seeds :: "used_seeds \<Rightarrow> seed list" where
  "get_qry_seeds FirstSet = [SEEDS ! 2, SEEDS ! 3]"
| "get_qry_seeds SecondSet = [SEEDS ! 4, SEEDS ! 5]"


section \<open>Ciphertext coefficients as plaintext coefficients\<close>

text \<open>The integers are \<open>u64\<close>; \<open>Zt\<close> is the arithmetic modulo the second plaintext modulus.\<close>

fun split_digits :: "'z zn_arith \<Rightarrow> nat \<Rightarrow> u64 \<Rightarrow> 'z list \<times> u64" where
  "split_digits Zt 0 current = ([], current)"
| "split_digits Zt (Suc k) current =
     (let result = current mod word_of_int SECONDARY_PLAIN_MODULUS;
          (ds, current) = split_digits Zt k (current div word_of_int SECONDARY_PLAIN_MODULUS)
      in (zn_of_int Zt (sint result) # ds, current))"

definition encode_ciphertext_plaintext :: "u64 \<Rightarrow> u64 \<Rightarrow> 'z zn_arith \<Rightarrow> ('e, 'z list) outcome" where
  "encode_ciphertext_plaintext a_coeff b_coeff Zt =
     (let integer = a_coeff * push_bit PRIMARY_B_LOG2_RESPONSE_Q 1 + b_coeff;
          (result, current) = split_digits Zt CTXT_PARTS integer
      in if current \<noteq> 0 then Panic else Ok result)"

definition decode_ciphertext_plaintext :: "'z list \<Rightarrow> 'z zn_arith \<Rightarrow> ('e, u64 \<times> u64) outcome" where
  "decode_ciphertext_plaintext data Zt =
     (let integer = fold (\<lambda>x integer. integer * word_of_int SECONDARY_PLAIN_MODULUS + word_of_int (zn_lift Zt x)) (rev data) 0
      in if \<not> integer div push_bit PRIMARY_B_LOG2_RESPONSE_Q 1 < (push_bit PRIMARY_A_LOG2_RESPONSE_Q 1 :: u64) then Panic
         else Ok (integer div push_bit PRIMARY_B_LOG2_RESPONSE_Q 1, integer mod push_bit PRIMARY_B_LOG2_RESPONSE_Q 1))"


section \<open>Queries\<close>

text \<open>
  The result: the two primary, then the two secondary ciphertexts, the second of each only where the
  group needs it, then the Galois key; with the new generator state. The exponents of the conjugated
  plaintexts are \<open>usize\<close> differences, which cannot be negative after the assertions.
\<close>

record 'r double_query =
  dq_primary :: 'r
  dq_primary_conj :: "'r option"
  dq_secondary :: 'r
  dq_secondary_conj :: "'r option"
  dq_gk :: "'r list"

definition enc_when :: "bool \<Rightarrow> ('g \<Rightarrow> ('e, 'r \<times> 'g) outcome) \<Rightarrow> 'g \<Rightarrow> ('e, 'r option \<times> 'g) outcome" where
  "enc_when needed enc g = (if needed then bind_outcome (enc g) (\<lambda>(b, g). Ok (Some b, g)) else Ok (None, g))"

definition enc_double_pir ::
    "'g rng_ops \<Rightarrow> 'v zn_arith \<Rightarrow> 'g \<Rightarrow> ('w, 'p) poly_ring \<Rightarrow> ('w, 'p) poly_ring \<Rightarrow> index_group \<Rightarrow> index_group \<Rightarrow>
     ('z, 'r) poly_ring \<Rightarrow> 'r \<Rightarrow> nat \<Rightarrow> nat \<Rightarrow> ('e, 'r double_query \<times> 'g) outcome" where
  "enc_double_pir rng Gal g R_primary R_secondary index_group_primary index_group_secondary C sk primary_idx secondary_idx =
     (let N = pr_rank R_primary in
      if SECONDARY_PLAIN_MODULUS \<noteq> zn_modulus (pr_base R_secondary) \<or> PRIMARY_PLAIN_MODULUS \<noteq> zn_modulus (pr_base R_primary) then Panic
      else if N \<noteq> ig_N index_group_primary then Panic
      else if \<not> primary_idx < group_order index_group_primary * SIMD_COUNT then Panic
      else if \<not> secondary_idx < group_order index_group_secondary div SIMD_COUNT then Panic
      else let i = primary_idx div SIMD_COUNT;
               j = secondary_idx * SIMD_COUNT + primary_idx mod SIMD_COUNT
      in bind_outcome (gen_gk_b rng Gal C (get_gk_seeds FirstSet) g sk 5 GK_DIGITS LOG2_B) (\<lambda>(gk, g).
         bind_outcome (enc_sym_b rng R_primary C (get_qry_seeds FirstSet ! 0) g sk
           (pr_gen_pow R_primary (i * query_base_power index_group_primary))) (\<lambda>(primary, g).
         bind_outcome (enc_when (requires_conj index_group_primary) (\<lambda>g. enc_sym_b rng R_primary C (get_qry_seeds FirstSet ! 1) g sk
           (pr_gen_pow R_primary (2 * N - i * query_base_power index_group_primary))) g) (\<lambda>(primary_conj, g).
         bind_outcome (enc_sym_b rng R_secondary C (get_qry_seeds SecondSet ! 0) g sk
           (pr_gen_pow R_secondary (j * query_base_power index_group_secondary))) (\<lambda>(secondary, g).
         bind_outcome (enc_when (requires_conj index_group_secondary) (\<lambda>g. enc_sym_b rng R_secondary C (get_qry_seeds SecondSet ! 1) g sk
           (pr_gen_pow R_secondary (2 * N - j * query_base_power index_group_secondary))) g) (\<lambda>(secondary_conj, g).
         Ok (\<lparr>dq_primary = primary, dq_primary_conj = primary_conj, dq_secondary = secondary,
              dq_secondary_conj = secondary_conj, dq_gk = gk\<rparr>, g)))))))"


section \<open>First-level results as second-level entries\<close>

text \<open>One first-level result, a ciphertext, as \<open>CTXT_PARTS\<close> plaintexts.\<close>

definition result_parts ::
    "(int \<Rightarrow> int \<Rightarrow> int) \<Rightarrow> ('w, 'p) poly_ring \<Rightarrow> ('z, 'r) poly_ring \<Rightarrow> 'r \<times> 'r \<Rightarrow> ('e, 'p list) outcome" where
  "result_parts rdiv R_secondary C ct =
     bind_outcome (mod_switch_encode rdiv PRIMARY_A_LOG2_RESPONSE_Q C (fst ct)) (\<lambda>a_modswitched.
     bind_outcome (mod_switch_encode rdiv PRIMARY_B_LOG2_RESPONSE_Q C (snd ct)) (\<lambda>b_modswitched.
     bind_outcome (try_map (\<lambda>i. encode_ciphertext_plaintext (a_modswitched ! i) (b_modswitched ! i) (pr_base R_secondary))
       [0..<pr_rank R_secondary]) (\<lambda>digits.
     Ok (map (\<lambda>j. pr_from_basis R_secondary (map (\<lambda>ds. ds ! j) digits)) [0..<CTXT_PARTS]))))"

text \<open>
  The entries handed to \<open>set_db\<close> of the second level: group element \<open>i\<close>, then SIMD position \<open>j\<close>;
  \<open>part_results\<close> and \<open>databases_len\<close> per query of the batch. Positions without a result hold zero.
\<close>

definition secondary_entries :: "'p \<Rightarrow> nat \<Rightarrow> nat list \<Rightarrow> 'p list list option list \<Rightarrow> 'p list" where
  "secondary_entries zero order databases_len part_results =
     concat (map (\<lambda>i. map (\<lambda>j.
       if j < CTXT_PARTS * BATCH_COUNT \<and> i < SIMD_COUNT * databases_len ! (j div CTXT_PARTS)
       then (case part_results ! (j div CTXT_PARTS) of Some rs \<Rightarrow> rs ! i ! (j mod CTXT_PARTS) | None \<Rightarrow> zero)
       else zero) [0..<SIMD_COUNT]) [0..<order])"


section \<open>Replies\<close>

definition dec_double_pir ::
    "('w, 'p) poly_ring \<Rightarrow> ('w, 'p) poly_ring \<Rightarrow> ('z, 'r) poly_ring \<Rightarrow> 'r \<Rightarrow> ('r \<times> 'r) list \<Rightarrow> ('e, 'p) outcome" where
  "dec_double_pir R_primary R_secondary C sk reply =
     (if SECONDARY_PLAIN_MODULUS \<noteq> zn_modulus (pr_base R_secondary) \<or> PRIMARY_PLAIN_MODULUS \<noteq> zn_modulus (pr_base R_primary) then Panic
      else let N = pr_rank R_primary in
        bind_outcome (try_map (\<lambda>i. dec R_secondary C sk (reply ! i)) [0..<CTXT_PARTS]) (\<lambda>parts.
        let parts = map (pr_basis R_secondary) parts;
            decoded = try_map (\<lambda>i. decode_ciphertext_plaintext (map (\<lambda>k. parts ! k ! i) [0..<CTXT_PARTS]) (pr_base R_secondary)) [0..<N]
        in bind_outcome decoded (\<lambda>abs.
           bind_outcome (mod_switch_decode PRIMARY_A_LOG2_RESPONSE_Q C (map fst abs)) (\<lambda>a.
           bind_outcome (mod_switch_decode PRIMARY_B_LOG2_RESPONSE_Q C (map snd abs)) (\<lambda>b.
           dec R_primary C sk (a, b))))))"

end
