(* ===== verification/Bfv_Correct.thy ===== *)
theory Bfv_Correct
  imports Bfv
begin

text \<open>
  The encryption scheme decrypts what it encrypts as long as the noise of a coefficient stays below
  \<open>(q - t) / 2t\<close>, and a modulus switch to \<open>BITS\<close> bits and back moves a coefficient by at most
  \<open>q / 2^(BITS + 1)\<close>, rounded up. Everything happens coefficient by coefficient; multiplication by the
  secret key cancels between encryption and decryption.
\<close>

section \<open>Residues and their lifts\<close>

lemma zn_lift_of_int: "zn_arith_spec R \<Longrightarrow> zn_lift R (zn_of_int R x) = x mod zn_modulus R"
  by (simp add: zn_arith_spec_def zn_spec_def zn_ring.defs)

lemma zn_modulus_gt_1: "zn_arith_spec R \<Longrightarrow> zn_modulus R > 1"
  by (simp add: zn_arith_spec_def zn_spec_def zn_ring.defs)

lemma zn_lift_range:
  assumes "zn_arith_spec R"
  shows "0 \<le> zn_lift R z" "zn_lift R z < zn_modulus R" "zn_lift R z mod zn_modulus R = zn_lift R z"
  using assms by (simp_all add: zn_arith_spec_def zn_spec_def zn_ring.defs)

lemma zn_lift_mul: "zn_arith_spec R \<Longrightarrow> zn_lift R (zn_mul R a b) = (zn_lift R a * zn_lift R b) mod zn_modulus R"
  by (simp add: zn_arith_spec_def)

lemma zn_lift_neg: "zn_arith_spec R \<Longrightarrow> zn_lift R (zn_neg R a) = (- zn_lift R a) mod zn_modulus R"
  by (simp add: zn_arith_spec_def)

lemma zn_smallest:
  assumes "zn_arith_spec R"
  shows "zn_smallest_lift R a mod zn_modulus R = zn_lift R a" "2 * \<bar>zn_smallest_lift R a\<bar> \<le> zn_modulus R"
  using assms by (simp_all add: zn_arith_spec_def)

lemma zn_lift_pow: "zn_arith_spec R \<Longrightarrow> zn_lift R (zn_pow R x n) = zn_lift R x ^ n mod zn_modulus R"
  by (induction n) (simp_all add: zn_lift_of_int zn_lift_mul mod_mult_right_eq)

text \<open>Representatives of small absolute value are determined by their residue.\<close>

lemma centered_unique:
  fixes x y m :: int
  assumes "x mod m = y mod m" "2 * \<bar>x\<bar> \<le> m" "2 * \<bar>y\<bar> < m"
  shows "x = y"
proof -
  have "m dvd x - y" using assms(1) by (simp add: mod_eq_dvd_iff)
  then obtain k where k: "x - y = m * k" by blast
  have less: "\<bar>m * k\<bar> < m" and "0 < m" using assms(2,3) k by linarith+
  have "k = 0"
  proof (rule ccontr)
    assume "k \<noteq> 0"
    then have "m * 1 \<le> m * \<bar>k\<bar>" using \<open>0 < m\<close> by (intro mult_left_mono) simp_all
    then show False using less \<open>0 < m\<close> by (simp add: abs_mult)
  qed
  then show ?thesis using k by simp
qed

lemma smallest_lift_eq:
  assumes "zn_arith_spec R" "zn_lift R c = y mod zn_modulus R" "2 * \<bar>y\<bar> < zn_modulus R"
  shows "zn_smallest_lift R c = y"
  using centered_unique [of "zn_smallest_lift R c" "zn_modulus R" y] zn_smallest [OF assms(1)] assms(2,3) by simp


section \<open>Rescaling\<close>

lemma modulus_inv_Ok:
  assumes "zn_arith_spec B" "coprime (zn_modulus A) (zn_modulus B)"
  shows "\<exists>i. modulus_inv A B = (Ok i :: ('e, 'b) outcome) \<and> (zn_modulus A * zn_lift B i) mod zn_modulus B = 1"
proof -
  let ?a = "zn_of_int B (zn_modulus A)"
  have l: "zn_lift B ?a = zn_modulus A mod zn_modulus B" by (rule zn_lift_of_int [OF assms(1)])
  then have "coprime (zn_lift B ?a) (zn_modulus B)"
    using assms zn_modulus_gt_1 [OF assms(1)] by (simp add: coprime_mod_left_iff)
  then obtain i where "zn_invert B ?a = Some i" "(zn_lift B ?a * zn_lift B i) mod zn_modulus B = 1"
    using assms(1) unfolding zn_arith_spec_def by blast
  then show ?thesis using l by (auto simp: modulus_inv_def unwrap_def mod_mult_left_eq)
qed

lemma rescale_lift:
  assumes "zn_arith_spec A" "zn_arith_spec B" "(zn_modulus A * zn_lift B i) mod zn_modulus B = 1"
    and "zn_smallest_lift A c * zn_modulus B - zn_smallest_lift A (zn_of_int A (zn_smallest_lift A c * zn_modulus B)) =
      zn_modulus A * k"
  shows "zn_lift B (rescale A B i c) = k mod zn_modulus B"
proof -
  have "zn_lift B (rescale A B i c) = ((zn_modulus A * k) mod zn_modulus B * zn_lift B i) mod zn_modulus B"
    unfolding rescale_def Let_def assms(4) zn_lift_mul [OF assms(2)] zn_lift_of_int [OF assms(2)] ..
  also have "\<dots> = ((zn_modulus A * zn_lift B i) mod zn_modulus B * k) mod zn_modulus B"
    unfolding mod_mult_left_eq by (simp add: mult.commute mult.left_commute)
  finally show ?thesis using assms(3) by simp
qed

text \<open>The quotient \<open>k\<close> of \<open>rescale_lift\<close> exists: rounding \<open>s * b / a\<close>.\<close>

lemma rescale_quotient:
  assumes "zn_arith_spec A"
  obtains k delta where "zn_smallest_lift A (zn_of_int A x) = delta" "x - delta = zn_modulus A * k" "2 * \<bar>delta\<bar> \<le> zn_modulus A"
proof -
  let ?d = "zn_smallest_lift A (zn_of_int A x)"
  have "?d mod zn_modulus A = x mod zn_modulus A"
    using zn_smallest(1) [OF assms] zn_lift_of_int [OF assms] by simp
  then have "zn_modulus A dvd x - ?d" by (simp add: mod_eq_dvd_iff dvd_diff_commute)
  then show thesis using that zn_smallest(2) [OF assms] by blast
qed

text \<open>Rescaling the noisy image of a plaintext coefficient gives the coefficient back.\<close>

lemma rescale_noisy:
  assumes P: "zn_arith_spec P" and C: "zn_arith_spec C"
    and i: "(zn_modulus P * zn_lift C i) mod zn_modulus C = 1" and j: "(zn_modulus C * zn_lift P j) mod zn_modulus P = 1"
    and c: "zn_lift C c = (zn_lift C (rescale P C i m) + e) mod zn_modulus C"
    and noise: "2 * zn_modulus P * \<bar>e\<bar> + zn_modulus P < zn_modulus C"
  shows "zn_lift P (rescale C P j c) = zn_lift P m"
proof -
  let ?t = "zn_modulus P" and ?q = "zn_modulus C"
  let ?mu = "zn_smallest_lift P m" and ?s = "zn_smallest_lift C c"
  obtain pl d where pl: "zn_smallest_lift P (zn_of_int P (?mu * ?q)) = d" "?mu * ?q - d = ?t * pl" "2 * \<bar>d\<bar> \<le> ?t"
    by (rule rescale_quotient [OF P])
  have "zn_lift C (rescale P C i m) = pl mod ?q"
    by (rule rescale_lift [OF P C i]) (simp add: pl)
  then have "?s mod ?q = (pl + e) mod ?q"
    using zn_smallest(1) [OF C, of c] c by (simp add: mod_add_left_eq)
  then obtain k where k: "pl + e = ?s + ?q * k" by (metis mod_eqE mult.commute)
  have st: "?s * ?t = ?q * (?mu - k * ?t) + (e * ?t - d)"
  proof -
    have "?s * ?t = (pl + e - ?q * k) * ?t" using k by simp
    also have "\<dots> = ?t * pl + e * ?t - ?q * (k * ?t)" by (simp add: algebra_simps)
    finally show ?thesis unfolding pl(2) [symmetric] by (simp add: algebra_simps)
  qed
  have small: "2 * \<bar>e * ?t - d\<bar> < ?q"
  proof -
    have "2 * \<bar>e * ?t - d\<bar> \<le> 2 * \<bar>e * ?t\<bar> + 2 * \<bar>d\<bar>"
      using abs_triangle_ineq4 [of "e * ?t" d] by simp
    also have "\<dots> \<le> 2 * ?t * \<bar>e\<bar> + ?t"
      using pl(3) zn_modulus_gt_1 [OF P] by (simp add: abs_mult)
    finally show ?thesis using noise by linarith
  qed
  have "zn_smallest_lift C (zn_of_int C (?s * ?t)) = e * ?t - d"
    by (rule smallest_lift_eq [OF C _ small]) (simp add: zn_lift_of_int [OF C] st)
  then have "zn_lift P (rescale C P j c) = (?mu - k * ?t) mod ?t"
    by (intro rescale_lift [OF C P j]) (simp add: st)
  also have "\<dots> = ?mu mod ?t" by (metis mod_diff_right_eq mod_mult_self2_is_0 diff_zero)
  also have "\<dots> = zn_lift P m" by (rule zn_smallest(1) [OF P])
  finally show ?thesis .
qed

text \<open>The products of \<open>rescale\<close> stay within \<open>i64\<close> for the moduli of the protocol, in both directions.\<close>

lemma rescale_fits:
  assumes "zn_arith_spec A" "zn_modulus A * zn_modulus B < 2 ^ 62"
    "0 < zn_modulus B" "zn_modulus A < 2 ^ 62"
  shows "\<bar>zn_smallest_lift A c * zn_modulus B\<bar> < 2 ^ 62"
    "\<bar>zn_smallest_lift A c * zn_modulus B - zn_smallest_lift A d\<bar> < 2 ^ 63"
proof -
  have "2 * \<bar>zn_smallest_lift A c * zn_modulus B\<bar> = (2 * \<bar>zn_smallest_lift A c\<bar>) * zn_modulus B"
    using assms(3) by (simp add: abs_mult)
  also have "\<dots> \<le> zn_modulus A * zn_modulus B"
    using zn_smallest(2) [OF assms(1)] assms(3) by (intro mult_right_mono) simp_all
  finally have "2 * \<bar>zn_smallest_lift A c * zn_modulus B\<bar> < 2 ^ 62" using assms(2) by simp
  moreover have "2 * \<bar>zn_smallest_lift A d\<bar> < 2 ^ 62"
    using zn_smallest(2) [OF assms(1), of d] assms(4) by linarith
  ultimately show "\<bar>zn_smallest_lift A c * zn_modulus B\<bar> < 2 ^ 62"
    "\<bar>zn_smallest_lift A c * zn_modulus B - zn_smallest_lift A d\<bar> < 2 ^ 63"
    using abs_triangle_ineq4 [of "zn_smallest_lift A c * zn_modulus B" "zn_smallest_lift A d"] by simp_all
qed


section \<open>Polynomials\<close>

lemma poly_base: "poly_spec R \<Longrightarrow> zn_arith_spec (pr_base R)"
  by (simp add: poly_spec_def)

lemma length_basis: "poly_spec R \<Longrightarrow> length (pr_basis R x) = pr_rank R"
  by (simp add: poly_spec_def)

lemma coeff_from_basis:
  assumes "poly_spec R" "length zs = pr_rank R" "i < pr_rank R"
  shows "coeff R (pr_from_basis R zs) i = zn_lift (pr_base R) (zs ! i)"
proof -
  have "map (zn_lift (pr_base R)) (pr_basis R (pr_from_basis R zs)) ! i = map (zn_lift (pr_base R)) zs ! i"
    using assms by (simp add: poly_spec_def)
  then show ?thesis using assms by (simp add: coeff_def length_basis)
qed

lemma coeff_ops:
  assumes "poly_spec R" "i < pr_rank R"
  shows "coeff R (pr_add R x y) i = (coeff R x i + coeff R y i) mod zn_modulus (pr_base R)"
    "coeff R (pr_sub R x y) i = (coeff R x i - coeff R y i) mod zn_modulus (pr_base R)"
    "coeff R (pr_scale R x c) i = (coeff R x i * zn_lift (pr_base R) c) mod zn_modulus (pr_base R)"
  using assms by (simp_all add: poly_spec_def)

lemma length_noise: "length (fst (noise_coeffs rng n g)) = n"
  by (induction n arbitrary: g) (simp_all add: Let_def split_beta)

text \<open>
  What a \<open>b\<close>-part of the form \<open>e - a * sk + m\<close> is for: adding \<open>a * sk\<close> leaves noise plus message.
\<close>

lemma masked_coeff:
  assumes "poly_spec C" "i < pr_rank C" "length es = pr_rank C"
  shows "coeff C (pr_add C x (pr_add C (pr_sub C (pr_from_basis C (map (zn_of_int (pr_base C)) es)) x) m)) i =
    (coeff C m i + es ! i) mod zn_modulus (pr_base C)"
proof -
  have "coeff C (pr_from_basis C (map (zn_of_int (pr_base C)) es)) i = es ! i mod zn_modulus (pr_base C)"
    using assms by (simp add: coeff_from_basis zn_lift_of_int [OF poly_base])
  then show ?thesis
    by (simp add: coeff_ops [OF assms(1,2)] mod_simps) (simp add: algebra_simps)
qed

lemma dec_noisy:
  assumes P: "poly_spec (P :: ('w, 'p) poly_ring)" and C: "poly_spec C" and rank: "pr_rank P = pr_rank C"
    and cop: "coprime (zn_modulus (pr_base P)) (zn_modulus (pr_base C))"
    and inv: "(zn_modulus (pr_base P) * zn_lift (pr_base C) u) mod zn_modulus (pr_base C) = 1"
    and c: "\<And>i. i < pr_rank C \<Longrightarrow> coeff C (pr_add C (pr_mul C (fst ct) sk) (snd ct)) i =
      (zn_lift (pr_base C) (rescale (pr_base P) (pr_base C) u (pr_basis P m ! i)) + noise i) mod zn_modulus (pr_base C)"
    and small: "\<And>i. i < pr_rank C \<Longrightarrow>
      2 * zn_modulus (pr_base P) * \<bar>noise i\<bar> + zn_modulus (pr_base P) < zn_modulus (pr_base C)"
  shows "\<exists>m'. dec P C sk ct = (Ok m' :: ('e, 'p) outcome) \<and> (\<forall>i < pr_rank P. coeff P m' i = coeff P m i)"
proof -
  have cop': "coprime (zn_modulus (pr_base C)) (zn_modulus (pr_base P))" using cop by (simp add: coprime_commute)
  obtain v where v: "modulus_inv (pr_base C) (pr_base P) = (Ok v :: ('e, 'w) outcome)"
    "(zn_modulus (pr_base C) * zn_lift (pr_base P) v) mod zn_modulus (pr_base P) = 1"
    using modulus_inv_Ok [OF poly_base [OF P] cop'] by blast
  let ?noisy = "pr_add C (pr_mul C (fst ct) sk) (snd ct)"
  let ?m' = "pr_from_basis P (map (rescale (pr_base C) (pr_base P) v) (pr_basis C ?noisy))"
  have "coeff P ?m' i = coeff P m i" if i: "i < pr_rank P" for i
  proof -
    have "coeff P ?m' i = zn_lift (pr_base P) (rescale (pr_base C) (pr_base P) v (pr_basis C ?noisy ! i))"
      using i rank by (simp add: coeff_from_basis [OF P] length_basis [OF C])
    also have "\<dots> = zn_lift (pr_base P) (pr_basis P m ! i)"
      using rescale_noisy [OF poly_base [OF P] poly_base [OF C] inv v(2) c [unfolded coeff_def] small] i rank by simp
    finally show ?thesis by (simp add: coeff_def)
  qed
  then show ?thesis using v(1) by (simp add: dec_def Let_def)
qed

lemma enc_then_dec:
  assumes P: "poly_spec (P :: ('w, 'p) poly_ring)" and C: "poly_spec (C :: ('z, 'r) poly_ring)" and rank: "pr_rank P = pr_rank C"
    and cop: "coprime (zn_modulus (pr_base P)) (zn_modulus (pr_base C))"
    and small: "\<And>e. e \<in> set (fst (noise_coeffs rng (pr_rank C) g)) \<Longrightarrow>
      2 * zn_modulus (pr_base P) * \<bar>e\<bar> + zn_modulus (pr_base P) < zn_modulus (pr_base C)"
  shows "\<exists>b g' m'. enc_sym_b rng P C a g sk m = (Ok (b, g') :: ('e, 'r \<times> 'g) outcome) \<and>
    dec P C sk (expand rng C a, b) = (Ok m' :: ('e, 'p) outcome) \<and> (\<forall>i < pr_rank P. coeff P m' i = coeff P m i)"
proof -
  obtain es g' where es: "noise_coeffs rng (pr_rank C) g = (es, g')" by (cases "noise_coeffs rng (pr_rank C) g")
  have len: "length es = pr_rank C" using length_noise [of rng "pr_rank C" g] es by simp
  obtain u where u: "modulus_inv (pr_base P) (pr_base C) = (Ok u :: ('e, 'z) outcome)"
    "(zn_modulus (pr_base P) * zn_lift (pr_base C) u) mod zn_modulus (pr_base C) = 1"
    using modulus_inv_Ok [OF poly_base [OF C] cop] by blast
  let ?payload = "pr_from_basis C (map (rescale (pr_base P) (pr_base C) u) (pr_basis P m))"
  let ?x = "pr_mul C (expand rng C a) sk"
  let ?b = "pr_add C (pr_sub C (pr_from_basis C (map (zn_of_int (pr_base C)) es)) ?x) ?payload"
  have b: "enc_sym_b rng P C a g sk m = (Ok (?b, g') :: ('e, 'r \<times> 'g) outcome)"
    by (simp add: enc_sym_b_def es u)
  have c: "coeff C (pr_add C (pr_mul C (fst (expand rng C a, ?b)) sk) (snd (expand rng C a, ?b))) i =
      (zn_lift (pr_base C) (rescale (pr_base P) (pr_base C) u (pr_basis P m ! i)) + es ! i) mod zn_modulus (pr_base C)"
    if i: "i < pr_rank C" for i
    using masked_coeff [OF C i len, of ?x ?payload] i rank
    by (simp add: coeff_from_basis [OF C] length_basis [OF P])
  have "2 * zn_modulus (pr_base P) * \<bar>es ! i\<bar> + zn_modulus (pr_base P) < zn_modulus (pr_base C)" if "i < pr_rank C" for i
    using small [of "es ! i"] that len es by simp
  from dec_noisy [OF P C rank cop u(2) c this] show ?thesis using b by blast
qed


section \<open>Modulus switching\<close>

lemma try_map_Ok: "(\<And>x. x \<in> set xs \<Longrightarrow> f x = Ok (g x)) \<Longrightarrow> try_map f xs = Ok (map g xs)"
  by (induction xs) simp_all

text \<open>The quotient of the encoder, for a coefficient of absolute value at most \<open>q / 2\<close>.\<close>

lemma switched_value:
  fixes s q r :: int
  assumes r: "2 * \<bar>s * 2 ^ BITS - q * r\<bar> \<le> q" and s: "2 * \<bar>s\<bar> \<le> q" and q: "0 < q" and BITS: "0 < BITS"
  obtains v where "(r + 2 ^ BITS) smod 2 ^ BITS = v" "0 \<le> v" "v < 2 ^ BITS" "2 ^ BITS dvd v - r"
proof -
  let ?B = "2 ^ BITS :: int"
  have "2 * \<bar>q * r\<bar> \<le> 2 * \<bar>s\<bar> * ?B + q"
    using r abs_triangle_ineq4 [of "s * ?B" "s * ?B - q * r"] by (simp add: abs_mult)
  also have "\<dots> \<le> q * ?B + q" using s by (simp add: mult_right_mono)
  finally have "q * (2 * \<bar>r\<bar>) \<le> q * (?B + 1)" using q by (simp add: abs_mult algebra_simps)
  then have "2 * \<bar>r\<bar> \<le> ?B + 1" using q by simp
  moreover have "2 \<le> ?B" using BITS by (cases BITS) simp_all
  ultimately have "0 \<le> r + ?B" by linarith
  then have "(r + ?B) smod ?B = (r + ?B) mod ?B" 
    by (cases "r + ?B = 0") (simp_all add: smod_int_alt_def)
  then have "(r + ?B) smod ?B = r mod ?B" by simp
  moreover have "?B dvd r mod ?B - r" by (simp add: mod_eq_dvd_iff [symmetric])
  ultimately show thesis using that [of "r mod ?B"] by simp
qed

lemma abs_floor_bound:
  fixes x a m b q :: int
  shows "x = a - m \<Longrightarrow> 0 \<le> m \<Longrightarrow> m < b \<Longrightarrow> 2 * \<bar>a\<bar> \<le> q \<Longrightarrow> 2 * \<bar>x\<bar> \<le> q + 2 * b"
  by linarith

lemma abs_round_bound:
  fixes x a b :: int
  shows "2 * x \<le> 2 * a + b \<Longrightarrow> 2 * a - b < 2 * x \<Longrightarrow> 2 * \<bar>a - x\<bar> \<le> b"
  by presburger

lemma switched_back:
  fixes s q r v :: int
  assumes r: "2 * \<bar>s * 2 ^ BITS - q * r\<bar> \<le> q" and q: "0 < q"
    and v: "0 \<le> v" "v < 2 ^ BITS" "2 ^ BITS dvd v - r"
  obtains err where "((v * q) sdiv 2 ^ BITS) mod q = (s + err) mod q" "0 \<le> (v * q) sdiv 2 ^ BITS" "(v * q) sdiv 2 ^ BITS < q"
    "2 ^ (BITS + 1) * \<bar>err\<bar> \<le> q + 2 ^ (BITS + 1)"
proof -
  let ?B = "2 ^ BITS :: int" and ?d = "(v * q) sdiv 2 ^ BITS" and ?err = "(r * q) div 2 ^ BITS - s"
  have B: "0 < ?B" by simp
  have div: "?d = (v * q) div ?B"
    using v(1) q by (simp add: signed_divide_int_def sgn_mult sgn_if)
  obtain k where k: "v = r + ?B * k" using v(3) by (metis add.commute diff_add_cancel dvdE)
  have "(v * q) div ?B = (r * q + ?B * (k * q)) div ?B" by (simp add: k algebra_simps)
  then have d: "?d = (r * q) div ?B + k * q" using B unfolding div by simp
  have "?d mod q = (s + ?err) mod q" by (simp add: d)
  moreover have "0 \<le> ?d" unfolding div using v(1) q B by (simp add: pos_imp_zdiv_nonneg_iff)
  moreover have "?d < q"
  proof -
    have "(v * q) div ?B * ?B \<le> v * q" using mod_div_mult_eq [of "v * q" ?B] B by (metis add_le_same_cancel2 div_mult_mod_eq le_add_same_cancel1 pos_mod_sign)
    also have "\<dots> < q * ?B" using v(2) q by (simp add: mult.commute)
    finally show ?thesis unfolding div using B by simp
  qed
  moreover have "2 ^ (BITS + 1) * \<bar>?err\<bar> \<le> q + 2 ^ (BITS + 1)"
  proof -
    have "?B * ?err = (q * r - s * ?B) - (r * q) mod ?B"
      using minus_mod_eq_mult_div [of "r * q" ?B] by (simp add: algebra_simps)
    moreover have "0 \<le> (r * q) mod ?B" "(r * q) mod ?B < ?B" using B by simp_all
    moreover have "2 * \<bar>q * r - s * ?B\<bar> \<le> q" using r by (simp add: abs_minus_commute)
    ultimately have "2 * \<bar>?B * ?err\<bar> \<le> q + 2 * ?B" by (rule abs_floor_bound)
    then show ?thesis by (simp add: abs_mult)
  qed
  ultimately show thesis using that by blast
qed

lemma switch_coeff:
  fixes R :: "'z zn_arith" and c :: 'z
  assumes C: "zn_arith_spec R" and rdiv: "rounded_div_spec rdiv" and BITS: "0 < BITS" "BITS \<le> 64" and q: "zn_modulus R < 2 ^ 63"
  defines "v \<equiv> (rdiv (zn_smallest_lift R c * 2 ^ BITS) (zn_modulus R) + 2 ^ BITS) smod 2 ^ BITS"
  shows "to_u64 v = (Ok (word_of_int v) :: ('e, u64) outcome)" "uint (word_of_int v :: u64) = v" "0 \<le> v" "v < 2 ^ BITS"
    "\<exists>err. ((v * zn_modulus R) sdiv 2 ^ BITS) mod zn_modulus R = (zn_lift R c + err) mod zn_modulus R \<and>
      (v * zn_modulus R) sdiv 2 ^ BITS < 2 ^ 63 \<and> 2 ^ (BITS + 1) * \<bar>err\<bar> \<le> zn_modulus R + 2 ^ (BITS + 1)"
proof -
  let ?q = "zn_modulus R" and ?s = "zn_smallest_lift R c"
  have q0: "0 < ?q" using zn_modulus_gt_1 [OF C] by simp
  have r: "2 * \<bar>?s * 2 ^ BITS - ?q * rdiv (?s * 2 ^ BITS) ?q\<bar> \<le> ?q" using rdiv q0 by (simp add: rounded_div_spec_def)
  obtain w where w: "v = w" "0 \<le> w" "w < 2 ^ BITS" "2 ^ BITS dvd w - rdiv (?s * 2 ^ BITS) ?q"
    using switched_value [OF r zn_smallest(2) [OF C] q0 BITS(1)] v_def by metis
  then show v: "0 \<le> v" "v < 2 ^ BITS" by simp_all
  have "(2 :: int) ^ BITS \<le> 2 ^ 64" using BITS(2) by (rule power_increasing) simp
  then have lt: "v < 2 ^ 64" using v(2) by linarith
  then show "to_u64 v = (Ok (word_of_int v) :: ('e, u64) outcome)" "uint (word_of_int v :: u64) = v"
    using v(1) by (simp_all add: to_u64_def unsigned_of_int take_bit_eq_mod)
  show "\<exists>err. ((v * ?q) sdiv 2 ^ BITS) mod ?q = (zn_lift R c + err) mod ?q \<and>
      (v * ?q) sdiv 2 ^ BITS < 2 ^ 63 \<and> 2 ^ (BITS + 1) * \<bar>err\<bar> \<le> ?q + 2 ^ (BITS + 1)"
  proof (rule switched_back [OF r q0 w(2-4)])
    fix err assume a: "((w * ?q) sdiv 2 ^ BITS) mod ?q = (?s + err) mod ?q" "0 \<le> (w * ?q) sdiv 2 ^ BITS"
      "(w * ?q) sdiv 2 ^ BITS < ?q" "2 ^ (BITS + 1) * \<bar>err\<bar> \<le> ?q + 2 ^ (BITS + 1)"
    have "(?s + err) mod ?q = (zn_lift R c + err) mod ?q"
      using zn_smallest(1) [OF C, of c] by (metis mod_add_left_eq)
    then have "((w * ?q) sdiv 2 ^ BITS) mod ?q = (zn_lift R c + err) mod ?q" using a(1) by (rule trans [rotated])
    moreover have "(w * ?q) sdiv 2 ^ BITS < 2 ^ 63" using a(3) q by (rule less_trans)
    ultimately show ?thesis unfolding w(1) using a(4) by (intro exI [of _ err] conjI)
  qed
qed

lemma mod_switch_coeffs:
  assumes C: "poly_spec (C :: ('z, 'r) poly_ring)" and rdiv: "rounded_div_spec rdiv" and BITS: "0 < BITS" "BITS \<le> 64"
    and q: "zn_modulus (pr_base C) < 2 ^ 63"
  shows "\<exists>vs y. mod_switch_encode rdiv BITS C x = (Ok vs :: ('e, u64 list) outcome) \<and> length vs = pr_rank C \<and>
    (\<forall>v \<in> set vs. uint v < 2 ^ BITS) \<and> mod_switch_decode BITS C vs = (Ok y :: ('e, 'r) outcome) \<and>
    (\<forall>i < pr_rank C. \<exists>err. coeff C y i = (coeff C x i + err) mod zn_modulus (pr_base C) \<and>
      2 ^ (BITS + 1) * \<bar>err\<bar> \<le> zn_modulus (pr_base C) + 2 ^ (BITS + 1))"
proof -
  let ?R = "pr_base C" and ?q = "zn_modulus (pr_base C)"
  define val where "val c = (rdiv (zn_smallest_lift ?R c * 2 ^ BITS) ?q + 2 ^ BITS) smod 2 ^ BITS" for c
  note sw = switch_coeff [OF poly_base [OF C] rdiv BITS q, folded val_def]
  let ?vs = "map (\<lambda>c. word_of_int (val c) :: u64) (pr_basis C x)"
  let ?home = "\<lambda>c :: u64. zn_of_int ?R ((uint c * ?q) sdiv 2 ^ BITS)"
  have enc: "mod_switch_encode rdiv BITS C x = (Ok ?vs :: ('e, u64 list) outcome)"
    using BITS(2) try_map_Ok [of "pr_basis C x", OF sw(1)]
    unfolding mod_switch_encode_def Let_def val_def [symmetric] by simp
  have fits: "(uint v * ?q) sdiv 2 ^ BITS < 2 ^ 63" if "v \<in> set ?vs" for v
  proof -
    from that obtain c where "v = word_of_int (val c)" by auto
    then show ?thesis using sw(2) [of c] sw(5) [of c] by auto
  qed
  have dec: "mod_switch_decode BITS C ?vs = (Ok (pr_from_basis C (map ?home ?vs)) :: ('e, 'r) outcome)"
  proof -
    have "try_map (\<lambda>v. if (uint v * ?q) sdiv 2 ^ BITS < 2 ^ 63 then Ok (?home v) else Panic) ?vs =
        (Ok (map ?home ?vs) :: ('e, 'z list) outcome)"
      using fits by (intro try_map_Ok) simp
    then show ?thesis
      using BITS(2) unfolding mod_switch_decode_def Let_def by (simp only:) (simp add: length_basis [OF C])
  qed
  have err: "\<exists>err. coeff C (pr_from_basis C (map ?home ?vs)) i = (coeff C x i + err) mod ?q \<and>
      2 ^ (BITS + 1) * \<bar>err\<bar> \<le> ?q + 2 ^ (BITS + 1)" if i: "i < pr_rank C" for i
  proof -
    have "coeff C (pr_from_basis C (map ?home ?vs)) i = ((val (pr_basis C x ! i) * ?q) sdiv 2 ^ BITS) mod ?q"
      using i sw(2) by (simp add: coeff_from_basis [OF C] length_basis [OF C] zn_lift_of_int [OF poly_base [OF C]])
    then show ?thesis using sw(5) [of "pr_basis C x ! i"] by (auto simp: coeff_def)
  qed
  have small: "\<forall>v \<in> set ?vs. uint v < 2 ^ BITS" using sw(2,4) by auto
  have len: "length ?vs = pr_rank C" by (simp add: length_basis [OF C])
  have "\<forall>i < pr_rank C. \<exists>err. coeff C (pr_from_basis C (map ?home ?vs)) i = (coeff C x i + err) mod ?q \<and>
      2 ^ (BITS + 1) * \<bar>err\<bar> \<le> ?q + 2 ^ (BITS + 1)"
    using err by (intro allI impI)
  then show ?thesis using enc len small dec by (intro exI [of _ ?vs] exI [of _ "pr_from_basis C (map ?home ?vs)"] conjI)
qed

text \<open>Switching to \<open>BITS\<close> bits and back, as a ciphertext travels.\<close>

definition switched :: "(int \<Rightarrow> int \<Rightarrow> int) \<Rightarrow> nat \<Rightarrow> ('z, 'r) poly_ring \<Rightarrow> 'r \<Rightarrow> ('e, 'r) outcome" where
  "switched rdiv BITS C x = bind_outcome (mod_switch_encode rdiv BITS C x) (mod_switch_decode BITS C)"

text \<open>
  C30. Modulus switching: every coefficient of a ciphertext becomes a value of \<open>BITS\<close> bits (so that the
  bit packing keeps it whole), and switching back to the modulus \<open>q\<close> never fails and moves each
  coefficient by an error of at most \<open>q / 2^(BITS + 1) + 1\<close> modulo \<open>q\<close>.
\<close>

theorem mod_switch_error:
  assumes C: "poly_spec (C :: ('z, 'r) poly_ring)" and rdiv: "rounded_div_spec rdiv" and BITS: "0 < BITS" "BITS \<le> 64"
    and q: "zn_modulus (pr_base C) < 2 ^ 63"
  shows "\<exists>vs y. mod_switch_encode rdiv BITS C x = (Ok vs :: ('e, u64 list) outcome) \<and> length vs = pr_rank C \<and>
    (\<forall>v \<in> set vs. uint v < 2 ^ BITS) \<and> mod_switch_decode BITS C vs = (Ok y :: ('e, 'r) outcome) \<and>
    (\<forall>i < pr_rank C. \<exists>err. coeff C y i = (coeff C x i + err) mod zn_modulus (pr_base C) \<and>
      2 ^ (BITS + 1) * \<bar>err\<bar> \<le> zn_modulus (pr_base C) + 2 ^ (BITS + 1))"
  by (rule mod_switch_coeffs [OF assms])


section \<open>Galois keys\<close>

text \<open>The automorphism \<open>X \<mapsto> X ^ g\<close> sends coefficient \<open>j\<close> to position \<open>g * j\<close> modulo \<open>2N\<close>, where \<open>X ^ N = - 1\<close>.\<close>

lemma gal_coeff_moves:
  assumes C: "poly_spec C" and Gal: "zn_arith_spec Gal" "zn_modulus Gal = 2 * int (pr_rank C)"
    and inv: "(int g * zn_lift Gal u) mod (2 * int (pr_rank C)) = 1" and j: "j < pr_rank C"
  defines "k \<equiv> (g * j) mod (2 * pr_rank C)"
  shows "zn_lift (pr_base C) (gal_coeff C Gal u (pr_basis C sk) (k mod pr_rank C)) =
    (if k < pr_rank C then coeff C sk j else - coeff C sk j) mod zn_modulus (pr_base C)"
proof -
  let ?N = "int (pr_rank C)" and ?u = "zn_lift Gal u"
  define i where "i = k mod pr_rank C"
  have idx: "zn_lift Gal (zn_mul Gal (zn_of_int Gal (int i)) u) = (int i * ?u) mod (2 * ?N)"
    by (simp add: zn_lift_mul [OF Gal(1)] zn_lift_of_int [OF Gal(1)] Gal(2) mod_mult_left_eq)
  have home: "(int k * ?u) mod (2 * ?N) = int j"
  proof -
    have "(int k * ?u) mod (2 * ?N) = (int j * ((int g * ?u) mod (2 * ?N))) mod (2 * ?N)"
      by (simp add: k_def zmod_int mod_mult_left_eq mod_mult_right_eq mult.commute mult.left_commute)
    then show ?thesis using inv j by simp
  qed
  show ?thesis
  proof (cases "k < pr_rank C")
    case True
    then show ?thesis
      using idx home j by (simp add: i_def gal_coeff_def Let_def coeff_def zn_lift_range [OF poly_base [OF C]])
  next
    case False
    have "k < 2 * pr_rank C" using j by (simp add: k_def)
    then have i: "int i = int k - ?N" using False by (simp add: i_def le_mod_geq)
    have "odd ((int g * ?u) mod (2 * ?N))" using inv by simp
    then have "odd ?u" by (simp add: dvd_mod_iff)
    then obtain w where w: "?u = 2 * w + 1" by (rule oddE)
    have "int i * ?u = int k * ?u + ?N + (2 * ?N) * (- w - 1)" unfolding i w by (simp add: algebra_simps)
    then have "(int i * ?u) mod (2 * ?N) = (int j + ?N) mod (2 * ?N)" by (metis home mod_add_left_eq mod_mult_self2)
    then have new: "(int i * ?u) mod (2 * ?N) = int j + ?N" using j by simp
    have "j \<noteq> 0"
    proof
      assume "j = 0"
      then show False using False j by (simp add: k_def)
    qed
    then show ?thesis
      using idx new False
      by (simp add: i_def [symmetric] gal_coeff_def Let_def coeff_def zn_lift_neg [OF poly_base [OF C]] nat_add_distrib)
  qed
qed

lemma length_gk_digits: "length (fst (gk_digits rng C sk gal_s log2_B n seeds g)) = length seeds"
  by (induction seeds arbitrary: n g) (simp_all add: Let_def split_beta)

lemma gk_digits_correct:
  assumes C: "poly_spec C" and d: "d < length seeds" and i: "i < pr_rank C"
    and noise: "\<And>g. \<bar>fst (rng_gauss rng g)\<bar> \<le> bound"
  shows "length (fst (gk_digits rng C sk gal_s log2_B n seeds g)) = length seeds \<and>
    (\<exists>e. \<bar>e\<bar> \<le> bound \<and>
      coeff C (pr_add C (pr_mul C (expand rng C (seeds ! d)) sk) (fst (gk_digits rng C sk gal_s log2_B n seeds g) ! d)) i =
        (coeff C gal_s i * 2 ^ (log2_B * (n + d)) + e) mod zn_modulus (pr_base C))"
  using d
proof (induction seeds arbitrary: n g d)
  case (Cons seed seeds)
  obtain es g1 where es: "noise_coeffs rng (pr_rank C) g = (es, g1)" by (cases "noise_coeffs rng (pr_rank C) g")
  have len: "length es = pr_rank C" using length_noise [of rng "pr_rank C" g] es by simp
  have "\<bar>e\<bar> \<le> bound" if "e \<in> set (fst (noise_coeffs rng m g))" for e m g
    using that noise by (induction m arbitrary: g) (auto simp: Let_def split_beta)
  then have e: "\<bar>es ! i\<bar> \<le> bound" using es i len by (metis fst_conv nth_mem)
  show ?case
  proof (cases d)
    case 0
    let ?x = "pr_mul C (expand rng C seed) sk"
    let ?m = "pr_scale C gal_s (zn_pow (pr_base C) (zn_of_int (pr_base C) (2 ^ log2_B)) n)"
    have "coeff C ?m i = (coeff C gal_s i * 2 ^ (log2_B * n)) mod zn_modulus (pr_base C)"
      by (simp add: coeff_ops(3) [OF C i] zn_lift_pow [OF poly_base [OF C]] zn_lift_of_int [OF poly_base [OF C]]
          power_mod mod_mult_right_eq power_mult)
    then have "coeff C (pr_add C ?x (pr_add C (pr_sub C (pr_from_basis C (map (zn_of_int (pr_base C)) es)) ?x) ?m)) i =
        (coeff C gal_s i * 2 ^ (log2_B * n) + es ! i) mod zn_modulus (pr_base C)"
      using masked_coeff [OF C i len, of ?x ?m] by (simp add: mod_add_left_eq)
    then show ?thesis using 0 e length_gk_digits by (auto simp: es Let_def split_beta)
  next
    case (Suc d')
    then show ?thesis
      using Cons.IH [of d' "n + 1" g1] Cons.prems by (simp add: es Let_def split_beta)
  qed
qed simp


section \<open>Concrete rings\<close>

definition int_arith :: "int \<Rightarrow> int zn_arith" where
  "int_arith m = \<lparr>zn_modulus = m, zn_of_int = (\<lambda>x. x mod m), zn_lift = (\<lambda>z. z mod m),
     zn_checked_div = (\<lambda>a b. if b mod m = 1 then Some a else None),
     zn_mul = (\<lambda>a b. (a * b) mod m), zn_neg = (\<lambda>a. (- a) mod m),
     zn_smallest_lift = (\<lambda>a. if 2 * (a mod m) \<le> m then a mod m else a mod m - m),
     zn_invert = (\<lambda>a. let x = fst (bezw (nat (a mod m)) (nat m)) in if (a * x) mod m = 1 then Some x else None)\<rparr>"

lemma int_arith_spec:
  assumes "m > 1"
  shows "zn_arith_spec (int_arith m)"
proof -
  have range: "0 \<le> a mod m \<and> a mod m < m" for a using assms by simp
  have "\<exists>b. zn_invert (int_arith m) a = Some b \<and> ((a mod m) * (b mod m)) mod m = 1" if "coprime (a mod m) m" for a
  proof -
    let ?x = "fst (bezw (nat (a mod m)) (nat m))" and ?y = "snd (bezw (nat (a mod m)) (nat m))"
    have "coprime (nat (a mod m)) (nat m)"
      using that range [of a] assms by (metis coprime_int_iff int_nat_eq not_le order.strict_trans2 zero_less_one less_imp_le)
    then have one: "?x * (a mod m) + ?y * m = 1"
      using bezw_aux [of "nat (a mod m)" "nat m"] range [of a] assms by simp
    have "(a * ?x) mod m = (?x * (a mod m) + ?y * m) mod m"
      by (simp add: mult.commute [of ?x] mod_mult_left_eq)
    then have "(a * ?x) mod m = 1" using one assms by simp
    then show ?thesis by (auto simp: int_arith_def Let_def mod_mult_eq)
  qed
  moreover have "zn_spec (zn_ring.truncate (int_arith m))"
    using assms range by (auto simp: zn_spec_def zn_ring.defs int_arith_def mod_mult_eq split: if_splits)
      (metis mod_mult_left_eq mult_1)
  moreover have "zn_smallest_lift (int_arith m) a mod m = a mod m \<and> 2 * \<bar>zn_smallest_lift (int_arith m) a\<bar> \<le> m" for a
    using range [of a] by (auto simp: int_arith_def)
  ultimately show ?thesis
    by (simp add: zn_arith_spec_def) (simp add: int_arith_def mod_mult_eq mod_minus_eq)
qed

definition int_poly :: "nat \<Rightarrow> int \<Rightarrow> (int, int list) poly_ring" where
  "int_poly N m = (let at = (\<lambda>x i. if i < length x then x ! i else 0) in
     \<lparr>pr_base = int_arith m, pr_rank = N,
      pr_add = (\<lambda>x y. map (\<lambda>i. (at x i + at y i) mod m) [0..<N]),
      pr_sub = (\<lambda>x y. map (\<lambda>i. (at x i - at y i) mod m) [0..<N]),
      pr_mul = (\<lambda>x y. map (\<lambda>k. (\<Sum>i = 0..<N. \<Sum>j = 0..<N.
        if i + j = k then at x i * at y j else if i + j = k + N then - (at x i * at y j) else 0) mod m) [0..<N]),
      pr_scale = (\<lambda>x c. map (\<lambda>i. (at x i * c) mod m) [0..<N]),
      pr_gen_pow = (\<lambda>k. map (\<lambda>i. if k mod (2 * N) = i then 1 else if k mod (2 * N) = i + N then - 1 else 0) [0..<N]),
      pr_basis = (\<lambda>x. map (at x) [0..<N]), pr_from_basis = (\<lambda>zs. zs),
      pr_random = (\<lambda>s. map (\<lambda>i. uint (s i) mod m) [0..<N])\<rparr>)"

lemma int_poly_spec: "m > 1 \<Longrightarrow> poly_spec (int_poly N m)"
  by (simp add: poly_spec_def int_poly_def Let_def int_arith_spec coeff_def)
    (auto intro!: nth_equalityI simp: int_arith_def mod_simps)

definition counting_rng :: "nat rng_ops" where
  "counting_rng = \<lparr>rng_from_seed = length, rng_next_u64 = (\<lambda>g. (of_nat g, g + 1)),
     rng_next_u32 = (\<lambda>g. (of_nat g, g + 1)), rng_gauss = (\<lambda>g. (int g - 2, g + 1))\<rparr>"



theorem mod_switch_error_witness:
  "\<exists>vs y. mod_switch_encode (\<lambda>a b. (2 * a + b) div (2 * b)) 4 (int_poly 2 1009) [100, 600] = (Ok vs :: (unit, u64 list) outcome) \<and>
    length vs = 2 \<and> mod_switch_decode 4 (int_poly 2 1009) vs = (Ok y :: (unit, int list) outcome)"
proof -
  have "rounded_div_spec (\<lambda>a b. (2 * a + b) div (2 * b))"
    unfolding rounded_div_spec_def
  proof (intro allI impI)
    fix a b :: int assume b: "b > 0"
    have "(2 * a + b) div (2 * b) * (2 * b) + (2 * a + b) mod (2 * b) = 2 * a + b" by (rule div_mult_mod_eq)
    moreover have "0 \<le> (2 * a + b) mod (2 * b)" "(2 * a + b) mod (2 * b) < 2 * b" using b by simp_all
    ultimately have "2 * (b * ((2 * a + b) div (2 * b))) \<le> 2 * a + b" "2 * a - b < 2 * (b * ((2 * a + b) div (2 * b)))"
      by (simp_all add: algebra_simps)
    then show "2 * \<bar>a - b * ((2 * a + b) div (2 * b))\<bar> \<le> b" by (rule abs_round_bound)
  qed
  from mod_switch_error [OF int_poly_spec this, of 1009 4 2 "[100, 600]", where 'e = unit] show ?thesis
    by (simp add: int_poly_def int_arith_def Let_def) blast
qed

lemma gal_inverse:
  assumes "zn_arith_spec Gal" "zn_modulus Gal = 2 * int N" "coprime (int g) (2 * int N)"
  obtains u where "zn_invert Gal (zn_of_int Gal (int g)) = Some u" "(int g * zn_lift Gal u) mod (2 * int N) = 1"
proof -
  have N: "1 < 2 * int N" using zn_modulus_gt_1 [OF assms(1)] assms(2) by simp
  have l: "zn_lift Gal (zn_of_int Gal (int g)) = int g mod (2 * int N)" by (simp add: zn_lift_of_int [OF assms(1)] assms(2))
  then have "coprime (zn_lift Gal (zn_of_int Gal (int g))) (zn_modulus Gal)"
    using assms(3) N unfolding assms(2) by (simp only: coprime_mod_left_iff)
  then show thesis
    using that assms(1,2) l unfolding zn_arith_spec_def by (metis mod_mult_left_eq)
qed

lemma gen_gk_b_Ok:
  assumes "zn_arith_spec Gal" "zn_modulus Gal = 2 * int (pr_rank C)" "coprime (int g) (2 * int (pr_rank C))" "length seeds = digits"
  shows "\<exists>bs s'. gen_gk_b rng Gal C seeds s sk g digits log2_B = (Ok (bs, s') :: ('e, 'r list \<times> 'g) outcome) \<and> length bs = digits"
proof -
  obtain u where "zn_invert Gal (zn_of_int Gal (int g)) = Some u"
    by (rule gal_inverse [OF assms(1-3)])
  then have "gen_gk_b rng Gal C seeds s sk g digits log2_B =
      (Ok (gk_digits rng C sk (pr_from_basis C (map (gal_coeff C Gal u (pr_basis C sk)) [0..<pr_rank C])) log2_B 0 seeds s) ::
        ('e, 'r list \<times> 'g) outcome)"
    using assms(4) by (simp add: gen_gk_b_def unwrap_def Let_def)
  then show ?thesis using length_gk_digits assms(4) by (metis prod.collapse)
qed

text \<open>
  C31. Galois keys: for an odd exponent \<open>g\<close> invertible modulo \<open>2N\<close>, the \<open>d\<close>-th part of the key, added to
  the product of its \<open>a\<close>-part with the secret key, leaves the secret key with the automorphism \<open>X \<mapsto> X ^ g\<close>
  applied (coefficient \<open>j\<close> moves to \<open>g * j\<close> modulo \<open>N\<close>, with the sign of \<open>X ^ N = - 1\<close>), scaled by
  \<open>2 ^ (log2_B * d)\<close>, up to the noise.
\<close>

theorem galois_keys:
  assumes "poly_spec (C :: ('z, 'r) poly_ring)" "zn_arith_spec Gal" "zn_modulus Gal = 2 * int (pr_rank C)"
    and "coprime (int g) (2 * int (pr_rank C))" "length seeds = digits" "\<And>s. \<bar>fst (rng_gauss rng s)\<bar> \<le> bound"
    and "d < digits" "j < pr_rank C"
  shows "\<exists>bs s'. gen_gk_b rng Gal C seeds s sk g digits log2_B = (Ok (bs, s') :: ('e, 'r list \<times> 'g) outcome) \<and> length bs = digits \<and>
    (\<exists>e. \<bar>e\<bar> \<le> bound \<and>
      coeff C (pr_add C (pr_mul C (expand rng C (seeds ! d)) sk) (bs ! d)) ((g * j) mod pr_rank C) =
        ((if (g * j) mod (2 * pr_rank C) < pr_rank C then coeff C sk j else - coeff C sk j) * 2 ^ (log2_B * d) + e)
          mod zn_modulus (pr_base C))"
proof -
  let ?N = "2 * int (pr_rank C)" and ?i = "(g * j) mod pr_rank C"
  obtain u where u: "zn_invert Gal (zn_of_int Gal (int g)) = Some u" "(int g * zn_lift Gal u) mod ?N = 1"
    by (rule gal_inverse [OF assms(2-4)])
  let ?gal = "pr_from_basis C (map (gal_coeff C Gal u (pr_basis C sk)) [0..<pr_rank C])"
  let ?r = "gk_digits rng C sk ?gal log2_B 0 seeds s"
  have gen: "gen_gk_b rng Gal C seeds s sk g digits log2_B = (Ok ?r :: ('e, 'r list \<times> 'g) outcome)"
    using assms(5) by (simp add: gen_gk_b_def u unwrap_def Let_def)
  have i: "?i < pr_rank C" using assms(8) by simp
  have "((g * j) mod (2 * pr_rank C)) mod pr_rank C = ?i" by (simp add: mod_mod_cancel)
  then have gal: "coeff C ?gal ?i = (if (g * j) mod (2 * pr_rank C) < pr_rank C then coeff C sk j else - coeff C sk j)
      mod zn_modulus (pr_base C)"
    using gal_coeff_moves [OF assms(1-3) u(2) assms(8), of sk] i by (simp add: coeff_from_basis [OF assms(1)])
  obtain e where "\<bar>e\<bar> \<le> bound" "coeff C (pr_add C (pr_mul C (expand rng C (seeds ! d)) sk) (fst ?r ! d)) ?i =
      (coeff C ?gal ?i * 2 ^ (log2_B * d) + e) mod zn_modulus (pr_base C)" and len: "length (fst ?r) = digits"
    using gk_digits_correct [OF assms(1) _ i assms(6), of d seeds sk ?gal log2_B 0 s] assms(5,7) by auto
  then have "\<bar>e\<bar> \<le> bound \<and> coeff C (pr_add C (pr_mul C (expand rng C (seeds ! d)) sk) (fst ?r ! d)) ?i =
      ((if (g * j) mod (2 * pr_rank C) < pr_rank C then coeff C sk j else - coeff C sk j) * 2 ^ (log2_B * d) + e)
        mod zn_modulus (pr_base C)"
    unfolding gal by (metis mod_add_left_eq mod_mult_left_eq)
  then show ?thesis using gen len by (metis prod.collapse)
qed

theorem galois_keys_witness:
  "\<exists>bs s' e. gen_gk_b (counting_rng\<lparr>rng_gauss := \<lambda>g. (0, g)\<rparr>) (int_arith 4) (int_poly 2 1009) [[1], [2]] 0 [3, 1008] 3 2 4 =
      (Ok (bs, s') :: (unit, int list list \<times> nat) outcome) \<and> length bs = 2 \<and> \<bar>e :: int\<bar> \<le> 0 \<and>
    coeff (int_poly 2 1009) (pr_add (int_poly 2 1009) (pr_mul (int_poly 2 1009)
      (expand (counting_rng\<lparr>rng_gauss := \<lambda>g. (0, g)\<rparr>) (int_poly 2 1009) [2]) [3, 1008]) (bs ! 1)) 1 = (- 1008 * 16 + e) mod 1009"
proof -
  let ?C = "int_poly 2 1009" and ?rng = "counting_rng\<lparr>rng_gauss := \<lambda>g. (0, g)\<rparr>"
  have rank: "pr_rank ?C = 2" and q: "zn_modulus (pr_base ?C) = 1009" and m: "zn_modulus (int_arith 4) = 4"
    and sk: "coeff ?C [3, 1008] 1 = 1008"
    by (simp_all add: int_poly_def int_arith_def coeff_def Let_def)
  have "coprime (3 :: int) 4" by (simp add: coprime_iff_gcd_eq_1 gcd_non_0_int)
  then show ?thesis
    using galois_keys [of ?C "int_arith 4" 3 "[[1], [2]]" 2 ?rng 0 1 1 0 "[3, 1008]" 4, where 'e = unit]
      int_poly_spec [of 1009 2] int_arith_spec [of 4]
    by (simp add: rank q m sk [simplified])
qed

end
