(* ===== verification/Simd_Zn_Correct.thy ===== *)
theory Simd_Zn_Correct
  imports Simd_Zn
begin

text \<open>
  Correctness of the vector arithmetic: every operation maps representatives within its bounds to a
  representative within its bounds, congruent lane by lane to the exact result. The bounds are the
  ones the overflow-free use of 64-bit lanes and 32-bit factors rests on.
\<close>

section \<open>One lane\<close>

lemma take_bit_32_small: "unat (w :: u64) < 2 ^ 32 \<Longrightarrow> take_bit 32 w = w"
  by (simp only: word_unat_eq_iff unsigned_take_bit_eq take_bit_nat_eq_self)

locale special_modulus =
  fixes K a p :: nat
  assumes K_le: "K \<le> 30"
    and p_def: "p + a = 2 ^ K"
    and a_small: "2 * a + 2 * a * a \<le> 2 ^ K"
    and p_large: "2 * a < p"
begin

lemma p_pos: "0 < p"
  using p_large by simp

lemma p_bounds: "p \<le> 2 ^ 30" "2 * p \<le> 2 ^ 31" "p \<le> 2 ^ K"
proof -
  have "(2 :: nat) ^ K \<le> 2 ^ 30" by (rule power_increasing [OF K_le]) simp
  then show "p \<le> 2 ^ 30" "2 * p \<le> 2 ^ 31" "p \<le> 2 ^ K"
    using p_def by simp_all
qed

lemma step_congruent: "(x mod 2 ^ K + x div 2 ^ K * a) mod p = x mod p"
proof -
  have "x = x div 2 ^ K * (p + a) + x mod 2 ^ K"
    unfolding p_def by (rule div_mult_mod_eq [symmetric])
  also have "\<dots> = (x mod 2 ^ K + x div 2 ^ K * a) + x div 2 ^ K * p"
    by (simp add: algebra_simps)
  finally have "x mod p = ((x mod 2 ^ K + x div 2 ^ K * a) + x div 2 ^ K * p) mod p"
    by (rule arg_cong)
  then show ?thesis by simp
qed

lemma two_steps_bound:
  assumes "x \<le> 2 ^ (2 * K + 1) \<or> a = 0"
  defines "x1 \<equiv> x mod 2 ^ K + x div 2 ^ K * a"
  shows "x1 mod 2 ^ K + x1 div 2 ^ K * a \<le> 2 * p"
proof (cases "a = 0")
  case True
  have "x1 mod 2 ^ K < p" using True p_def by simp
  then show ?thesis using True by simp
next
  case False
  have le: "x \<le> 2 ^ K * 2 ^ (K + 1)"
    using assms(1) False by (simp only: power_add [symmetric]) (simp add: mult_2)
  have "x div 2 ^ K \<le> 2 ^ (K + 1)"
    using div_le_mono [OF le, of "2 ^ K"] by simp
  then have "x div 2 ^ K * a \<le> 2 ^ (K + 1) * a"
    by (rule mult_le_mono1)
  moreover have "x mod 2 ^ K < 2 ^ K" by simp
  ultimately have "x1 < 2 ^ K + 2 ^ (K + 1) * a"
    unfolding x1_def by linarith
  also have "\<dots> = 2 ^ K * (2 * a + 1)" by (simp add: algebra_simps)
  finally have "x1 div 2 ^ K < 2 * a + 1"
    by (simp add: div_less_iff_less_mult mult.commute)
  then have "x1 div 2 ^ K * a \<le> 2 * a * a"
    by (intro mult_le_mono1) simp
  moreover have "x1 mod 2 ^ K < 2 ^ K" by simp
  ultimately have "x1 mod 2 ^ K + x1 div 2 ^ K * a + 2 * a < 2 ^ K + (2 * a + 2 * a * a)"
    by linarith
  then show ?thesis using a_small p_def by linarith
qed

lemma step_lane:
  assumes "unat (x :: u64) div 2 ^ K < 2 ^ 32"
  shows "unat (x - mul_epu32 (drop_bit K x) (of_nat p)) = unat x mod 2 ^ K + unat x div 2 ^ K * a"
proof -
  let ?q = "unat x div 2 ^ K"
  have q: "unat (drop_bit K x) = ?q"
    unfolding unat_drop_bit_eq by (rule drop_bit_eq_div)
  have p32: "p < 2 ^ 32" using p_bounds(1) by simp
  have "take_bit 32 (drop_bit K x) = drop_bit K x"
    using assms q by (simp only: take_bit_32_small)
  moreover have up: "unat (of_nat p :: u64) = p"
    using p32 by (simp add: of_nat_inverse)
  moreover from this have "take_bit 32 (of_nat p :: u64) = of_nat p"
    using p32 by (simp only: take_bit_32_small)
  moreover have split: "unat x = ?q * 2 ^ K + unat x mod 2 ^ K"
    by (rule div_mult_mod_eq [symmetric])
  have qp: "?q * p \<le> unat x"
    using p_bounds(3) mult_le_mono2 [OF p_bounds(3), of ?q] split by linarith
  ultimately have m: "unat (mul_epu32 (drop_bit K x) (of_nat p)) = ?q * p"
    using unsigned_less [of x, where 'a = nat] unat_mult_lem [of "drop_bit K x" "of_nat p :: u64"] q
    by (simp add: mul_epu32_def)
  then have "mul_epu32 (drop_bit K x) (of_nat p) \<le> x"
    using qp by (simp add: word_le_nat_alt)
  then have "unat (x - mul_epu32 (drop_bit K x) (of_nat p)) = unat x - ?q * p"
    using m by (simp add: unat_sub)
  also have "\<dots> = unat x mod 2 ^ K + ?q * a"
  proof -
    have "?q * 2 ^ K = ?q * p + ?q * a" unfolding p_def [symmetric] by (simp add: algebra_simps)
    then show ?thesis using split by linarith
  qed
  finally show ?thesis .
qed

lemma product_bound:
  assumes "x \<le> 2 * p * p + 2 * p"
  shows "x \<le> 2 ^ (2 * K + 1) \<or> a = 0" "x div 2 ^ K < 2 ^ 32"
proof -
  have sq: "2 * p * p + 2 * p = 2 * p * (p + 1)" by (simp add: algebra_simps)
  have "2 * p * (p + 1) \<le> 2 * 2 ^ K * 2 ^ K" if "a \<noteq> 0"
    using that p_def by (intro mult_le_mono) simp_all
  moreover have "(2 :: nat) * 2 ^ K * 2 ^ K = 2 ^ (2 * K + 1)"
    by (simp add: mult_2 power_add add_mult_distrib)
  ultimately show "x \<le> 2 ^ (2 * K + 1) \<or> a = 0"
    using assms unfolding sq by (metis le_trans)
  have "x \<le> 2 ^ K * (2 * (p + 1))"
    using assms p_bounds(3) mult_le_mono1 [OF p_bounds(3), of "2 * (p + 1)"] unfolding sq by (simp add: mult.assoc)
  then have "x div 2 ^ K \<le> 2 * (p + 1)"
    using div_le_mono [of x "2 ^ K * (2 * (p + 1))" "2 ^ K"] by simp
  then show "x div 2 ^ K < 2 ^ 32" using p_bounds(1) by simp
qed

lemma step_decreases: "x mod 2 ^ K + x div 2 ^ K * a \<le> x"
proof -
  have "x div 2 ^ K * a \<le> x div 2 ^ K * 2 ^ K" using p_def by (intro mult_le_mono2) simp
  then show ?thesis using div_mult_mod_eq [of x "2 ^ K"] by linarith
qed

end

section \<open>The ring and its representatives\<close>

definition md :: "'z special_zn \<Rightarrow> nat" where
  "md r = 2 ^ sz_K r - unat (sz_alpha r)"

definition special_ok :: "'z special_zn \<Rightarrow> bool" where
  "special_ok r \<longleftrightarrow> special_modulus (sz_K r) (unat (sz_alpha r)) (md r) \<and>
     sz_modulusx8 r = mm512_set1_epi64 (of_nat (md r)) \<and>
     sz_double_modulusx8 r = mm512_set1_epi64 (of_nat (2 * md r)) \<and>
     zn_spec (sz_component_ring r) \<and> zn_modulus (sz_component_ring r) = int (md r)"

text \<open>
  \<open>represents r b v f\<close>: the lanes of \<open>v\<close> are at most \<open>b\<close>, and lane \<open>i\<close> is congruent to \<open>f i\<close>.
\<close>

abbreviation pm :: "'z special_zn \<Rightarrow> int" where
  "pm r \<equiv> int (md r)"

definition represents :: "'z special_zn \<Rightarrow> int \<Rightarrow> m512i \<Rightarrow> (nat \<Rightarrow> int) \<Rightarrow> bool" where
  "represents r b v f \<longleftrightarrow> lanes8 v \<and>
     (\<forall>i < 8. uint (v ! i) \<le> b \<and> uint (v ! i) mod pm r = f i mod pm r)"

lemma representsD:
  assumes "represents r b v f"
  shows "lanes8 v" "i < 8 \<Longrightarrow> uint (v ! i) \<le> b" "i < 8 \<Longrightarrow> uint (v ! i) mod pm r = f i mod pm r"
  using assms by (simp_all add: represents_def)

lemma represents_mono: "represents r b v f \<Longrightarrow> b \<le> c \<Longrightarrow> represents r c v f"
  by (fastforce simp: represents_def)

lemma represents_cong:
  "represents r b v f \<Longrightarrow> (\<And>i. i < 8 \<Longrightarrow> f i mod pm r = g i mod pm r) \<Longrightarrow> represents r b v g"
  by (simp add: represents_def)

lemma special_okD:
  assumes "special_ok r"
  shows "special_modulus (sz_K r) (unat (sz_alpha r)) (md r)"
    "sz_modulusx8 r = mm512_set1_epi64 (of_nat (md r))"
    "sz_double_modulusx8 r = mm512_set1_epi64 (of_nat (2 * md r))"
    "zn_spec (sz_component_ring r)" "zn_modulus (sz_component_ring r) = pm r"
  using assms by (simp_all add: special_ok_def)

lemma md_bounds:
  assumes "special_ok r"
  shows "0 < pm r" "pm r \<le> 2 ^ 30" "uint (of_nat (md r) :: u64) = pm r" "uint (of_nat (2 * md r) :: u64) = 2 * pm r"
proof -
  note s = special_okD(1) [OF assms]
  have b: "0 < md r" "md r \<le> 2 ^ 30"
    by (rule special_modulus.p_pos [OF s] special_modulus.p_bounds [OF s])+
  then show "0 < pm r" "pm r \<le> 2 ^ 30" by simp_all
  from b show "uint (of_nat (md r) :: u64) = pm r" "uint (of_nat (2 * md r) :: u64) = 2 * pm r"
    by (simp_all add: unsigned_of_nat take_bit_nat_eq_self take_bit_int_eq_self del: of_nat_mult)
qed

lemma sint_small: "uint (w :: u64) < 2 ^ 63 \<Longrightarrow> sint w = uint w"
  using signed_take_bit_int_eq_self [of 63 "uint w"] unsigned_greater_eq [of w, where 'a = int]
  by (simp add: sint_uint)


section \<open>Reductions\<close>

lemma uint_sub_le: "uint (y :: u64) \<le> uint x \<Longrightarrow> uint (x - y) = uint x - uint y"
  by (simp only: uint_sub_lem)

text \<open>A conditional subtraction of \<open>m\<close>, which is \<open>p\<close> or \<open>2 * p\<close>.\<close>

lemma cond_sub_lane:
  fixes x m :: u64
  assumes "uint x \<le> 2 * uint m" "2 * uint m < 2 ^ 63"
  shows "uint (x - (if sint x > sint m then m else 0)) = (if uint x > uint m then uint x - uint m else uint x)"
  using assms by (simp add: sint_small uint_sub_le)

lemma cond_sub_represents:
  assumes m: "uint m = k * pm r" "2 * uint m < 2 ^ 63"
    and x: "represents r (2 * uint m) x f"
  shows "represents r (uint m) (mm512_sub_epi64 x (mm512_mask (mm512_set1_epi64 m)
    (mm512_cmpgt_epi64_mask x (mm512_set1_epi64 m)))) f"
proof -
  have "(u - uint m) mod pm r = u mod pm r" for u
    unfolding m(1) by (metis diff_zero mod_diff_right_eq mod_mult_self2_is_0)
  moreover have "uint (mm512_sub_epi64 x (mm512_mask (mm512_set1_epi64 m)
      (mm512_cmpgt_epi64_mask x (mm512_set1_epi64 m))) ! i) =
    (if uint (x ! i) > uint m then uint (x ! i) - uint m else uint (x ! i))" if "i < 8" for i
    using that representsD [OF x] cond_sub_lane [OF _ m(2), of "x ! i"]
    by (simp add: lane_simps cong: if_cong split del: if_split)
  ultimately show ?thesis
    using representsD [OF x] by (simp add: represents_def)
qed

lemma reduce_from_2p_represents:
  assumes r: "special_ok r" and x: "represents r (2 * pm r) x f"
  shows "represents r (pm r) (reduce_from_2p r x) f"
  using cond_sub_represents [of "of_nat (md r)" 1 r x f] x md_bounds [OF r]
  by (simp add: reduce_from_2p_def Let_def special_okD(2) [OF r])

lemma reduce_from_4p_represents:
  assumes r: "special_ok r" and x: "represents r (4 * pm r) x f"
  shows "represents r (2 * pm r) (reduce_from_4p r x) f"
  using cond_sub_represents [of "of_nat (2 * md r)" 2 r x f] x md_bounds [OF r]
  by (simp add: reduce_from_4p_def Let_def special_okD(3) [OF r] del: of_nat_mult)

lemma reduce_step_lane:
  assumes r: "special_ok r" and v: "lanes8 v" "i < 8" and small: "unat (v ! i) div 2 ^ sz_K r < 2 ^ 32"
  shows "unat (reduce_step r v ! i) = unat (v ! i) mod 2 ^ sz_K r + unat (v ! i) div 2 ^ sz_K r * unat (sz_alpha r)"
  using special_modulus.step_lane [OF special_okD(1) [OF r] small] v
  by (simp add: reduce_step_def Let_def special_okD(2) [OF r] lane_simps)

lemma reduce_after_mul_represents:
  assumes r: "special_ok r" and x: "represents r b x f" and b: "b \<le> 2 * pm r * pm r + 2 * pm r"
  shows "represents r (2 * pm r) (reduce_after_mul r x) f"
proof -
  note s = special_okD(1) [OF r]
  let ?K = "sz_K r" and ?a = "unat (sz_alpha r)"
  have l: "lanes8 x" "lanes8 (reduce_step r x)"
    using representsD(1) [OF x] by (simp_all add: reduce_step_def Let_def special_okD(2) [OF r])
  have "uint (reduce_after_mul r x ! i) \<le> 2 * pm r \<and> uint (reduce_after_mul r x ! i) mod pm r = f i mod pm r"
    if i: "i < 8" for i
  proof -
    let ?u = "unat (x ! i)"
    let ?u1 = "?u mod 2 ^ ?K + ?u div 2 ^ ?K * ?a"
    have "int ?u \<le> int (2 * md r * md r + 2 * md r)"
      using representsD(2) [OF x i] b by simp
    then have u: "?u \<le> 2 * md r * md r + 2 * md r"
      by (simp only: of_nat_le_iff)
    note q = special_modulus.product_bound [OF s u]
    have q1: "?u1 div 2 ^ ?K < 2 ^ 32"
      using div_le_mono [OF special_modulus.step_decreases [OF s], of ?u "2 ^ ?K"] q(2) by linarith
    have u1: "unat (reduce_step r x ! i) = ?u1"
      by (rule reduce_step_lane [OF r l(1) i q(2)])
    have u2: "unat (reduce_after_mul r x ! i) = ?u1 mod 2 ^ ?K + ?u1 div 2 ^ ?K * ?a"
      using reduce_step_lane [OF r l(2) i] q1 u1 by (simp add: reduce_after_mul_def)
    have bound: "unat (reduce_after_mul r x ! i) \<le> 2 * md r"
      unfolding u2 by (rule special_modulus.two_steps_bound [OF s q(1)])
    have "unat (reduce_after_mul r x ! i) mod md r = ?u mod md r"
      unfolding u2 special_modulus.step_congruent [OF s] ..
    then have "int (unat (reduce_after_mul r x ! i)) mod pm r = int ?u mod pm r"
      by (metis of_nat_mod)
    then show ?thesis using bound representsD(3) [OF x i] by (simp add: of_nat_le_iff [symmetric, where 'a = int])
  qed
  moreover have "lanes8 (reduce_after_mul r x)"
    using l by (simp add: reduce_after_mul_def reduce_step_def Let_def special_okD(2) [OF r])
  ultimately show ?thesis by (simp add: represents_def)
qed


section \<open>Ring operations\<close>

lemma uint_add_small: "uint (x :: u64) + uint y < 2 ^ 64 \<Longrightarrow> uint (x + y) = uint x + uint y"
  using uint_add_lem [of x y] by simp

lemma mul_epu32_uint:
  assumes "uint x < 2 ^ 32" "uint y < 2 ^ 32"
  shows "uint (mul_epu32 x y) = uint x * uint y"
proof -
  have t: "take_bit 32 w = w" if "uint w < 2 ^ 32" for w :: u64
    using that unsigned_greater_eq [of w, where 'a = int]
    by (simp only: word_uint_eq_iff unsigned_take_bit_eq take_bit_int_eq_self)
  have "uint x * uint y < 2 ^ 32 * 2 ^ 32"
    using assms by (intro mult_strict_mono') simp_all
  then show ?thesis
    using assms uint_mult_lem [of x y] by (simp add: mul_epu32_def t)
qed

lemma modulus_represents:
  assumes "special_ok r"
  shows "represents r (pm r) (sz_modulusx8 r) (\<lambda>_. 0)" "represents r (2 * pm r) (sz_double_modulusx8 r) (\<lambda>_. 0)"
  using md_bounds [OF assms] by (simp_all add: represents_def special_okD(2,3) [OF assms] lane_simps del: of_nat_mult)

lemma add_represents:
  assumes x: "represents r b x f" and y: "represents r c y g" and small: "b + c < 2 ^ 64"
  shows "represents r (b + c) (mm512_add_epi64 x y) (\<lambda>i. f i + g i)"
proof -
  have "uint (mm512_add_epi64 x y ! i) = uint (x ! i) + uint (y ! i)" if "i < 8" for i
    using that representsD [OF x] representsD [OF y] small
    by (smt (verit) lane_ops(2) uint_add_small)
  then show ?thesis
    using representsD [OF x] representsD [OF y]
    by (auto simp: represents_def intro: add_mono mod_add_cong)
qed

lemma sub_represents:
  assumes x: "represents r b x f" and y: "represents r c y g" and le: "\<And>i. i < 8 \<Longrightarrow> uint (y ! i) \<le> uint (x ! i)"
  shows "represents r b (mm512_sub_epi64 x y) (\<lambda>i. f i - g i)"
proof -
  have "uint (mm512_sub_epi64 x y ! i) = uint (x ! i) - uint (y ! i)" if "i < 8" for i
    using that representsD(1) [OF x] representsD(1) [OF y] le by (simp add: lane_simps uint_sub_le)
  then show ?thesis
    using representsD [OF x] representsD [OF y]
    by (auto simp: represents_def intro: mod_diff_cong) (smt (verit) unsigned_greater_eq)
qed

lemma mul_represents:
  assumes r: "special_ok r" and x: "represents r (pm r) x f" and y: "represents r (2 * pm r) y g"
  shows "represents r (2 * pm r * pm r) (mm512_mul_epu32 x y) (\<lambda>i. f i * g i)"
proof -
  have "uint (mm512_mul_epu32 x y ! i) = uint (x ! i) * uint (y ! i)" if "i < 8" for i
  proof -
    have "uint (x ! i) < 2 ^ 32" "uint (y ! i) < 2 ^ 32"
      using representsD(2) [OF x that] representsD(2) [OF y that] md_bounds(2) [OF r] by simp_all
    then show ?thesis
      using that representsD(1) [OF x] representsD(1) [OF y] by (simp add: lane_simps mul_epu32_uint)
  qed
  moreover have "uint (x ! i) * uint (y ! i) \<le> pm r * (2 * pm r)" if "i < 8" for i
    using that representsD(2) [OF x] representsD(2) [OF y] by (intro mult_mono) simp_all
  ultimately show ?thesis
    using representsD [OF x] representsD [OF y]
    by (auto simp: represents_def mult.commute mult.left_commute intro: mod_mult_cong)
qed

text \<open>\<open>x + 2p - y\<close>, the subtraction that never goes below zero.\<close>

lemma shifted_sub_represents:
  assumes r: "special_ok r" and x: "represents r (2 * pm r) x f" and y: "represents r (2 * pm r) y g"
  shows "represents r (4 * pm r) (mm512_sub_epi64 (mm512_add_epi64 x (sz_double_modulusx8 r)) y) (\<lambda>i. f i - g i)"
proof -
  have a: "represents r (4 * pm r) (mm512_add_epi64 x (sz_double_modulusx8 r)) (\<lambda>i. f i + 0)"
    using add_represents [OF x modulus_represents(2) [OF r]] md_bounds(2) [OF r] by simp
  have "uint (y ! i) \<le> uint (mm512_add_epi64 x (sz_double_modulusx8 r) ! i)" if "i < 8" for i
  proof -
    have "uint (mm512_add_epi64 x (sz_double_modulusx8 r) ! i) = uint (x ! i) + 2 * pm r"
      using that representsD(1) [OF x] representsD(2) [OF x that] md_bounds [OF r]
        uint_add_small [of "x ! i" "of_nat (2 * md r)"]
      by (simp add: special_okD(3) [OF r] lane_simps del: of_nat_mult)
    then show ?thesis using representsD(2) [OF y that] unsigned_greater_eq [of "x ! i", where 'a = int] by linarith
  qed
  from sub_represents [OF a y this] show ?thesis by simp
qed

lemma add_assign_represents:
  assumes r: "special_ok r" and x: "represents r (2 * pm r) x f" and y: "represents r (2 * pm r) y g"
  shows "represents r (2 * pm r) (add_assign r x y) (\<lambda>i. f i + g i)"
  using reduce_from_4p_represents [OF r, of "mm512_add_epi64 x y"] add_represents [OF x y] md_bounds(2) [OF r]
  by (simp add: add_assign_def)

lemma sub_assign_represents:
  assumes r: "special_ok r" and x: "represents r (2 * pm r) x f" and y: "represents r (2 * pm r) y g"
  shows "represents r (2 * pm r) (sub_assign r x y) (\<lambda>i. f i - g i)"
  using reduce_from_4p_represents [OF r shifted_sub_represents [OF r x y]]
  by (simp add: sub_assign_def)

lemma negate_represents:
  assumes r: "special_ok r" and x: "represents r (2 * pm r) x f"
  shows "represents r (2 * pm r) (negate_inplace r x) (\<lambda>i. - f i)"
proof -
  have "uint (x ! i) \<le> uint (sz_double_modulusx8 r ! i)" if "i < 8" for i
    using representsD(2) [OF x that] md_bounds(4) [OF r] that
    by (simp add: special_okD(3) [OF r] lane_simps del: of_nat_mult)
  from sub_represents [OF modulus_represents(2) [OF r] x this] show ?thesis
    by (simp add: negate_inplace_def)
qed

lemma mul_assign_represents:
  assumes r: "special_ok r" and x: "represents r (2 * pm r) x f" and y: "represents r (2 * pm r) y g"
  shows "represents r (2 * pm r) (mul_assign r x y) (\<lambda>i. f i * g i)"
  using reduce_after_mul_represents [OF r mul_represents [OF r reduce_from_2p_represents [OF r x] y]] md_bounds(1) [OF r]
  by (simp add: mul_assign_def)

lemma fma_represents:
  assumes r: "special_ok r" and x: "represents r (2 * pm r) x f" and y: "represents r (2 * pm r) y g"
    and z: "represents r (2 * pm r) z h"
  shows "represents r (2 * pm r) (fma r x y z) (\<lambda>i. f i * g i + h i)"
proof -
  have "2 * pm r * pm r \<le> 2 * 2 ^ 30 * 2 ^ 30"
    using md_bounds(1,2) [OF r] by (intro mult_mono) simp_all
  then have "2 * pm r * pm r + 2 * pm r < 2 ^ 64" using md_bounds(2) [OF r] by simp
  from reduce_after_mul_represents [OF r add_represents [OF mul_represents [OF r reduce_from_2p_represents [OF r x] y] z this]]
  show ?thesis by (simp add: fma_def)
qed

lemma lift_represents:
  assumes r: "special_ok r" and x: "represents r (2 * pm r) x f"
  shows "represents r (pm r - 1) (simd_smallest_positive_lift r x) f"
proof -
  let ?y = "reduce_from_2p r x"
  note y = reduce_from_2p_represents [OF r x]
  have lane: "simd_smallest_positive_lift r x ! i = (if ?y ! i = of_nat (md r) then 0 else ?y ! i)" if "i < 8" for i
    using that representsD(1) [OF y]
    by (simp add: simd_smallest_positive_lift_def Let_def special_okD(2) [OF r] lane_simps)
  have "uint (simd_smallest_positive_lift r x ! i) \<le> pm r - 1 \<and>
      uint (simd_smallest_positive_lift r x ! i) mod pm r = f i mod pm r" if i: "i < 8" for i
  proof (cases "?y ! i = of_nat (md r)")
    case True
    then have "f i mod pm r = 0" using representsD(3) [OF y i] md_bounds(3) [OF r] by simp
    then show ?thesis using md_bounds(1) [OF r] by (simp add: lane [OF i] True)
  next
    case False
    then have "uint (?y ! i) \<noteq> pm r" using md_bounds(3) [OF r] by (metis word_uint_eqI)
    then show ?thesis using False representsD(2,3) [OF y i] by (simp add: lane [OF i])
  qed
  moreover have "lanes8 (simd_smallest_positive_lift r x)"
    using representsD(1) [OF y] by (simp add: simd_smallest_positive_lift_def Let_def special_okD(2) [OF r])
  ultimately show ?thesis unfolding represents_def by blast
qed

lemma butterfly_represents:
  assumes r: "special_ok r" and x: "represents r (2 * pm r) x f" and y: "represents r (2 * pm r) y g"
    and t: "represents r (pm r) t h" and b: "butterfly r x y t = (x', y')"
  shows "represents r (2 * pm r) x' (\<lambda>i. f i + h i * g i)" "represents r (2 * pm r) y' (\<lambda>i. f i - h i * g i)"
proof -
  have ty: "represents r (2 * pm r) (reduce_after_mul r (mm512_mul_epu32 t y)) (\<lambda>i. h i * g i)"
    using reduce_after_mul_represents [OF r mul_represents [OF r t y]] md_bounds(1) [OF r] by simp
  show "represents r (2 * pm r) x' (\<lambda>i. f i + h i * g i)"
    using b add_assign_represents [OF r x ty] by (auto simp: butterfly_def add_assign_def Let_def)
  show "represents r (2 * pm r) y' (\<lambda>i. f i - h i * g i)"
    using b sub_assign_represents [OF r x ty] by (auto simp: butterfly_def sub_assign_def Let_def)
qed

lemma inv_butterfly_represents:
  assumes r: "special_ok r" and x: "represents r (2 * pm r) x f" and y: "represents r (2 * pm r) y g"
    and t: "represents r (pm r) t h" and b: "inv_butterfly r x y t = (x', y')"
  shows "represents r (2 * pm r) x' (\<lambda>i. f i + g i)" "represents r (2 * pm r) y' (\<lambda>i. h i * (f i - g i))"
proof -
  show "represents r (2 * pm r) x' (\<lambda>i. f i + g i)"
    using b add_assign_represents [OF r x y] by (auto simp: inv_butterfly_def add_assign_def Let_def)
  show "represents r (2 * pm r) y' (\<lambda>i. h i * (f i - g i))"
    using b reduce_after_mul_represents [OF r mul_represents [OF r t sub_assign_represents [OF r x y]]] md_bounds(1) [OF r]
    by (auto simp: inv_butterfly_def sub_assign_def Let_def)
qed


section \<open>Components, sums and comparisons\<close>

lemma sint_ucast_small: "uint (w :: u64) < 2 ^ 31 \<Longrightarrow> sint (ucast w :: u32) = uint w"
  using signed_take_bit_int_eq_self [of 31 "uint w"] unsigned_greater_eq [of w, where 'a = int]
  by (simp add: sint_uint unsigned_ucast_eq take_bit_int_eq_self)

lemma scast_ucast_small: "uint (w :: u64) < 2 ^ 31 \<Longrightarrow> scast (ucast w :: u32) = w"
  by (metis sint_ucast_small word_of_int_uint scast_eq)

lemma components_represents:
  assumes r: "special_ok r" and x: "represents r b x f" and b: "b < 2 ^ 31" and i: "i < 8"
  shows "zn_lift (sz_component_ring r) (get_components r x ! i) = f i mod pm r"
proof -
  have "uint (x ! i) < 2 ^ 31" using representsD(2) [OF x i] b by simp
  then show ?thesis
    using special_okD(4,5) [OF r] i representsD(3) [OF x i]
    by (simp add: get_components_def compress_lanes_def sint_ucast_small zn_spec_def)
qed

lemma setr_lane: "i < 8 \<Longrightarrow> mm512_setr_epi64 (g 0) (g 1) (g 2) (g 3) (g 4) (g 5) (g 6) (g 7) ! i = g i"
  by (auto simp: mm512_setr_epi64_def less_Suc_eq numeral_eq_Suc)

lemma uint_lift:
  assumes r: "special_ok r"
  shows "uint (word_of_int (zn_lift (sz_component_ring r) z) :: u64) = zn_lift (sz_component_ring r) z"
    "zn_lift (sz_component_ring r) z \<le> pm r - 1"
proof -
  note s = special_okD(4,5) [OF r] md_bounds(2) [OF r]
  have l: "0 \<le> zn_lift (sz_component_ring r) z" "zn_lift (sz_component_ring r) z < pm r"
    using s by (simp_all add: zn_spec_def)
  then show "zn_lift (sz_component_ring r) z \<le> pm r - 1" by simp
  have "zn_lift (sz_component_ring r) z < 2 ^ 64" using l s(3) by simp
  with l show "uint (word_of_int (zn_lift (sz_component_ring r) z) :: u64) = zn_lift (sz_component_ring r) z"
    by (simp add: unsigned_of_int take_bit_int_eq_self)
qed

lemma from_components_represents:
  assumes r: "special_ok r"
  shows "represents r (pm r - 1) (from_components r zs) (\<lambda>i. zn_lift (sz_component_ring r) (zs ! i))"
proof -
  have "uint (from_components r zs ! i) = zn_lift (sz_component_ring r) (zs ! i)" if "i < 8" for i
    using setr_lane [OF that, of "\<lambda>i. word_of_int (zn_lift (sz_component_ring r) (zs ! i))"] uint_lift(1) [OF r]
    by (simp add: from_components_def Let_def)
  then show ?thesis
    using uint_lift(2) [OF r] by (simp add: represents_def from_components_def Let_def)
qed

lemma sum_loop_represents:
  assumes r: "special_ok r" and "list_all2 (represents r (2 * pm r)) els fs"
    and "represents r (2 * pm r * (int i + 1)) result f" "int i \<le> pm r"
  shows "represents r (2 * pm r) (sum_loop r i result els) (\<lambda>k. f k + (\<Sum>g\<leftarrow>fs. g k))"
  using assms(2-)
proof (induction els arbitrary: fs i result f)
  case Nil
  have "2 * pm r * (int i + 1) \<le> 2 * pm r * (pm r + 1)"
    using Nil.prems(3) by (intro mult_left_mono) simp_all
  then show ?case
    using reduce_after_mul_represents [OF r Nil.prems(2)] Nil.prems(1) by (simp add: algebra_simps)
next
  case (Cons x els)
  then obtain g gs where fs: "fs = g # gs" and x: "represents r (2 * pm r) x g"
    and rest: "list_all2 (represents r (2 * pm r)) els gs"
    by (auto simp: list_all2_Cons1)
  note m = md_bounds(1,2) [OF r]
  have "2 * pm r * (int i + 1) \<le> 2 * pm r * (pm r + 1)"
    using Cons.prems(3) by (intro mult_left_mono) simp_all
  moreover have "2 * pm r * (pm r + 1) \<le> 2 * 2 ^ 30 * (2 ^ 30 + 1)"
    using m by (intro mult_mono) simp_all
  ultimately have "2 * pm r * (int i + 1) + 2 * pm r \<le> 2 * 2 ^ 30 * (2 ^ 30 + 1) + 2 * 2 ^ 30"
    using m(2) by (intro add_mono mult_left_mono) simp_all
  then have big: "2 * pm r * (int i + 1) + 2 * pm r < 2 ^ 64" by simp
  have mul: "2 * pm r * (int i + 1) \<le> 2 * pm r * pm r + 2 * pm r"
    using \<open>2 * pm r * (int i + 1) \<le> 2 * pm r * (pm r + 1)\<close> by (simp add: algebra_simps)
  show ?case
  proof (cases "int i = pm r")
    case True
    have "represents r (2 * pm r * (int 1 + 1)) (mm512_add_epi64 (reduce_after_mul r result) x) (\<lambda>k. f k + g k)"
      using add_represents [OF reduce_after_mul_represents [OF r Cons.prems(2) mul] x] m by simp
    from Cons.IH [OF rest this] show ?thesis
      using True m special_okD(5) [OF r] by (simp add: fs add.assoc)
  next
    case False
    have "represents r (2 * pm r * (int (i + 1) + 1)) (mm512_add_epi64 result x) (\<lambda>k. f k + g k)"
      using add_represents [OF Cons.prems(2) x big] by (simp add: algebra_simps)
    from Cons.IH [OF rest this] show ?thesis
      using False Cons.prems(3) special_okD(5) [OF r] by (simp add: fs add.assoc)
  qed
qed

lemma from_int_represents:
  assumes r: "special_ok r"
  shows "represents r (pm r - 1) (from_int r v) (\<lambda>_. v)"
  using uint_lift [OF r, of "zn_of_int (sz_component_ring r) v"] special_okD(4,5) [OF r]
  by (simp add: represents_def from_int_def lane_simps zn_spec_def)

lemma sum_els_represents:
  assumes "special_ok r" "list_all2 (represents r (2 * pm r)) els fs"
  shows "\<exists>s. sum_els r els = (Ok s :: ('e, m512i) outcome) \<and> represents r (2 * pm r) s (\<lambda>i. \<Sum>f\<leftarrow>fs. f i)"
proof -
  have "represents r (2 * pm r * (int 0 + 1)) (from_int r 0) (\<lambda>_. 0)"
    using represents_mono [OF from_int_represents [OF assms(1)]] md_bounds(1) [OF assms(1)] by simp
  from sum_loop_represents [OF assms this] show ?thesis
    using special_okD(5) [OF assms(1)] md_bounds(1) [OF assms(1)] by (simp add: sum_els_def)
qed

lemma eq_el_iff:
  assumes r: "special_ok r" and x: "represents r (2 * pm r) x f" and y: "represents r (2 * pm r) y g"
  shows "eq_el r x y \<longleftrightarrow> (\<forall>i < 8. f i mod pm r = g i mod pm r)"
proof -
  let ?d = "reduce_from_2p r (reduce_from_2p r (sub_assign r x y))"
  have "represents r (2 * pm r) (reduce_from_2p r (sub_assign r x y)) (\<lambda>i. f i - g i)"
    using reduce_from_2p_represents [OF r sub_assign_represents [OF r x y]] md_bounds(1) [OF r]
    by (auto intro: represents_mono)
  from reduce_from_2p_represents [OF r this] have d: "represents r (pm r) ?d (\<lambda>i. f i - g i)" .
  have "length (get_components r ?d) = 8" by (simp add: get_components_def compress_lanes_def)
  moreover have "zn_lift (sz_component_ring r) (get_components r ?d ! i) = (f i - g i) mod pm r" if "i < 8" for i
    using components_represents [OF r d _ that] md_bounds(2) [OF r] by simp
  ultimately show ?thesis
    by (auto simp: eq_el_def Let_def list_all_length mod_eq_dvd_iff dvd_eq_mod_eq_0)
qed


section \<open>Construction\<close>

text \<open>Documented behaviour of \<open>Zn::new\<close>: the ring of integers modulo its argument, where it accepts it.\<close>

definition zn_new_spec :: "(u64 \<Rightarrow> ('e, 'z zn_ring) outcome) \<Rightarrow> bool" where
  "zn_new_spec zn_new \<longleftrightarrow> (\<forall>m R. zn_new m = Ok R \<longrightarrow> zn_spec R \<and> zn_modulus R = uint m)"

lemma of_nat_of_uint:
  assumes "int n = uint (w :: u64)"
  shows "of_nat n = w"
proof -
  have "of_nat n = (of_int (int n) :: u64)" by simp
  also have "\<dots> = of_int (uint w)" by (simp only: assms)
  finally show ?thesis by simp
qed

lemma uint_shl64: "k < 64 \<Longrightarrow> uint w * 2 ^ k < 2 ^ 64 \<Longrightarrow> uint (shl64 w k) = uint w * 2 ^ k"
  unfolding shl64_def unsigned_push_bit_eq by (simp add: push_bit_eq_mult take_bit_int_eq_self)

lemma special_new_ok:
  assumes zn: "zn_new_spec zn_new" and K: "K < 62" and a: "uint alpha < 2 ^ 30"
    and new: "special_new zn_new K alpha = Ok r"
  shows "special_ok r \<and> sz_K r = K \<and> pm r = 2 ^ K - uint alpha"
proof -
  let ?m = "shl64 1 K - alpha"
  obtain R where R: "zn_new ?m = Ok R" and r: "r = \<lparr>sz_K = K, sz_alpha = alpha, sz_component_ring = R,
      sz_modulusx8 = mm512_set1_epi64 ?m, sz_double_modulusx8 = mm512_set1_epi64 (2 * ?m)\<rparr>"
    and inv: "check_invariant r"
    using new by (auto simp: special_new_def Let_def split: if_splits)
  have spec: "zn_spec R" "zn_modulus R = uint ?m"
    using zn R by (auto simp: zn_new_spec_def)
  have K62: "(2 :: int) ^ K \<le> 2 ^ 61" using K by (intro power_increasing) simp_all
  then have two: "uint (shl64 2 K) = 2 * 2 ^ K" and one: "uint (shl64 1 K) = 2 ^ K"
    using K uint_shl64 [of K 2] uint_shl64 [of K 1] by simp_all
  have "2 * (2 :: int) ^ K \<le> 2 ^ 32 - 1"
    using inv two K62 by (simp add: check_invariant_def r sint_small)
  then have "(2 :: int) ^ K < 2 ^ 31" by simp
  from power_less_imp_less_exp [OF _ this] have K30: "K \<le> 30" by simp
  have sq: "uint alpha * uint alpha \<le> 2 ^ 30 * 2 ^ 30" using a by (intro mult_mono) simp_all
  have ua: "uint (2 * alpha) = 2 * uint alpha" using a uint_mult_lem [of 2 alpha] by simp
  then have uaa: "uint (2 * alpha * alpha) = 2 * uint alpha * uint alpha"
    using sq uint_mult_lem [of "2 * alpha" alpha] by simp
  then have us: "uint (2 * alpha + 2 * alpha * alpha) = 2 * uint alpha + 2 * uint alpha * uint alpha"
    using a sq ua uint_add_small [of "2 * alpha" "2 * alpha * alpha"] by simp
  have small: "2 * uint alpha + 2 * uint alpha * uint alpha \<le> 2 ^ K"
    using inv us one K62 a sq by (simp add: check_invariant_def r sint_small)
  moreover have "0 \<le> 2 * uint alpha * uint alpha" by simp
  ultimately have le: "2 * uint alpha \<le> 2 ^ K" by linarith
  then have "uint alpha \<le> uint (shl64 1 K)"
    unfolding one using unsigned_greater_eq [of alpha, where 'a = int] by linarith
  then have m: "uint ?m = 2 ^ K - uint alpha"
    using one by (simp add: uint_sub_le)
  have large: "2 * uint alpha < uint ?m"
    using inv ua a spec by (simp add: check_invariant_def r sint_small)
  have "int (unat alpha) \<le> int (2 ^ K)"
    using \<open>uint alpha \<le> uint (shl64 1 K)\<close> one by simp
  then have "pm r = int (2 ^ K) - int (unat alpha)"
    by (simp only: md_def r special_zn.simps of_nat_diff of_nat_le_iff)
  then have md: "pm r = uint ?m" using m by simp
  then have mdn: "of_nat (md r) = ?m" "of_nat (2 * md r) = 2 * ?m"
    using of_nat_of_uint [OF md] by simp_all
  have "special_modulus K (unat alpha) (md r)"
  proof
    show "K \<le> 30" by (rule K30)
    have "int (md r + unat alpha) = int (2 ^ K)" using md m by simp
    then show "md r + unat alpha = 2 ^ K" by (simp only: of_nat_eq_iff)
    have "int (2 * unat alpha + 2 * unat alpha * unat alpha) \<le> int (2 ^ K)" using small by simp
    then show "2 * unat alpha + 2 * unat alpha * unat alpha \<le> 2 ^ K" by (simp only: of_nat_le_iff)
    have "int (2 * unat alpha) < int (md r)" using large md by simp
    then show "2 * unat alpha < md r" by (simp only: of_nat_less_iff)
  qed
  then show ?thesis
    using spec md mdn m by (simp add: special_ok_def r)
qed


section \<open>The two rings of the engine\<close>

text \<open>\<open>Q_FACTOR1\<close> and \<open>Q_FACTOR2\<close> of \<open>base_pir.rs\<close>, whose rings are built with \<open>alpha = (1 << 12) - 1\<close>.\<close>

interpretation q1: special_modulus 26 4095 67104769
  by unfold_locales simp_all

interpretation q2: special_modulus 25 4095 33550337
  by unfold_locales simp_all

text \<open>An executable scalar ring, as an instance of the parameter.\<close>

definition int_zn :: "int \<Rightarrow> int zn_ring" where
  "int_zn m = \<lparr>zn_modulus = m, zn_of_int = (\<lambda>x. x mod m), zn_lift = (\<lambda>z. z mod m),
     zn_checked_div = (\<lambda>a b. if b mod m = 1 then Some a else None)\<rparr>"

definition int_zn_new :: "u64 \<Rightarrow> (unit, int zn_ring) outcome" where
  "int_zn_new m = (if 1 < uint m then Ok (int_zn (uint m)) else Panic)"

lemma int_zn_new_spec: "zn_new_spec int_zn_new"
  by (auto simp: zn_new_spec_def int_zn_new_def int_zn_def zn_spec_def mod_mult_eq split: if_splits)
    (metis mod_mult_left_eq mult_1)

definition demo_ring :: "nat \<Rightarrow> int special_zn" where
  "demo_ring K = (let m = 2 ^ K - 4095 in
     \<lparr>sz_K = K, sz_alpha = 4095, sz_component_ring = int_zn (uint m), sz_modulusx8 = mm512_set1_epi64 m,
      sz_double_modulusx8 = mm512_set1_epi64 (2 * m)\<rparr>)"

lemma demo_ring_new: "special_new int_zn_new 26 4095 = Ok (demo_ring 26)" "special_new int_zn_new 25 4095 = Ok (demo_ring 25)"
  by (simp_all add: special_new_def demo_ring_def shl64_def int_zn_new_def check_invariant_def int_zn_def push_bit_eq_mult Let_def)

lemma demo_ring_ok: "special_ok (demo_ring 26)" "pm (demo_ring 26) = 67104769"
  using special_new_ok [OF int_zn_new_spec _ _ demo_ring_new(1)] by simp_all

lemma demo_represents: "represents (demo_ring 26) (2 * pm (demo_ring 26)) [0, 1, 2, 3, 4, 5, 6, 7] int"
  by (simp add: represents_def demo_ring_ok(2) all_lt_8)


section \<open>Properties\<close>

text \<open>
  C26. Building the ring for \<open>2 ^ K - alpha\<close>: whenever the constructor's checks pass, for \<open>K < 62\<close> and
  \<open>alpha < 2 ^ 30\<close>, the ring satisfies the bounds all later arithmetic rests on, its modulus is the
  announced one, and in particular \<open>K\<close> is at most 30. Both rings of the engine pass, with the moduli
  \<open>Q_FACTOR1\<close> and \<open>Q_FACTOR2\<close>.
\<close>

theorem special_new_sound:
  assumes "zn_new_spec zn_new" "K < 62" "uint alpha < 2 ^ 30" "special_new zn_new K alpha = Ok r"
  shows "special_ok r \<and> sz_K r = K \<and> K \<le> 30 \<and> pm r = 2 ^ K - uint alpha \<and>
    (K = 26 \<and> alpha = 4095 \<longrightarrow> pm r = Q_FACTOR1) \<and> (K = 25 \<and> alpha = 4095 \<longrightarrow> pm r = Q_FACTOR2)"
  using special_new_ok [OF assms] special_modulus.K_le [OF special_okD(1), of r]
  by (auto simp: Q_FACTOR1_def Q_FACTOR2_def)

theorem special_new_sound_witness:
  "special_new int_zn_new 26 4095 = Ok (demo_ring 26) \<and> pm (demo_ring 26) = Q_FACTOR1"
  using special_new_sound [OF int_zn_new_spec _ _ demo_ring_new(1)] demo_ring_new(1) by simp



text \<open>
  Canonical results: \<open>simd_smallest_positive_lift\<close> turns every representative at most \<open>2p\<close> (also \<open>2p\<close>
  itself) into the residue below \<open>p\<close>; \<open>eq_el\<close> holds exactly when all lanes are congruent; and
  \<open>reduce_from_u64\<close> reduces arbitrary 64-bit lanes.
\<close>

theorem canonical_results:
  assumes "special_ok r" "represents r (2 * pm r) x f" "represents r (2 * pm r) y g" "lanes8 data"
  shows "(\<forall>i < 8. uint (simd_smallest_positive_lift r x ! i) = f i mod pm r) \<and>
    (eq_el r x y \<longleftrightarrow> (\<forall>i < 8. f i mod pm r = g i mod pm r)) \<and>
    (\<forall>i < 8. uint (reduce_from_u64 r data ! i) = uint (data ! i) mod pm r)"
proof -
  note l = lift_represents [OF assms(1,2)]
  have "uint (simd_smallest_positive_lift r x ! i) = f i mod pm r" if "i < 8" for i
    using representsD(2,3) [OF l that] by (simp add: zle_diff1_eq)
  moreover have "uint (reduce_from_u64 r data ! i) = uint (data ! i) mod pm r" if "i < 8" for i
    using representsD(2,3) [OF from_components_represents [OF assms(1)] that] special_okD(4,5) [OF assms(1)] that
    by (simp add: reduce_from_u64_def zn_spec_def zle_diff1_eq)
  ultimately show ?thesis using eq_el_iff [OF assms(1-3)] by blast
qed

theorem canonical_results_witness:
  "eq_el (demo_ring 26) [0, 1, 2, 3, 4, 5, 6, 7] [0, 1, 2, 3, 4, 5, 6, 7] \<and>
   uint (reduce_from_u64 (demo_ring 26) (replicate 8 0xFFFFFFFFFFFFFFFF) ! 5) = (2 ^ 64 - 1) mod 67104769"
  using canonical_results [OF demo_ring_ok(1) demo_represents demo_represents, of "replicate 8 0xFFFFFFFFFFFFFFFF"] demo_ring_ok(2)
  by simp

text \<open>
  C25. Summation: the lazily reduced sum of any number of elements, also beyond the \<open>p\<close> summands after
  which the accumulator has to be reduced, is congruent to the exact sum and again at most \<open>2p\<close>; the
  accumulator never overflows.
\<close>

theorem sum_correct:
  assumes "special_ok r" "list_all2 (represents r (2 * pm r)) els fs"
  shows "\<exists>s. sum_els r els = (Ok s :: (unit, m512i) outcome) \<and> represents r (2 * pm r) s (\<lambda>i. \<Sum>f\<leftarrow>fs. f i)"
  by (rule sum_els_represents [OF assms])

theorem sum_correct_witness:
  "\<exists>s. sum_els (demo_ring 26) [[0, 1, 2, 3, 4, 5, 6, 7], [0, 1, 2, 3, 4, 5, 6, 7]] = (Ok s :: (unit, m512i) outcome) \<and>
     represents (demo_ring 26) (2 * pm (demo_ring 26)) s (\<lambda>i. int i + int i)"
  using sum_correct [OF demo_ring_ok(1), of "[[0, 1, 2, 3, 4, 5, 6, 7], [0, 1, 2, 3, 4, 5, 6, 7]]" "[int, int]"]
    demo_represents by simp



lemma two_p_small: "special_ok r \<Longrightarrow> sz_alpha r \<noteq> 0 \<Longrightarrow> 2 * pm r < 2 ^ 31"
  using special_modulus.p_def [OF special_okD(1), of r] special_modulus.p_bounds(2) [OF special_okD(1), of r]
    special_modulus.K_le [OF special_okD(1), of r] power_increasing [of "sz_K r" 30 "2 :: nat"]
  by (simp add: unat_eq_0 [symmetric] del: unat_eq_0)

lemma uncompress_lane: "i < 8 \<Longrightarrow> uncompress_lanes v ! i = scast (v ! i)"
  unfolding uncompress_lanes_def by (rule setr_lane [of i "\<lambda>i. scast (v ! i)"])

lemma uncompress_compress:
  assumes "lanes8 x" "\<And>i. i < 8 \<Longrightarrow> uint (x ! i) < 2 ^ 31"
  shows "uncompress_lanes (compress_lanes x) = x"
proof (rule nth_equalityI)
  show "length (uncompress_lanes (compress_lanes x)) = length x" using assms(1) by (simp add: uncompress_lanes_def)
  fix i assume "i < length (uncompress_lanes (compress_lanes x))"
  then have i: "i < 8" by (simp add: uncompress_lanes_def)
  then show "uncompress_lanes (compress_lanes x) ! i = x ! i"
    using scast_ucast_small [OF assms(2) [OF i]] by (simp add: uncompress_lane compress_lanes_def)
qed

text \<open>
  The compressed database form: lanes that represent residues fit into the 32-bit lanes of
  \<open>CompressedZnx8El\<close>, so that uncompressing gives them back exactly, for \<open>alpha > 0\<close>; the components read
  from them are the residues, and building a vector from components and reading it again is the
  identity on residues.
\<close>

theorem compressed_form:
  assumes "special_ok r" "sz_alpha r \<noteq> 0" "represents r (2 * pm r) x f" "i < 8"
  shows "uncompress_lanes (compress_lanes x) = x \<and> zn_lift (sz_component_ring r) (get_components r x ! i) = f i mod pm r \<and>
    zn_lift (sz_component_ring r) (get_components r (from_components r zs) ! i) = zn_lift (sz_component_ring r) (zs ! i)"
proof -
  note small = two_p_small [OF assms(1,2)]
  have "uint (x ! j) < 2 ^ 31" if "j < 8" for j
    using representsD(2) [OF assms(3) that] small by simp
  then have "uncompress_lanes (compress_lanes x) = x"
    by (rule uncompress_compress [OF representsD(1) [OF assms(3)]])
  moreover have "zn_lift (sz_component_ring r) (zs ! i) mod pm r = zn_lift (sz_component_ring r) (zs ! i)"
    using special_okD(4,5) [OF assms(1)] by (simp add: zn_spec_def)
  ultimately show ?thesis
    using components_represents [OF assms(1,3) small assms(4)]
      components_represents [OF assms(1) from_components_represents [OF assms(1), of zs] _ assms(4)] md_bounds(1,2) [OF assms(1)]
    by simp
qed

theorem compressed_form_witness:
  "uncompress_lanes (compress_lanes [0, 1, 2, 3, 4, 5, 6, 7]) = [0, 1, 2, 3, 4, 5, 6, 7]"
  using compressed_form [OF demo_ring_ok(1) _ demo_represents, of 0] by (simp add: demo_ring_def)



end
