(* ===== verification/Double_Pir_Correct.thy ===== *)
theory Double_Pir_Correct
  imports Double_Pir Bfv_Correct Simd_Zn_Correct
begin

text \<open>
  A query encrypts the monomials that select the wanted slot, the second-level database holds the
  first-level results at the positions the client asks for, and a decoded reply is the decryption of
  the first-level result after its two modulus switches.
\<close>

section \<open>Digits\<close>

lemma word_digits:
  fixes x m :: u64
  assumes "x div m div m div m = 0"
  shows "((x div m div m mod m) * m + x div m mod m) * m + x mod m = x"
proof -
  have "x div m div m mod m = x div m div m"
    using div_mult_mod_eq [of "x div m div m" m] assms by simp
  then show ?thesis by (simp add: div_mult_mod_eq)
qed

lemma uint_1025: "uint (1025 :: u64) = 1025"
  by simp

lemma digit_lift:
  fixes w :: u64
  assumes "zn_arith_spec Zt" "zn_modulus Zt = 1025"
  shows "word_of_int (zn_lift Zt (zn_of_int Zt (sint (w mod 1025)))) = w mod 1025"
proof -
  have u: "uint (w mod 1025) = uint w mod 1025" by (simp add: uint_mod)
  then have "uint (w mod 1025) < 1025" by simp
  then have "sint (w mod 1025) = uint (w mod 1025)" by (intro sint_small) simp
  then have "zn_lift Zt (zn_of_int Zt (sint (w mod 1025))) = uint (w mod 1025)"
    using u by (simp add: zn_lift_of_int [OF assms(1)] assms(2))
  then show ?thesis by simp
qed

lemma digits_roundtrip:
  assumes Zt: "zn_arith_spec Zt" "zn_modulus Zt = 1025" and a: "uint a < 2 ^ 17" and b: "uint b < 2 ^ 12"
  obtains ds where "encode_ciphertext_plaintext a b Zt = (Ok ds :: ('e, 'z list) outcome)" "length ds = 3"
    "\<And>ds'. map (zn_lift Zt) ds' = map (zn_lift Zt) ds \<Longrightarrow> decode_ciphertext_plaintext ds' Zt = (Ok (a, b) :: ('e, u64 \<times> u64) outcome)"
proof -
  let ?x = "a * 4096 + b"
  have x: "uint ?x = uint a * 4096 + uint b"
  proof -
    have "uint (a * 4096) = uint a * 4096" using uint_mult_lem [THEN iffD1, of a 4096] a by simp
    then show ?thesis using uint_add_lem [THEN iffD1, of "a * 4096" b] a b by simp
  qed
  have "uint (?x div 1025 div 1025 div 1025) = uint ?x div (1025 * 1025 * 1025)"
    by (simp add: uint_div div_mult2_eq [symmetric] del: div_mult2_eq)
  also have "\<dots> = 0" using x a b by (intro div_pos_pos_trivial) simp_all
  finally have zero: "?x div 1025 div 1025 div 1025 = 0" by (simp only: uint_0_iff)
  have "uint (?x div 4096) = uint a" "uint (?x mod 4096) = uint b"
    using x b by (simp_all add: uint_div uint_mod)
  then have parts: "?x div 4096 = a" "?x mod 4096 = b" by (simp_all only: word_uint_eq_iff)
  let ?ds = "[zn_of_int Zt (sint (?x mod 1025)), zn_of_int Zt (sint (?x div 1025 mod 1025)),
    zn_of_int Zt (sint (?x div 1025 div 1025 mod 1025))]"
  have enc: "encode_ciphertext_plaintext a b Zt = (Ok ?ds :: ('e, 'z list) outcome)"
    using zero by (simp add: encode_ciphertext_plaintext_def double_consts eval_nat_numeral Let_def push_bit_eq_mult)
  have dec: "decode_ciphertext_plaintext ds' Zt = (Ok (a, b) :: ('e, u64 \<times> u64) outcome)"
    if ds': "map (zn_lift Zt) ds' = map (zn_lift Zt) ?ds" for ds'
  proof -
    let ?f = "\<lambda>l (integer :: u64). integer * 1025 + word_of_int l"
    have "fold (\<lambda>x integer. integer * word_of_int SECONDARY_PLAIN_MODULUS + word_of_int (zn_lift Zt x)) (rev ds') (0 :: u64) =
        fold ?f (rev (map (zn_lift Zt) ds')) 0"
      by (simp add: fold_map comp_def rev_map SECONDARY_PLAIN_MODULUS_def)
    also have "\<dots> = ?x"
      unfolding ds' using word_digits [OF zero] by (simp add: digit_lift [OF Zt])
    finally have i: "fold (\<lambda>x integer. integer * word_of_int SECONDARY_PLAIN_MODULUS + word_of_int (zn_lift Zt x)) (rev ds') (0 :: u64) = ?x" .
    have "a < 131072" using a by (simp add: word_less_def)
    then show ?thesis
      unfolding decode_ciphertext_plaintext_def i by (simp add: double_consts push_bit_eq_mult parts Let_def)
  qed
  show thesis by (rule that [OF enc _ dec]) simp_all
qed


section \<open>Replies\<close>

lemma result_parts_digits:
  assumes P: "poly_spec (P :: ('w, 'p) poly_ring)" "zn_modulus (pr_base P) = 1025" "pr_rank P = length va" "length vb = length va"
    and va: "\<forall>v \<in> set va. uint v < 2 ^ 17" and vb: "\<forall>v \<in> set vb. uint v < 2 ^ 12"
  shows "\<exists>ds. try_map (\<lambda>i. encode_ciphertext_plaintext (va ! i) (vb ! i) (pr_base P)) [0..<pr_rank P] =
      (Ok (map ds [0..<pr_rank P]) :: ('e, 'w list list) outcome) \<and>
    (\<forall>i < pr_rank P. length (ds i) = 3 \<and> (\<forall>ds'. map (zn_lift (pr_base P)) ds' = map (zn_lift (pr_base P)) (ds i) \<longrightarrow>
      decode_ciphertext_plaintext ds' (pr_base P) = (Ok (va ! i, vb ! i) :: ('e, u64 \<times> u64) outcome)))"
proof -
  let ?good = "\<lambda>i ds. encode_ciphertext_plaintext (va ! i) (vb ! i) (pr_base P) = (Ok ds :: ('e, 'w list) outcome) \<and> length ds = 3 \<and>
    (\<forall>ds'. map (zn_lift (pr_base P)) ds' = map (zn_lift (pr_base P)) ds \<longrightarrow>
      decode_ciphertext_plaintext ds' (pr_base P) = (Ok (va ! i, vb ! i) :: ('e, u64 \<times> u64) outcome))"
  have "\<forall>i \<in> {..<pr_rank P}. \<exists>ds. ?good i ds"
  proof
    fix i assume "i \<in> {..<pr_rank P}"
    then have "uint (va ! i) < 2 ^ 17" "uint (vb ! i) < 2 ^ 12" using va vb P(3,4) by simp_all
    then show "\<exists>ds. ?good i ds" by (rule digits_roundtrip [OF poly_base [OF P(1)] P(2), where 'e = 'e]) blast
  qed
  then obtain ds where ds: "\<forall>i \<in> {..<pr_rank P}. ?good i (ds i)" by (rule bchoice [elim_format]) blast
  have "try_map (\<lambda>i. encode_ciphertext_plaintext (va ! i) (vb ! i) (pr_base P)) [0..<pr_rank P] =
      (Ok (map ds [0..<pr_rank P]) :: ('e, 'w list list) outcome)"
    using ds by (intro try_map_Ok) simp
  then show ?thesis using ds by (intro exI [of _ ds]) auto
qed

lemma dec_double_pir_parts:
  fixes P1 P2 :: "('w, 'p) poly_ring" and C :: "('z, 'r) poly_ring"
  assumes moduli: "zn_modulus (pr_base P1) = 1025" "zn_modulus (pr_base P2) = 1025" and P2: "poly_spec P2"
    and rank: "pr_rank P1 = pr_rank P2" and len: "length va = pr_rank P2" "length vb = pr_rank P2"
    and ds: "\<And>i. i < pr_rank P2 \<Longrightarrow> length (ds i) = 3"
      "\<And>i ds'. i < pr_rank P2 \<Longrightarrow> map (zn_lift (pr_base P2)) ds' = map (zn_lift (pr_base P2)) (ds i) \<Longrightarrow>
        decode_ciphertext_plaintext ds' (pr_base P2) = (Ok (va ! i, vb ! i) :: ('e, u64 \<times> u64) outcome)"
    and m: "\<And>k. k < 3 \<Longrightarrow> dec P2 C sk (reply ! k) = (Ok (m k) :: ('e, 'p) outcome)"
      "\<And>k i. k < 3 \<Longrightarrow> i < pr_rank P2 \<Longrightarrow> coeff P2 (m k) i = zn_lift (pr_base P2) (ds i ! k)"
    and ab: "mod_switch_decode 17 C va = (Ok a :: ('e, 'r) outcome)" "mod_switch_decode 12 C vb = (Ok b :: ('e, 'r) outcome)"
  shows "dec_double_pir P1 P2 C sk reply = (dec P1 C sk (a, b) :: ('e, 'p) outcome)"
proof -
  have parts: "try_map (\<lambda>i. dec P2 C sk (reply ! i)) [0..<3] = (Ok (map m [0..<3]) :: ('e, 'p list) outcome)"
    using m(1) by (intro try_map_Ok) simp
  let ?data = "\<lambda>i. map (\<lambda>k. map (pr_basis P2) (map m [0..<3]) ! k ! i) [0..<3]"
  have "decode_ciphertext_plaintext (?data i) (pr_base P2) = (Ok (va ! i, vb ! i) :: ('e, u64 \<times> u64) outcome)"
    if i: "i < pr_rank P2" for i
  proof (rule ds(2) [OF i], rule nth_equalityI)
    show "length (map (zn_lift (pr_base P2)) (?data i)) = length (map (zn_lift (pr_base P2)) (ds i))" using ds(1) [OF i] by simp
    fix k assume "k < length (map (zn_lift (pr_base P2)) (?data i))"
    then show "map (zn_lift (pr_base P2)) (?data i) ! k = map (zn_lift (pr_base P2)) (ds i) ! k"
      using m(2) [of k i] ds(1) [OF i] i by (simp add: coeff_def)
  qed
  then have "try_map (\<lambda>i. decode_ciphertext_plaintext (?data i) (pr_base P2)) [0..<pr_rank P2] =
      (Ok (map (\<lambda>i. (va ! i, vb ! i)) [0..<pr_rank P2]) :: ('e, (u64 \<times> u64) list) outcome)"
    by (intro try_map_Ok) simp
  moreover have "map (\<lambda>i. va ! i) [0..<pr_rank P2] = va" "map (\<lambda>i. vb ! i) [0..<pr_rank P2] = vb"
    using len map_nth by metis+
  ultimately show ?thesis
    unfolding dec_double_pir_def double_consts moduli rank Let_def parts bind_outcome.simps
    by (simp add: comp_def ab)
qed

lemma reply_of_parts:
  fixes P1 P2 :: "('w, 'p) poly_ring" and C :: "('z, 'r) poly_ring"
  assumes P2: "poly_spec P2" and C: "poly_spec C" and rdiv: "rounded_div_spec rdiv" and q: "zn_modulus (pr_base C) < 2 ^ 63"
    and moduli: "zn_modulus (pr_base P1) = 1025" "zn_modulus (pr_base P2) = 1025"
    and rank: "pr_rank P1 = pr_rank P2" "pr_rank C = pr_rank P2"
  shows "\<exists>parts a b. result_parts rdiv P2 C ct = (Ok parts :: ('e, 'p list) outcome) \<and> length parts = 3 \<and>
    switched rdiv 17 C (fst ct) = (Ok a :: ('e, 'r) outcome) \<and> switched rdiv 12 C (snd ct) = (Ok b :: ('e, 'r) outcome) \<and>
    (\<forall>reply. (\<forall>k < 3. \<exists>m. dec P2 C sk (reply ! k) = (Ok m :: ('e, 'p) outcome) \<and> (\<forall>i < pr_rank P2. coeff P2 m i = coeff P2 (parts ! k) i)) \<longrightarrow>
      dec_double_pir P1 P2 C sk reply = (dec P1 C sk (a, b) :: ('e, 'p) outcome))"
proof -
  obtain va a where va: "mod_switch_encode rdiv 17 C (fst ct) = (Ok va :: ('e, u64 list) outcome)" "length va = pr_rank C"
    "\<forall>v \<in> set va. uint v < 2 ^ 17" "mod_switch_decode 17 C va = (Ok a :: ('e, 'r) outcome)"
    using mod_switch_coeffs [OF C rdiv _ _ q, of 17 "fst ct", where 'e = 'e] by (auto simp del: power_numeral)
  obtain vb b where vb: "mod_switch_encode rdiv 12 C (snd ct) = (Ok vb :: ('e, u64 list) outcome)" "length vb = pr_rank C"
    "\<forall>v \<in> set vb. uint v < 2 ^ 12" "mod_switch_decode 12 C vb = (Ok b :: ('e, 'r) outcome)"
    using mod_switch_coeffs [OF C rdiv _ _ q, of 12 "snd ct", where 'e = 'e] by (auto simp del: power_numeral)
  have lens: "pr_rank P2 = length va" "length vb = length va" using va vb rank by simp_all
  obtain ds where ds: "try_map (\<lambda>i. encode_ciphertext_plaintext (va ! i) (vb ! i) (pr_base P2)) [0..<pr_rank P2] =
      (Ok (map ds [0..<pr_rank P2]) :: ('e, 'w list list) outcome)"
    and digits: "\<forall>i < pr_rank P2. length (ds i) = 3 \<and> (\<forall>ds'. map (zn_lift (pr_base P2)) ds' = map (zn_lift (pr_base P2)) (ds i) \<longrightarrow>
      decode_ciphertext_plaintext ds' (pr_base P2) = (Ok (va ! i, vb ! i) :: ('e, u64 \<times> u64) outcome))"
    using result_parts_digits [OF P2 moduli(2) lens va(3) vb(3), where 'e = 'e] by (elim exE conjE)
  have ds3: "length (ds i) = 3"
    and undo: "\<And>ds'. map (zn_lift (pr_base P2)) ds' = map (zn_lift (pr_base P2)) (ds i) \<Longrightarrow>
      decode_ciphertext_plaintext ds' (pr_base P2) = (Ok (va ! i, vb ! i) :: ('e, u64 \<times> u64) outcome)"
    if "i < pr_rank P2" for i
    using digits that by simp_all
  let ?part = "\<lambda>j. pr_from_basis P2 (map (\<lambda>ds. ds ! j) (map ds [0..<pr_rank P2]))"
  have parts: "result_parts rdiv P2 C ct = (Ok (map ?part [0..<3]) :: ('e, 'p list) outcome)"
    by (simp add: result_parts_def double_consts va(1) vb(1) ds)
  have "dec_double_pir P1 P2 C sk reply = (dec P1 C sk (a, b) :: ('e, 'p) outcome)"
    if r: "\<forall>k < 3. \<exists>m. dec P2 C sk (reply ! k) = (Ok m :: ('e, 'p) outcome) \<and> (\<forall>i < pr_rank P2. coeff P2 m i = coeff P2 (map ?part [0..<3] ! k) i)"
    for reply
  proof -
    obtain m where m: "\<And>k. k < 3 \<Longrightarrow> dec P2 C sk (reply ! k) = (Ok (m k) :: ('e, 'p) outcome)"
      "\<And>k i. k < 3 \<Longrightarrow> i < pr_rank P2 \<Longrightarrow> coeff P2 (m k) i = coeff P2 (map ?part [0..<3] ! k) i"
      using r by metis
    have "coeff P2 (m k) i = zn_lift (pr_base P2) (ds i ! k)" if "k < 3" "i < pr_rank P2" for k i
      using m(2) [OF that] that by (simp add: coeff_from_basis [OF P2])
    then show ?thesis
      using dec_double_pir_parts [OF moduli P2 rank(1) _ _ ds3 undo m(1) _ va(4) vb(4)] va(2) vb(2) rank(2) by simp
  qed
  then show ?thesis using parts va vb by (intro exI [of _ "map ?part [0..<3]"]) (auto simp: switched_def)
qed


section \<open>Queries\<close>

text \<open>A \<open>b\<close>-part that decrypts to a given plaintext, with the \<open>a\<close>-part of a seed.\<close>

definition encrypts ::
    "'g rng_ops \<Rightarrow> ('w, 'p) poly_ring \<Rightarrow> ('z, 'r) poly_ring \<Rightarrow> 'r \<Rightarrow> seed \<Rightarrow> 'p \<Rightarrow> 'r \<Rightarrow> bool" where
  "encrypts rng P C sk seed m b \<longleftrightarrow>
     (\<exists>m'. dec P C sk (expand rng C seed, b) = (Ok m' :: (unit, 'p) outcome) \<and> (\<forall>i < pr_rank P. coeff P m' i = coeff P m i))"

definition bfv_setting :: "'g rng_ops \<Rightarrow> ('w, 'p) poly_ring \<Rightarrow> ('z, 'r) poly_ring \<Rightarrow> int \<Rightarrow> bool" where
  "bfv_setting rng P C bound \<longleftrightarrow> poly_spec P \<and> poly_spec C \<and> pr_rank P = pr_rank C \<and> zn_modulus (pr_base P) = 1025 \<and>
     coprime 1025 (zn_modulus (pr_base C)) \<and> (\<forall>s. \<bar>fst (rng_gauss rng s)\<bar> \<le> bound) \<and> 2 * 1025 * bound + 1025 < zn_modulus (pr_base C)"

lemma noise_bound:
  "(\<And>s. \<bar>fst (rng_gauss rng s)\<bar> \<le> bound) \<Longrightarrow> e \<in> set (fst (noise_coeffs rng n g)) \<Longrightarrow> \<bar>e\<bar> \<le> bound"
  by (induction n arbitrary: g) (auto simp: Let_def split_beta)

lemma enc_sym_b_encrypts:
  assumes "bfv_setting rng P (C :: ('z, 'r) poly_ring) bound"
  shows "\<exists>b g'. enc_sym_b rng P C seed g sk m = (Ok (b, g') :: (unit, 'r \<times> 'g) outcome) \<and> encrypts rng P C sk seed m b"
proof -
  have s: "poly_spec P" "poly_spec C" "pr_rank P = pr_rank C" "coprime (zn_modulus (pr_base P)) (zn_modulus (pr_base C))"
    and n: "\<And>s. \<bar>fst (rng_gauss rng s)\<bar> \<le> bound" "2 * 1025 * bound + 1025 < zn_modulus (pr_base C)" "zn_modulus (pr_base P) = 1025"
    using assms by (simp_all add: bfv_setting_def)
  have "2 * zn_modulus (pr_base P) * \<bar>e\<bar> + zn_modulus (pr_base P) < zn_modulus (pr_base C)"
    if "e \<in> set (fst (noise_coeffs rng (pr_rank C) g))" for e
    using noise_bound [OF n(1) that] n(2,3) by simp
  from enc_then_dec [where rng = rng and g = g, OF s this, where 'e = unit] show ?thesis unfolding encrypts_def by blast
qed

lemma enc_when_encrypts:
  assumes "bfv_setting rng P (C :: ('z, 'r) poly_ring) bound"
  shows "\<exists>b g'. enc_when needed (\<lambda>g. enc_sym_b rng P C seed g sk m) g = (Ok (b, g') :: (unit, 'r option \<times> 'g) outcome) \<and>
    (b \<noteq> None \<longleftrightarrow> needed) \<and> (\<forall>x. b = Some x \<longrightarrow> encrypts rng P C sk seed m x)"
  using enc_sym_b_encrypts [OF assms, of seed g sk m] by (cases needed) (auto simp: enc_when_def)

lemma query_ciphertexts:
  assumes P1: "bfv_setting rng P1 (C :: ('z, 'r) poly_ring) bound" and P2: "bfv_setting rng P2 C bound"
    and Gal: "zn_arith_spec Gal" "zn_modulus Gal = 2 * int (pr_rank C)" "coprime 5 (2 * int (pr_rank C))"
    and idx: "ig_N g1 = pr_rank C" "primary_idx < group_order g1 * SIMD_COUNT" "secondary_idx < group_order g2 div SIMD_COUNT"
  defines "i \<equiv> primary_idx div SIMD_COUNT" and "j \<equiv> secondary_idx * SIMD_COUNT + primary_idx mod SIMD_COUNT"
  shows "\<exists>q g'. enc_double_pir rng Gal g P1 P2 g1 g2 C sk primary_idx secondary_idx = (Ok (q, g') :: (unit, 'r double_query \<times> 'g) outcome) \<and>
    i < group_order g1 \<and> j < group_order g2 \<and> length (dq_gk q) = GK_DIGITS \<and>
    encrypts rng P1 C sk (SEEDS ! 2) (pr_gen_pow P1 (i * query_base_power g1)) (dq_primary q) \<and>
    (dq_primary_conj q \<noteq> None \<longleftrightarrow> requires_conj g1) \<and>
    (\<forall>b. dq_primary_conj q = Some b \<longrightarrow>
      encrypts rng P1 C sk (SEEDS ! 3) (pr_gen_pow P1 (2 * pr_rank C - i * query_base_power g1)) b) \<and>
    encrypts rng P2 C sk (SEEDS ! 4) (pr_gen_pow P2 (j * query_base_power g2)) (dq_secondary q) \<and>
    (dq_secondary_conj q \<noteq> None \<longleftrightarrow> requires_conj g2) \<and>
    (\<forall>b. dq_secondary_conj q = Some b \<longrightarrow>
      encrypts rng P2 C sk (SEEDS ! 5) (pr_gen_pow P2 (2 * pr_rank C - j * query_base_power g2)) b)"
proof -
  have rank: "pr_rank P1 = pr_rank C" and m: "zn_modulus (pr_base P1) = 1025" "zn_modulus (pr_base P2) = 1025"
    using P1 P2 by (simp_all add: bfv_setting_def)
  have i: "i < group_order g1" using idx(2) by (simp add: i_def SIMD_COUNT_def less_mult_imp_div_less)
  have j: "j < group_order g2" using idx(3) by (simp add: j_def SIMD_COUNT_def)
  obtain gk ga where gk: "gen_gk_b rng Gal C (get_gk_seeds FirstSet) g sk 5 GK_DIGITS LOG2_B = (Ok (gk, ga) :: (unit, 'r list \<times> 'g) outcome)"
    "length gk = GK_DIGITS"
    using gen_gk_b_Ok [OF Gal(1,2), of 5 "get_gk_seeds FirstSet" GK_DIGITS rng g sk LOG2_B, where 'e = unit] Gal(3)
    by (auto simp: get_gk_seeds_def GK_DIGITS_def)
  obtain b1 gb where b1: "enc_sym_b rng P1 C (SEEDS ! 2) ga sk (pr_gen_pow P1 (i * query_base_power g1)) = (Ok (b1, gb) :: (unit, 'r \<times> 'g) outcome)"
    "encrypts rng P1 C sk (SEEDS ! 2) (pr_gen_pow P1 (i * query_base_power g1)) b1"
    using enc_sym_b_encrypts [OF P1] by blast
  obtain c1 gc where c1: "enc_when (requires_conj g1) (\<lambda>g. enc_sym_b rng P1 C (SEEDS ! 3) g sk (pr_gen_pow P1 (2 * pr_rank C - i * query_base_power g1))) gb =
      (Ok (c1, gc) :: (unit, 'r option \<times> 'g) outcome)"
    "c1 \<noteq> None \<longleftrightarrow> requires_conj g1"
    "\<forall>x. c1 = Some x \<longrightarrow> encrypts rng P1 C sk (SEEDS ! 3) (pr_gen_pow P1 (2 * pr_rank C - i * query_base_power g1)) x"
    using enc_when_encrypts [OF P1, of "requires_conj g1" "SEEDS ! 3" sk "pr_gen_pow P1 (2 * pr_rank C - i * query_base_power g1)" gb]
    by (elim exE conjE)
  obtain b2 gd where b2: "enc_sym_b rng P2 C (SEEDS ! 4) gc sk (pr_gen_pow P2 (j * query_base_power g2)) = (Ok (b2, gd) :: (unit, 'r \<times> 'g) outcome)"
    "encrypts rng P2 C sk (SEEDS ! 4) (pr_gen_pow P2 (j * query_base_power g2)) b2"
    using enc_sym_b_encrypts [OF P2] by blast
  obtain c2 ge where c2: "enc_when (requires_conj g2) (\<lambda>g. enc_sym_b rng P2 C (SEEDS ! 5) g sk (pr_gen_pow P2 (2 * pr_rank C - j * query_base_power g2))) gd =
      (Ok (c2, ge) :: (unit, 'r option \<times> 'g) outcome)"
    "c2 \<noteq> None \<longleftrightarrow> requires_conj g2"
    "\<forall>x. c2 = Some x \<longrightarrow> encrypts rng P2 C sk (SEEDS ! 5) (pr_gen_pow P2 (2 * pr_rank C - j * query_base_power g2)) x"
    using enc_when_encrypts [OF P2, of "requires_conj g2" "SEEDS ! 5" sk "pr_gen_pow P2 (2 * pr_rank C - j * query_base_power g2)" gd]
    by (elim exE conjE)
  have seeds: "get_qry_seeds FirstSet ! 0 = SEEDS ! 2" "get_qry_seeds FirstSet ! 1 = SEEDS ! 3"
    "get_qry_seeds SecondSet ! 0 = SEEDS ! 4" "get_qry_seeds SecondSet ! 1 = SEEDS ! 5" by simp_all
  have "enc_double_pir rng Gal g P1 P2 g1 g2 C sk primary_idx secondary_idx =
      (Ok (\<lparr>dq_primary = b1, dq_primary_conj = c1, dq_secondary = b2, dq_secondary_conj = c2, dq_gk = gk\<rparr>, ge) ::
        (unit, 'r double_query \<times> 'g) outcome)"
    unfolding enc_double_pir_def Let_def seeds rank i_def [symmetric] j_def [symmetric]
    using idx by (simp add: SECONDARY_PLAIN_MODULUS_def PRIMARY_PLAIN_MODULUS_def m gk(1) b1(1) c1(1) b2(1) c2(1))
  then show ?thesis
    using i j gk(2) b1(2) c1(2,3) b2(2) c2(2,3)
    by (intro exI [of _ "\<lparr>dq_primary = b1, dq_primary_conj = c1, dq_secondary = b2, dq_secondary_conj = c2, dq_gk = gk\<rparr>"]
        exI [of _ ge] conjI; simp only: double_query.select_convs)
qed

text \<open>
  C32. The contents of a query for entry \<open>primary_idx\<close> of database \<open>secondary_idx\<close>: it is always
  produced, its primary ciphertext decrypts under the client's key to \<open>X ^ (i * k)\<close> with \<open>i\<close> the group
  element of the entry, its secondary ciphertext to \<open>X ^ (j * k')\<close> with \<open>j\<close> the position of the wanted
  lane of the wanted database, both positions lie inside their groups, and the inverse monomials are
  included exactly when the group requires the conjugation.
\<close>

theorem query_contents:
  assumes P1: "bfv_setting rng P1 (C :: ('z, 'r) poly_ring) bound" and P2: "bfv_setting rng P2 C bound"
    and Gal: "zn_arith_spec Gal" "zn_modulus Gal = 2 * int (pr_rank C)" "coprime 5 (2 * int (pr_rank C))"
    and idx: "ig_N g1 = pr_rank C" "primary_idx < group_order g1 * SIMD_COUNT" "secondary_idx < group_order g2 div SIMD_COUNT"
  defines "i \<equiv> primary_idx div SIMD_COUNT" and "j \<equiv> secondary_idx * SIMD_COUNT + primary_idx mod SIMD_COUNT"
  shows "\<exists>q g'. enc_double_pir rng Gal g P1 P2 g1 g2 C sk primary_idx secondary_idx = (Ok (q, g') :: (unit, 'r double_query \<times> 'g) outcome) \<and>
    i < group_order g1 \<and> j < group_order g2 \<and> length (dq_gk q) = GK_DIGITS \<and>
    encrypts rng P1 C sk (SEEDS ! 2) (pr_gen_pow P1 (i * query_base_power g1)) (dq_primary q) \<and>
    (dq_primary_conj q \<noteq> None \<longleftrightarrow> requires_conj g1) \<and>
    (\<forall>b. dq_primary_conj q = Some b \<longrightarrow>
      encrypts rng P1 C sk (SEEDS ! 3) (pr_gen_pow P1 (2 * pr_rank C - i * query_base_power g1)) b) \<and>
    encrypts rng P2 C sk (SEEDS ! 4) (pr_gen_pow P2 (j * query_base_power g2)) (dq_secondary q) \<and>
    (dq_secondary_conj q \<noteq> None \<longleftrightarrow> requires_conj g2) \<and>
    (\<forall>b. dq_secondary_conj q = Some b \<longrightarrow>
      encrypts rng P2 C sk (SEEDS ! 5) (pr_gen_pow P2 (2 * pr_rank C - j * query_base_power g2)) b)"
  unfolding i_def j_def by (rule query_ciphertexts [OF assms(1-8)])

definition unit_noise :: "nat rng_ops" where
  "unit_noise = counting_rng\<lparr>rng_gauss := \<lambda>g. (1, g)\<rparr>"

lemma demo_setting: "bfv_setting unit_noise (int_poly 8 1025) (int_poly 8 4093) 1"
  using int_poly_spec [of 1025 8] int_poly_spec [of 4093 8]
  by (simp add: bfv_setting_def) (simp add: int_poly_def int_arith_def unit_noise_def Let_def coprime_iff_gcd_eq_1 gcd_non_0_int)

lemma demo_parameters: "pr_rank (int_poly 8 4093) = 8" "zn_modulus (int_arith 16) = 16"
  by (simp_all add: int_poly_def int_arith_def Let_def)

theorem query_contents_witness:
  "\<exists>q g'. enc_double_pir unit_noise (int_arith 16) 0 (int_poly 8 1025) (int_poly 8 1025) (full_group 8) (full_group 8)
      (int_poly 8 4093) [1, 0, 0, 4092, 0, 0, 0, 0] 21 0 = (Ok (q, g') :: (unit, int list double_query \<times> nat) outcome) \<and>
    encrypts unit_noise (int_poly 8 1025) (int_poly 8 4093) [1, 0, 0, 4092, 0, 0, 0, 0] (SEEDS ! 2)
      (pr_gen_pow (int_poly 8 1025) (2 * query_base_power (full_group 8))) (dq_primary q) \<and>
    dq_primary_conj q \<noteq> None \<and> length (dq_gk q) = 2"
proof -
  have cop: "coprime 5 (2 * int (pr_rank (int_poly 8 4093)))"
    by (simp add: demo_parameters(1) coprime_iff_gcd_eq_1 gcd_non_0_int)
  have gal: "zn_arith_spec (int_arith 16)" "zn_modulus (int_arith 16) = 2 * int (pr_rank (int_poly 8 4093))"
    using int_arith_spec [of 16] by (simp_all add: demo_parameters)
  have idx: "ig_N (full_group 8) = pr_rank (int_poly 8 4093)" "21 < group_order (full_group 8) * SIMD_COUNT"
    "0 < group_order (full_group 8) div SIMD_COUNT" and i: "21 div SIMD_COUNT = 2" and conj: "requires_conj (full_group 8)"
    by (simp_all add: demo_parameters(1) index_group_defs SIMD_COUNT_def)
  from query_contents [where g = 0 and sk = "[1, 0, 0, 4092, 0, 0, 0, 0]", OF demo_setting demo_setting gal cop idx] conj
  show ?thesis
    unfolding GK_DIGITS_def i by (elim exE conjE) (intro exI conjI; assumption | simp)
qed


text \<open>
  C33. Decoding a reply: a first-level result is always split into three plaintexts of the second level,
  and if the three ciphertexts of the reply decrypt to them, decoding the reply is decrypting the
  first-level result after switching its two parts to 17 and 12 bits.
\<close>

theorem reply_decoding:
  fixes P1 P2 :: "('w, 'p) poly_ring" and C :: "('z, 'r) poly_ring"
  assumes "poly_spec P2" "poly_spec C" "rounded_div_spec rdiv" "zn_modulus (pr_base C) < 2 ^ 63"
    and "zn_modulus (pr_base P1) = 1025" "zn_modulus (pr_base P2) = 1025"
    and "pr_rank P1 = pr_rank P2" "pr_rank C = pr_rank P2"
  shows "\<exists>parts a b. result_parts rdiv P2 C ct = (Ok parts :: ('e, 'p list) outcome) \<and> length parts = 3 \<and>
    switched rdiv 17 C (fst ct) = (Ok a :: ('e, 'r) outcome) \<and> switched rdiv 12 C (snd ct) = (Ok b :: ('e, 'r) outcome) \<and>
    (\<forall>reply. (\<forall>k < 3. \<exists>m. dec P2 C sk (reply ! k) = (Ok m :: ('e, 'p) outcome) \<and> (\<forall>i < pr_rank P2. coeff P2 m i = coeff P2 (parts ! k) i)) \<longrightarrow>
      dec_double_pir P1 P2 C sk reply = (dec P1 C sk (a, b) :: ('e, 'p) outcome))"
  by (rule reply_of_parts [OF assms])

definition rounding :: "int \<Rightarrow> int \<Rightarrow> int" where
  "rounding a b = (2 * a + b) div (2 * b)"

lemma rounding_spec: "rounded_div_spec rounding"
  unfolding rounded_div_spec_def rounding_def
proof (intro allI impI)
  fix a b :: int assume b: "b > 0"
  have "(2 * a + b) div (2 * b) * (2 * b) + (2 * a + b) mod (2 * b) = 2 * a + b" by (rule div_mult_mod_eq)
  moreover have "0 \<le> (2 * a + b) mod (2 * b)" "(2 * a + b) mod (2 * b) < 2 * b" using b by simp_all
  ultimately have "2 * (b * ((2 * a + b) div (2 * b))) \<le> 2 * a + b" "2 * a - b < 2 * (b * ((2 * a + b) div (2 * b)))"
    by (simp_all add: algebra_simps)
  then show "2 * \<bar>a - b * ((2 * a + b) div (2 * b))\<bar> \<le> b" by (rule abs_round_bound)
qed

theorem reply_decoding_witness:
  "\<exists>parts. result_parts rounding (int_poly 8 1025) (int_poly 8 4093) ([1, 2, 3, 4, 5, 6, 7, 8], [8, 7, 6, 5, 4, 3, 2, 1]) =
    (Ok parts :: (unit, int list list) outcome) \<and> length parts = 3"
proof -
  have "zn_modulus (pr_base (int_poly 8 4093)) < 2 ^ 63" "zn_modulus (pr_base (int_poly 8 1025)) = 1025"
    "pr_rank (int_poly 8 1025) = pr_rank (int_poly 8 1025)" "pr_rank (int_poly 8 4093) = pr_rank (int_poly 8 1025)"
    by (simp_all add: int_poly_def int_arith_def Let_def)
  from reply_decoding [OF int_poly_spec int_poly_spec rounding_spec this(1,2,2,3,4), where 'e = unit]
  show ?thesis by simp blast
qed


section \<open>The second level\<close>

lemma length_secondary_entries: "length (secondary_entries zero order lens part_results) = order * SIMD_COUNT"
  unfolding secondary_entries_def by (rule length_concat_groups) simp

text \<open>
  The layout of the second-level database: it has \<open>SIMD_COUNT\<close> entries for every group element, and
  at group element \<open>secondary_idx * SIMD_COUNT + lane\<close>, the position a query selects, the SIMD positions
  \<open>3 q\<close> to \<open>3 q + 2\<close> hold the three parts of the result that lane \<open>lane\<close> of database \<open>secondary_idx\<close>
  gave for query \<open>q\<close> of the batch. The two last positions and those of absent queries are zero.
\<close>

theorem second_level_layout:
  assumes "i < order" "q < BATCH_COUNT" "k < CTXT_PARTS"
  shows "length (secondary_entries zero order lens part_results) = order * SIMD_COUNT \<and>
    secondary_entries zero order lens part_results ! (i * SIMD_COUNT + (q * CTXT_PARTS + k)) =
      (case part_results ! q of Some rs \<Rightarrow> if i < SIMD_COUNT * lens ! q then rs ! i ! k else zero | None \<Rightarrow> zero) \<and>
    secondary_entries zero order lens part_results ! (i * SIMD_COUNT + 6) = zero \<and>
    secondary_entries zero order lens part_results ! (i * SIMD_COUNT + 7) = zero"
proof -
  have j: "q * CTXT_PARTS + k < SIMD_COUNT" "q * CTXT_PARTS + k < CTXT_PARTS * BATCH_COUNT"
    "(q * CTXT_PARTS + k) div CTXT_PARTS = q" "(q * CTXT_PARTS + k) mod CTXT_PARTS = k"
    using assms(2,3) by (simp_all add: SIMD_COUNT_def CTXT_PARTS_def BATCH_COUNT_def)
  let ?f = "\<lambda>i. map (\<lambda>j. if j < CTXT_PARTS * BATCH_COUNT \<and> i < SIMD_COUNT * lens ! (j div CTXT_PARTS)
       then (case part_results ! (j div CTXT_PARTS) of Some rs \<Rightarrow> rs ! i ! (j mod CTXT_PARTS) | None \<Rightarrow> zero)
       else zero) [0..<SIMD_COUNT]"
  have at: "secondary_entries zero order lens part_results ! (i * SIMD_COUNT + j) = ?f i ! j" if "j < SIMD_COUNT" for j
    unfolding secondary_entries_def using assms(1) that by (intro nth_concat_groups) simp_all
  show ?thesis
    using at [OF j(1)] at [of 6] at [of 7] j length_secondary_entries [of zero order lens part_results]
    by (simp add: SIMD_COUNT_def CTXT_PARTS_def BATCH_COUNT_def split: option.splits)
qed

theorem second_level_layout_witness:
  "secondary_entries (0 :: int) 8 [1, 1] [None, Some [[1, 2, 3], [4, 5, 6], [], [], [], [], [], []]] ! 13 = 6"
  using second_level_layout [of 1 8 1 2 "0 :: int" "[1, 1]" "[None, Some [[1, 2, 3], [4, 5, 6], [], [], [], [], [], []]]"]
  by (simp add: SIMD_COUNT_def CTXT_PARTS_def BATCH_COUNT_def)

end
