(* ===== verification/Pir_Wire.thy ===== *)
theory Pir_Wire
  imports Condense_Correct Double_Pir_Correct
begin

text \<open>
  The client and server entry points of \<open>crates/pir/src/pir_wrapper.rs\<close>: a query as bytes, its
  unpacking on the server, a reply as bytes, and its decoding on the client. Answering the unpacked
  queries (\<open>perform_batched_double_pir\<close>) is an argument of the server side. Both sides derive the
  shape of the database on their own: the client from the number of entries, the server from the
  number of its databases. The properties show that they agree and that every ciphertext arrives as
  its modulus-switched self.
\<close>

section \<open>Constants\<close>

definition SECONDARY_A_LOG2_RESPONSE_Q :: nat where "SECONDARY_A_LOG2_RESPONSE_Q = 17"
definition SECONDARY_B_LOG2_RESPONSE_Q :: nat where "SECONDARY_B_LOG2_RESPONSE_Q = 12"
definition GALOIS_KEY_LOG2_MODULUS :: nat where "GALOIS_KEY_LOG2_MODULUS = 50"
definition PRIMARY_QUERY_LOG2_MODULUS :: nat where "PRIMARY_QUERY_LOG2_MODULUS = 34"
definition SECONDARY_QUERY_LOG2_MODULUS :: nat where "SECONDARY_QUERY_LOG2_MODULUS = 34"
definition SK_HWT :: nat where "SK_HWT = 128"

lemmas wire_consts = SECONDARY_A_LOG2_RESPONSE_Q_def SECONDARY_B_LOG2_RESPONSE_Q_def GALOIS_KEY_LOG2_MODULUS_def
  PRIMARY_QUERY_LOG2_MODULUS_def SECONDARY_QUERY_LOG2_MODULUS_def SK_HWT_def


section \<open>The client's query\<close>

fun sk_seed_bytes :: "'g rng_ops \<Rightarrow> nat \<Rightarrow> 'g \<Rightarrow> seed \<times> 'g" where
  "sk_seed_bytes rng 0 g = ([], g)"
| "sk_seed_bytes rng (Suc n) g =
     (let (w, g) = rng_next_u32 rng g; (bs, g) = sk_seed_bytes rng n g in (ucast (w AND 0xFFFF) # bs, g))"

definition write_ct :: "(int \<Rightarrow> int \<Rightarrow> int) \<Rightarrow> nat \<Rightarrow> ('z, 'r) poly_ring \<Rightarrow> 'r \<Rightarrow> ('e, bytes) outcome" where
  "write_ct rdiv BITS C x = bind_outcome (mod_switch_encode rdiv BITS C x) (condense BITS)"

definition write_when ::
    "bool \<Rightarrow> (int \<Rightarrow> int \<Rightarrow> int) \<Rightarrow> nat \<Rightarrow> ('z, 'r) poly_ring \<Rightarrow> 'r option \<Rightarrow> ('e, bytes) outcome" where
  "write_when needed rdiv BITS C x = (if needed then bind_outcome (unwrap x) (write_ct rdiv BITS C) else Ok [])"

definition query_bytes ::
    "(int \<Rightarrow> int \<Rightarrow> int) \<Rightarrow> ('z, 'r) poly_ring \<Rightarrow> index_group \<Rightarrow> index_group \<Rightarrow> 'r double_query \<Rightarrow> ('e, bytes) outcome" where
  "query_bytes rdiv C index_group_primary index_group_secondary q =
     bind_outcome (try_map (write_ct rdiv GALOIS_KEY_LOG2_MODULUS C) (dq_gk q)) (\<lambda>gk_parts.
     bind_outcome (write_ct rdiv PRIMARY_QUERY_LOG2_MODULUS C (dq_primary q)) (\<lambda>primary.
     bind_outcome (write_when (requires_conj index_group_primary) rdiv PRIMARY_QUERY_LOG2_MODULUS C (dq_primary_conj q)) (\<lambda>primary_conj.
     bind_outcome (write_ct rdiv SECONDARY_QUERY_LOG2_MODULUS C (dq_secondary q)) (\<lambda>secondary.
     bind_outcome (write_when (requires_conj index_group_secondary) rdiv SECONDARY_QUERY_LOG2_MODULUS C (dq_secondary_conj q)) (\<lambda>secondary_conj.
     Ok (concat gk_parts @ primary @ primary_conj @ secondary @ secondary_conj))))))"

definition prepare_query_general ::
    "'g rng_ops \<Rightarrow> (int \<Rightarrow> int \<Rightarrow> int) \<Rightarrow> 'v zn_arith \<Rightarrow> ('w, 'p) poly_ring \<Rightarrow> ('w, 'p) poly_ring \<Rightarrow> ('z, 'r) poly_ring \<Rightarrow> 'g \<Rightarrow>
     nat \<Rightarrow> nat \<Rightarrow> index_group \<Rightarrow> index_group \<Rightarrow> ('e, bytes \<times> seed) outcome" where
  "prepare_query_general rng rdiv Gal R_primary R_secondary C g primary_idx secondary_idx index_group_primary index_group_secondary =
     (let (sk_seed, g) = sk_seed_bytes rng 32 g;
          sk_rng = rng_from_seed rng sk_seed;
          sk = gen_sk rng C sk_rng SK_HWT
      in bind_outcome (enc_double_pir rng Gal g R_primary R_secondary index_group_primary index_group_secondary C sk primary_idx secondary_idx)
        (\<lambda>(q, g). bind_outcome (query_bytes rdiv C index_group_primary index_group_secondary q) (\<lambda>result. Ok (result, sk_seed))))"

definition prepare_query ::
    "(int \<Rightarrow> nat option) \<Rightarrow> 'g rng_ops \<Rightarrow> (int \<Rightarrow> int \<Rightarrow> int) \<Rightarrow> 'v zn_arith \<Rightarrow> ('w, 'p) poly_ring \<Rightarrow> ('w, 'p) poly_ring \<Rightarrow>
     ('z, 'r) poly_ring \<Rightarrow> 'g \<Rightarrow> nat \<Rightarrow> nat \<Rightarrow> nat \<Rightarrow> ('e, bytes \<times> seed) outcome" where
  "prepare_query lg rng rdiv Gal R_primary R_secondary C g primary_idx secondary_idx num_entries =
     bind_outcome (get_database_shape lg num_entries) (\<lambda>(index_group_primary, index_group_secondary).
       prepare_query_general rng rdiv Gal R_primary R_secondary C g primary_idx secondary_idx index_group_primary index_group_secondary)"


section \<open>The server's view\<close>

definition read_ct :: "nat \<Rightarrow> ('z, 'r) poly_ring \<Rightarrow> bytes \<Rightarrow> ('e, 'r \<times> bytes) outcome" where
  "read_ct BITS C data =
     bind_outcome (uncondense BITS RING_N data) (\<lambda>(x, data). bind_outcome (mod_switch_decode BITS C x) (\<lambda>y. Ok (y, data)))"

fun read_cts :: "nat \<Rightarrow> nat \<Rightarrow> ('z, 'r) poly_ring \<Rightarrow> bytes \<Rightarrow> ('e, 'r list \<times> bytes) outcome" where
  "read_cts 0 BITS C data = Ok ([], data)"
| "read_cts (Suc n) BITS C data =
     bind_outcome (read_ct BITS C data) (\<lambda>(y, data). bind_outcome (read_cts n BITS C data) (\<lambda>(ys, data). Ok (y # ys, data)))"

definition read_when :: "bool \<Rightarrow> nat \<Rightarrow> ('z, 'r) poly_ring \<Rightarrow> bytes \<Rightarrow> ('e, 'r option \<times> bytes) outcome" where
  "read_when needed BITS C data =
     (if needed then bind_outcome (read_ct BITS C data) (\<lambda>(y, data). Ok (Some y, data)) else Ok (None, data))"

text \<open>Bytes after the last ciphertext are not looked at.\<close>

definition unpack_query :: "('z, 'r) poly_ring \<Rightarrow> index_group \<Rightarrow> index_group \<Rightarrow> bytes \<Rightarrow> ('e, 'r double_query) outcome" where
  "unpack_query C index_group_primary index_group_secondary query =
     bind_outcome (read_cts GK_DIGITS GALOIS_KEY_LOG2_MODULUS C query) (\<lambda>(gk, query).
     bind_outcome (read_ct PRIMARY_QUERY_LOG2_MODULUS C query) (\<lambda>(primary, query).
     bind_outcome (read_when (requires_conj index_group_primary) PRIMARY_QUERY_LOG2_MODULUS C query) (\<lambda>(primary_conj, query).
     bind_outcome (read_ct SECONDARY_QUERY_LOG2_MODULUS C query) (\<lambda>(secondary, query).
     bind_outcome (read_when (requires_conj index_group_secondary) SECONDARY_QUERY_LOG2_MODULUS C query) (\<lambda>(secondary_conj, query).
     Ok \<lparr>dq_primary = primary, dq_primary_conj = primary_conj, dq_secondary = secondary,
         dq_secondary_conj = secondary_conj, dq_gk = gk\<rparr>)))))"

fun reply_bytes :: "(int \<Rightarrow> int \<Rightarrow> int) \<Rightarrow> ('z, 'r) poly_ring \<Rightarrow> ('r \<times> 'r) list \<Rightarrow> ('e, bytes) outcome" where
  "reply_bytes rdiv C [] = Ok []"
| "reply_bytes rdiv C ((a, b) # reply) =
     bind_outcome (write_ct rdiv SECONDARY_A_LOG2_RESPONSE_Q C a) (\<lambda>a.
     bind_outcome (write_ct rdiv SECONDARY_B_LOG2_RESPONSE_Q C b) (\<lambda>b.
     bind_outcome (reply_bytes rdiv C reply) (\<lambda>result. Ok (a @ b @ result))))"

definition on_some :: "('a \<Rightarrow> ('e, 'b) outcome) \<Rightarrow> 'a option \<Rightarrow> ('e, 'b option) outcome" where
  "on_some f x = (case x of None \<Rightarrow> Ok None | Some y \<Rightarrow> bind_outcome (f y) (\<lambda>z. Ok (Some z)))"

text \<open>
  \<open>databases_len\<close> are the lengths of the two fleets, \<open>index_group_primary\<close> the group of the first database
  of the first one, \<open>perform\<close> the evaluation of the unpacked queries under the secondary group.
\<close>

definition process_queries ::
    "(int \<Rightarrow> nat option) \<Rightarrow> (int \<Rightarrow> int \<Rightarrow> int) \<Rightarrow> ('z, 'r) poly_ring \<Rightarrow>
     ('r double_query option list \<Rightarrow> index_group \<Rightarrow> ('e, ('r \<times> 'r) list option list) outcome) \<Rightarrow>
     nat list \<Rightarrow> index_group \<Rightarrow> bytes option list \<Rightarrow> ('e, bytes option list) outcome" where
  "process_queries lg rdiv C perform databases_len index_group_primary queries =
     (if \<not> databases_len ! 0 \<ge> databases_len ! 1 \<or> databases_len ! 0 = 0 then Panic
      else bind_outcome (choose_index_group_secondary lg (databases_len ! 0)) (\<lambda>index_group_secondary.
        bind_outcome (try_map (on_some (unpack_query C index_group_primary index_group_secondary)) queries) (\<lambda>unpacked_queries.
        bind_outcome (perform unpacked_queries index_group_secondary) (\<lambda>replies.
        try_map (on_some (reply_bytes rdiv C)) replies))))"

definition process_query ::
    "(int \<Rightarrow> nat option) \<Rightarrow> (int \<Rightarrow> int \<Rightarrow> int) \<Rightarrow> ('z, 'r) poly_ring \<Rightarrow>
     ('r double_query option list \<Rightarrow> index_group \<Rightarrow> ('e, ('r \<times> 'r) list option list) outcome) \<Rightarrow>
     nat \<Rightarrow> index_group \<Rightarrow> bytes \<Rightarrow> ('e, bytes) outcome" where
  "process_query lg rdiv C perform databases_len index_group_primary query =
     bind_outcome (process_queries lg rdiv C perform [databases_len, databases_len] index_group_primary [Some query, None])
       (\<lambda>replies. if replies = [] then Panic else unwrap (replies ! 0))"


section \<open>The client's decoding\<close>

fun read_reply :: "nat \<Rightarrow> ('z, 'r) poly_ring \<Rightarrow> bytes \<Rightarrow> ('e, ('r \<times> 'r) list \<times> bytes) outcome" where
  "read_reply 0 C reply = Ok ([], reply)"
| "read_reply (Suc n) C reply =
     bind_outcome (read_ct SECONDARY_A_LOG2_RESPONSE_Q C reply) (\<lambda>(a, reply).
     bind_outcome (read_ct SECONDARY_B_LOG2_RESPONSE_Q C reply) (\<lambda>(b, reply).
     bind_outcome (read_reply n C reply) (\<lambda>(cts, reply). Ok ((a, b) # cts, reply))))"

definition process_reply ::
    "'g rng_ops \<Rightarrow> ('w, 'p) poly_ring \<Rightarrow> ('w, 'p) poly_ring \<Rightarrow> ('z, 'r) poly_ring \<Rightarrow> bytes \<Rightarrow> seed \<Rightarrow> ('e, 'w list) outcome" where
  "process_reply rng R_primary R_secondary C reply sk_seed =
     (let sk_rng = rng_from_seed rng sk_seed;
          sk = gen_sk rng C sk_rng SK_HWT
      in bind_outcome (read_reply CTXT_PARTS C reply) (\<lambda>(reply, _).
         bind_outcome (dec_double_pir R_primary R_secondary C sk reply) (\<lambda>result. Ok (pr_basis R_primary result))))"


section \<open>Transport of a ciphertext\<close>

definition wire_setting :: "(int \<Rightarrow> int \<Rightarrow> int) \<Rightarrow> ('z, 'r) poly_ring \<Rightarrow> bool" where
  "wire_setting rdiv C \<longleftrightarrow> poly_spec C \<and> rounded_div_spec rdiv \<and> pr_rank C = RING_N \<and> zn_modulus (pr_base C) < 2 ^ 63"

lemma take_bit_small: "uint (v :: u64) < 2 ^ BITS \<Longrightarrow> v = take_bit BITS v"
  by (simp add: word_uint_eq_iff unsigned_take_bit_eq take_bit_int_eq_self)

text \<open>\<open>carries BITS bs x\<close>: the bytes are the ciphertext on the wire, and reading them gives it switched.\<close>

definition carries :: "(int \<Rightarrow> int \<Rightarrow> int) \<Rightarrow> nat \<Rightarrow> ('z, 'r) poly_ring \<Rightarrow> 'r \<Rightarrow> bytes \<Rightarrow> 'r \<Rightarrow> bool" where
  "carries rdiv BITS C x bs y \<longleftrightarrow> write_ct rdiv BITS C x = (Ok bs :: (unit, bytes) outcome) \<and> length bs = RING_N div 8 * BITS \<and>
     switched rdiv BITS C x = (Ok y :: (unit, 'r) outcome) \<and>
     (\<forall>rest. read_ct BITS C (bs @ rest) = (Ok (y, rest) :: (unit, 'r \<times> bytes) outcome))"

lemma ct_travels:
  assumes "wire_setting rdiv (C :: ('z, 'r) poly_ring)" "0 < BITS" "BITS \<le> 64"
  shows "\<exists>bs y. carries rdiv BITS C x bs y"
proof -
  have s: "poly_spec C" "rounded_div_spec rdiv" "pr_rank C = RING_N" "zn_modulus (pr_base C) < 2 ^ 63"
    using assms(1) by (simp_all add: wire_setting_def)
  obtain vs y where vs: "mod_switch_encode rdiv BITS C x = (Ok vs :: (unit, u64 list) outcome)" "length vs = RING_N"
    "\<forall>v \<in> set vs. uint v < 2 ^ BITS" "mod_switch_decode BITS C vs = (Ok y :: (unit, 'r) outcome)"
    using mod_switch_coeffs [OF s(1,2) assms(2,3) s(4), of x, where 'e = unit] s(3) by (elim exE conjE) simp
  have len: "length vs mod 8 = 0" using vs(2) by (simp add: RING_N_eq)
  have "map (take_bit BITS) vs = vs" using vs(3) take_bit_small by (intro map_idI) (metis (no_types))
  then have home: "uncondense BITS RING_N (condensed BITS vs @ rest) = (Ok (vs, rest) :: (unit, u64 list \<times> bytes) outcome)" for rest
    using uncondense_condensed [OF len, of BITS rest] vs(2) by simp
  have "carries rdiv BITS C x (condensed BITS vs) y"
    using vs len length_condensed [OF len, of BITS]
    by (simp add: carries_def write_ct_def switched_def read_ct_def home condense_eq)
  then show ?thesis by blast
qed

lemma cts_travel:
  assumes "wire_setting rdiv (C :: ('z, 'r) poly_ring)" "0 < BITS" "BITS \<le> 64"
  shows "\<exists>bss ys. try_map (write_ct rdiv BITS C) xs = (Ok bss :: (unit, bytes list) outcome) \<and>
    length (concat bss) = length xs * (RING_N div 8 * BITS) \<and> list_all2 (\<lambda>x y. switched rdiv BITS C x = (Ok y :: (unit, 'r) outcome)) xs ys \<and>
    (\<forall>rest. read_cts (length xs) BITS C (concat bss @ rest) = (Ok (ys, rest) :: (unit, 'r list \<times> bytes) outcome))"
proof (induction xs)
  case (Cons x xs)
  obtain bs y where "carries rdiv BITS C x bs y" using ct_travels [OF assms] by blast
  moreover obtain bss ys where "try_map (write_ct rdiv BITS C) xs = (Ok bss :: (unit, bytes list) outcome)"
    "length (concat bss) = length xs * (RING_N div 8 * BITS)" "list_all2 (\<lambda>x y. switched rdiv BITS C x = (Ok y :: (unit, 'r) outcome)) xs ys"
    "\<And>rest. read_cts (length xs) BITS C (concat bss @ rest) = (Ok (ys, rest) :: (unit, 'r list \<times> bytes) outcome)"
    using Cons.IH by (elim exE conjE) simp
  ultimately show ?case
    by (intro exI [of _ "bs # bss"] exI [of _ "y # ys"]) (simp add: carries_def)
qed simp

lemma optional_travels:
  assumes "wire_setting rdiv (C :: ('z, 'r) poly_ring)" "0 < BITS" "BITS \<le> 64" "x \<noteq> None \<longleftrightarrow> needed"
  shows "\<exists>bs y. write_when needed rdiv BITS C x = (Ok bs :: (unit, bytes) outcome) \<and>
    length bs = (if needed then RING_N div 8 * BITS else 0) \<and>
    rel_option (\<lambda>x y. switched rdiv BITS C x = (Ok y :: (unit, 'r) outcome)) x y \<and>
    (\<forall>rest. read_when needed BITS C (bs @ rest) = (Ok (y, rest) :: (unit, 'r option \<times> bytes) outcome))"
proof (cases x)
  case (Some z)
  obtain bs y where "carries rdiv BITS C z bs y" using ct_travels [OF assms(1-3)] by blast
  then show ?thesis
    using Some assms(4) by (intro exI [of _ bs] exI [of _ "Some y"]) (simp add: carries_def write_when_def read_when_def unwrap_def)
qed (use assms(4) in \<open>simp add: write_when_def read_when_def\<close>)


section \<open>Transport of a query\<close>

definition switched_query :: "(int \<Rightarrow> int \<Rightarrow> int) \<Rightarrow> ('z, 'r) poly_ring \<Rightarrow> 'r double_query \<Rightarrow> 'r double_query \<Rightarrow> bool" where
  "switched_query rdiv C q q' \<longleftrightarrow>
     list_all2 (\<lambda>x y. switched rdiv 50 C x = (Ok y :: (unit, 'r) outcome)) (dq_gk q) (dq_gk q') \<and>
     switched rdiv 34 C (dq_primary q) = (Ok (dq_primary q') :: (unit, 'r) outcome) \<and>
     rel_option (\<lambda>x y. switched rdiv 34 C x = (Ok y :: (unit, 'r) outcome)) (dq_primary_conj q) (dq_primary_conj q') \<and>
     switched rdiv 34 C (dq_secondary q) = (Ok (dq_secondary q') :: (unit, 'r) outcome) \<and>
     rel_option (\<lambda>x y. switched rdiv 34 C x = (Ok y :: (unit, 'r) outcome)) (dq_secondary_conj q) (dq_secondary_conj q')"

lemma query_travels:
  assumes W: "wire_setting rdiv (C :: ('z, 'r) poly_ring)" and gk: "length (dq_gk q) = GK_DIGITS"
    and conj: "dq_primary_conj q \<noteq> None \<longleftrightarrow> requires_conj g1" "dq_secondary_conj q \<noteq> None \<longleftrightarrow> requires_conj g2"
  shows "\<exists>bs q'. query_bytes rdiv C g1 g2 q = (Ok bs :: (unit, bytes) outcome) \<and>
    length bs = 25600 + 8704 * (2 + of_bool (requires_conj g1) + of_bool (requires_conj g2)) \<and> switched_query rdiv C q q' \<and>
    (\<forall>rest. unpack_query C g1 g2 (bs @ rest) = (Ok q' :: (unit, 'r double_query) outcome))"
proof -
  obtain gks gk' where k: "try_map (write_ct rdiv 50 C) (dq_gk q) = (Ok gks :: (unit, bytes list) outcome)" "length (concat gks) = 25600"
    "list_all2 (\<lambda>x y. switched rdiv 50 C x = (Ok y :: (unit, 'r) outcome)) (dq_gk q) gk'"
    "\<forall>rest. read_cts 2 50 C (concat gks @ rest) = (Ok (gk', rest) :: (unit, 'r list \<times> bytes) outcome)"
    using cts_travel [OF W, of 50 "dq_gk q"] gk by (auto simp: GK_DIGITS_def RING_N_eq)
  obtain p p' where p: "carries rdiv 34 C (dq_primary q) p p'" using ct_travels [OF W, of 34 "dq_primary q"] by auto
  obtain pc pc' where pc: "write_when (requires_conj g1) rdiv 34 C (dq_primary_conj q) = (Ok pc :: (unit, bytes) outcome)"
    "length pc = (if requires_conj g1 then RING_N div 8 * 34 else 0)"
    "rel_option (\<lambda>x y. switched rdiv 34 C x = (Ok y :: (unit, 'r) outcome)) (dq_primary_conj q) pc'"
    "\<forall>rest. read_when (requires_conj g1) 34 C (pc @ rest) = (Ok (pc', rest) :: (unit, 'r option \<times> bytes) outcome)"
    using optional_travels [OF W _ _ conj(1), of 34] by auto
  obtain s s' where s: "carries rdiv 34 C (dq_secondary q) s s'" using ct_travels [OF W, of 34 "dq_secondary q"] by auto
  obtain sc sc' where sc: "write_when (requires_conj g2) rdiv 34 C (dq_secondary_conj q) = (Ok sc :: (unit, bytes) outcome)"
    "length sc = (if requires_conj g2 then RING_N div 8 * 34 else 0)"
    "rel_option (\<lambda>x y. switched rdiv 34 C x = (Ok y :: (unit, 'r) outcome)) (dq_secondary_conj q) sc'"
    "\<forall>rest. read_when (requires_conj g2) 34 C (sc @ rest) = (Ok (sc', rest) :: (unit, 'r option \<times> bytes) outcome)"
    using optional_travels [OF W _ _ conj(2), of 34] by auto
  let ?bs = "concat gks @ p @ pc @ s @ sc"
  let ?q = "\<lparr>dq_primary = p', dq_primary_conj = pc', dq_secondary = s', dq_secondary_conj = sc', dq_gk = gk'\<rparr>"
  have "query_bytes rdiv C g1 g2 q = (Ok ?bs :: (unit, bytes) outcome)"
    using k(1) p s pc(1) sc(1) by (simp add: query_bytes_def wire_consts carries_def)
  moreover have "length ?bs = 25600 + 8704 * (2 + of_bool (requires_conj g1) + of_bool (requires_conj g2))"
    using k(2) p s pc(2) sc(2) by (simp add: carries_def RING_N_eq)
  moreover have "switched_query rdiv C q ?q"
    using k(3) p s pc(3) sc(3) by (simp add: switched_query_def carries_def)
  moreover have "unpack_query C g1 g2 (?bs @ rest) = (Ok ?q :: (unit, 'r double_query) outcome)" for rest
    using k(4) p s pc(4) sc(4) by (simp add: unpack_query_def wire_consts carries_def GK_DIGITS_def)
  ultimately show ?thesis by blast
qed

text \<open>
  C34. From client to server: for every entry count of the supported range and every slot of the fleet
  the client always produces a query; it carries exactly the ciphertexts of \<open>enc_double_pir\<close> under the
  key of the returned seed, in 43008 bytes plus 8704 for each conjugated ciphertext; and the server,
  which derives the secondary group from the number of its databases alone, unpacks each of them as
  its modulus-switched self, whatever follows in the stream.
\<close>

theorem query_transport:
  assumes lg: "abs_log2_ceil_spec lg" and n: "1 \<le> num_entries" "num_entries \<le> RING_N * RING_N"
    and P1: "bfv_setting rng P1 (C :: ('z, 'r) poly_ring) bound" and P2: "bfv_setting rng P2 C bound" and W: "wire_setting rdiv C"
    and Gal: "zn_arith_spec Gal" "zn_modulus Gal = 2 * int RING_N"
    and idx: "primary_idx < SIMD_COUNT * group_order (primary_group num_entries)" "secondary_idx < shard_count num_entries"
  shows "\<exists>bs sk_seed g1 g2 q g' q'. get_database_shape lg num_entries = (Ok (g1, g2) :: (unit, index_group \<times> index_group) outcome) \<and>
    prepare_query lg rng rdiv Gal P1 P2 C g primary_idx secondary_idx num_entries = (Ok (bs, sk_seed) :: (unit, bytes \<times> seed) outcome) \<and>
    enc_double_pir rng Gal (snd (sk_seed_bytes rng 32 g)) P1 P2 g1 g2 C (gen_sk rng C (rng_from_seed rng sk_seed) SK_HWT)
      primary_idx secondary_idx = (Ok (q, g') :: (unit, 'r double_query \<times> 'g) outcome) \<and>
    length bs = 43008 + 8704 * (of_bool (requires_conj g1) + of_bool (requires_conj g2)) \<and>
    num_databases lg num_entries = (Ok (shard_count num_entries) :: (unit, nat) outcome) \<and>
    choose_index_group_secondary lg (shard_count num_entries) = (Ok g2 :: (unit, index_group) outcome) \<and>
    switched_query rdiv C q q' \<and> (\<forall>rest. unpack_query C g1 g2 (bs @ rest) = (Ok q' :: (unit, 'r double_query) outcome))"
proof -
  let ?g1 = "primary_group num_entries" and ?g2 = "secondary_group lg (shard_count num_entries)"
  note shards = shard_count_bounds [OF n]
  note sec = choose_secondary_ok [OF lg shards]
  have rank: "pr_rank C = RING_N" using W by (simp add: wire_setting_def)
  obtain sk_seed ga where seed: "sk_seed_bytes rng 32 g = (sk_seed, ga)" by (cases "sk_seed_bytes rng 32 g")
  let ?sk = "gen_sk rng C (rng_from_seed rng sk_seed) SK_HWT"
  have cop: "coprime 5 (2 * int (pr_rank C))" unfolding rank by (simp add: RING_N_eq coprime_iff_gcd_eq_1 gcd_non_0_int)
  have "secondary_idx * SIMD_COUNT + SIMD_COUNT \<le> shard_count num_entries * SIMD_COUNT"
    using idx(2) mult_le_mono1 [of "Suc secondary_idx" "shard_count num_entries" SIMD_COUNT] by simp
  then have h4: "secondary_idx < group_order ?g2 div SIMD_COUNT"
    using sec(3) by (simp add: SIMD_COUNT_def less_eq_div_iff_mult_less_eq Suc_le_eq [symmetric])
  have h3: "primary_idx < group_order ?g1 * SIMD_COUNT" using idx(1) by (simp add: mult.commute)
  have h2: "ig_N ?g1 = pr_rank C" by (simp add: rank primary_group_facts)
  have h1: "zn_modulus Gal = 2 * int (pr_rank C)" by (simp add: rank Gal(2))
  from query_ciphertexts [where g = ga and sk = ?sk, OF P1 P2 Gal(1) h1 cop h2 h3 h4]
  obtain q g' where q: "enc_double_pir rng Gal ga P1 P2 ?g1 ?g2 C ?sk primary_idx secondary_idx = (Ok (q, g') :: (unit, 'r double_query \<times> 'g) outcome)"
    "length (dq_gk q) = GK_DIGITS" "dq_primary_conj q \<noteq> None \<longleftrightarrow> requires_conj ?g1" "dq_secondary_conj q \<noteq> None \<longleftrightarrow> requires_conj ?g2"
    by (elim exE conjE) (rule that; assumption)
  from query_travels [OF W q(2-4)] obtain bs q' where b: "query_bytes rdiv C ?g1 ?g2 q = (Ok bs :: (unit, bytes) outcome)"
    "length bs = 25600 + 8704 * (2 + of_bool (requires_conj ?g1) + of_bool (requires_conj ?g2))" "switched_query rdiv C q q'"
    "\<forall>rest. unpack_query C ?g1 ?g2 (bs @ rest) = (Ok q' :: (unit, 'r double_query) outcome)"
    by (elim exE conjE)
  have "prepare_query lg rng rdiv Gal P1 P2 C g primary_idx secondary_idx num_entries = (Ok (bs, sk_seed) :: (unit, bytes \<times> seed) outcome)"
    by (simp add: prepare_query_def prepare_query_general_def get_database_shape_ok [OF lg n] seed q(1) b(1))
  then show ?thesis
    using q(1) b seed
    by (intro exI [of _ bs] exI [of _ sk_seed] exI [of _ ?g1] exI [of _ ?g2] exI [of _ q] exI [of _ g'] exI [of _ q'])
      (simp add: get_database_shape_ok [OF lg n] num_databases_ok [OF lg n] sec(1) algebra_simps)
qed

text \<open>Concrete parameters: the deployed moduli and degree, noise of one, a constant key generator.\<close>

abbreviation demo_P :: "(int, int list) poly_ring" where "demo_P \<equiv> int_poly RING_N 1025"
abbreviation demo_C :: "(int, int list) poly_ring" where "demo_C \<equiv> int_poly RING_N FIXED_Q"

lemma fixed_q_value: "FIXED_Q = 2251387614257153"
  by (simp add: FIXED_Q_def Q_FACTOR1_def Q_FACTOR2_def)

lemma deployed_wire: "wire_setting rounding demo_C"
  using int_poly_spec [of FIXED_Q RING_N] rounding_spec
  by (simp add: wire_setting_def fixed_q_value) (simp add: int_poly_def int_arith_def Let_def)

lemma deployed_setting: "bfv_setting unit_noise demo_P demo_C 1"
  using int_poly_spec [of 1025 RING_N] int_poly_spec [of FIXED_Q RING_N]
  by (simp add: bfv_setting_def fixed_q_value)
    (simp add: int_poly_def int_arith_def unit_noise_def Let_def coprime_iff_gcd_eq_1 gcd_non_0_int)

theorem query_transport_witness:
  "\<exists>bs sk_seed. prepare_query abs_log2_ceil_ref unit_noise rounding (int_arith 4096) demo_P demo_P demo_C 0 5 2 20000 =
    (Ok (bs, sk_seed) :: (unit, bytes \<times> seed) outcome)"
proof -
  have idx: "5 < SIMD_COUNT * group_order (primary_group 20000)" "2 < shard_count 20000"
    by (simp_all add: primary_group_def shard_count_def div_ceil_def index_group_defs pir_consts)
  have gal: "zn_arith_spec (int_arith 4096)" "zn_modulus (int_arith 4096) = 2 * int RING_N"
    using int_arith_spec [of 4096] by (simp_all add: RING_N_eq int_arith_def)
  have n: "1 \<le> (20000 :: nat)" "20000 \<le> RING_N * RING_N" by (simp_all add: RING_N_eq)
  from query_transport [where g = 0, OF abs_log2_ceil_ref_spec n deployed_setting deployed_setting deployed_wire gal idx]
  show ?thesis by (elim exE conjE) (intro exI)
qed


section \<open>Transport of a reply\<close>

lemma reply_travels:
  assumes W: "wire_setting rdiv (C :: ('z, 'r) poly_ring)"
  shows "\<exists>bs reply'. reply_bytes rdiv C reply = (Ok bs :: (unit, bytes) outcome) \<and> length bs = length reply * 7424 \<and>
    list_all2 (\<lambda>x y. switched rdiv 17 C (fst x) = (Ok (fst y) :: (unit, 'r) outcome) \<and>
      switched rdiv 12 C (snd x) = (Ok (snd y) :: (unit, 'r) outcome)) reply reply' \<and>
    (\<forall>rest. read_reply (length reply) C (bs @ rest) = (Ok (reply', rest) :: (unit, ('r \<times> 'r) list \<times> bytes) outcome))"
proof (induction reply)
  case (Cons ct reply)
  obtain bs reply' where IH: "reply_bytes rdiv C reply = (Ok bs :: (unit, bytes) outcome)" "length bs = length reply * 7424"
    "list_all2 (\<lambda>x y. switched rdiv 17 C (fst x) = (Ok (fst y) :: (unit, 'r) outcome) \<and>
      switched rdiv 12 C (snd x) = (Ok (snd y) :: (unit, 'r) outcome)) reply reply'"
    "\<forall>rest. read_reply (length reply) C (bs @ rest) = (Ok (reply', rest) :: (unit, ('r \<times> 'r) list \<times> bytes) outcome)"
    using Cons.IH by (elim exE conjE)
  obtain a b where ct: "ct = (a, b)" by (cases ct)
  obtain wa a' where a: "carries rdiv 17 C a wa a'" using ct_travels [OF W, of 17 a] by auto
  obtain wb b' where b: "carries rdiv 12 C b wb b'" using ct_travels [OF W, of 12 b] by auto
  show ?case
    using a b IH unfolding ct
    by (intro exI [of _ "wa @ wb @ bs"] exI [of _ "(a', b') # reply'"]) (simp add: carries_def wire_consts RING_N_eq)
qed simp

text \<open>
  C35. Through the server and back: whatever the evaluation of the unpacked query answers with, the
  server's reply has 22272 bytes, and the client decodes from it, with the key of its seed, the three
  ciphertexts of the answer, each modulus-switched to 17 and 12 bits. Nothing panics on the way.
\<close>

theorem reply_transport:
  assumes W: "wire_setting rdiv (C :: ('z, 'r) poly_ring)" and gk: "length (dq_gk q) = GK_DIGITS"
    and conj: "dq_primary_conj q \<noteq> None \<longleftrightarrow> requires_conj g1" "dq_secondary_conj q \<noteq> None \<longleftrightarrow> requires_conj g2"
    and len: "choose_index_group_secondary lg len = (Ok g2 :: (unit, index_group) outcome)" "0 < len"
  shows "\<exists>bs q'. query_bytes rdiv C g1 g2 q = (Ok bs :: (unit, bytes) outcome) \<and> switched_query rdiv C q q' \<and>
    (\<forall>perform reply. perform [Some q', None] g2 = (Ok [Some reply, None] :: (unit, ('r \<times> 'r) list option list) outcome) \<and> length reply = 3 \<longrightarrow>
      (\<exists>out reply'. process_query lg rdiv C perform len g1 bs = (Ok out :: (unit, bytes) outcome) \<and> length out = 22272 \<and>
        list_all2 (\<lambda>x y. switched rdiv 17 C (fst x) = (Ok (fst y) :: (unit, 'r) outcome) \<and>
          switched rdiv 12 C (snd x) = (Ok (snd y) :: (unit, 'r) outcome)) reply reply' \<and>
        (\<forall>sk_seed. process_reply rng P1 P2 C out sk_seed =
          bind_outcome (dec_double_pir P1 P2 C (gen_sk rng C (rng_from_seed rng sk_seed) SK_HWT) reply')
            (\<lambda>m. (Ok (pr_basis P1 m) :: (unit, 'w list) outcome)))))"
proof -
  obtain bs q' where b: "query_bytes rdiv C g1 g2 q = (Ok bs :: (unit, bytes) outcome)" "switched_query rdiv C q q'"
    "\<forall>rest. unpack_query C g1 g2 (bs @ rest) = (Ok q' :: (unit, 'r double_query) outcome)"
    using query_travels [OF W gk conj] by (elim exE conjE) (rule that; assumption)
  have u: "unpack_query C g1 g2 bs = (Ok q' :: (unit, 'r double_query) outcome)" using b(3) [rule_format, of "[]"] by simp
  have "\<exists>out reply'. process_query lg rdiv C perform len g1 bs = (Ok out :: (unit, bytes) outcome) \<and> length out = 22272 \<and>
        list_all2 (\<lambda>x y. switched rdiv 17 C (fst x) = (Ok (fst y) :: (unit, 'r) outcome) \<and>
          switched rdiv 12 C (snd x) = (Ok (snd y) :: (unit, 'r) outcome)) reply reply' \<and>
        (\<forall>sk_seed. process_reply rng P1 P2 C out sk_seed =
          bind_outcome (dec_double_pir P1 P2 C (gen_sk rng C (rng_from_seed rng sk_seed) SK_HWT) reply')
            (\<lambda>m. (Ok (pr_basis P1 m) :: (unit, 'w list) outcome)))"
    if p: "perform [Some q', None] g2 = (Ok [Some reply, None] :: (unit, ('r \<times> 'r) list option list) outcome)" "length reply = 3"
    for perform reply
  proof -
    obtain out reply' where r: "reply_bytes rdiv C reply = (Ok out :: (unit, bytes) outcome)" "length out = length reply * 7424"
      "list_all2 (\<lambda>x y. switched rdiv 17 C (fst x) = (Ok (fst y) :: (unit, 'r) outcome) \<and>
        switched rdiv 12 C (snd x) = (Ok (snd y) :: (unit, 'r) outcome)) reply reply'"
      "\<forall>rest. read_reply (length reply) C (out @ rest) = (Ok (reply', rest) :: (unit, ('r \<times> 'r) list \<times> bytes) outcome)"
      using reply_travels [OF W, of reply] by (elim exE conjE) (rule that; assumption)
    have "process_query lg rdiv C perform len g1 bs = (Ok out :: (unit, bytes) outcome)"
      using len u p(1) r(1) by (simp add: process_query_def process_queries_def on_some_def unwrap_def)
    moreover have "read_reply 3 C out = (Ok (reply', []) :: (unit, ('r \<times> 'r) list \<times> bytes) outcome)"
      using r(4) [rule_format, of "[]"] p(2) by simp
    then have "process_reply rng P1 P2 C out sk_seed =
        bind_outcome (dec_double_pir P1 P2 C (gen_sk rng C (rng_from_seed rng sk_seed) SK_HWT) reply')
          (\<lambda>m. (Ok (pr_basis P1 m) :: (unit, 'w list) outcome))" for sk_seed
      by (simp add: process_reply_def CTXT_PARTS_def)
    ultimately show ?thesis using r(2,3) p(2) by (intro exI [of _ out] exI [of _ reply'] conjI allI) simp_all
  qed
  then show ?thesis using b(1,2) by (intro exI [of _ bs], intro exI [of _ q']) blast
qed

theorem reply_transport_witness:
  "\<exists>bs q'. query_bytes rounding demo_C (full_group RING_N) (full_group RING_N)
      \<lparr>dq_primary = [1], dq_primary_conj = Some [2], dq_secondary = [3], dq_secondary_conj = Some [4], dq_gk = [[5], [6]]\<rparr> =
      (Ok bs :: (unit, bytes) outcome) \<and>
    (\<exists>out. process_query abs_log2_ceil_ref rounding demo_C (\<lambda>qs g. Ok [Some [([1], [2]), ([3], [4]), ([5], [6])], None]) 256
      (full_group RING_N) bs = (Ok out :: (unit, bytes) outcome) \<and> length out = 22272)"
proof -
  let ?q = "\<lparr>dq_primary = [1], dq_primary_conj = Some [2], dq_secondary = [3], dq_secondary_conj = Some [4], dq_gk = [[5], [6]]\<rparr> :: int list double_query"
  have s: "choose_index_group_secondary abs_log2_ceil_ref 256 = (Ok (full_group RING_N) :: (unit, index_group) outcome)"
    by (simp add: choose_index_group_secondary_def pir_consts abs_log2_ceil_ref_def log2_ceil_from.simps)
  have c: "dq_primary_conj ?q \<noteq> None \<longleftrightarrow> requires_conj (full_group RING_N)"
    "dq_secondary_conj ?q \<noteq> None \<longleftrightarrow> requires_conj (full_group RING_N)" "length (dq_gk ?q) = GK_DIGITS" "0 < (256 :: nat)"
    by (simp_all add: index_group_defs GK_DIGITS_def)
  obtain bs q' where b: "query_bytes rounding demo_C (full_group RING_N) (full_group RING_N) ?q = (Ok bs :: (unit, bytes) outcome)"
    and r: "\<forall>perform reply. perform [Some q', None] (full_group RING_N) = (Ok [Some reply, None] :: (unit, (int list \<times> int list) list option list) outcome) \<and>
      length reply = 3 \<longrightarrow> (\<exists>out reply'. process_query abs_log2_ceil_ref rounding demo_C perform 256 (full_group RING_N) bs = (Ok out :: (unit, bytes) outcome) \<and>
        length out = 22272 \<and>
        list_all2 (\<lambda>x y. switched rounding 17 demo_C (fst x) = (Ok (fst y) :: (unit, int list) outcome) \<and>
          switched rounding 12 demo_C (snd x) = (Ok (snd y) :: (unit, int list) outcome)) reply reply' \<and>
        (\<forall>sk_seed. process_reply unit_noise demo_P demo_P demo_C out sk_seed =
          bind_outcome (dec_double_pir demo_P demo_P demo_C (gen_sk unit_noise demo_C (rng_from_seed unit_noise sk_seed) SK_HWT) reply')
            (\<lambda>m. (Ok (pr_basis demo_P m) :: (unit, int list) outcome))))"
    using reply_transport [OF deployed_wire c(3,1,2) s c(4), of unit_noise demo_P demo_P]
    by (elim exE conjE) (rule that; assumption)
  let ?reply = "[([1], [2]), ([3], [4]), ([5], [6])] :: (int list \<times> int list) list"
  have "(\<lambda>qs g. Ok [Some ?reply, None]) [Some q', None] (full_group RING_N) =
      (Ok [Some ?reply, None] :: (unit, (int list \<times> int list) list option list) outcome) \<and> length ?reply = 3"
    by simp
  from r [rule_format, OF this] show ?thesis using b by blast
qed

end
