(* ===== verification/Permute.thy ===== *)
theory Permute
  imports Dns_Prelude
begin

text \<open>
  \<open>crates/pir/src/permute.rs\<close>: permuting a vector in place along the cycles of an index map, and the
  index maps between rows and odd exponents of the root of unity that \<open>crates/pir/src/base_pir.rs\<close>
  permutes with. A map that leaves the vector panics at the index operation. The loops end for every
  map; for a bijection they compute \<open>values[perm(i)]\<close> and its inverse.
\<close>

section \<open>The loops\<close>

definition swap_at :: "'a list \<Rightarrow> nat \<Rightarrow> nat \<Rightarrow> 'a list" where
  "swap_at xs i j = xs[i := xs ! j, j := xs ! i]"

abbreviation unmarked :: "bool list \<Rightarrow> nat" where
  "unmarked sw \<equiv> length (filter Not sw)"

lemma unmarked_set: "i < length sw \<Longrightarrow> \<not> sw ! i \<Longrightarrow> unmarked (sw[i := True]) < unmarked sw"
proof (induction sw arbitrary: i)
  case (Cons b sw)
  then show ?case by (cases i) (auto simp: Suc_le_eq)
qed simp

lemma unmarked_set_le: "unmarked (sw[i := True]) \<le> unmarked sw"
proof (induction sw arbitrary: i)
  case (Cons b sw)
  then show ?case by (cases i) (auto simp: le_SucI)
qed simp

function permute_cycle ::
    "(nat \<Rightarrow> nat) \<Rightarrow> bool list \<Rightarrow> 'a list \<Rightarrow> nat \<Rightarrow> ('e, bool list \<times> 'a list) outcome" where
  "permute_cycle perm swapped_indices vals current =
     (let nxt = perm current in
      if nxt \<ge> length swapped_indices then Panic
      else if \<not> swapped_indices ! nxt
      then permute_cycle perm (swapped_indices[current := True]) (swap_at vals current nxt) nxt
      else Ok (swapped_indices[current := True], vals))"
  by pat_completeness auto
termination
proof (relation "measure (\<lambda>(perm, sw, vals, current).
    2 * unmarked sw + (if current < length sw \<and> \<not> sw ! current then 0 else 1))")
  fix perm :: "nat \<Rightarrow> nat" and sw :: "bool list" and vals :: "'a list" and current nxt
  assume "nxt = perm current" and n: "\<not> length sw \<le> nxt" "\<not> sw ! nxt"
  show "((perm, sw[current := True], swap_at vals current nxt, nxt), (perm, sw, vals, current))
      \<in> measure (\<lambda>(perm, sw, vals, current). 2 * unmarked sw + (if current < length sw \<and> \<not> sw ! current then 0 else 1))"
    using unmarked_set [of current sw] unmarked_set_le [of sw current] n
    by (cases "nxt = current") (auto split: if_splits)
qed simp

declare permute_cycle.simps [simp del]

fun permute_from :: "(nat \<Rightarrow> nat) \<Rightarrow> nat \<Rightarrow> nat \<Rightarrow> bool list \<Rightarrow> 'a list \<Rightarrow> ('e, 'a list) outcome" where
  "permute_from perm start 0 swapped_indices vals = Ok vals"
| "permute_from perm start (Suc k) swapped_indices vals =
     bind_outcome (permute_cycle perm swapped_indices vals start)
       (\<lambda>(swapped_indices, vals). permute_from perm (start + 1) k swapped_indices vals)"

definition permute :: "(nat \<Rightarrow> nat) \<Rightarrow> 'a list \<Rightarrow> ('e, 'a list) outcome" where
  "permute perm vals = permute_from perm 0 (length vals) (replicate (length vals) False) vals"

function permute_inv_cycle ::
    "(nat \<Rightarrow> nat) \<Rightarrow> nat \<Rightarrow> bool list \<Rightarrow> 'a list \<Rightarrow> nat \<Rightarrow> ('e, bool list \<times> 'a list) outcome" where
  "permute_inv_cycle perm start swapped_indices vals current =
     (if current \<ge> length swapped_indices then Panic
      else if \<not> swapped_indices ! current
      then permute_inv_cycle perm start (swapped_indices[current := True]) (swap_at vals current start) (perm current)
      else Ok (swapped_indices, vals))"
  by pat_completeness auto
termination
  by (relation "measure (\<lambda>(perm, start, sw, vals, current). unmarked sw)") (auto simp: unmarked_set)

declare permute_inv_cycle.simps [simp del]

fun permute_inv_from :: "(nat \<Rightarrow> nat) \<Rightarrow> nat \<Rightarrow> nat \<Rightarrow> bool list \<Rightarrow> 'a list \<Rightarrow> ('e, 'a list) outcome" where
  "permute_inv_from perm start 0 swapped_indices vals = Ok vals"
| "permute_inv_from perm start (Suc k) swapped_indices vals =
     bind_outcome (permute_inv_cycle perm start (swapped_indices[start := True]) vals (perm start))
       (\<lambda>(swapped_indices, vals). permute_inv_from perm (start + 1) k swapped_indices vals)"

definition permute_inv :: "(nat \<Rightarrow> nat) \<Rightarrow> 'a list \<Rightarrow> ('e, 'a list) outcome" where
  "permute_inv perm vals = permute_inv_from perm 0 (length vals) (replicate (length vals) False) vals"


section \<open>One cycle\<close>

definition marks :: "bool list \<Rightarrow> nat set" where
  "marks sw = {i. i < length sw \<and> sw ! i}"

lemma marks_set: "i < length sw \<Longrightarrow> marks (sw[i := True]) = insert i (marks sw)"
  by (auto simp: marks_def nth_list_update)

lemma marks_replicate [simp]: "marks (replicate n False) = {}"
  by (auto simp: marks_def)

lemma nth_swap_at:
  "i < length xs \<Longrightarrow> j < length xs \<Longrightarrow> k < length xs \<Longrightarrow>
    swap_at xs i j ! k = (if k = j then xs ! i else if k = i then xs ! j else xs ! k)"
  by (auto simp: swap_at_def nth_list_update)

lemma length_swap_at [simp]: "length (swap_at xs i j) = length xs"
  by (simp add: swap_at_def)

text \<open>What a finished set of marks means, for both directions: whole cycles, already permuted.\<close>

definition permuted_on :: "(nat \<Rightarrow> nat) \<Rightarrow> nat set \<Rightarrow> 'a list \<Rightarrow> 'a list \<Rightarrow> bool" where
  "permuted_on perm M orig vals \<longleftrightarrow> length vals = length orig \<and> perm ` M = M \<and>
     (\<forall>i < length orig. vals ! i = (if i \<in> M then orig ! perm i else orig ! i))"

definition inv_permuted_on :: "(nat \<Rightarrow> nat) \<Rightarrow> nat set \<Rightarrow> 'a list \<Rightarrow> 'a list \<Rightarrow> bool" where
  "inv_permuted_on perm M orig vals \<longleftrightarrow> length vals = length orig \<and> perm ` M = M \<and>
     (\<forall>i < length orig. if i \<in> M then vals ! perm i = orig ! i else vals ! i = orig ! i)"

locale index_bijection =
  fixes perm :: "nat \<Rightarrow> nat" and n :: nat
  assumes bij: "bij_betw perm {..<n} {..<n}"
begin

lemma perm_less: "i < n \<Longrightarrow> perm i < n"
  using bij bij_betwE by fastforce

lemma perm_inj: "i < n \<Longrightarrow> j < n \<Longrightarrow> perm i = perm j \<Longrightarrow> i = j"
  using bij by (auto simp: bij_betw_def dest: inj_onD)

lemma marks_bound: "length sw = n \<Longrightarrow> i \<in> marks sw \<Longrightarrow> i < n"
  by (simp add: marks_def)

text \<open>Inside a cycle: the element that left \<open>start\<close> travels with \<open>current\<close>.\<close>

definition travelling :: "nat \<Rightarrow> 'a list \<Rightarrow> bool list \<Rightarrow> 'a list \<Rightarrow> nat \<Rightarrow> bool" where
  "travelling start orig sw vals current \<longleftrightarrow>
     length orig = n \<and> length sw = n \<and> length vals = n \<and> start < n \<and> current < n \<and> current \<notin> marks sw \<and>
     insert current (marks sw) = insert start (perm ` marks sw) \<and> vals ! current = orig ! start \<and>
     (\<forall>i < n. i \<in> marks sw \<longrightarrow> vals ! i = orig ! perm i) \<and>
     (\<forall>i < n. i \<notin> marks sw \<longrightarrow> i \<noteq> current \<longrightarrow> vals ! i = orig ! i)"

lemma travelling_next_marked:
  assumes "travelling start orig sw vals current" "perm current \<in> marks sw"
  shows "perm current = start"
proof -
  have "perm current \<notin> perm ` marks sw"
    using assms perm_inj marks_bound unfolding travelling_def by blast
  then show ?thesis using assms unfolding travelling_def by blast
qed

lemma travelling_next_self:
  assumes "travelling start orig sw vals current" "perm current = current"
  shows "current = start"
proof -
  have "current \<notin> perm ` marks sw"
    using assms perm_inj marks_bound unfolding travelling_def by (metis imageE)
  then show ?thesis using assms(1) unfolding travelling_def by blast
qed

lemma travelling_step:
  assumes t: "travelling start orig sw vals current" and nxt: "perm current \<notin> marks sw" "perm current \<noteq> current"
  shows "travelling start orig (sw[current := True]) (swap_at vals current (perm current)) (perm current)"
proof -
  have b: "current < n" "perm current < n" "length sw = n" "length vals = n"
    using t perm_less by (simp_all add: travelling_def)
  then show ?thesis
    using t nxt unfolding travelling_def by (auto simp: marks_set nth_swap_at)
qed

lemma travelling_end:
  assumes t: "travelling start orig sw vals current" and "perm current = start"
  shows "permuted_on perm (marks (sw[current := True])) orig vals"
proof -
  have m: "marks (sw[current := True]) = insert current (marks sw)"
    using t by (simp add: travelling_def marks_set)
  have "perm ` insert current (marks sw) = insert current (marks sw)"
  proof -
    have "perm ` insert current (marks sw) = insert start (perm ` marks sw)" using assms(2) by simp
    also have "\<dots> = insert current (marks sw)" using t by (simp add: travelling_def)
    finally show ?thesis .
  qed
  moreover have "vals ! i = (if i \<in> insert current (marks sw) then orig ! perm i else orig ! i)" if "i < n" for i
  proof (cases "i = current")
    case True
    have "vals ! current = orig ! perm current" using assms by (simp add: travelling_def)
    then show ?thesis using True by simp
  next
    case False
    have "\<forall>i < n. i \<in> marks sw \<longrightarrow> vals ! i = orig ! perm i"
      using t unfolding travelling_def by (elim conjE)
    moreover have "\<forall>i < n. i \<notin> marks sw \<longrightarrow> i \<noteq> current \<longrightarrow> vals ! i = orig ! i"
      using t unfolding travelling_def by (elim conjE)
    ultimately show ?thesis using False that by auto
  qed
  moreover have "length vals = length orig" "length orig = n" using t by (simp_all add: travelling_def)
  ultimately show ?thesis unfolding m permuted_on_def by simp
qed

lemma cycle_done:
  assumes "current \<in> marks sw" "perm current \<in> marks sw" "length sw = n"
  shows "permute_cycle perm sw vals current = Ok (sw, vals)"
  using assms by (subst permute_cycle.simps) (auto simp: marks_def list_update_same_conv)

lemma cycle_travels:
  assumes "travelling start (orig :: 'a list) sw vals current"
  shows "\<exists>sw' vals'. permute_cycle perm sw vals current = (Ok (sw', vals') :: ('e, bool list \<times> 'a list) outcome) \<and> length sw' = n \<and>
    insert current (marks sw) \<subseteq> marks sw' \<and> permuted_on perm (marks sw') orig vals'"
  using assms
proof (induction "unmarked sw" arbitrary: sw vals current rule: less_induct)
  case less
  note t = less.prems
  have b: "length sw = n" "length vals = n" "current < n" "perm current < n" "\<not> sw ! current"
    using t perm_less by (auto simp: travelling_def marks_def)
  consider (fixpoint) "perm current = current" | (last) "perm current \<in> marks sw" |
      (step) "perm current \<noteq> current" "perm current \<notin> marks sw" by blast
  then show ?case
  proof cases
    case fixpoint
    have "swap_at vals current current = vals" by (simp add: swap_at_def)
    moreover have "current \<in> marks (sw[current := True])" using b by (simp add: marks_set)
    ultimately have "permute_cycle perm sw vals current = (Ok (sw[current := True], vals) :: ('e, bool list \<times> 'a list) outcome)"
      using b fixpoint cycle_done [of current "sw[current := True]" vals] by (subst permute_cycle.simps) simp
    moreover have "permuted_on perm (marks (sw[current := True])) orig vals"
      using travelling_end [OF t] travelling_next_self [OF t fixpoint] fixpoint by simp
    ultimately show ?thesis using b by (auto simp: marks_set)
  next
    case last
    then have "permute_cycle perm sw vals current = (Ok (sw[current := True], vals) :: ('e, bool list \<times> 'a list) outcome)"
      using b by (subst permute_cycle.simps) (simp add: marks_def)
    then show ?thesis
      using travelling_end [OF t travelling_next_marked [OF t last]] b by (auto simp: marks_set)
  next
    case step
    have eq: "permute_cycle perm sw vals current =
        (permute_cycle perm (sw[current := True]) (swap_at vals current (perm current)) (perm current) :: ('e, bool list \<times> 'a list) outcome)"
      using b step by (subst permute_cycle.simps) (simp add: marks_def Let_def)
    show ?thesis
      unfolding eq using less.hyps [OF _ travelling_step [OF t step(2,1)]] b unmarked_set [of current sw]
      by (auto simp: marks_set)
  qed
qed

lemma cycle_correct:
  assumes p: "permuted_on perm (marks sw) (orig :: 'a list) vals" and len: "length orig = n" "length sw = n" "start < n"
  shows "\<exists>sw' vals'. permute_cycle perm sw vals start = (Ok (sw', vals') :: ('e, bool list \<times> 'a list) outcome) \<and> length sw' = n \<and>
    insert start (marks sw) \<subseteq> marks sw' \<and> permuted_on perm (marks sw') orig vals'"
proof (cases "start \<in> marks sw")
  case True
  then have "perm start \<in> marks sw" using p by (auto simp: permuted_on_def)
  from cycle_done [OF True this len(2)] show ?thesis using True p len(2) by auto
next
  case False
  then have "travelling start orig sw vals start"
    using p len by (auto simp: travelling_def permuted_on_def)
  from cycle_travels [OF this] show ?thesis .
qed

lemma permute_from_correct:
  assumes "permuted_on perm (marks sw) (orig :: 'a list) vals" "length orig = n" "length sw = n" "start + k = n"
    and "{..<start} \<subseteq> marks sw"
  shows "permute_from perm start k sw vals = (Ok (map (\<lambda>i. orig ! perm i) [0..<n]) :: ('e, 'a list) outcome)"
  using assms
proof (induction k arbitrary: start sw vals)
  case 0
  then have "vals ! i = orig ! perm i" if "i < n" for i using that by (auto simp: permuted_on_def)
  then show ?case using 0 by (auto intro!: nth_equalityI simp: permuted_on_def)
next
  case (Suc k)
  then have "start < n" by simp
  from cycle_correct [OF Suc.prems(1-3) this] obtain sw' vals' where
    c: "permute_cycle perm sw vals start = (Ok (sw', vals') :: ('e, bool list \<times> 'a list) outcome)" "length sw' = n" "insert start (marks sw) \<subseteq> marks sw'"
      "permuted_on perm (marks sw') orig vals'" by blast
  have "{..<start + 1} \<subseteq> marks sw'" using c(3) Suc.prems(5) by (auto simp: less_Suc_eq)
  from Suc.IH [OF c(4) Suc.prems(2) c(2) _ this] show ?case using Suc.prems(4) c(1) by simp
qed

text \<open>Backwards, the element to be placed next waits at \<open>start\<close>; \<open>p\<close> is the index it came from.\<close>

definition waiting :: "nat \<Rightarrow> nat \<Rightarrow> 'a list \<Rightarrow> bool list \<Rightarrow> 'a list \<Rightarrow> nat \<Rightarrow> bool" where
  "waiting start p orig sw vals current \<longleftrightarrow>
     length orig = n \<and> length sw = n \<and> length vals = n \<and> start \<in> marks sw \<and> p \<in> marks sw \<and>
     perm p = current \<and> vals ! start = orig ! p \<and>
     (\<forall>i \<in> marks sw. i \<noteq> p \<longrightarrow> perm i \<in> marks sw \<and> perm i \<noteq> start \<and> vals ! perm i = orig ! i) \<and>
     (\<forall>i < n. i \<notin> marks sw \<longrightarrow> vals ! i = orig ! i)"

lemma waiting_step:
  assumes w: "waiting start p orig sw vals current" and new: "current \<notin> marks sw"
  shows "waiting start current orig (sw[current := True]) (swap_at vals current start) (perm current)"
proof -
  have b: "length sw = n" "length vals = n" "p \<in> marks sw" "start \<in> marks sw" and c: "perm p = current"
    using w by (simp_all add: waiting_def)
  have lt: "p < n" "start < n" "current < n"
    using marks_bound [OF b(1)] b perm_less c by auto
  have m: "marks (sw[current := True]) = insert current (marks sw)" using b lt by (simp add: marks_set)
  have old: "perm i \<in> insert current (marks sw) \<and> perm i \<noteq> start \<and> swap_at vals current start ! perm i = orig ! i"
    if i: "i \<in> marks sw" for i
  proof (cases "i = p")
    case True
    then show ?thesis using w new b lt c by (auto simp: waiting_def nth_swap_at)
  next
    case False
    have "perm i \<noteq> current" using perm_inj [of i p] marks_bound [OF b(1) i] lt c False by auto
    then show ?thesis
      using w i False b lt perm_less [OF marks_bound [OF b(1) i]] by (auto simp: waiting_def nth_swap_at)
  qed
  show ?thesis
    unfolding waiting_def m using w new b lt old by (auto simp: waiting_def nth_swap_at)
qed

lemma waiting_end:
  assumes w: "waiting start p orig sw vals current" and old: "current \<in> marks sw"
  shows "inv_permuted_on perm (marks sw) orig vals"
proof -
  let ?M = "marks sw"
  have b: "length sw = n" "p \<in> ?M" "start \<in> ?M" and c: "perm p = current" using w by (simp_all add: waiting_def)
  have lt: "i < n" if "i \<in> ?M" for i using marks_bound [OF b(1) that] .
  have fin: "finite ?M" using lt by (auto intro: finite_subset [of _ "{..<n}"])
  have inj: "inj_on perm ?M" using perm_inj lt by (auto intro: inj_onI)
  have "perm ` ?M \<subseteq> ?M" using w old c by (auto simp: waiting_def)
  then have img: "perm ` ?M = ?M" using endo_inj_surj [OF fin _ inj] by blast
  then obtain q where "q \<in> ?M" "perm q = start" using b(3) by (metis imageE)
  then have "perm p = start" using w by (auto simp: waiting_def)
  then show ?thesis using w img c by (auto simp: waiting_def inv_permuted_on_def)
qed

lemma inv_cycle_waits:
  assumes "waiting start p (orig :: 'a list) sw vals current"
  shows "\<exists>sw' vals'. permute_inv_cycle perm start sw vals current = (Ok (sw', vals') :: ('e, bool list \<times> 'a list) outcome) \<and>
    length sw' = n \<and> marks sw \<subseteq> marks sw' \<and> inv_permuted_on perm (marks sw') orig vals'"
  using assms
proof (induction "unmarked sw" arbitrary: p sw vals current rule: less_induct)
  case less
  note w = less.prems
  have "p < n" using w marks_bound by (auto simp: waiting_def)
  then have b: "length sw = n" "current < n" using w perm_less by (auto simp: waiting_def)
  show ?case
  proof (cases "current \<in> marks sw")
    case True
    then have "permute_inv_cycle perm start sw vals current = (Ok (sw, vals) :: ('e, bool list \<times> 'a list) outcome)"
      using b by (subst permute_inv_cycle.simps) (simp add: marks_def)
    then show ?thesis using waiting_end [OF w True] b by auto
  next
    case False
    then have eq: "permute_inv_cycle perm start sw vals current =
        (permute_inv_cycle perm start (sw[current := True]) (swap_at vals current start) (perm current) ::
          ('e, bool list \<times> 'a list) outcome)"
      using b by (subst permute_inv_cycle.simps) (simp add: marks_def)
    have "unmarked (sw[current := True]) < unmarked sw"
      using unmarked_set [of current sw] b False by (simp add: marks_def)
    from less.hyps [OF this waiting_step [OF w False]] show ?thesis unfolding eq using b by (auto simp: marks_set)
  qed
qed

lemma inv_cycle_correct:
  assumes p: "inv_permuted_on perm (marks sw) (orig :: 'a list) vals" and len: "length orig = n" "length sw = n" "start < n"
  shows "\<exists>sw' vals'. permute_inv_cycle perm start (sw[start := True]) vals (perm start) =
      (Ok (sw', vals') :: ('e, bool list \<times> 'a list) outcome) \<and>
    length sw' = n \<and> insert start (marks sw) \<subseteq> marks sw' \<and> inv_permuted_on perm (marks sw') orig vals'"
proof (cases "start \<in> marks sw")
  case True
  then have "perm start \<in> marks sw" "sw[start := True] = sw"
    using p by (auto simp: inv_permuted_on_def marks_def list_update_same_conv)
  then have "permute_inv_cycle perm start (sw[start := True]) vals (perm start) =
      (Ok (sw, vals) :: ('e, bool list \<times> 'a list) outcome)"
    using len by (subst permute_inv_cycle.simps) (simp add: marks_def)
  then show ?thesis using True p len by auto
next
  case False
  have "perm i \<noteq> start" if "i \<in> marks sw" for i using p False that by (auto simp: inv_permuted_on_def)
  then have "waiting start start orig (sw[start := True]) vals (perm start)"
    using p len marks_bound [OF len(2)] False by (auto simp: waiting_def inv_permuted_on_def marks_set)
  from inv_cycle_waits [OF this] show ?thesis using len by (auto simp: marks_set)
qed

lemma permute_inv_from_correct:
  assumes "inv_permuted_on perm (marks sw) (orig :: 'a list) vals" "length orig = n" "length sw = n" "start + k = n"
    and "{..<start} \<subseteq> marks sw"
  shows "\<exists>res. permute_inv_from perm start k sw vals = (Ok res :: ('e, 'a list) outcome) \<and> length res = n \<and>
    (\<forall>i < n. res ! perm i = orig ! i)"
  using assms
proof (induction k arbitrary: start sw vals)
  case 0
  then show ?case by (auto simp: inv_permuted_on_def)
next
  case (Suc k)
  then have "start < n" by simp
  from inv_cycle_correct [OF Suc.prems(1-3) this] obtain sw' vals' where
    c: "permute_inv_cycle perm start (sw[start := True]) vals (perm start) = (Ok (sw', vals') :: ('e, bool list \<times> 'a list) outcome)"
      "length sw' = n" "insert start (marks sw) \<subseteq> marks sw'" "inv_permuted_on perm (marks sw') orig vals'" by blast
  have "{..<start + 1} \<subseteq> marks sw'" using c(3) Suc.prems(5) by (auto simp: less_Suc_eq)
  from Suc.IH [OF c(4) Suc.prems(2) c(2) _ this] show ?case using Suc.prems(4) c(1) by simp
qed

end


section \<open>Galois automorphisms as index maps\<close>

text \<open>
  In evaluated form row \<open>i\<close> holds the value at the power \<open>2i + 1\<close> of the root of unity, so an
  automorphism permutes the rows. \<open>inv_g\<close> is the inverse of the generator 5 modulo \<open>m = 2N\<close>, which
  \<open>feanor_math\<close> computes; arithmetic in \<open>Z/m\<close> is written with its residues.
\<close>

definition gen_H :: nat where
  "gen_H = 5"

definition index_to_galois :: "nat \<Rightarrow> nat \<Rightarrow> nat \<Rightarrow> nat" where
  "index_to_galois group_order m idx = (m div group_order * idx + 1) mod m"

definition galois_to_index :: "nat \<Rightarrow> nat \<Rightarrow> nat \<Rightarrow> ('e, nat) outcome" where
  "galois_to_index group_order m g =
     (if (int g - 1) mod int (m div group_order) \<noteq> 0 \<or> g < 1 then Panic else Ok ((g - 1) div (m div group_order)))"

definition galois_lookup :: "nat \<Rightarrow> nat \<Rightarrow> nat \<Rightarrow> nat" where
  "galois_lookup N inv_g i =
     (let in_g = 2 * i + 1; out_g = (inv_g * in_g) mod (2 * N) in (out_g - 1) div 2)"

definition galois_lookup_table :: "nat \<Rightarrow> nat \<Rightarrow> nat list" where
  "galois_lookup_table N inv_g = map (galois_lookup N inv_g) [0..<N]"

lemma lookup_power:
  assumes "(gen_H * inv_g) mod (2 * N) = 1" "i < N"
  shows "galois_lookup N inv_g i < N" "2 * galois_lookup N inv_g i + 1 = (inv_g * (2 * i + 1)) mod (2 * N)"
    "(gen_H * (2 * galois_lookup N inv_g i + 1)) mod (2 * N) = 2 * i + 1"
proof -
  let ?o = "(inv_g * (2 * i + 1)) mod (2 * N)"
  have "odd ((gen_H * inv_g) mod (2 * N))" using assms(1) by simp
  then have "odd inv_g" by (simp add: gen_H_def dvd_mod_iff)
  then have odd: "odd ?o" by (simp add: dvd_mod_iff)
  then show o: "2 * galois_lookup N inv_g i + 1 = ?o"
    by (simp add: galois_lookup_def Let_def odd_pos)
  have "?o < 2 * N" using assms(2) by simp
  then show "galois_lookup N inv_g i < N" using o by linarith
  have "(gen_H * ?o) mod (2 * N) = ((gen_H * inv_g) mod (2 * N) * (2 * i + 1)) mod (2 * N)"
    by (metis mod_mult_left_eq mod_mult_right_eq mult.assoc)
  then show "(gen_H * (2 * galois_lookup N inv_g i + 1)) mod (2 * N) = 2 * i + 1"
    unfolding o using assms by simp
qed

lemma lookup_bijection:
  assumes "(gen_H * inv_g) mod (2 * N) = 1"
  shows "index_bijection (galois_lookup N inv_g) N"
proof
  have inj: "inj_on (galois_lookup N inv_g) {..<N}"
  proof (rule inj_onI)
    fix i j assume ij: "i \<in> {..<N}" "j \<in> {..<N}" "galois_lookup N inv_g i = galois_lookup N inv_g j"
    then have "2 * i + 1 = 2 * j + 1" using lookup_power(3) [OF assms] by (metis lessThan_iff)
    then show "i = j" by simp
  qed
  moreover have "galois_lookup N inv_g ` {..<N} \<subseteq> {..<N}" using lookup_power(1) [OF assms] by auto
  ultimately show "bij_betw (galois_lookup N inv_g) {..<N} {..<N}"
    unfolding bij_betw_def using endo_inj_surj by blast
qed

text \<open>The deployed ring: \<open>N = 2048\<close>, where 3277 inverts 5.\<close>

interpretation galois: index_bijection "galois_lookup 2048 3277" 2048
  by (rule lookup_bijection) (simp add: gen_H_def)

lemma permute_bijection:
  assumes "index_bijection perm (length vals)"
  shows "permute perm vals = (Ok (map (\<lambda>i. vals ! perm i) [0..<length vals]) :: ('e, 'a list) outcome)"
  using index_bijection.permute_from_correct [OF assms, of "replicate (length vals) False" vals vals 0 "length vals"]
  by (simp add: permute_def permuted_on_def)

lemma permute_inv_bijection:
  assumes "index_bijection perm (length vals)"
  shows "\<exists>res. permute_inv perm vals = (Ok res :: ('e, 'a list) outcome) \<and> length res = length vals \<and>
    (\<forall>i < length vals. res ! perm i = vals ! i)"
  using index_bijection.permute_inv_from_correct [OF assms, of "replicate (length vals) False" vals vals 0 "length vals"]
  by (simp add: permute_inv_def inv_permuted_on_def)

lemma lookup_table_bijection:
  assumes "(gen_H * inv_g) mod (2 * N) = 1"
  shows "index_bijection (\<lambda>i. galois_lookup_table N inv_g ! i) N"
proof
  have "bij_betw (galois_lookup N inv_g) {..<N} {..<N}"
    using lookup_bijection [OF assms] by (rule index_bijection.bij)
  then show "bij_betw (\<lambda>i. galois_lookup_table N inv_g ! i) {..<N} {..<N}"
    by (subst bij_betw_cong [of _ _ "galois_lookup N inv_g"]) (simp_all add: galois_lookup_table_def)
qed

text \<open>
  C36. In-place permutation: for an index map that is a bijection of the positions, \<open>permute\<close> computes
  \<open>values[perm(i)]\<close> at every position, although it only swaps along cycles and marks, and \<open>permute_inv\<close>
  moves \<open>values[i]\<close> to \<open>perm(i)\<close>. The Galois lookup table of a ring whose degree is \<open>N\<close> is such a map:
  permuting with it moves the value at exponent \<open>2i + 1\<close> to the row of 5 times its exponent.
\<close>

theorem permute_correct:
  assumes "bij_betw perm {..<length vals} {..<length vals}" and "(gen_H * inv_g) mod (2 * length vals) = 1"
  shows "permute perm vals = (Ok (map (\<lambda>i. vals ! perm i) [0..<length vals]) :: ('e, 'a list) outcome) \<and>
    (\<exists>res. permute_inv perm vals = (Ok res :: ('e, 'a list) outcome) \<and> length res = length vals \<and>
      (\<forall>i < length vals. res ! perm i = vals ! i)) \<and>
    (\<exists>res. permute (\<lambda>i. galois_lookup_table (length vals) inv_g ! i) vals = (Ok res :: ('e, 'a list) outcome) \<and>
      (\<forall>i < length vals. \<exists>j < length vals. (gen_H * (2 * j + 1)) mod (2 * length vals) = 2 * i + 1 \<and> res ! i = vals ! j))"
proof (intro conjI)
  note perm = index_bijection.intro [OF assms(1)]
  show "permute perm vals = (Ok (map (\<lambda>i. vals ! perm i) [0..<length vals]) :: ('e, 'a list) outcome)"
    by (rule permute_bijection [OF perm])
  show "\<exists>res. permute_inv perm vals = (Ok res :: ('e, 'a list) outcome) \<and> length res = length vals \<and>
      (\<forall>i < length vals. res ! perm i = vals ! i)"
    by (rule permute_inv_bijection [OF perm])
  have "permute (\<lambda>i. galois_lookup_table (length vals) inv_g ! i) vals =
      (Ok (map (\<lambda>i. vals ! galois_lookup (length vals) inv_g i) [0..<length vals]) :: ('e, 'a list) outcome)"
    unfolding permute_bijection [OF lookup_table_bijection [OF assms(2)]] by (simp add: galois_lookup_table_def)
  then show "\<exists>res. permute (\<lambda>i. galois_lookup_table (length vals) inv_g ! i) vals = (Ok res :: ('e, 'a list) outcome) \<and>
      (\<forall>i < length vals. \<exists>j < length vals. (gen_H * (2 * j + 1)) mod (2 * length vals) = 2 * i + 1 \<and> res ! i = vals ! j)"
    using lookup_power(1,3) [OF assms(2)] by auto
qed

theorem permute_correct_witness:
  "permute (\<lambda>i. (i + 1) mod 4) [10, 20, 30, 40 :: nat] = (Ok [20, 30, 40, 10] :: (unit, nat list) outcome)"
proof -
  have l: "length [10, 20, 30, 40 :: nat] = 4" by simp
  have inj: "inj_on (\<lambda>i :: nat. (i + 1) mod 4) {..<4}"
    by (rule inj_onI) (auto simp: mod_Suc split: if_splits)
  have "(\<lambda>i :: nat. (i + 1) mod 4) ` {..<4} \<subseteq> {..<4}" by auto
  then have "bij_betw (\<lambda>i :: nat. (i + 1) mod 4) {..<4} {..<4}"
    using inj endo_inj_surj [OF finite_lessThan _ inj] by (simp add: bij_betw_def)
  then have b: "bij_betw (\<lambda>i. (i + 1) mod 4) {..<length [10, 20, 30, 40 :: nat]} {..<length [10, 20, 30, 40 :: nat]}"
    unfolding l .
  have g: "(gen_H * 5) mod (2 * length [10, 20, 30, 40 :: nat]) = 1" by (simp add: gen_H_def)
  have m: "map (\<lambda>i. [10, 20, 30, 40 :: nat] ! ((i + 1) mod 4)) [0..<length [10, 20, 30, 40 :: nat]] = [20, 30, 40, 10]" by code_simp
  show ?thesis
    using permute_correct [OF b g, where 'e = unit, THEN conjunct1] unfolding m .
qed

end
