(* ===== verification/Main_Loop.thy ===== *)
theory Main_Loop
  imports Simd_Zn Permute Pir_Shape
begin

text \<open>
  \<open>main_pir_loop\<close> of \<open>crates/pir/src/base_pir.rs\<close>: the streaming inner product of a query with one shard.
  Vectors of compressed elements are read two at a time as one 512-bit register; the registers of the
  stored vectors are loaded one block of 16 elements ahead. Sums are kept in 64-bit lanes and reduced
  every \<open>reduce_every_iterations\<close> passes. The counter of bytes read is left out.
\<close>

type_synonym compressed = "u32 list"

text \<open>\<open>*(xs.as_ptr().offset(k) as *const m512i)\<close>: two neighbouring elements, little-endian.\<close>

fun join_lanes :: "u32 list \<Rightarrow> m512i" where
  "join_lanes (lo # hi # ws) = (ucast lo OR push_bit 32 (ucast hi)) # join_lanes ws"
| "join_lanes ws = []"

definition load512 :: "compressed list \<Rightarrow> nat \<Rightarrow> m512i" where
  "load512 xs k = join_lanes (xs ! k @ xs ! (k + 1))"

record pir_inputs =
  in_qry_b :: "compressed list"
  in_gk_b :: "compressed list list"
  in_inner_prod_gk :: "compressed list list"
  in_transformed_entries :: "compressed list"

text \<open>The preloaded registers: the two stored decompositions and the stored entries.\<close>

type_synonym preloaded = "m512i list \<times> m512i list \<times> m512i list"

definition preload :: "pir_inputs \<Rightarrow> nat \<Rightarrow> preloaded" where
  "preload inp index =
     (map (\<lambda>idx. load512 (in_inner_prod_gk inp ! 0) (index + idx * 2)) [0..<8],
      map (\<lambda>idx. load512 (in_inner_prod_gk inp ! 1) (index + idx * 2)) [0..<8],
      map (\<lambda>idx. load512 (in_transformed_entries inp) (index + idx * 2)) [0..<8])"

definition mul_add :: "m256i \<Rightarrow> m256i \<Rightarrow> m512i \<Rightarrow> m512i" where
  "mul_add stored received current =
     (let prod = mm512_cvtepi32_epi64 stored;
          uncompressed = mm512_cvtepi32_epi64 received;
          prod = mm512_mul_epu32 prod uncompressed
      in mm512_add_epi64 current prod)"

text \<open>One index of \<open>unrolled_loop_body!\<close>, which handles two positions.\<close>

definition unrolled_step ::
    "nat list \<Rightarrow> pir_inputs \<Rightarrow> m512i list \<Rightarrow> nat \<Rightarrow> nat \<Rightarrow> bool \<Rightarrow> m512i list \<times> preloaded \<Rightarrow> nat \<Rightarrow> m512i list \<times> preloaded" where
  "unrolled_step lookup_table inp sums j index should_preload st idx =
     (let (sum_new, ig0, ig1, te) = st;
          current_gk_b_0 = mm512_extract_si256 (load512 (in_gk_b inp ! 0) (j + idx * 2));
          current_gk_b_1 = mm512_extract_si256 (load512 (in_gk_b inp ! 1) (j + idx * 2));
          current_qry_b = mm512_extract_si256 (load512 (in_qry_b inp) (j + idx * 2));
          current = sums ! (j + idx * 2);
          current = mul_add (fst (mm512_extract_si256 (ig0 ! idx))) (fst current_gk_b_0) current;
          current = mul_add (fst (mm512_extract_si256 (ig1 ! idx))) (fst current_gk_b_1) current;
          current = mul_add (fst (mm512_extract_si256 (te ! idx))) (fst current_qry_b) current;
          sum_new = sum_new[lookup_table ! (j + idx * 2) := current];
          current = sums ! (j + idx * 2 + 1);
          current = mul_add (snd (mm512_extract_si256 (ig0 ! idx))) (snd current_gk_b_0) current;
          current = mul_add (snd (mm512_extract_si256 (ig1 ! idx))) (snd current_gk_b_1) current;
          current = mul_add (snd (mm512_extract_si256 (te ! idx))) (snd current_qry_b) current;
          sum_new = sum_new[lookup_table ! (j + idx * 2 + 1) := current]
      in if should_preload
         then (sum_new, ig0[idx := load512 (in_inner_prod_gk inp ! 0) (index + idx * 2 + 16)],
               ig1[idx := load512 (in_inner_prod_gk inp ! 1) (index + idx * 2 + 16)],
               te[idx := load512 (in_transformed_entries inp) (index + idx * 2 + 16)])
         else (sum_new, ig0, ig1, te))"

definition unrolled_loop_body ::
    "nat list \<Rightarrow> pir_inputs \<Rightarrow> m512i list \<Rightarrow> nat \<Rightarrow> nat \<Rightarrow> bool \<Rightarrow> m512i list \<times> preloaded \<Rightarrow> m512i list \<times> preloaded" where
  "unrolled_loop_body lookup_table inp sums j index should_preload st =
     foldl (unrolled_step lookup_table inp sums j index should_preload) st [0, 1, 2, 3, 4, 5, 6, 7]"

text \<open>One pass over the shard: all blocks but the last preload the next one.\<close>

fun pass_blocks ::
    "nat list \<Rightarrow> pir_inputs \<Rightarrow> m512i list \<Rightarrow> nat \<Rightarrow> nat \<Rightarrow> nat \<Rightarrow> m512i list \<times> preloaded \<Rightarrow> m512i list" where
  "pass_blocks lookup_table inp sums 0 j index st = fst (unrolled_loop_body lookup_table inp sums j index False st)"
| "pass_blocks lookup_table inp sums (Suc k) j index st =
     pass_blocks lookup_table inp sums k (j + 16) (index + 16)
       (unrolled_loop_body lookup_table inp sums j index True st)"

definition UNROLL_COUNT :: nat where "UNROLL_COUNT = 16"

definition one_pass :: "nat \<Rightarrow> nat list \<Rightarrow> pir_inputs \<Rightarrow> nat \<Rightarrow> m512i list \<Rightarrow> m512i list \<Rightarrow> m512i list" where
  "one_pass N lookup_table inp index sums sum_new =
     pass_blocks lookup_table inp sums ((N - UNROLL_COUNT) div UNROLL_COUNT) 0 index (sum_new, preload inp index)"

text \<open>
  \<open>sum\<close> and \<open>sum_new\<close> are references to two buffers of the caller, and every pass ends with swapping the
  references; the flag says whether \<open>sum\<close> is the caller's second buffer.
\<close>

type_synonym buffers = "m512i list \<times> m512i list \<times> bool"

fun inner_passes :: "nat \<Rightarrow> nat list \<Rightarrow> pir_inputs \<Rightarrow> nat \<Rightarrow> nat \<Rightarrow> buffers \<Rightarrow> buffers" where
  "inner_passes N lookup_table inp 0 index bufs = bufs"
| "inner_passes N lookup_table inp (Suc k) index bufs =
     (let (sums, sum_new, swapped) = bufs;
          sum_new = one_pass N lookup_table inp index sums sum_new
      in inner_passes N lookup_table inp k (index + N) (sum_new, sums, \<not> swapped))"

function outer_passes ::
    "'z special_zn \<Rightarrow> nat \<Rightarrow> nat \<Rightarrow> nat \<Rightarrow> nat list \<Rightarrow> pir_inputs \<Rightarrow> nat \<Rightarrow> buffers \<Rightarrow> buffers" where
  "outer_passes Zqx8 N len reduce_every_iterations lookup_table inp i_outer bufs =
     (if i_outer < len \<and> 0 < reduce_every_iterations then
        let (sums, sum_new, swapped) =
              inner_passes N lookup_table inp (min (len - i_outer) reduce_every_iterations) (i_outer * N) bufs
        in outer_passes Zqx8 N len reduce_every_iterations lookup_table inp (i_outer + reduce_every_iterations)
             (map (reduce_from_u64 Zqx8) sums, sum_new, swapped)
      else bufs)"
  by pat_completeness auto
termination
  by (relation "measure (\<lambda>(_, _, len, _, _, _, i_outer, _). len - i_outer)") auto

declare outer_passes.simps [simp del]

text \<open>
  The result is what the caller finds in its two buffers. \<open>step_by\<close> panics for a step of 0; the rank
  \<open>N\<close> of a ring is positive.
\<close>

definition main_pir_loop ::
    "nat \<Rightarrow> nat \<Rightarrow> nat \<Rightarrow> 'z special_zn \<Rightarrow> m512i list \<Rightarrow> m512i list \<Rightarrow> nat list \<Rightarrow> pir_inputs \<Rightarrow>
     ('e, m512i list \<times> m512i list) outcome" where
  "main_pir_loop N len reduce_every_iterations Zqx8 sums sum_new lookup_table inp =
     (if N * len \<noteq> length (in_transformed_entries inp) \<or> N * len \<noteq> length (in_inner_prod_gk inp ! 0) \<or>
         N * len \<noteq> length (in_inner_prod_gk inp ! 1) \<or> N \<noteq> length (in_qry_b inp) \<or> N \<noteq> length lookup_table \<or>
         N \<noteq> length (in_gk_b inp ! 0) \<or> N \<noteq> length (in_gk_b inp ! 1) \<or> \<not> list_all (\<lambda>i. i < N) lookup_table \<or>
         reduce_every_iterations = 0 \<or> (0 < len \<and> N mod UNROLL_COUNT \<noteq> 0)
      then Panic
      else let (sums, sum_new, swapped) = outer_passes Zqx8 N len reduce_every_iterations lookup_table inp 0 (sums, sum_new, False)
           in Ok (if swapped then (sum_new, sums) else (sums, sum_new)))"

text \<open>How many passes fit into 64 bits, as \<open>perform_pir_split\<close> computes it from the two rings.\<close>

definition reduce_every_iterations :: "'z special_zn \<Rightarrow> 'z special_zn \<Rightarrow> nat" where
  "reduce_every_iterations r1 r2 =
     nat (min ((2 ^ 64 - 1) div repr_bound r1 div repr_bound r1 div int (GK_DIGITS + 1))
              ((2 ^ 64 - 1) div repr_bound r2 div repr_bound r2 div int (GK_DIGITS + 1)))"

end
