(* ===== verification/Base_Pir.thy ===== *)
theory Base_Pir
  imports Main_Loop Double_Pir
begin

text \<open>
  \<open>crates/pir/src/base_pir.rs\<close>: one preprocessed shard. Ring elements are kept as residues modulo the two
  primes, eight elements side by side in the lanes of a vector, in evaluated form. The fast Fourier
  transform of \<open>feanor_math\<close> is a parameter, with the ring arithmetic of \<open>Bfv\<close> and the inverse \<open>inv_g\<close> of
  the generator 5 modulo \<open>2N\<close>. Work that \<open>rayon\<close> splits between threads is independent and written in order.
\<close>

type_synonym rns_el = "m512i list \<times> m512i list"
type_synonym compressed_rns_el = "compressed list \<times> compressed list"


section \<open>Weighted transforms\<close>

record ntt_table =
  fft :: "m512i list \<Rightarrow> m512i list"
  inv_fft :: "m512i list \<Rightarrow> m512i list"

text \<open>The loop over \<open>values\<close> with the running power of \<open>zeta\<close>.\<close>

fun weight :: "'z special_zn \<Rightarrow> m512i \<Rightarrow> m512i \<Rightarrow> m512i list \<Rightarrow> m512i list" where
  "weight Zqx8 zeta current_zeta [] = []"
| "weight Zqx8 zeta current_zeta (v # vs) =
     mul_assign Zqx8 v current_zeta # weight Zqx8 zeta (mul_assign Zqx8 current_zeta zeta) vs"

definition weighted_ntt :: "'z special_zn \<Rightarrow> m512i \<Rightarrow> ntt_table \<Rightarrow> m512i list \<Rightarrow> ('e, m512i list) outcome" where
  "weighted_ntt Zqx8 zeta fft_table vals =
     bind_outcome (unwrap (checked_left_div Zqx8 (from_int Zqx8 1) zeta))
       (\<lambda>zeta_inv. Ok (fft fft_table (weight Zqx8 zeta_inv (from_int Zqx8 1) vals)))"

definition inv_weighted_ntt :: "'z special_zn \<Rightarrow> m512i \<Rightarrow> ntt_table \<Rightarrow> m512i list \<Rightarrow> m512i list" where
  "inv_weighted_ntt Zqx8 zeta fft_table vals = weight Zqx8 zeta (from_int Zqx8 1) (inv_fft fft_table vals)"


section \<open>Gadget decomposition\<close>

text \<open>The vectors that \<open>partial_gal\<close> prepares before its loop. \<open>q\<close> is the modulus of the ciphertext ring.\<close>

record gadget =
  avx_q :: m512i
  avx_q1_multiple :: m512i
  avx_q2_multiple :: m512i
  avx_q_half :: m512i
  avx_B_half :: m512i
  avx_inv_q2_mod_q1 :: m512i
  avx_inv_q1_mod_q2 :: m512i

definition gadget_consts ::
    "'z special_zn \<times> 'z special_zn \<Rightarrow> 'z zn_arith \<times> 'z zn_arith \<Rightarrow> int \<Rightarrow> ('e, gadget) outcome" where
  "gadget_consts rns_base Zqs q =
     (let Zq1 = fst Zqs; Zq2 = snd Zqs; q1 = zn_modulus Zq1; q2 = zn_modulus Zq2;
          multiple = (\<lambda>m. (drop_bit LOG2_B q div m + 2) * m)
      in bind_outcome (unwrap (zn_invert Zq1 (zn_of_int Zq1 q2))) (\<lambda>q2_inv_mod_q1.
         bind_outcome (unwrap (zn_invert Zq2 (zn_of_int Zq2 q1))) (\<lambda>q1_inv_mod_q2.
         Ok \<lparr>avx_q = mm512_set1_epi64 (word_of_int q),
             avx_q1_multiple = mm512_set1_epi64 (word_of_int (multiple q1)),
             avx_q2_multiple = mm512_set1_epi64 (word_of_int (multiple q2)),
             avx_q_half = mm512_set1_epi64 (word_of_int (q div 2)),
             avx_B_half = mm512_set1_epi64 (push_bit LOG2_B 1 div 2),
             avx_inv_q2_mod_q1 = from_components (fst rns_base) (replicate 8 q2_inv_mod_q1),
             avx_inv_q1_mod_q2 = from_components (snd rns_base) (replicate 8 q1_inv_mod_q2)\<rparr>)))"

text \<open>The representative between \<open>-q/2\<close> and \<open>q/2\<close> of two residues.\<close>

definition shortest_lift_avx :: "gadget \<Rightarrow> 'z special_zn \<times> 'z special_zn \<Rightarrow> m512i \<times> m512i \<Rightarrow> m512i" where
  "shortest_lift_avx gd rns_base x =
     (let entry0 = simd_smallest_positive_lift (fst rns_base) (mul_assign (fst rns_base) (fst x) (avx_inv_q2_mod_q1 gd));
          entry1 = simd_smallest_positive_lift (snd rns_base) (mul_assign (snd rns_base) (snd x) (avx_inv_q1_mod_q2 gd));
          shortest_lift = mm512_add_epi64 (mm512_mul_epu32 entry0 (sz_modulusx8 (snd rns_base)))
            (mm512_mul_epu32 entry1 (sz_modulusx8 (fst rns_base)));
          greater_than_q = mm512_cmpgt_epi64_mask shortest_lift (avx_q gd);
          shortest_lift = mm512_sub_epi64 shortest_lift (mm512_mask (avx_q gd) greater_than_q);
          greater_than_q_half = mm512_cmpgt_epi64_mask shortest_lift (avx_q_half gd)
      in mm512_sub_epi64 shortest_lift (mm512_mask (avx_q gd) greater_than_q_half))"

text \<open>One of the two blocks: the digit modulo both primes, and what is left.\<close>

definition split_digit :: "gadget \<Rightarrow> 'z special_zn \<times> 'z special_zn \<Rightarrow> m512i \<Rightarrow> (m512i \<times> m512i) \<times> m512i" where
  "split_digit gd rns_base current =
     (let high = mm512_srai_epi64 LOG2_B (mm512_add_epi64 current (avx_B_half gd));
          low = mm512_sub_epi64 current (mm512_slli_epi64 LOG2_B high)
      in ((simd_from_p_sqr (fst rns_base) (mm512_add_epi64 low (avx_q1_multiple gd)),
           simd_from_p_sqr (snd rns_base) (mm512_add_epi64 low (avx_q2_multiple gd))), high))"

definition decompose_entry ::
    "gadget \<Rightarrow> 'z special_zn \<times> 'z special_zn \<Rightarrow> m512i \<times> m512i \<Rightarrow> (m512i \<times> m512i) \<times> (m512i \<times> m512i)" where
  "decompose_entry gd rns_base x =
     (let current = shortest_lift_avx gd rns_base x;
          (digit0, current) = split_digit gd rns_base current;
          (digit1, _) = split_digit gd rns_base current
      in (digit0, digit1))"


section \<open>The automorphism on the \<open>a\<close>-part\<close>

fun place_rows :: "nat \<Rightarrow> nat \<Rightarrow> nat \<Rightarrow> nat \<Rightarrow> rns_el \<Rightarrow> rns_el \<Rightarrow> ('e, rns_el) outcome" where
  "place_rows N inv_g i 0 current gal_result = Ok gal_result"
| "place_rows N inv_g i (Suc k) current gal_result =
     bind_outcome (galois_to_index N (2 * N) ((inv_g * index_to_galois N (2 * N) i) mod (2 * N))) (\<lambda>out_i.
       if out_i \<ge> length (fst gal_result) \<or> out_i \<ge> length (snd gal_result) \<or>
          i \<ge> length (fst current) \<or> i \<ge> length (snd current) then Panic
       else place_rows N inv_g (i + 1) k current
         ((fst gal_result)[out_i := fst current ! i], (snd gal_result)[out_i := snd current ! i]))"

definition gadget_product :: "'z special_zn \<Rightarrow> nat \<Rightarrow> m512i list list \<Rightarrow> m512i list list \<Rightarrow> ('e, m512i list) outcome" where
  "gadget_product r N decomposed gk_a =
     try_map (\<lambda>i. sum_els r (map (\<lambda>k. mul_assign r (decomposed ! k ! i) (gk_a ! k ! i)) [0..<GK_DIGITS])) [0..<N]"

definition both_ntts ::
    "'z special_zn \<times> 'z special_zn \<Rightarrow> m512i \<times> m512i \<Rightarrow> ntt_table \<times> ntt_table \<Rightarrow> rns_el \<Rightarrow> ('e, rns_el) outcome" where
  "both_ntts rns_base zeta ntts el =
     bind_outcome (weighted_ntt (fst rns_base) (fst zeta) (fst ntts) (fst el)) (\<lambda>x.
     bind_outcome (weighted_ntt (snd rns_base) (snd zeta) (snd ntts) (snd el)) (\<lambda>y. Ok (x, y)))"

definition partial_gal ::
    "'z special_zn \<times> 'z special_zn \<Rightarrow> 'z zn_arith \<times> 'z zn_arith \<Rightarrow> m512i \<times> m512i \<Rightarrow> ntt_table \<times> ntt_table \<Rightarrow> int \<Rightarrow>
     nat \<Rightarrow> nat \<Rightarrow> rns_el \<Rightarrow> rns_el list \<Rightarrow> ('e, rns_el \<times> rns_el list) outcome" where
  "partial_gal rns_base Zqs zeta ntts q N inv_g current gk_a =
     bind_outcome (place_rows N inv_g 0 N current
       (replicate N (from_int (fst rns_base) 0), replicate N (from_int (snd rns_base) 0))) (\<lambda>gal_result.
     bind_outcome (gadget_consts rns_base Zqs q) (\<lambda>gd.
     let gal_result0 = inv_weighted_ntt (fst rns_base) (fst zeta) (fst ntts) (fst gal_result);
         gal_result1 = inv_weighted_ntt (snd rns_base) (snd zeta) (snd ntts) (snd gal_result);
         entries = map (\<lambda>i. decompose_entry gd rns_base (gal_result0 ! i, gal_result1 ! i)) [0..<N];
         digit0 = (map (fst \<circ> fst) entries, map (snd \<circ> fst) entries);
         digit1 = (map (fst \<circ> snd) entries, map (snd \<circ> snd) entries)
     in bind_outcome (try_map (both_ntts rns_base zeta ntts) [digit0, digit1]) (\<lambda>decomposed.
        bind_outcome (gadget_product (fst rns_base) N (map fst decomposed) (map fst gk_a)) (\<lambda>reply_a0.
        bind_outcome (gadget_product (snd rns_base) N (map snd decomposed) (map snd gk_a)) (\<lambda>reply_a1.
        Ok ((reply_a0, reply_a1), decomposed))))))"

end
