(* ===== verification/Ntt_Correct.thy ===== *)
theory Ntt_Correct
  imports Base_Pir Simd_Zn_Correct
begin

text \<open>
  The weighted transforms of \<open>base_pir.rs\<close> over a contract for the fast Fourier transform of
  \<open>feanor_math\<close>: \<open>weighted_ntt\<close> evaluates a polynomial at the odd powers of the inverse root, and
  \<open>inv_weighted_ntt\<close> interpolates.
\<close>

section \<open>Vectors of ring elements\<close>

text \<open>\<open>vec r n vs F\<close>: the \<open>n\<close> elements represent \<open>F i l\<close> at position \<open>i\<close> and lane \<open>l\<close>, at most \<open>2p\<close>.\<close>

definition vec :: "'z special_zn \<Rightarrow> nat \<Rightarrow> m512i list \<Rightarrow> (nat \<Rightarrow> nat \<Rightarrow> int) \<Rightarrow> bool" where
  "vec r n vs F \<longleftrightarrow> length vs = n \<and> (\<forall>i < n. represents r (2 * pm r) (vs ! i) (F i))"

lemma vecD: "vec r n vs F \<Longrightarrow> length vs = n" "vec r n vs F \<Longrightarrow> i < n \<Longrightarrow> represents r (2 * pm r) (vs ! i) (F i)"
  by (simp_all add: vec_def)

lemma vec_cong:
  assumes "vec r n vs F" "\<And>i l. i < n \<Longrightarrow> l < 8 \<Longrightarrow> F i l mod pm r = G i l mod pm r"
  shows "vec r n vs G"
  using assms by (auto simp: vec_def intro: represents_cong)

lemma vec_unique:
  assumes "vec r n vs F" "vec r n vs G" "i < n" "l < 8"
  shows "F i l mod pm r = G i l mod pm r"
  using representsD(3) [OF vecD(2) [OF assms(1,3)] assms(4)] representsD(3) [OF vecD(2) [OF assms(2,3)] assms(4)] by simp

lemma vec_Cons:
  "vec r n (v # vs) F \<longleftrightarrow> (\<exists>k. n = Suc k \<and> represents r (2 * pm r) v (F 0) \<and> vec r k vs (\<lambda>i. F (Suc i)))"
  by (auto simp: vec_def nth_Cons' less_Suc_eq_0_disj)

lemma represents_two:
  assumes "special_ok r" "represents r (pm r - 1) v f"
  shows "represents r (2 * pm r) v f"
  using represents_mono [OF assms(2), of "2 * pm r"] md_bounds(1) [OF assms(1)] by simp

lemma zeros_vec: "special_ok r \<Longrightarrow> vec r n (replicate n (from_int r 0)) (\<lambda>_ _. 0)"
  by (simp add: vec_def represents_two from_int_represents)

lemma weight_vec:
  assumes r: "special_ok r" and z: "represents r (2 * pm r) zeta (\<lambda>_. z)"
    and "represents r (2 * pm r) current (\<lambda>_. c)" "vec r n vs F"
  shows "vec r n (weight r zeta current vs) (\<lambda>i l. F i l * (c * z ^ i))"
  using assms(3-)
proof (induction vs arbitrary: current c n F)
  case (Cons v vs)
  then obtain k where k: "n = Suc k" "represents r (2 * pm r) v (F 0)" "vec r k vs (\<lambda>i. F (Suc i))"
    by (auto simp: vec_Cons)
  have "vec r k (weight r zeta (mul_assign r current zeta) vs) (\<lambda>i l. F (Suc i) l * ((c * z) * z ^ i))"
    by (rule Cons.IH [OF mul_assign_represents [OF r Cons.prems(1) z] k(3)])
  moreover have "represents r (2 * pm r) (mul_assign r v current) (\<lambda>l. F 0 l * c)"
    by (rule mul_assign_represents [OF r k(2) Cons.prems(1)])
  ultimately show ?case by (simp add: vec_Cons k(1) mult.assoc)
qed (simp add: vec_def)


section \<open>The contract of the transform\<close>

text \<open>
  A table of \<open>feanor_math\<close> for a root with inverse \<open>w\<close> maps \<open>a\<close> to \<open>(\<Sum>i. a i * w ^ (i * j))\<close>, in lazily
  reduced elements; \<open>inv_fft\<close> inverts it.
\<close>

definition fft_value :: "int \<Rightarrow> nat \<Rightarrow> (nat \<Rightarrow> nat \<Rightarrow> int) \<Rightarrow> nat \<Rightarrow> nat \<Rightarrow> int" where
  "fft_value w n F j l = (\<Sum>i < n. F i l * w ^ (i * j))"

definition ntt_spec :: "'z special_zn \<Rightarrow> nat \<Rightarrow> int \<Rightarrow> ntt_table \<Rightarrow> bool" where
  "ntt_spec r n w t \<longleftrightarrow> (\<forall>vs F. vec r n vs F \<longrightarrow> vec r n (fft t vs) (fft_value w n F)) \<and>
     (\<forall>vs V. vec r n vs V \<longrightarrow> (\<exists>F. vec r n (inv_fft t vs) F \<and>
        (\<forall>j < n. \<forall>l < 8. fft_value w n F j l mod pm r = V j l mod pm r)))"

text \<open>
  \<open>root_ok r n zeta y t\<close>: the lanes of \<open>zeta\<close> are some \<open>z\<close> with inverse \<open>y\<close> in the field, and \<open>t\<close> is a table
  for \<open>z\<^sup>2\<close>. With \<open>z\<close> a root of order \<open>2n\<close>, \<open>slot_value y n F j\<close> is the value of the polynomial at \<open>z ^ - (2j + 1)\<close>.
\<close>

definition root_ok :: "'z special_zn \<Rightarrow> nat \<Rightarrow> m512i \<Rightarrow> int \<Rightarrow> ntt_table \<Rightarrow> bool" where
  "root_ok r n zeta y t \<longleftrightarrow> special_ok r \<and> (\<exists>z. represents r (2 * pm r) zeta (\<lambda>_. z) \<and> (z * y) mod pm r = 1) \<and>
     checked_left_div r (from_int r 1) zeta \<noteq> None \<and> ntt_spec r n (y ^ 2) t"

definition slot_value :: "int \<Rightarrow> nat \<Rightarrow> (nat \<Rightarrow> nat \<Rightarrow> int) \<Rightarrow> nat \<Rightarrow> nat \<Rightarrow> int" where
  "slot_value y n F j l = (\<Sum>i < n. F i l * y ^ (i * (2 * j + 1)))"

lemma fft_value_weighted: "fft_value (y ^ 2) n (\<lambda>i l. F i l * y ^ i) = slot_value y n F"
  unfolding fft_value_def slot_value_def
proof (intro ext sum.cong)
  fix i j l :: nat
  have "i * (2 * j + 1) = i + 2 * (i * j)" by (simp add: algebra_simps)
  then have "y ^ (i * (2 * j + 1)) = y ^ i * (y ^ 2) ^ (i * j)"
    by (simp only: power_add power_mult [symmetric])
  then show "F i l * y ^ i * (y ^ 2) ^ (i * j) = F i l * y ^ (i * (2 * j + 1))" by (simp only: mult.assoc)
qed simp

lemma sum_mod_cong:
  assumes "\<And>i. i \<in> A \<Longrightarrow> f i mod p = g i mod (p :: int)"
  shows "sum f A mod p = sum g A mod p"
proof -
  have "sum f A mod p = (\<Sum>i \<in> A. f i mod p) mod p" by (rule mod_sum_eq [symmetric])
  also have "(\<Sum>i \<in> A. f i mod p) = (\<Sum>i \<in> A. g i mod p)" using assms by (rule sum.cong [OF refl])
  also have "\<dots> mod p = sum g A mod p" by (rule mod_sum_eq)
  finally show ?thesis .
qed

lemma slot_cong:
  assumes "\<And>i. i < n \<Longrightarrow> F i l mod p = G i l mod (p :: int)"
  shows "slot_value y n F j l mod p = slot_value y n G j l mod p"
  unfolding slot_value_def using assms by (intro sum_mod_cong mod_mult_cong) simp_all

lemma slot_linear: "slot_value y n (\<lambda>i l. F i l + c * G i l) j l = slot_value y n F j l + c * slot_value y n G j l"
  by (simp add: slot_value_def sum.distrib sum_distrib_left algebra_simps)


section \<open>The weighted transforms\<close>

lemma checked_div_inverse:
  assumes r: "special_ok r" and z: "represents r (2 * pm r) zeta (\<lambda>_. z)" and y: "(z * y) mod pm r = 1"
    and d: "checked_left_div r (from_int r 1) zeta = Some zi"
  shows "represents r (2 * pm r) zi (\<lambda>_. y)"
proof -
  let ?R = "sz_component_ring r"
  let ?ls = "get_components r (reduce_from_2p r (from_int r 1))" and ?rs = "get_components r (reduce_from_2p r zeta)"
  define qs where "qs = map (\<lambda>i. zn_checked_div ?R (?ls ! i) (?rs ! i)) [0..<8]"
  have zi: "None \<notin> set qs" "zi = from_components r (map the qs)"
    using d by (simp_all add: checked_left_div_def Let_def qs_def split: if_splits)
  have small: "pm r < 2 ^ 31" using md_bounds(2) [OF r] by simp
  note one = reduce_from_2p_represents [OF r represents_two [OF r from_int_represents [OF r, of 1]]]
  note zz = reduce_from_2p_represents [OF r z]
  have "zn_lift ?R (map the qs ! l) mod pm r = y mod pm r" if l: "l < 8" for l
  proof -
    have "qs ! l \<noteq> None" using zi(1) l by (metis length_map length_upt minus_nat.diff_0 nth_mem qs_def)
    then obtain q where q: "zn_checked_div ?R (?ls ! l) (?rs ! l) = Some q" "map the qs ! l = q"
      using l by (auto simp: qs_def)
    have "(zn_lift ?R (?rs ! l) * zn_lift ?R q) mod pm r = zn_lift ?R (?ls ! l)"
      using q(1) special_okD(4,5) [OF r] by (simp add: zn_spec_def)
    then have e: "(z * zn_lift ?R q) mod pm r = 1 mod pm r"
      using components_represents [OF r one small l] components_represents [OF r zz small l]
      by (simp add: mod_mult_left_eq)
    have "zn_lift ?R q mod pm r = (zn_lift ?R q * ((z * y) mod pm r)) mod pm r" using y by simp
    also have "\<dots> = (((z * zn_lift ?R q) mod pm r) * y) mod pm r"
      by (simp only: mod_mult_left_eq mod_mult_right_eq ac_simps)
    also have "\<dots> = y mod pm r" unfolding e by (simp add: mod_mult_left_eq)
    finally show ?thesis unfolding q(2) .
  qed
  then show ?thesis
    unfolding zi(2) by (intro represents_two [OF r] represents_cong [OF from_components_represents [OF r]])
qed

lemma weighted_ntt_vec:
  assumes root: "root_ok r n zeta y t" and vs: "vec r n vs F"
  shows "\<exists>res. weighted_ntt r zeta t vs = (Ok res :: ('e, m512i list) outcome) \<and> vec r n res (slot_value y n F)"
proof -
  have r: "special_ok r" and t: "ntt_spec r n (y ^ 2) t" using root by (simp_all add: root_ok_def)
  obtain z where z: "represents r (2 * pm r) zeta (\<lambda>_. z)" "(z * y) mod pm r = 1" using root by (auto simp: root_ok_def)
  obtain zi where zi: "checked_left_div r (from_int r 1) zeta = Some zi" using root by (auto simp: root_ok_def)
  have "vec r n (weight r zi (from_int r 1) vs) (\<lambda>i l. F i l * (1 * y ^ i))"
    by (rule weight_vec [OF r checked_div_inverse [OF r z zi] represents_two [OF r from_int_represents [OF r]] vs])
  then have "vec r n (fft t (weight r zi (from_int r 1) vs)) (fft_value (y ^ 2) n (\<lambda>i l. F i l * y ^ i))"
    using t unfolding ntt_spec_def by simp
  then show ?thesis by (simp add: weighted_ntt_def unwrap_def zi fft_value_weighted)
qed

lemma inv_weighted_ntt_vec:
  assumes root: "root_ok r n zeta y t" and vs: "vec r n vs V"
  shows "\<exists>F. vec r n (inv_weighted_ntt r zeta t vs) F \<and> (\<forall>j < n. \<forall>l < 8. slot_value y n F j l mod pm r = V j l mod pm r)"
proof -
  have r: "special_ok r" and t: "ntt_spec r n (y ^ 2) t" using root by (simp_all add: root_ok_def)
  obtain z where z: "represents r (2 * pm r) zeta (\<lambda>_. z)" "(z * y) mod pm r = 1" using root by (auto simp: root_ok_def)
  obtain G where G: "vec r n (inv_fft t vs) G" "\<forall>j < n. \<forall>l < 8. fft_value (y ^ 2) n G j l mod pm r = V j l mod pm r"
    using t vs unfolding ntt_spec_def by blast
  let ?F = "\<lambda>i l. G i l * z ^ i"
  have "vec r n (inv_weighted_ntt r zeta t vs) (\<lambda>i l. G i l * (1 * z ^ i))"
    unfolding inv_weighted_ntt_def
    by (rule weight_vec [OF r z(1) represents_two [OF r from_int_represents [OF r]] G(1)])
  moreover have "slot_value y n ?F j l mod pm r = fft_value (y ^ 2) n G j l mod pm r" for j l
  proof -
    have "(?F i l * y ^ i * (y ^ 2) ^ (i * j)) mod pm r = (G i l * (y ^ 2) ^ (i * j)) mod pm r" for i
    proof -
      have "(z * y) ^ i mod pm r = 1 mod pm r" using z(2) power_mod [of "z * y" "pm r" i] by simp
      then have "((z * y) ^ i * (G i l * (y ^ 2) ^ (i * j))) mod pm r = (1 * (G i l * (y ^ 2) ^ (i * j))) mod pm r"
        by (rule mod_mult_cong) simp
      then show ?thesis by (simp add: power_mult_distrib ac_simps)
    qed
    then show ?thesis
      unfolding fft_value_weighted [symmetric] fft_value_def by (intro sum_mod_cong) simp
  qed
  ultimately show ?thesis using G(2) by (intro exI [of _ ?F]) simp
qed

end
