(* ===== verification/Main_Loop_Correct.thy ===== *)
theory Main_Loop_Correct
  imports Main_Loop Simd_Zn_Correct
begin

text \<open>
  The streaming loop against its reference: the register traffic, the loads ahead and the unrolling
  compute, pass by pass, a multiply-add at every position followed by the row permutation; and the lazy
  sums never leave their 64 bits, so that the result is the exact sum modulo the prime.
\<close>

section \<open>Registers of two elements\<close>

lemma split_join_lanes:
  "even (length ws) \<Longrightarrow> split_lanes (join_lanes ws) = ws"
proof (induction ws rule: join_lanes.induct)
  case (1 lo hi ws)
  have "ucast (ucast lo OR push_bit 32 (ucast hi) :: u64) = lo"
    "ucast (drop_bit 32 (ucast lo OR push_bit 32 (ucast hi) :: u64)) = hi"
    by (rule bit_word_eqI; auto simp: bit_simps dest: bit_imp_le_length)+
  then show ?case using 1 by (simp add: split_lanes_def)
qed (simp_all add: split_lanes_def)

lemma join_lanes_append:
  "even (length xs) \<Longrightarrow> join_lanes (xs @ ys) = join_lanes xs @ join_lanes ys"
  by (induction xs rule: join_lanes.induct) simp_all

lemma length_join_lanes: "length (join_lanes ws) = length ws div 2"
  by (induction ws rule: join_lanes.induct) simp_all

lemma extract_load:
  assumes "length (xs ! k) = 8" "length (xs ! (k + 1)) = 8"
  shows "mm512_extract_si256 (load512 xs k) = (xs ! k, xs ! (k + 1))"
  using assms by (simp add: load512_def mm512_extract_si256_def join_lanes_append length_join_lanes split_join_lanes)


section \<open>A pass without registers\<close>

definition whole :: "compressed list \<Rightarrow> nat \<Rightarrow> bool" where
  "whole xs n \<longleftrightarrow> length xs = n \<and> (\<forall>k < n. length (xs ! k) = 8)"

definition inputs_ok :: "pir_inputs \<Rightarrow> nat \<Rightarrow> nat \<Rightarrow> bool" where
  "inputs_ok inp N len \<longleftrightarrow> whole (in_qry_b inp) N \<and> (\<forall>k < 2. whole (in_gk_b inp ! k) N) \<and>
     (\<forall>k < 2. whole (in_inner_prod_gk inp ! k) (N * len)) \<and> whole (in_transformed_entries inp) (N * len)"

definition pass_value :: "pir_inputs \<Rightarrow> m512i list \<Rightarrow> nat \<Rightarrow> nat \<Rightarrow> m512i" where
  "pass_value inp sums base j =
     mul_add (in_transformed_entries inp ! (base + j)) (in_qry_b inp ! j)
      (mul_add (in_inner_prod_gk inp ! 1 ! (base + j)) (in_gk_b inp ! 1 ! j)
        (mul_add (in_inner_prod_gk inp ! 0 ! (base + j)) (in_gk_b inp ! 0 ! j) (sums ! j)))"

definition put :: "nat list \<Rightarrow> (nat \<Rightarrow> m512i) \<Rightarrow> nat list \<Rightarrow> m512i list \<Rightarrow> m512i list" where
  "put tab f js sn = foldl (\<lambda>sn j. sn[tab ! j := f j]) sn js"

lemma put_append: "put tab f (is @ js) sn = put tab f js (put tab f is sn)"
  by (simp add: put_def)

lemma length_put [simp]: "length (put tab f js sn) = length sn"
  by (induction js rule: rev_induct) (simp_all add: put_def)

lemma nth_put:
  assumes "inj_on (\<lambda>j. tab ! j) (set js)" "distinct js" "j \<in> set js" "tab ! j < length sn"
  shows "put tab f js sn ! (tab ! j) = f j"
  using assms
proof (induction js rule: rev_induct)
  case (snoc k js)
  have "put tab f (js @ [k]) sn = (put tab f js sn)[tab ! k := f k]" by (simp add: put_def)
  moreover have "tab ! j = tab ! k \<longleftrightarrow> j = k" using snoc.prems by (auto simp: inj_on_def)
  ultimately show ?case using snoc by (auto simp: nth_list_update inj_on_def)
qed simp

text \<open>Within a block the first \<open>k\<close> registers of each array already hold the next block.\<close>

definition preload_upto :: "pir_inputs \<Rightarrow> nat \<Rightarrow> nat \<Rightarrow> preloaded" where
  "preload_upto inp index k =
     (map (\<lambda>idx. load512 (in_inner_prod_gk inp ! 0) (index + idx * 2 + (if idx < k then 16 else 0))) [0..<8],
      map (\<lambda>idx. load512 (in_inner_prod_gk inp ! 1) (index + idx * 2 + (if idx < k then 16 else 0))) [0..<8],
      map (\<lambda>idx. load512 (in_transformed_entries inp) (index + idx * 2 + (if idx < k then 16 else 0))) [0..<8])"

lemma preload_upto_ends:
  "preload_upto inp index 0 = preload inp index" "preload_upto inp index 8 = preload inp (index + 16)"
  by (simp_all add: preload_upto_def preload_def algebra_simps)

lemma map_upt_update:
  "k < n \<Longrightarrow> (map (\<lambda>i. g i (i < k)) [0..<n])[k := g k True] = map (\<lambda>i. g i (i < Suc k)) [0..<n]"
  by (rule nth_equalityI) (auto simp: nth_list_update less_Suc_eq)

lemma unrolled_step_eq:
  assumes ok: "inputs_ok inp N len" and i: "idx < 8" and j: "j + 16 \<le> N" and base: "base + N \<le> N * len"
  shows "unrolled_step tab inp sums j (base + j) b (sn, if b then preload_upto inp (base + j) idx else preload inp (base + j)) idx =
    (put tab (pass_value inp sums base) [j + idx * 2, j + idx * 2 + 1] sn,
     if b then preload_upto inp (base + j) (idx + 1) else preload inp (base + j))"
proof -
  let ?k = "base + j + idx * 2"
  have k: "?k + 1 < N * len" "j + idx * 2 + 1 < N" using assms(2-4) by simp_all
  have stored: "mm512_extract_si256 (load512 xs ?k) = (xs ! ?k, xs ! (?k + 1))" if "whole xs (N * len)" for xs
    using that k by (intro extract_load) (simp_all add: whole_def)
  have received: "mm512_extract_si256 (load512 xs (j + idx * 2)) = (xs ! (j + idx * 2), xs ! (j + idx * 2 + 1))" if "whole xs N" for xs
    using that k by (intro extract_load) (simp_all add: whole_def)
  note loads = stored [of "in_inner_prod_gk inp ! 0"] stored [of "in_inner_prod_gk inp ! 1"] stored [of "in_transformed_entries inp"]
    received [of "in_gk_b inp ! 0"] received [of "in_gk_b inp ! 1"] received [of "in_qry_b inp"]
  have pre: "(if b then preload_upto inp (base + j) idx else preload inp (base + j)) = (ig0, ig1, te) \<Longrightarrow>
      ig0 ! idx = load512 (in_inner_prod_gk inp ! 0) ?k \<and> ig1 ! idx = load512 (in_inner_prod_gk inp ! 1) ?k \<and>
      te ! idx = load512 (in_transformed_entries inp) ?k" for ig0 ig1 te
    using i by (auto simp: preload_upto_def preload_def split: if_splits)
  obtain ig0 ig1 te where r: "(if b then preload_upto inp (base + j) idx else preload inp (base + j)) = (ig0, ig1, te)"
    by (metis surj_pair)
  have next_pre: "b \<Longrightarrow> (ig0[idx := load512 (in_inner_prod_gk inp ! 0) (?k + 16)], ig1[idx := load512 (in_inner_prod_gk inp ! 1) (?k + 16)],
      te[idx := load512 (in_transformed_entries inp) (?k + 16)]) = preload_upto inp (base + j) (idx + 1)"
    using r map_upt_update [OF i, of "\<lambda>i b. load512 (in_inner_prod_gk inp ! 0) (base + j + i * 2 + (if b then 16 else 0))"]
      map_upt_update [OF i, of "\<lambda>i b. load512 (in_inner_prod_gk inp ! 1) (base + j + i * 2 + (if b then 16 else 0))"]
      map_upt_update [OF i, of "\<lambda>i b. load512 (in_transformed_entries inp) (base + j + i * 2 + (if b then 16 else 0))"]
    by (auto simp: preload_upto_def)
  have w: "whole (in_inner_prod_gk inp ! 0) (N * len)" "whole (in_inner_prod_gk inp ! 1) (N * len)"
    "whole (in_transformed_entries inp) (N * len)" "whole (in_gk_b inp ! 0) N" "whole (in_gk_b inp ! 1) N" "whole (in_qry_b inp) N"
    using ok by (simp_all add: inputs_ok_def)
  have v: "put tab (pass_value inp sums base) [j + idx * 2, j + idx * 2 + 1] sn =
      sn[tab ! (j + idx * 2) := pass_value inp sums base (j + idx * 2),
         tab ! (j + idx * 2 + 1) := pass_value inp sums base (j + idx * 2 + 1)]"
    by (simp add: put_def)
  have e: "base + (j + idx * 2) = ?k" "base + (j + idx * 2 + 1) = ?k + 1" by simp_all
  show ?thesis
    unfolding v unrolled_step_def Let_def r prod.case pre [OF r, THEN conjunct1] pre [OF r, THEN conjunct2, THEN conjunct1]
      pre [OF r, THEN conjunct2, THEN conjunct2] loads(1) [OF w(1)] loads(2) [OF w(2)] loads(3) [OF w(3)]
      loads(4) [OF w(4)] loads(5) [OF w(5)] loads(6) [OF w(6)] pass_value_def e fst_conv snd_conv
    using next_pre r by (auto split: if_splits)
qed

lemma block_indices: "[0, 1, 2, 3, 4, 5, 6, 7] = [0..<8 :: nat]"
  by code_simp

lemma unrolled_upto:
  assumes ok: "inputs_ok inp N len" and j: "j + 16 \<le> N" and base: "base + N \<le> N * len" and k: "k \<le> 8"
  shows "foldl (unrolled_step tab inp sums j (base + j) b) (sn, preload inp (base + j)) [0..<k] =
    (put tab (pass_value inp sums base) [j..<j + k * 2] sn,
     if b then preload_upto inp (base + j) k else preload inp (base + j))"
  using k
proof (induction k)
  case 0
  then show ?case by (simp add: put_def preload_upto_ends)
next
  case (Suc k)
  have "[j..<j + Suc k * 2] = [j..<j + k * 2] @ [j + k * 2, Suc (j + k * 2)]" by (simp add: upt_conv_Cons)
  then show ?case
    using Suc unrolled_step_eq [OF ok _ j base, of k tab sums b, unfolded One_nat_def add_Suc_right add_0_right] by (simp add: put_append)
qed

lemma unrolled_body_eq:
  assumes "inputs_ok inp N len" "j + 16 \<le> N" "base + N \<le> N * len"
  shows "unrolled_loop_body tab inp sums j (base + j) b (sn, preload inp (base + j)) =
    (put tab (pass_value inp sums base) [j..<j + 16] sn, preload inp (base + (if b then j + 16 else j)))"
  unfolding unrolled_loop_body_def block_indices
  using unrolled_upto [OF assms, of 8 tab sums b sn] by (simp add: preload_upto_ends add.assoc del: upt_rec_numeral)

lemma pass_blocks_eq:
  assumes ok: "inputs_ok inp N len" and base: "base + N \<le> N * len" and "j + 16 * (k + 1) \<le> N"
  shows "pass_blocks tab inp sums k j (base + j) (sn, preload inp (base + j)) =
    put tab (pass_value inp sums base) [j..<j + 16 * (k + 1)] sn"
  using assms(3)
proof (induction k arbitrary: j sn)
  case (0 j)
  then show ?case using unrolled_body_eq [OF ok _ base] by simp
next
  case (Suc k)
  have "[j..<j + 16 * (Suc k + 1)] = [j..<j + 16] @ [j + 16..<j + 16 + 16 * (k + 1)]"
    using upt_add_eq_append [of j "j + 16" "16 * (k + 1)"] by (simp add: algebra_simps)
  then show ?case
    using Suc.IH [of "j + 16"] Suc.prems unrolled_body_eq [OF ok _ base, of j tab sums True sn]
    by (simp add: put_append add.assoc)
qed

lemma one_pass_eq:
  assumes "inputs_ok inp N len" "base + N \<le> N * len" "N mod 16 = 0" "0 < N"
  shows "one_pass N tab inp base sums sn = put tab (pass_value inp sums base) [0..<N] sn"
proof -
  obtain k where N: "N = 16 * (k + 1)" using assms(3,4) by (metis Suc_eq_plus1 gr0_implies_Suc dvd_def mod_0_imp_dvd mult_0_right not_gr_zero old.nat.exhaust)
  then have "(N - UNROLL_COUNT) div UNROLL_COUNT = k" by (simp add: UNROLL_COUNT_def)
  then show ?thesis
    using pass_blocks_eq [OF assms(1,2), of 0 k] N by (simp add: one_pass_def)
qed


section \<open>The reference sum\<close>

text \<open>\<open>held r c f\<close>: the eight 32-bit lanes of a compressed element represent \<open>f\<close>.\<close>

definition held :: "'z special_zn \<Rightarrow> compressed \<Rightarrow> (nat \<Rightarrow> int) \<Rightarrow> bool" where
  "held r c f \<longleftrightarrow> length c = 8 \<and> represents r (2 * pm r) (map scast c) f"

text \<open>\<open>inputs_hold r inp N len D E G Q\<close>: pass \<open>i\<close> finds \<open>D k i j\<close> and \<open>E i j\<close> stored at position \<open>j\<close>; the query brings \<open>G k j\<close> and \<open>Q j\<close>.\<close>

definition inputs_hold ::
    "'z special_zn \<Rightarrow> pir_inputs \<Rightarrow> nat \<Rightarrow> nat \<Rightarrow> (nat \<Rightarrow> nat \<Rightarrow> nat \<Rightarrow> nat \<Rightarrow> int) \<Rightarrow> (nat \<Rightarrow> nat \<Rightarrow> nat \<Rightarrow> int) \<Rightarrow>
     (nat \<Rightarrow> nat \<Rightarrow> nat \<Rightarrow> int) \<Rightarrow> (nat \<Rightarrow> nat \<Rightarrow> int) \<Rightarrow> bool" where
  "inputs_hold r inp N len D E G Q \<longleftrightarrow> inputs_ok inp N len \<and>
     (\<forall>j < N. held r (in_qry_b inp ! j) (Q j) \<and> (\<forall>k < 2. held r (in_gk_b inp ! k ! j) (G k j))) \<and>
     (\<forall>i < len. \<forall>j < N. held r (in_transformed_entries inp ! (i * N + j)) (E i j) \<and>
        (\<forall>k < 2. held r (in_inner_prod_gk inp ! k ! (i * N + j)) (D k i j)))"

definition pass_term ::
    "(nat \<Rightarrow> nat \<Rightarrow> nat \<Rightarrow> nat \<Rightarrow> int) \<Rightarrow> (nat \<Rightarrow> nat \<Rightarrow> nat \<Rightarrow> int) \<Rightarrow> (nat \<Rightarrow> nat \<Rightarrow> nat \<Rightarrow> int) \<Rightarrow> (nat \<Rightarrow> nat \<Rightarrow> int) \<Rightarrow>
     nat \<Rightarrow> nat \<Rightarrow> nat \<Rightarrow> int" where
  "pass_term D E G Q i j l = D 0 i j l * G 0 j l + D 1 i j l * G 1 j l + E i j l * Q j l"

text \<open>Horner's rule with an automorphism in place of a power: \<open>s j\<close> is the slot that moves to slot \<open>j\<close>.\<close>

fun rotated_sum :: "(nat \<Rightarrow> nat) \<Rightarrow> (nat \<Rightarrow> nat \<Rightarrow> nat \<Rightarrow> int) \<Rightarrow> nat \<Rightarrow> nat \<Rightarrow> nat \<Rightarrow> int" where
  "rotated_sum s t 0 j l = 0"
| "rotated_sum s t (Suc i) j l = rotated_sum s t i (s j) l + t i j l"

declare rotated_sum.simps [simp del]

lemma mul_add_represents:
  assumes r: "special_ok r" and c: "held r c f" and d: "held r d g" and v: "represents r b v h"
    and small: "b + 4 * pm r * pm r < 2 ^ 64"
  shows "represents r (b + 4 * pm r * pm r) (mul_add c d v) (\<lambda>i. h i + f i * g i)"
proof -
  let ?c = "map scast c :: m512i" and ?d = "map scast d :: m512i"
  have x: "represents r (2 * pm r) ?c f" "represents r (2 * pm r) ?d g" using c d by (simp_all add: held_def)
  have two: "2 * pm r < 2 ^ 32" using md_bounds(2) [OF r] by simp
  have lane: "uint (mm512_mul_epu32 ?c ?d ! i) = uint (?c ! i) * uint (?d ! i)" if "i < 8" for i
  proof -
    have "uint (?c ! i) < 2 ^ 32" "uint (?d ! i) < 2 ^ 32"
      using representsD(2) [OF x(1) that] representsD(2) [OF x(2) that] two by (blast intro: le_less_trans)+
    then show ?thesis
      using that representsD(1) [OF x(1)] representsD(1) [OF x(2)] by (simp add: lane_ops mul_epu32_uint del: nth_map)
  qed
  have "uint (?c ! i) * uint (?d ! i) \<le> (2 * pm r) * (2 * pm r)" if "i < 8" for i
    using that representsD(2) [OF x(1)] representsD(2) [OF x(2)] by (intro mult_mono) simp_all
  then have "represents r (4 * pm r * pm r) (mm512_mul_epu32 ?c ?d) (\<lambda>i. f i * g i)"
    using lane representsD [OF x(1)] representsD [OF x(2)]
    by (auto simp: represents_def mult.assoc simp del: nth_map intro: mod_mult_cong)
  from add_represents [OF v this small] show ?thesis
    by (simp add: mul_add_def mm512_cvtepi32_epi64_def)
qed

lemma pass_value_represents:
  assumes r: "special_ok r" and inp: "inputs_hold r inp N len D E G Q" and i: "i < len" "j < N"
    and v: "represents r b (sums ! j) h" and small: "b + 12 * pm r * pm r < 2 ^ 64"
  shows "represents r (b + 12 * pm r * pm r) (pass_value inp sums (i * N) j) (\<lambda>l. h l + pass_term D E G Q i j l)"
proof -
  let ?p = "4 * pm r * pm r"
  have p: "0 \<le> ?p" "12 * pm r * pm r = ?p + ?p + ?p" using md_bounds(1) [OF r] by simp_all
  have h: "held r (in_inner_prod_gk inp ! 0 ! (i * N + j)) (D 0 i j)" "held r (in_gk_b inp ! 0 ! j) (G 0 j)"
    "held r (in_inner_prod_gk inp ! 1 ! (i * N + j)) (D 1 i j)" "held r (in_gk_b inp ! 1 ! j) (G 1 j)"
    "held r (in_transformed_entries inp ! (i * N + j)) (E i j)" "held r (in_qry_b inp ! j) (Q j)"
    using inp i by (simp_all add: inputs_hold_def)
  have s: "b + ?p < 2 ^ 64" "b + ?p + ?p < 2 ^ 64" "b + ?p + ?p + ?p < 2 ^ 64"
    using small p by linarith+
  have "represents r (b + ?p + ?p + ?p) (pass_value inp sums (i * N) j)
      (\<lambda>l. ((h l + D 0 i j l * G 0 j l) + D 1 i j l * G 1 j l) + E i j l * Q j l)"
    unfolding pass_value_def
    by (rule mul_add_represents [OF r h(5,6) mul_add_represents [OF r h(3,4) mul_add_represents [OF r h(1,2) v s(1)] s(2)] s(3)])
  then show ?thesis by (simp add: pass_term_def p(2) add.assoc)
qed


section \<open>The passes\<close>

text \<open>
  The rows of \<open>sum\<close> are kept permuted: row \<open>tab ! j\<close> holds the value of slot \<open>j\<close> of the sum so far.
  \<open>row_maps tab s N\<close>: the table is a bijection of the rows and \<open>s\<close> its inverse.
\<close>

definition row_maps :: "nat list \<Rightarrow> (nat \<Rightarrow> nat) \<Rightarrow> nat \<Rightarrow> bool" where
  "row_maps tab s N \<longleftrightarrow> length tab = N \<and> inj_on (\<lambda>j. tab ! j) {..<N} \<and> (\<forall>j < N. tab ! j < N \<and> s j < N \<and> tab ! s j = j)"

definition rows_hold :: "'z special_zn \<Rightarrow> int \<Rightarrow> nat list \<Rightarrow> nat \<Rightarrow> m512i list \<Rightarrow> (nat \<Rightarrow> nat \<Rightarrow> int) \<Rightarrow> bool" where
  "rows_hold r b tab N sums V \<longleftrightarrow> length sums = N \<and> (\<forall>j < N. represents r b (sums ! (tab ! j)) (V j))"

lemma one_pass_holds:
  assumes r: "special_ok r" and inp: "inputs_hold r inp N len D E G Q" and maps: "row_maps tab s N"
    and N: "N mod 16 = 0" "0 < N" and i: "i < len" and sn: "length sn = N"
    and rows: "rows_hold r b tab N sums (rotated_sum s (pass_term D E G Q) i)" and small: "b + 12 * pm r * pm r < 2 ^ 64"
  shows "rows_hold r (b + 12 * pm r * pm r) tab N (one_pass N tab inp (i * N) sums sn) (rotated_sum s (pass_term D E G Q) (Suc i))"
proof -
  have "Suc i * N \<le> len * N" using i by (intro mult_le_mono1) simp
  then have base: "i * N + N \<le> N * len" by (simp add: mult.commute add.commute)
  have ok: "inputs_ok inp N len" using inp by (simp add: inputs_hold_def)
  let ?put = "put tab (pass_value inp sums (i * N)) [0..<N] sn"
  have "represents r (b + 12 * pm r * pm r) (?put ! (tab ! j)) (rotated_sum s (pass_term D E G Q) (Suc i) j)"
    if j: "j < N" for j
  proof -
    have tab: "inj_on (\<lambda>j. tab ! j) (set [0..<N])" "tab ! j < length sn" "s j < N" "tab ! s j = j"
      using maps j sn by (simp_all add: row_maps_def lessThan_atLeast0)
    have "represents r b (sums ! j) (rotated_sum s (pass_term D E G Q) i (s j))"
      using rows tab(3,4) by (metis rows_hold_def)
    moreover have "rotated_sum s (pass_term D E G Q) (Suc i) j =
        (\<lambda>l. rotated_sum s (pass_term D E G Q) i (s j) l + pass_term D E G Q i j l)" by (rule ext) (simp add: rotated_sum.simps)
    ultimately show ?thesis
      using pass_value_represents [OF r inp i j _ small] nth_put [OF tab(1) _ _ tab(2), of "pass_value inp sums (i * N)"] j by simp
  qed
  then show ?thesis
    using one_pass_eq [OF ok base N] sn by (simp add: rows_hold_def)
qed

lemma length_one_pass:
  assumes "inputs_ok inp N len" "i < len" "N mod 16 = 0" "0 < N"
  shows "length (one_pass N tab inp (i * N) sums sn) = length sn"
proof -
  have "Suc i * N \<le> len * N" using assms(2) by (intro mult_le_mono1) simp
  then have "i * N + N \<le> N * len" by (simp add: mult.commute add.commute)
  then show ?thesis using one_pass_eq [OF assms(1) _ assms(3,4)] by simp
qed

lemma inner_passes_hold:
  assumes r: "special_ok r" and inp: "inputs_hold r inp N len D E G Q" and maps: "row_maps tab s N" and N: "N mod 16 = 0" "0 < N"
    and "i + k \<le> len" "length sn = N" "rows_hold r b tab N sums (rotated_sum s (pass_term D E G Q) i)"
    and "b + int k * (12 * pm r * pm r) < 2 ^ 64"
  shows "\<exists>sums' sn'. inner_passes N tab inp k (i * N) (sums, sn, sw) = (sums', sn', sw \<noteq> odd k) \<and> length sn' = N \<and>
    rows_hold r (b + int k * (12 * pm r * pm r)) tab N sums' (rotated_sum s (pass_term D E G Q) (i + k))"
  using assms(6-)
proof (induction k arbitrary: i b sums sn sw)
  case (Suc k)
  let ?p = "12 * pm r * pm r"
  have sp: "b + ?p + int k * ?p = b + int (Suc k) * ?p" by (simp add: algebra_simps)
  have small: "b + ?p < 2 ^ 64"
  proof -
    have "0 \<le> int k * ?p" by simp
    then show ?thesis using Suc.prems(4) sp by linarith
  qed
  have "rows_hold r (b + ?p) tab N (one_pass N tab inp (i * N) sums sn) (rotated_sum s (pass_term D E G Q) (Suc i))"
    using one_pass_holds [OF r inp maps N _ Suc.prems(2,3) small] Suc.prems(1) by simp
  then have *: "\<exists>sums' sn'. inner_passes N tab inp k (Suc i * N) (one_pass N tab inp (i * N) sums sn, sums, \<not> sw) =
      (sums', sn', (\<not> sw) \<noteq> odd k) \<and> length sn' = N \<and>
      rows_hold r (b + ?p + int k * ?p) tab N sums' (rotated_sum s (pass_term D E G Q) (Suc i + k))"
    using Suc.prems sp by (intro Suc.IH) (simp_all add: rows_hold_def)
  then show ?case unfolding sp by (simp add: add.commute [of N])
qed simp

lemma reduce_from_u64_represents:
  assumes r: "special_ok r" and v: "represents r b v f"
  shows "represents r (pm r - 1) (reduce_from_u64 r v) f"
proof -
  have "zn_lift (sz_component_ring r) (zn_of_int (sz_component_ring r) (uint (v ! i))) mod pm r = f i mod pm r" if "i < 8" for i
    using special_okD(4,5) [OF r] representsD(3) [OF v that] by (simp add: zn_spec_def)
  then show ?thesis
    unfolding reduce_from_u64_def by (intro represents_cong [OF from_components_represents [OF r]]) simp
qed

lemma reduce_rows:
  assumes "special_ok r" "row_maps tab s N" "rows_hold r b tab N sums V"
  shows "rows_hold r (pm r - 1) tab N (map (reduce_from_u64 r) sums) V"
  using assms(2,3) reduce_from_u64_represents [OF assms(1)] by (fastforce simp: rows_hold_def row_maps_def)

lemma outer_passes_hold:
  assumes r: "special_ok r" and inp: "inputs_hold r inp N len D E G Q" and maps: "row_maps tab s N" and N: "N mod 16 = 0" "0 < N"
    and R: "0 < R" "pm r - 1 + int R * (12 * pm r * pm r) < 2 ^ 64"
    and "length sn = N" "rows_hold r (pm r - 1) tab N sums (rotated_sum s (pass_term D E G Q) (min i len))"
  shows "\<exists>sums' sn'. outer_passes r N len R tab inp i (sums, sn, sw) = (sums', sn', sw \<noteq> odd (len - i)) \<and> length sn' = N \<and>
    rows_hold r (pm r - 1) tab N sums' (rotated_sum s (pass_term D E G Q) len)"
  using assms(8-)
proof (induction "len - i" arbitrary: i sums sn sw rule: less_induct)
  case less
  show ?case
  proof (cases "i < len")
    case False
    then have "min i len = len" by simp
    then show ?thesis
      using less.prems False by (subst outer_passes.simps) simp
  next
    case True
    let ?k = "min (len - i) R" and ?p = "12 * pm r * pm r"
    have "int ?k * ?p \<le> int R * ?p" by (intro mult_right_mono) simp_all
    then have small: "pm r - 1 + int ?k * ?p < 2 ^ 64" using R(2) by linarith
    have le: "i + ?k \<le> len" using True by simp
    have rows: "rows_hold r (pm r - 1) tab N sums (rotated_sum s (pass_term D E G Q) i)" using less.prems(2) True by simp
    obtain sums' sn' where p: "inner_passes N tab inp ?k (i * N) (sums, sn, sw) = (sums', sn', sw \<noteq> odd ?k)"
      "length sn' = N" "rows_hold r (pm r - 1 + int ?k * ?p) tab N sums' (rotated_sum s (pass_term D E G Q) (i + ?k))"
      using inner_passes_hold [OF r inp maps N le less.prems(1) rows small, of sw] by (elim exE conjE)
    have "min (i + R) len = i + ?k" using True by auto
    then have "rows_hold r (pm r - 1) tab N (map (reduce_from_u64 r) sums') (rotated_sum s (pass_term D E G Q) (min (i + R) len))"
      using reduce_rows [OF r maps p(3)] by simp
    then obtain sums'' sn'' where q: "outer_passes r N len R tab inp (i + R) (map (reduce_from_u64 r) sums', sn', sw \<noteq> odd ?k) =
        (sums'', sn'', (sw \<noteq> odd ?k) \<noteq> odd (len - (i + R)))" "length sn'' = N"
      "rows_hold r (pm r - 1) tab N sums'' (rotated_sum s (pass_term D E G Q) len)"
      using less.hyps [of "i + R" sn' "map (reduce_from_u64 r) sums'"] R(1) True p(2) by (meson diff_less_mono2 less_add_same_cancel1)
    have "((sw \<noteq> odd ?k) \<noteq> odd (len - (i + R))) = (sw \<noteq> odd (len - i))"
      by (cases "len - i \<le> R") (auto simp: min_def)
    then show ?thesis
      using q True R(1) by (subst outer_passes.simps) (simp add: p(1))
  qed
qed


section \<open>The deployed rings and the Galois table\<close>

lemma odd_lookup:
  assumes "odd k" "i < N"
  shows "2 * galois_lookup N k i + 1 = (k * (2 * i + 1)) mod (2 * N)" "galois_lookup N k i < N"
proof -
  have "odd ((k * (2 * i + 1)) mod (2 * N))" using assms(1) by (simp add: dvd_mod_iff)
  then show *: "2 * galois_lookup N k i + 1 = (k * (2 * i + 1)) mod (2 * N)"
    by (simp add: galois_lookup_def Let_def odd_pos)
  have "(k * (2 * i + 1)) mod (2 * N) < 2 * N" using assms(2) by simp
  then show "galois_lookup N k i < N" using * by linarith
qed

text \<open>\<open>galois_lookup N gen_H\<close> undoes the table: it sends the slot of exponent \<open>e\<close> to the slot of exponent \<open>5 * e\<close>.\<close>

lemma galois_row_maps:
  assumes "(gen_H * inv_g) mod (2 * N) = 1"
  shows "row_maps (galois_lookup_table N inv_g) (galois_lookup N gen_H) N"
proof -
  have H: "odd gen_H" by (simp add: gen_H_def)
  have "odd ((gen_H * inv_g) mod (2 * N))" using assms by simp
  then have odd: "odd inv_g" by (simp add: gen_H_def dvd_mod_iff)
  have "galois_lookup N inv_g (galois_lookup N gen_H j) = j" if j: "j < N" for j
  proof -
    have "2 * galois_lookup N inv_g (galois_lookup N gen_H j) + 1 = (inv_g * ((gen_H * (2 * j + 1)) mod (2 * N))) mod (2 * N)"
      unfolding odd_lookup(1) [OF H j, symmetric] by (rule odd_lookup(1) [OF odd odd_lookup(2) [OF H j]])
    also have "\<dots> = ((gen_H * inv_g) mod (2 * N) * (2 * j + 1)) mod (2 * N)"
      by (simp only: mod_mult_left_eq mod_mult_right_eq ac_simps)
    also have "\<dots> = 2 * j + 1" using assms j by simp
    finally show ?thesis by simp
  qed
  moreover have "inj_on (\<lambda>j. galois_lookup_table N inv_g ! j) {..<N}"
    using index_bijection.bij [OF lookup_table_bijection [OF assms]] by (simp add: bij_betw_def)
  ultimately show ?thesis
    using odd_lookup(2) [OF odd] odd_lookup(2) [OF H] by (simp add: row_maps_def galois_lookup_table_def)
qed

lemma deployed_passes:
  assumes "special_ok r1" "special_ok r2" "pm r1 = Q_FACTOR1" "pm r2 = Q_FACTOR2"
  shows "reduce_every_iterations r1 r2 = 341"
    "r \<in> {r1, r2} \<Longrightarrow> pm r - 1 + int 341 * (12 * pm r * pm r) < 2 ^ 64"
  using assms special_okD(5) [OF assms(1)] special_okD(5) [OF assms(2)]
  by (auto simp: reduce_every_iterations_def repr_bound_def Q_FACTOR1_def Q_FACTOR2_def pir_consts GK_DIGITS_def)

lemma main_loop_holds:
  assumes r: "special_ok r" and inp: "inputs_hold r inp N len D E G Q" and maps: "row_maps tab s N"
    and N: "N mod 16 = 0" "0 < N" and R: "0 < R" "pm r - 1 + int R * (12 * pm r * pm r) < 2 ^ 64"
    and bufs: "length sn = N" "rows_hold r (pm r - 1) tab N sums (\<lambda>_ _. 0)"
  shows "\<exists>s1 s2. main_pir_loop N len R r sums sn tab inp = (Ok (s1, s2) :: ('e, m512i list \<times> m512i list) outcome) \<and>
    rows_hold r (pm r - 1) tab N (if even len then s1 else s2) (rotated_sum s (pass_term D E G Q) len)"
proof -
  have ok: "inputs_ok inp N len" using inp by (simp add: inputs_hold_def)
  have zero: "(\<lambda>_ _. 0) = rotated_sum s (pass_term D E G Q) (min 0 len)" by (intro ext) (simp add: rotated_sum.simps)
  obtain sums' sn' where o: "outer_passes r N len R tab inp 0 (sums, sn, False) = (sums', sn', False \<noteq> odd (len - 0))"
    "rows_hold r (pm r - 1) tab N sums' (rotated_sum s (pass_term D E G Q) len)"
    using outer_passes_hold [OF r inp maps N R bufs(1) bufs(2) [unfolded zero], of False] by (elim exE conjE)
  have "list_all (\<lambda>i. i < N) tab" "length tab = N" using maps by (auto simp: row_maps_def list_all_length)
  then have "main_pir_loop N len R r sums sn tab inp = (Ok (if odd len then (sn', sums') else (sums', sn')) :: ('e, m512i list \<times> m512i list) outcome)"
    using ok N R(1) o(1) by (simp add: main_pir_loop_def inputs_ok_def whole_def UNROLL_COUNT_def)
  then show ?thesis using o(2) by (cases "odd len") auto
qed


section \<open>Property\<close>

text \<open>
  C38. The online loop computes what it should: from zeroed sums, for either deployed ring, the registers
  loaded ahead, the 64-bit lanes that are reduced only every 341 passes and the scattered writes give,
  after the final permutation, in every slot the sum over all passes of stored times received, rotated
  once by the automorphism of the generator 5 per later pass, exactly modulo the prime and below it. No
  lane overflows. The sums end up in the buffer passed first when the number of passes is even, and in
  the other one when it is odd.
\<close>

theorem main_loop_correct:
  assumes "special_ok r1" "special_ok r2" "pm r1 = Q_FACTOR1" "pm r2 = Q_FACTOR2" "r \<in> {r1, r2}"
    and "(gen_H * inv_g) mod (2 * N) = 1" "N mod 16 = 0" "inputs_hold r inp N len D E G Q" "length sn = N"
  shows "\<exists>s1 s2 res. main_pir_loop N len (reduce_every_iterations r1 r2) r (replicate N (from_int r 0)) sn
      (galois_lookup_table N inv_g) inp = (Ok (s1, s2) :: (unit, m512i list \<times> m512i list) outcome) \<and>
    permute (\<lambda>i. galois_lookup_table N inv_g ! i) (if even len then s1 else s2) = (Ok res :: (unit, m512i list) outcome) \<and>
    (\<forall>j < N. represents r (pm r - 1) (res ! j) (rotated_sum (galois_lookup N gen_H) (pass_term D E G Q) len j))"
proof -
  have r: "special_ok r" using assms(1,2,5) by blast
  have N: "0 < N" using assms(6) by (cases "N = 0") (simp_all add: gen_H_def)
  note maps = galois_row_maps [OF assms(6)]
  have zero: "rows_hold r (pm r - 1) (galois_lookup_table N inv_g) N (replicate N (from_int r 0)) (\<lambda>_ _. 0)"
    using from_int_represents [OF r, of 0] maps by (simp add: rows_hold_def row_maps_def)
  have R: "0 < reduce_every_iterations r1 r2" "pm r - 1 + int (reduce_every_iterations r1 r2) * (12 * pm r * pm r) < 2 ^ 64"
    unfolding deployed_passes(1) [OF assms(1-4)] by (simp, rule deployed_passes(2) [OF assms(1-5)])
  obtain s1 s2 where s: "main_pir_loop N len (reduce_every_iterations r1 r2) r (replicate N (from_int r 0)) sn
      (galois_lookup_table N inv_g) inp = (Ok (s1, s2) :: (unit, m512i list \<times> m512i list) outcome)"
    "rows_hold r (pm r - 1) (galois_lookup_table N inv_g) N (if even len then s1 else s2)
      (rotated_sum (galois_lookup N gen_H) (pass_term D E G Q) len)"
    using main_loop_holds [OF r assms(8) maps assms(7) N R assms(9) zero, where 'e = unit] by (elim exE conjE)
  let ?v = "if even len then s1 else s2" and ?tab = "galois_lookup_table N inv_g"
  have len: "length ?v = N" using s(2) by (simp only: rows_hold_def)
  have "permute (\<lambda>i. ?tab ! i) ?v = (Ok (map (\<lambda>i. ?v ! (?tab ! i)) [0..<length ?v]) :: (unit, m512i list) outcome)"
    by (rule permute_bijection) (simp only: len lookup_table_bijection [OF assms(6)])
  moreover have "\<forall>j < N. represents r (pm r - 1) (map (\<lambda>i. ?v ! (?tab ! i)) [0..<length ?v] ! j)
      (rotated_sum (galois_lookup N gen_H) (pass_term D E G Q) len j)"
    using s(2) unfolding len by (simp add: rows_hold_def)
  ultimately show ?thesis using s(1) by blast
qed

definition demo_inputs :: pir_inputs where
  "demo_inputs = \<lparr>in_qry_b = replicate 16 (replicate 8 1), in_gk_b = replicate 2 (replicate 16 (replicate 8 1)),
     in_inner_prod_gk = replicate 2 (replicate 32 (replicate 8 1)), in_transformed_entries = replicate 32 (replicate 8 1)\<rparr>"

lemma demo_ring_25_ok: "special_ok (demo_ring 25)" "pm (demo_ring 25) = 33550337"
  using special_new_ok [OF int_zn_new_spec _ _ demo_ring_new(2)] by simp_all

theorem main_loop_correct_witness:
  "\<exists>s1 s2 res. main_pir_loop 16 2 341 (demo_ring 26) (replicate 16 (from_int (demo_ring 26) 0)) (replicate 16 [])
      (galois_lookup_table 16 13) demo_inputs = (Ok (s1, s2) :: (unit, m512i list \<times> m512i list) outcome) \<and>
    permute (\<lambda>i. galois_lookup_table 16 13 ! i) s1 = (Ok res :: (unit, m512i list) outcome) \<and> uint (res ! 3 ! 0) = 6"
proof -
  note ok = demo_ring_ok(1) demo_ring_25_ok(1)
  have q: "pm (demo_ring 26) = Q_FACTOR1" "pm (demo_ring 25) = Q_FACTOR2"
    using demo_ring_ok(2) demo_ring_25_ok(2) by (simp_all add: Q_FACTOR1_def Q_FACTOR2_def)
  let ?one = "\<lambda>_ _ _. 1 :: int"
  have one: "held (demo_ring 26) (replicate 8 1) (\<lambda>_. 1)"
    using demo_ring_ok(2) by (simp add: held_def represents_def)
  have inp: "inputs_hold (demo_ring 26) demo_inputs 16 2 (\<lambda>_. ?one) ?one ?one (\<lambda>_ _. 1)"
    using one by (simp add: inputs_hold_def inputs_ok_def whole_def demo_inputs_def)
  have g: "(gen_H * 13) mod (2 * 16) = 1" by (simp add: gen_H_def)
  have six: "rotated_sum (galois_lookup 16 gen_H) (pass_term (\<lambda>_. ?one) ?one ?one (\<lambda>_ _. 1)) 2 3 0 = 6"
    by (simp add: numeral_2_eq_2 rotated_sum.simps pass_term_def)
  have R: "reduce_every_iterations (demo_ring 26) (demo_ring 25) = 341" by (rule deployed_passes(1) [OF ok q])
  have N: "(16 :: nat) mod 16 = 0" "length (replicate 16 []) = 16" by simp_all
  obtain s1 s2 res where s: "main_pir_loop 16 2 341 (demo_ring 26) (replicate 16 (from_int (demo_ring 26) 0)) (replicate 16 [])
      (galois_lookup_table 16 13) demo_inputs = (Ok (s1, s2) :: (unit, m512i list \<times> m512i list) outcome)"
    "permute (\<lambda>i. galois_lookup_table 16 13 ! i) (if even (2 :: nat) then s1 else s2) = (Ok res :: (unit, m512i list) outcome)"
    "\<forall>j < 16. represents (demo_ring 26) (pm (demo_ring 26) - 1) (res ! j)
      (rotated_sum (galois_lookup 16 gen_H) (pass_term (\<lambda>_. ?one) ?one ?one (\<lambda>_ _. 1)) 2 j)"
    using main_loop_correct [OF ok q insertI1 g N(1) inp N(2)] unfolding R by (elim exE conjE)
  have "represents (demo_ring 26) (pm (demo_ring 26) - 1) (res ! 3)
      (rotated_sum (galois_lookup 16 gen_H) (pass_term (\<lambda>_. ?one) ?one ?one (\<lambda>_ _. 1)) 2 3)"
    using s(3) by simp
  then have "uint (res ! 3 ! 0) \<le> 67104768" "uint (res ! 3 ! 0) mod 67104769 = 6"
    using six by (simp_all add: represents_def demo_ring_ok(2))
  then have "uint (res ! 3 ! 0) = 6" by simp
  moreover have "permute (\<lambda>i. galois_lookup_table 16 13 ! i) s1 = (Ok res :: (unit, m512i list) outcome)"
    using s(2) by (simp only: even_numeral if_True)
  ultimately show ?thesis using s(1) by blast
qed

end
