(* ===== verification/Negacyclic.thy ===== *)
theory Negacyclic
  imports Ntt_Correct Main_Loop_Correct
begin

text \<open>
  Polynomials modulo \<open>X\<^sup>N + 1\<close> in their slots: when \<open>y\<close> has order \<open>2N\<close>, slots turn the product of the ring into
  the product of values and the automorphism of the generator 5 into the rotation of the rows. Both are
  integer operations on coefficients, so that they also bound the growth of small polynomials.
\<close>

definition half_turn :: "int \<Rightarrow> nat \<Rightarrow> int \<Rightarrow> bool" where
  "half_turn p N y \<longleftrightarrow> 1 < p \<and> (y ^ N + 1) mod p = 0"

lemma half_turn_power:
  assumes "half_turn p N y" "odd k"
  shows "(y ^ k) ^ N mod p = - 1 mod p"
proof -
  have "y ^ N mod p = - 1 mod p"
    using assms(1) mod_diff_cong [of "y ^ N + 1" p 0 1 1] by (simp add: half_turn_def)
  then have "(y ^ N) ^ k mod p = (- 1) ^ k mod p" by (metis power_mod)
  then show ?thesis using assms(2) by (simp add: power_mult [symmetric] mult.commute)
qed


lemma full_turn:
  assumes "half_turn p N y"
  shows "y ^ (2 * N * k) mod p = 1"
proof -
  have "(y ^ 1) ^ N mod p = - 1 mod p" by (rule half_turn_power [OF assms]) simp
  then have "(y ^ N * y ^ N) mod p = (- 1 * - 1) mod p" by (intro mod_mult_cong) simp_all
  then have "y ^ (2 * N) mod p = 1" using assms by (simp add: half_turn_def mult_2 power_add)
  then have "(y ^ (2 * N)) ^ k mod p = 1 ^ k mod p" by (metis power_mod mod_mod_trivial)
  then show ?thesis using assms by (simp add: half_turn_def power_mult)
qed

text \<open>Exponents count modulo \<open>2N\<close>.\<close>

lemma turn_cong:
  assumes "half_turn p N y" "a mod (2 * N) = b mod (2 * N)"
  shows "y ^ a mod p = y ^ b mod p"
proof -
  have "y ^ c mod p = y ^ (c mod (2 * N)) mod p" for c
  proof -
    have "y ^ c = y ^ (2 * N * (c div (2 * N))) * y ^ (c mod (2 * N))"
      unfolding power_add [symmetric] by simp
    then show ?thesis using full_turn [OF assms(1), of "c div (2 * N)"] by (metis mod_mult_left_eq mult_1)
  qed
  then show ?thesis using assms(2) by metis
qed


section \<open>Products\<close>

definition nega :: "nat \<Rightarrow> (nat \<Rightarrow> nat \<Rightarrow> int) \<Rightarrow> (nat \<Rightarrow> nat \<Rightarrow> int) \<Rightarrow> nat \<Rightarrow> nat \<Rightarrow> int" where
  "nega N F G i l = (\<Sum>a < N. if a \<le> i then F a l * G (i - a) l else - (F a l * G (N + i - a) l))"

lemma slot_nega:
  assumes y: "half_turn p N y"
  shows "slot_value y N (nega N F G) j l mod p = (slot_value y N F j l * slot_value y N G j l) mod p"
proof -
  define x where "x = y ^ (2 * j + 1)"
  have sl: "slot_value y N H j l = (\<Sum>i < N. H i l * x ^ i)" for H
    unfolding slot_value_def x_def by (simp only: power_mult [symmetric] mult.commute)
  have xN: "x ^ N mod p = - 1 mod p" unfolding x_def by (rule half_turn_power [OF y]) simp
  let ?t = "\<lambda>a i. if a \<le> i then F a l * G (i - a) l else - (F a l * G (N + i - a) l)"
  have row: "(\<Sum>i < N. ?t a i * x ^ i) mod p = (\<Sum>b < N. F a l * x ^ a * (G b l * x ^ b)) mod p" if a: "a < N" for a
  proof -
    have e: "(\<Sum>i < N. ?t a i * x ^ i) = (\<Sum>b < N. ?t a (if a + b < N then a + b else a + b - N) * x ^ (if a + b < N then a + b else a + b - N))"
      using a by (intro sum.reindex_bij_witness [where j = "\<lambda>i. if a \<le> i then i - a else N + i - a" and
          i = "\<lambda>b. if a + b < N then a + b else a + b - N"]) auto
    show ?thesis unfolding e
    proof (rule sum_mod_cong)
      fix b assume b: "b \<in> {..<N}"
      show "(?t a (if a + b < N then a + b else a + b - N) * x ^ (if a + b < N then a + b else a + b - N)) mod p =
          (F a l * x ^ a * (G b l * x ^ b)) mod p"
      proof (cases "a + b < N")
        case True
        then show ?thesis by (simp add: power_add ac_simps)
      next
        case False
        then have e: "\<not> a \<le> a + b - N" "N + (a + b - N) - a = b" "a + b = N + (a + b - N)" using a b by auto
        have eq: "F a l * x ^ a * (G b l * x ^ b) = x ^ N * (F a l * G b l * x ^ (a + b - N))"
          using arg_cong [OF e(3), of "power x"] by (simp add: power_add ac_simps)
        have "(F a l * x ^ a * (G b l * x ^ b)) mod p = (- 1 * (F a l * G b l * x ^ (a + b - N))) mod p"
          unfolding eq by (rule mod_mult_cong [OF xN refl])
        then show ?thesis using False e(1,2) by simp
      qed
    qed
  qed
  have "slot_value y N (nega N F G) j l = (\<Sum>i < N. \<Sum>a < N. ?t a i * x ^ i)"
    unfolding sl nega_def sum_distrib_right ..
  then have e: "slot_value y N (nega N F G) j l = (\<Sum>a < N. \<Sum>i < N. ?t a i * x ^ i)"
    by (subst sum.swap) simp
  have f: "slot_value y N F j l * slot_value y N G j l = (\<Sum>a < N. \<Sum>b < N. F a l * x ^ a * (G b l * x ^ b))"
    unfolding sl sum_product ..
  show ?thesis unfolding e f by (rule sum_mod_cong) (use row in simp)
qed

lemma nega_bound:
  assumes "\<And>i. i < N \<Longrightarrow> \<bar>F i l\<bar> \<le> b" "\<And>i. i < N \<Longrightarrow> \<bar>G i l\<bar> \<le> c" "i < N"
  shows "\<bar>nega N F G i l\<bar> \<le> int N * (b * c)"
proof -
  have t: "\<bar>if a \<le> i then F a l * G (i - a) l else - (F a l * G (N + i - a) l)\<bar> \<le> b * c" if a: "a < N" for a
  proof -
    have "\<bar>F a l * G k l\<bar> \<le> b * c" if "k < N" for k
      unfolding abs_mult using assms(1) [OF a] assms(2) [OF that] by (intro mult_mono) auto
    then show ?thesis using a assms(3) by auto
  qed
  have "\<bar>nega N F G i l\<bar> \<le> (\<Sum>a < N. b * c)"
    unfolding nega_def using t by (intro order_trans [OF sum_abs] sum_mono) simp
  then show ?thesis by simp
qed


section \<open>The automorphism of the generator\<close>

definition auto5 :: "nat \<Rightarrow> nat \<Rightarrow> (nat \<Rightarrow> nat \<Rightarrow> int) \<Rightarrow> nat \<Rightarrow> nat \<Rightarrow> int" where
  "auto5 N inv_g F n l = (let i = (inv_g * n) mod (2 * N) in if i < N then F i l else - F (i - N) l)"

lemma auto5_bound:
  assumes "\<And>i. i < N \<Longrightarrow> \<bar>F i l\<bar> \<le> b" "0 < N"
  shows "\<bar>auto5 N inv_g F n l\<bar> \<le> b"
proof -
  have "(inv_g * n) mod (2 * N) < 2 * N" using assms(2) by simp
  then have "(inv_g * n) mod (2 * N) - N < N" by linarith
  then show ?thesis using assms(1) by (simp add: auto5_def Let_def)
qed

lemma slot_auto:
  assumes y: "half_turn p N y" and g: "(h * inv_g) mod (2 * N) = 1" and H: "odd h" and j: "j < N"
  shows "slot_value y N (auto5 N inv_g F) j l mod p = slot_value y N F (galois_lookup N h j) l mod p"
proof -
  define x where "x = y ^ (2 * j + 1)"
  have N: "0 < N" using j by simp
  have inv: "(h * ((inv_g * n) mod (2 * N))) mod (2 * N) = n mod (2 * N)" for n
  proof -
    have "(h * ((inv_g * n) mod (2 * N))) mod (2 * N) = ((h * inv_g) mod (2 * N) * n) mod (2 * N)"
      by (simp only: mod_mult_left_eq mod_mult_right_eq ac_simps)
    then show ?thesis using g by simp
  qed
  let ?i = "\<lambda>n. ((inv_g * n) mod (2 * N)) mod N"
  have i: "?i n = (inv_g * n) mod N" for n by (simp add: mod_mod_cancel)
  have five: "(h * inv_g) mod N = 1 mod N" using g by (metis dvd_triv_right mod_mod_cancel)
  have back1: "?i ((h * n) mod N) = n" and back2: "(h * ?i n) mod N = n" if "n < N" for n
  proof -
    have "(inv_g * ((h * n) mod N)) mod N = ((h * inv_g) mod N * n) mod N"
      "(h * ((inv_g * n) mod N)) mod N = ((h * inv_g) mod N * n) mod N"
      by (simp_all only: mod_mult_left_eq mod_mult_right_eq ac_simps)
    then show "?i ((h * n) mod N) = n" "(h * ?i n) mod N = n"
      unfolding i five using that by (simp_all add: mod_mult_left_eq)
  qed
  have term1: "(auto5 N inv_g F n l * x ^ n) mod p = (F (?i n) l * x ^ (h * ?i n)) mod p" for n
  proof -
    let ?k = "(inv_g * n) mod (2 * N)"
    have k2: "?k < 2 * N" using N by simp
    have turn: "x ^ a mod p = x ^ b mod p" if "a mod (2 * N) = b mod (2 * N)" for a b
      unfolding x_def power_mult [symmetric] using that by (intro turn_cong [OF y] mod_mult_cong) simp_all
    have xN: "x ^ N mod p = - 1 mod p" unfolding x_def by (rule half_turn_power [OF y]) simp
    show ?thesis
    proof (cases "?k < N")
      case True
      then have v: "auto5 N inv_g F n l = F (?i n) l" "?i n = ?k" by (simp_all add: auto5_def Let_def)
      have "x ^ n mod p = x ^ (h * ?k) mod p" by (rule turn) (simp only: inv)
      then show ?thesis unfolding v by (intro mod_mult_cong refl)
    next
      case False
      have "m mod N = m - N" if "\<not> m < N" "m < 2 * N" for m using that by (simp add: le_mod_geq)
      from this [OF False k2] have k: "?k = ?i n + N" "?k - N = ?i n" using False by linarith+
      have "x ^ n mod p = x ^ (h * (?i n + N)) mod p" unfolding k(1) [symmetric] by (rule turn) (simp only: inv)
      moreover have "x ^ (h * (?i n + N)) = (x ^ N) ^ h * x ^ (h * ?i n)"
        by (simp add: algebra_simps power_add power_mult [symmetric])
      moreover have "((x ^ N) ^ h * x ^ (h * ?i n)) mod p = ((- 1) ^ h * x ^ (h * ?i n)) mod p"
        by (intro mod_mult_cong refl) (metis xN power_mod)
      ultimately have "x ^ n mod p = (- (x ^ (h * ?i n))) mod p" using H by simp
      then have "(- F (?i n) l * x ^ n) mod p = (- F (?i n) l * - (x ^ (h * ?i n))) mod p" by (intro mod_mult_cong refl)
      then show ?thesis using False k(2) by (simp add: auto5_def Let_def)
    qed
  qed
  have a: "slot_value y N (auto5 N inv_g F) j l = (\<Sum>n < N. auto5 N inv_g F n l * x ^ n)"
    unfolding slot_value_def x_def by (simp only: power_mult [symmetric] mult.commute)
  have b: "(\<Sum>n < N. auto5 N inv_g F n l * x ^ n) mod p = (\<Sum>n < N. F (?i n) l * x ^ (h * ?i n)) mod p"
    by (rule sum_mod_cong) (rule term1)
  have c: "(\<Sum>n < N. F (?i n) l * x ^ (h * ?i n)) = (\<Sum>i < N. F i l * x ^ (h * i))"
    using N back1 back2 by (intro sum.reindex_bij_witness [where i = "\<lambda>i. (h * i) mod N" and j = ?i]) auto
  show ?thesis
    unfolding a b c unfolding slot_value_def
  proof (rule sum_mod_cong)
    fix i
    have "(i * (2 * galois_lookup N h j + 1)) mod (2 * N) = ((2 * j + 1) * (h * i)) mod (2 * N)"
      unfolding odd_lookup(1) [OF H j] by (simp only: mod_mult_right_eq ac_simps)
    then have "y ^ ((2 * j + 1) * (h * i)) mod p = y ^ (i * (2 * galois_lookup N h j + 1)) mod p"
      by (intro turn_cong [OF y]) simp
    then show "(F i l * x ^ (h * i)) mod p = (F i l * y ^ (i * (2 * galois_lookup N h j + 1))) mod p"
      unfolding x_def power_mult [symmetric] by (intro mod_mult_cong refl)
  qed
qed

lemma slot_auto5:
  assumes "half_turn p N y" "(gen_H * inv_g) mod (2 * N) = 1" "j < N"
  shows "slot_value y N (auto5 N inv_g F) j l mod p = slot_value y N F (galois_lookup N gen_H j) l mod p"
  using slot_auto [OF assms(1,2) _ assms(3)] by (simp add: gen_H_def)

end
