(* ===== verification/Turns.thy ===== *)
theory Turns
  imports Negacyclic
begin

text \<open>
  Integer polynomials modulo \<open>X\<^sup>N + 1\<close> as coefficient functions that change their sign with every \<open>N\<close>: monomial
  products and automorphisms are substitutions of the index. The sum of a polynomial over the conjugates of a
  nontrivial power of \<open>X\<close> vanishes, which is what lets a query for a monomial pick one entry.
\<close>

section \<open>Coefficients beyond the rank\<close>

definition ext :: "nat \<Rightarrow> (nat \<Rightarrow> nat \<Rightarrow> int) \<Rightarrow> int \<Rightarrow> nat \<Rightarrow> int" where
  "ext N F e l = (let i = nat (e mod (2 * int N)) in if i < N then F i l else - F (i - N) l)"

lemma ext_cong: "a mod (2 * int N) = b mod (2 * int N) \<Longrightarrow> ext N F a l = ext N F b l"
  by (simp add: ext_def)

lemma ext_eq_fun: "(\<And>n. n < N \<Longrightarrow> F n l = G n l) \<Longrightarrow> 0 < N \<Longrightarrow> ext N F e l = ext N G e l"
proof -
  assume a: "\<And>n. n < N \<Longrightarrow> F n l = G n l" "0 < N"
  have "nat (e mod (2 * int N)) < 2 * N" using a(2) by (simp add: nat_less_iff)
  then show ?thesis using a(1) by (simp add: ext_def Let_def)
qed

lemma ext_small [simp]: "n < N \<Longrightarrow> ext N F (int n) l = F n l"
  by (simp add: ext_def)

lemma ext_turn:
  assumes "0 < N"
  shows "ext N F (e + int N) l = - ext N F e l"
proof -
  define i where "i = e mod (2 * int N)"
  have i: "0 \<le> i" "i < 2 * int N" using assms by (simp_all add: i_def)
  have "(e + int N) mod (2 * int N) = (i + int N) mod (2 * int N)" by (simp add: i_def mod_add_left_eq)
  also have "\<dots> = (if i < int N then i + int N else i - int N)"
  proof (cases "i < int N")
    case False
    have "i + int N = (i - int N) + 2 * int N" by simp
    then have "(i + int N) mod (2 * int N) = (i - int N) mod (2 * int N)" by (simp only: mod_add_self2)
    then show ?thesis using False i by simp
  qed (use i in simp)
  finally show ?thesis using i by (simp add: ext_def Let_def i_def [symmetric] nat_diff_distrib nat_add_distrib nat_less_iff)
qed

lemma ext_turns:
  assumes "0 < N"
  shows "ext N F (e + int N * c) l = (if even c then ext N F e l else - ext N F e l)"
proof (cases "even c")
  case True
  then obtain d where d: "c = 2 * d" by blast
  have "e + int N * c = e + d * (2 * int N)" by (simp add: d)
  then have "(e + int N * c) mod (2 * int N) = e mod (2 * int N)" by (simp only: mod_mult_self1)
  then have "ext N F (e + int N * c) l = ext N F e l" by (rule ext_cong)
  then show ?thesis using True by simp
next
  case False
  then obtain d where d: "c = 2 * d + 1" by (rule oddE)
  have "e + int N * c = (e + int N) + d * (2 * int N)" by (simp add: d algebra_simps)
  then have "(e + int N * c) mod (2 * int N) = (e + int N) mod (2 * int N)" by (simp only: mod_mult_self1)
  then have "ext N F (e + int N * c) l = ext N F (e + int N) l" by (rule ext_cong)
  then show ?thesis using ext_turn [OF assms] False by simp
qed

text \<open>Substituting an odd multiple of the index composes.\<close>

lemma ext_subst:
  assumes "0 < N" "odd a"
  shows "ext N (\<lambda>n l. ext N F (a * int n + b) l) e l = ext N F (a * e + b) l"
proof -
  define i where "i = e mod (2 * int N)"
  have i: "0 \<le> i" "i < 2 * int N" using assms by (simp_all add: i_def)
  have e: "ext N F (a * e + b) l = ext N F (a * i + b) l"
  proof (rule ext_cong)
    have "(a * e) mod (2 * int N) = (a * i) mod (2 * int N)" by (simp add: i_def mod_mult_right_eq)
    then show "(a * e + b) mod (2 * int N) = (a * i + b) mod (2 * int N)" by (rule mod_add_cong) simp
  qed
  show ?thesis
  proof (cases "i < int N")
    case True
    then show ?thesis unfolding e using i by (simp add: ext_def [of N _ e] Let_def i_def [symmetric] nat_less_iff)
  next
    case False
    then have n: "\<not> nat i < N" "int (nat i - N) = i - int N" using i by (simp_all add: nat_less_iff)
    have "a * i + b = (a * (i - int N) + b) + int N * a" by (simp add: algebra_simps)
    then have "ext N F (a * i + b) l = - ext N F (a * (i - int N) + b) l" using ext_turns [OF assms(1)] assms(2) by metis
    then show ?thesis unfolding e by (simp add: ext_def [of N _ e] Let_def i_def [symmetric] n)
  qed
qed

lemma ext_bound:
  assumes "\<And>i. i < N \<Longrightarrow> \<bar>F i l\<bar> \<le> b" "0 < N"
  shows "\<bar>ext N F e l\<bar> \<le> b"
proof -
  have "nat (e mod (2 * int N)) < 2 * N" using assms(2) by (simp add: nat_less_iff)
  then have "nat (e mod (2 * int N)) - N < N" by linarith
  then show ?thesis using assms(1) by (simp add: ext_def Let_def)
qed

lemma ext_sum: "ext N (\<lambda>n l. \<Sum>x \<in> A. F x n l) e l = (\<Sum>x \<in> A. ext N (F x) e l)"
  by (simp add: ext_def Let_def sum_negf)

lemma ext_add: "ext N (\<lambda>n l. F n l + G n l) e l = ext N F e l + ext N G e l"
  by (simp add: ext_def Let_def)

lemma ext_scale: "ext N (\<lambda>n l. c * F n l) e l = c * ext N F e l"
  by (simp add: ext_def Let_def)

lemma auto5_ext: "auto5 N inv_g F n l = ext N F (int inv_g * int n) l"
proof -
  have "(int inv_g * int n) mod (2 * int N) = int ((inv_g * n) mod (2 * N))" by (simp add: zmod_int)
  then show ?thesis by (simp add: auto5_def ext_def)
qed


section \<open>Monomials\<close>

definition shift :: "nat \<Rightarrow> int \<Rightarrow> (nat \<Rightarrow> nat \<Rightarrow> int) \<Rightarrow> nat \<Rightarrow> nat \<Rightarrow> int" where
  "shift N e F n l = ext N F (int n - e) l"

lemma ext_shift: "0 < N \<Longrightarrow> ext N (shift N e F) a l = ext N F (a - e) l"
  using ext_subst [of N 1 F "- e" a l] by (simp add: shift_def [abs_def])

text \<open>The monomial \<open>X\<^sup>e\<close>.\<close>

definition mono :: "nat \<Rightarrow> int \<Rightarrow> nat \<Rightarrow> nat \<Rightarrow> int" where
  "mono N e = shift N e (\<lambda>n l. if n = 0 then 1 else 0)"

lemma slot_turn:
  assumes y: "half_turn p N y"
  shows "slot_value y N (shift N 1 F) j l mod p = (slot_value y N F j l * y ^ (2 * j + 1)) mod p"
proof (cases N)
  case (Suc M)
  let ?x = "y ^ (2 * j + 1)"
  have s: "slot_value y N G j l = (\<Sum>i < N. G i l * ?x ^ i)" for G
    unfolding slot_value_def by (simp only: power_mult [symmetric] mult.commute)
  have first: "shift N 1 F 0 l = - F M l"
    using ext_turn [of N F "int M - int N" l] ext_small [of M N F l] Suc by (simp add: shift_def)
  have rest: "shift N 1 F (Suc i) l = F i l" if "i < M" for i
    using ext_small [of i N F l] that Suc by (simp add: shift_def)
  have "slot_value y N (shift N 1 F) j l = (\<Sum>i < Suc M. shift N 1 F i l * ?x ^ i)"
    using s [of "shift N 1 F"] by (simp only: Suc)
  also have "\<dots> = shift N 1 F 0 l * ?x ^ 0 + (\<Sum>i < M. shift N 1 F (Suc i) l * ?x ^ Suc i)" by (rule sum.lessThan_Suc_shift)
  also have "(\<Sum>i < M. shift N 1 F (Suc i) l * ?x ^ Suc i) = (\<Sum>i < M. F i l * ?x ^ Suc i)"
    using rest by (intro sum.cong refl) (simp only: lessThan_iff)
  finally have "slot_value y N (shift N 1 F) j l = - F M l + (\<Sum>i < M. F i l * ?x ^ Suc i)" unfolding first by simp
  moreover have "slot_value y N F j l * ?x = (\<Sum>i < M. F i l * ?x ^ Suc i) + F M l * ?x ^ N"
    using s [of F] unfolding Suc sum.lessThan_Suc by (simp only: distrib_left distrib_right sum_distrib_left sum_distrib_right power_Suc ac_simps)
  moreover have "(F M l * ?x ^ N) mod p = (F M l * - 1) mod p"
    by (intro mod_mult_cong refl half_turn_power [OF y]) simp
  ultimately show ?thesis
    using mod_add_cong [of "\<Sum>i < M. F i l * ?x ^ Suc i" p _ "F M l * ?x ^ N" "- F M l"] by (simp add: add.commute)
qed (simp add: slot_value_def)

lemma slot_shift:
  assumes y: "half_turn p N y" and N: "0 < N"
  shows "slot_value y N (shift N (int e) F) j l mod p = (slot_value y N F j l * y ^ ((2 * j + 1) * e)) mod p"
proof (induction e)
  case 0
  have "slot_value y N (shift N 0 F) j l = slot_value y N F j l"
    unfolding slot_value_def by (intro sum.cong refl) (simp add: shift_def)
  then show ?case by simp
next
  case (Suc e)
  have step: "shift N (int (Suc e)) F n l = shift N 1 (shift N (int e) F) n l" for n l
    unfolding shift_def [of N 1] ext_shift [OF N] by (simp add: shift_def algebra_simps)
  have "slot_value y N (shift N (int (Suc e)) F) j l = slot_value y N (shift N 1 (shift N (int e) F)) j l"
    unfolding slot_value_def step ..
  then have "slot_value y N (shift N (int (Suc e)) F) j l mod p = (slot_value y N (shift N (int e) F) j l * y ^ (2 * j + 1)) mod p"
    by (simp only: slot_turn [OF y])
  also have "\<dots> = (slot_value y N F j l * y ^ ((2 * j + 1) * e) * y ^ (2 * j + 1)) mod p"
    using mod_mult_cong [OF Suc.IH refl] .
  also have "slot_value y N F j l * y ^ ((2 * j + 1) * e) * y ^ (2 * j + 1) = slot_value y N F j l * y ^ ((2 * j + 1) * Suc e)"
    by (simp add: power_add algebra_simps)
  finally show ?case .
qed


section \<open>Vanishing sums\<close>

text \<open>A sequence of period \<open>L\<close> that changes its sign after \<open>h\<close> steps sums to nothing over a period.\<close>

lemma sum_turning:
  fixes f :: "nat \<Rightarrow> int"
  assumes period: "\<And>i. f (i + L) = f i" and turn: "\<And>i. f (i + h) = - f i"
  shows "(\<Sum>i < L. f i) = 0"
proof -
  have "(\<Sum>i < L. f (i + h)) = (\<Sum>i < L. f i)" for h
  proof (induction h)
    case (Suc h)
    have "(\<Sum>i < Suc L. f (i + h)) = f h + (\<Sum>i < L. f (i + Suc h))" by (simp only: sum.lessThan_Suc_shift) simp
    then show ?case using Suc period [of h] by (simp add: add.commute)
  qed simp
  from this [of h] have "(\<Sum>i < L. - f i) = (\<Sum>i < L. f i)" by (simp only: turn)
  then show ?thesis by (simp add: sum_negf)
qed

lemma five_power: "\<exists>c. odd c \<and> (5 :: int) ^ (2 ^ e) = 1 + 2 ^ (e + 2) * c"
proof (induction e)
  case 0
  show ?case by (intro exI [of _ 1]) simp
next
  case (Suc e)
  then obtain c :: int where c: "odd c" "5 ^ (2 ^ e) = 1 + 2 ^ (e + 2) * c" by blast
  have "(5 :: int) ^ (2 ^ Suc e) = (5 ^ (2 ^ e)) ^ 2" by (simp add: power_mult [symmetric] mult.commute)
  also have "\<dots> = 1 + 2 ^ (Suc e + 2) * (c * (1 + 2 * (2 ^ e * c)))"
    unfolding c(2) by (simp add: power2_eq_square algebra_simps)
  finally show ?case using c(1) by (intro exI [of _ "c * (1 + 2 * (2 ^ e * c))"]) simp
qed

lemma odd_power:
  fixes c :: int
  assumes "odd c" "0 < s" "odd k"
  shows "\<exists>d. odd d \<and> (1 + 2 ^ s * c) ^ k = 1 + 2 ^ s * d"
proof -
  obtain q where k: "k = 2 * q + 1" using assms(3) by (rule oddE)
  obtain t where t: "s = Suc t" using assms(2) by (cases s) simp_all
  have "\<exists>d. odd d \<and> (1 + 2 ^ s * c) ^ (2 * q + 1) = 1 + 2 ^ s * d"
  proof (induction q)
    case 0
    show ?case using assms(1) by auto
  next
    case (Suc q)
    then obtain d where d: "odd d" "(1 + 2 ^ s * c) ^ (2 * q + 1) = 1 + 2 ^ s * d" by blast
    have "(1 + 2 ^ s * c) ^ (2 * Suc q + 1) = (1 + 2 ^ s * c) ^ (2 * q + 1) * (1 + 2 ^ s * c) ^ 2"
      by (simp flip: power_add)
    also have "\<dots> = 1 + 2 ^ s * (d + 2 * ((1 + 2 ^ s * d) * (c + 2 ^ t * c * c)))"
      unfolding d(2) by (simp add: t power2_eq_square algebra_simps)
    finally show ?case using d(1) by (intro exI [of _ "d + 2 * ((1 + 2 ^ s * d) * (c + 2 ^ t * c * c))"]) simp
  qed
  then show ?thesis unfolding k .
qed

lemma odd_part:
  assumes "0 < (d :: nat)"
  obtains e k where "odd k" "d = 2 ^ e * k"
proof -
  have "\<exists>e k. odd k \<and> d = 2 ^ e * k" using assms
  proof (induction d rule: less_induct)
    case (less d)
    show ?case
    proof (cases "odd d")
      case False
      then obtain c where c: "d = 2 * c" by blast
      have "c < d" "0 < c" using c less.prems by simp_all
      then obtain e k where k: "odd k" "c = 2 ^ e * k" using less.IH by blast
      have "d = 2 ^ Suc e * k" unfolding c k(2) by (simp only: power_Suc mult.assoc)
      then show ?thesis using k(1) by blast
    qed (intro exI [of _ 0] exI [of _ d], simp)
  qed
  then show thesis using that by blast
qed

text \<open>The powers of 5 below \<open>L\<close> are different modulo \<open>4L\<close>.\<close>

lemma five_distinct:
  assumes L: "L = 2 ^ r" and ab: "a < L" "b < L" and eq: "(4 * int L) dvd 5 ^ a - 5 ^ b"
  shows "a = b"
proof -
  have le: False if "a < b" "b < L" "(4 * int L) dvd 5 ^ b - 5 ^ a" for a b
  proof -
    have "0 < b - a" using that(1) by simp
    from odd_part [OF this] obtain e k where k: "odd k" "b - a = 2 ^ e * k" .
    obtain c where c: "odd c" "(5 :: int) ^ (2 ^ e) = 1 + 2 ^ (e + 2) * c" using five_power by blast
    have "\<exists>d. odd d \<and> (1 + 2 ^ (e + 2) * c) ^ k = 1 + 2 ^ (e + 2) * d" by (rule odd_power [OF c(1) _ k(1)]) simp
    then obtain d where d: "odd d" "(1 + 2 ^ (e + 2) * c) ^ k = 1 + 2 ^ (e + 2) * d" by blast
    have "(5 :: int) ^ (b - a) = 1 + 2 ^ (e + 2) * d" unfolding k(2) power_mult c(2) d(2) ..
    moreover have "(5 :: int) ^ b = 5 ^ a * 5 ^ (b - a)" using that(1) by (simp flip: power_add)
    ultimately have "5 ^ b - 5 ^ a = 5 ^ a * (2 ^ (e + 2) * d)" by (simp add: algebra_simps)
    moreover have "4 * int L = 2 ^ (r + 2)" by (simp add: L)
    ultimately have "2 ^ (r + 2) dvd (5 :: int) ^ a * (2 ^ (e + 2) * d)" using that(3) by simp
    moreover have "coprime (2 ^ (r + 2)) ((5 :: int) ^ a * d)"
      using d(1) by (simp only: coprime_power_left_iff coprime_left_2_iff_odd) simp
    moreover have "(5 :: int) ^ a * (2 ^ (e + 2) * d) = 2 ^ (e + 2) * (5 ^ a * d)" by simp
    ultimately have "(2 :: int) ^ (r + 2) dvd 2 ^ (e + 2)" by (metis coprime_dvd_mult_left_iff)
    then have "(2 :: int) ^ (r + 2) \<le> 2 ^ (e + 2)" by (intro zdvd_imp_le) simp_all
    then have "r + 2 \<le> e + 2" by (simp only: power_increasing_iff one_less_numeral_iff semiring_norm)
    then have "r \<le> e" by simp
    then have "L \<le> 2 ^ e" by (simp add: L)
    also have "\<dots> \<le> b - a" using k by (cases k) simp_all
    finally show False using that by simp
  qed
  show ?thesis
    using le [of a b] le [of b a] ab eq by (metis dvd_diff_commute linorder_neqE_nat)
qed

lemma odd_part_int:
  fixes c :: int
  assumes "\<not> 2 ^ m dvd c"
  obtains w d where "w < m" "odd d" "c = 2 ^ w * d"
proof -
  have "\<exists>w d. w < m \<and> odd d \<and> c = 2 ^ w * d" using assms
  proof (induction m arbitrary: c)
    case (Suc m)
    show ?case
    proof (cases "even c")
      case True
      then obtain b where b: "c = 2 * b" by blast
      then have "\<not> 2 ^ m dvd b" using Suc.prems by simp
      then obtain w d where "w < m" "odd d" "b = 2 ^ w * d" using Suc.IH by blast
      then show ?thesis by (intro exI [of _ "Suc w"] exI [of _ d]) (simp add: b)
    qed (intro exI [of _ 0] exI [of _ c], simp)
  qed simp
  then show ?thesis using that by blast
qed

lemma sum_conjugates:
  fixes c :: int
  assumes N: "N = 2 ^ Suc m" and c: "\<not> 2 ^ m dvd c" and period: "((5 ^ L - 1) * c) mod (2 * int N) = 0"
  shows "(\<Sum>i < L. ext N F (b - 5 ^ i * c) l) = 0"
proof -
  obtain w d where w: "w < m" "odd d" "c = 2 ^ w * d" using odd_part_int [OF c] .
  obtain u where u: "odd u" "(5 :: int) ^ (2 ^ (m - Suc w)) = 1 + 2 ^ ((m - Suc w) + 2) * u" using five_power by blast
  let ?h = "2 ^ (m - Suc w) :: nat"
  have "(2 :: int) ^ ((m - Suc w) + 2) * 2 ^ w = int N" 
  proof -
    have "(m - Suc w) + 2 + w = Suc m" using w(1) by simp
    then show ?thesis unfolding power_add [symmetric] by (simp add: N)
  qed
  then have h: "(5 ^ ?h - 1) * c = int N * (u * d)" unfolding u(2) w(3) by (simp add: algebra_simps)
  have N0: "0 < N" by (simp add: N)
  have step: "b - 5 ^ (i + j) * c = (b - 5 ^ i * c) - 5 ^ i * ((5 ^ j - 1) * c)" for i j by (simp add: power_add algebra_simps)
  show ?thesis
  proof (rule sum_turning)
    fix i
    obtain q where q: "(5 ^ L - 1) * c = 2 * int N * q" using mod_0_imp_dvd [OF period] by (rule dvdE)
    have "b - 5 ^ (i + L) * c = (b - 5 ^ i * c) + (- (5 ^ i * q)) * (2 * int N)" unfolding step q by simp
    then show "ext N F (b - 5 ^ (i + L) * c) l = ext N F (b - 5 ^ i * c) l" by (simp only: ext_cong [OF mod_mult_self1])
    have "b - 5 ^ (i + ?h) * c = (b - 5 ^ i * c) + int N * (- (5 ^ i * (u * d)))" unfolding step h by simp
    moreover have "odd (- (5 ^ i * (u * d)))" using u(1) w(2) by simp
    ultimately show "ext N F (b - 5 ^ (i + ?h) * c) l = - ext N F (b - 5 ^ i * c) l" using ext_turns [OF N0] by metis
  qed
qed

section \<open>Selection\<close>

text \<open>
  \<open>a_hat\<close> is what the database stores of the entries \<open>A\<close> for the conjugate \<open>5 ^ k\<close> or, with \<open>sg = - 1\<close>, \<open>- 5 ^ k\<close>; \<open>u\<close> is the
  base power of the queries. Multiplied with the conjugates of a query \<open>X ^ (u * i)\<close>, its sum is a multiple of entry \<open>i\<close>.
\<close>

definition a_hat :: "nat \<Rightarrow> nat \<Rightarrow> int \<Rightarrow> nat \<Rightarrow> (nat \<Rightarrow> nat \<Rightarrow> nat \<Rightarrow> int) \<Rightarrow> nat \<Rightarrow> nat \<Rightarrow> nat \<Rightarrow> int" where
  "a_hat N order sg u A k n l = (\<Sum>j < order. ext N (A j) (int n + sg * (5 ^ k * int (u * j))) l)"

lemma ext_a_hat:
  assumes "0 < N"
  shows "ext N (a_hat N order sg u A k) e l = (\<Sum>j < order. ext N (A j) (e + sg * (5 ^ k * int (u * j))) l)"
proof -
  have "ext N (a_hat N order sg u A k) e l = (\<Sum>j < order. ext N (\<lambda>n l. ext N (A j) (1 * int n + sg * (5 ^ k * int (u * j))) l) e l)"
    unfolding ext_sum [symmetric] a_hat_def [abs_def] by simp
  then show ?thesis using ext_subst [OF assms, of 1] by simp
qed

lemma select_subgroup:
  assumes N: "N = 2 ^ Suc m" and L: "L * u = 2 ^ m" "L = 2 ^ r" and i: "i < L" and n: "n < N"
  shows "(\<Sum>k < L. ext N (a_hat N L 1 u A k) (int n - 5 ^ k * int (u * i)) l) = int L * A i n l"
proof -
  have N0: "0 < N" by (simp add: N)
  have "(\<Sum>k < L. ext N (a_hat N L 1 u A k) (int n - 5 ^ k * int (u * i)) l) =
      (\<Sum>k < L. \<Sum>j < L. ext N (A j) (int n - 5 ^ k * (int u * (int i - int j))) l)"
    unfolding ext_a_hat [OF N0] by (simp add: algebra_simps)
  also have "\<dots> = (\<Sum>j < L. \<Sum>k < L. ext N (A j) (int n - 5 ^ k * (int u * (int i - int j))) l)" by (rule sum.swap)
  also have "\<dots> = (\<Sum>j < L. if j = i then int L * A i n l else 0)"
  proof (rule sum.cong [OF refl])
    fix j assume "j \<in> {..<L}"
    then have j: "j < L" by simp
    show "(\<Sum>k < L. ext N (A j) (int n - 5 ^ k * (int u * (int i - int j))) l) = (if j = i then int L * A i n l else 0)"
    proof (cases "j = i")
      case False
      have Lu: "int L * int u = 2 ^ m" using L(1) by (metis of_nat_mult of_nat_numeral of_nat_power)
      have "\<not> 2 ^ m dvd int u * (int i - int j)"
      proof
        assume "2 ^ m dvd int u * (int i - int j)"
        then have "int u * int L dvd int u * (int i - int j)" using Lu by (simp add: mult.commute)
        moreover have "u \<noteq> 0" using L(1) by (cases u) auto
        ultimately have "int L dvd int i - int j" by simp
        moreover have "int i - int j \<noteq> 0" using False by simp
        ultimately have "\<bar>int L\<bar> \<le> \<bar>int i - int j\<bar>" by (intro dvd_imp_le_int)
        then show False using i j by linarith
      qed
      moreover have "((5 ^ L - 1) * (int u * (int i - int j))) mod (2 * int N) = 0"
      proof -
        obtain c where c: "(5 :: int) ^ L = 1 + 2 ^ (r + 2) * c" using five_power [of r] L(2) by auto
        have e: "(5 :: int) ^ L - 1 = 4 * int L * c" unfolding c by (simp add: L(2) power_add)
        have "(5 ^ L - 1) * (int u * (int i - int j)) = (4 * (int L * int u)) * (c * (int i - int j))"
          unfolding e by (simp only: ac_simps)
        also have "4 * (int L * int u) = 2 * int N" unfolding Lu by (simp add: N)
        finally have "(5 ^ L - 1) * (int u * (int i - int j)) = 2 * int N * (c * (int i - int j))" .
        then show ?thesis by (simp only: mod_mult_self1_is_0)
      qed
      ultimately show ?thesis using False sum_conjugates [OF N] by simp
    qed (use n in simp)
  qed
  also have "\<dots> = int L * A i n l" using i by simp
  finally show ?thesis .
qed


lemma select_full:
  assumes N: "N = 2 ^ Suc m" and i: "i < N" and n: "n < N"
  shows "(\<Sum>k < 2 ^ m. ext N (a_hat N N 1 1 A k) (int n - 5 ^ k * int i) l) +
    (\<Sum>k < 2 ^ m. ext N (a_hat N N (- 1) 1 A k) (int n + 5 ^ k * int i) l) = int N * A i n l"
proof -
  have N0: "0 < N" by (simp add: N)
  have "(\<Sum>k < 2 ^ m. ext N (a_hat N N 1 1 A k) (int n - 5 ^ k * int i) l) +
      (\<Sum>k < 2 ^ m. ext N (a_hat N N (- 1) 1 A k) (int n + 5 ^ k * int i) l) =
      (\<Sum>k < 2 ^ m. \<Sum>j < N. ext N (A j) (int n - 5 ^ k * (int i - int j)) l) +
      (\<Sum>k < 2 ^ m. \<Sum>j < N. ext N (A j) (int n - 5 ^ k * (int j - int i)) l)"
    unfolding ext_a_hat [OF N0] by (simp add: algebra_simps)
  also have "\<dots> = (\<Sum>j < N. (\<Sum>k < 2 ^ m. ext N (A j) (int n - 5 ^ k * (int i - int j)) l) +
      (\<Sum>k < 2 ^ m. ext N (A j) (int n - 5 ^ k * (int j - int i)) l))"
    unfolding sum.distrib by (intro arg_cong2 [where f = "(+)"] sum.swap)
  also have "\<dots> = (\<Sum>j < N. if j = i then int N * A i n l else 0)"
  proof (rule sum.cong [OF refl])
    fix j assume "j \<in> {..<N}"
    then have j: "j < N" by simp
    let ?f = "\<lambda>c k. ext N (A j) (int n - 5 ^ k * c) l"
    show "(\<Sum>k < 2 ^ m. ?f (int i - int j) k) + (\<Sum>k < 2 ^ m. ?f (int j - int i) k) = (if j = i then int N * A i n l else 0)"
    proof (cases "2 ^ m dvd int i - int j")
      case False
      have period: "((5 ^ 2 ^ m - 1) * c) mod (2 * int N) = 0" for c :: int
      proof -
        obtain d where d: "(5 :: int) ^ 2 ^ m = 1 + 2 ^ (m + 2) * d" using five_power [of m] by auto
        have "(5 ^ 2 ^ m - 1) * c = 2 * int N * (d * c)" unfolding d by (simp add: N)
        then show ?thesis by (simp only: mod_mult_self1_is_0)
      qed
      have "\<not> 2 ^ m dvd int j - int i" using False dvd_minus_iff [of "2 ^ m" "int i - int j"] by simp
      moreover have "j \<noteq> i" using False by auto
      ultimately show ?thesis using sum_conjugates [OF N _ period] False by simp
    next
      case True
      then obtain c where c: "int i - int j = 2 ^ m * c" by blast
      show ?thesis
      proof (cases "j = i")
        case True
        then show ?thesis using n by (simp add: N)
      next
        case False
        have "\<bar>int i - int j\<bar> < int N" using i j by linarith
        then have "\<bar>2 ^ m * c\<bar> < 2 ^ m * 2" unfolding c by (simp add: N)
        then have "\<bar>c\<bar> < 2" by (simp add: abs_mult)
        moreover have "c \<noteq> 0" using c False by auto
        ultimately have "c = 1 \<or> c = - 1" by linarith
        then have odd: "odd (c * 5 ^ k)" for k by auto
        have "?f (int j - int i) k = - ?f (int i - int j) k" for k
        proof -
          have "int n - 5 ^ k * (int j - int i) = (int n - 5 ^ k * (int i - int j)) + int N * (c * 5 ^ k)"
          proof -
            have e: "int j - int i = - (2 ^ m * c)" using c by simp
            show ?thesis unfolding c e by (simp add: N algebra_simps)
          qed
          then show ?thesis using ext_turns [OF N0] odd by metis
        qed
        then show ?thesis using False by (simp add: sum_negf)
      qed
    qed
  qed
  also have "\<dots> = int N * A i n l" using i by simp
  finally show ?thesis .
qed


lemma a_hat_bound:
  assumes "\<And>j n. j < order \<Longrightarrow> n < N \<Longrightarrow> \<bar>A j n l\<bar> \<le> b" "0 < N"
  shows "\<bar>a_hat N order sg u A k n l\<bar> \<le> int order * b"
proof -
  have "\<bar>a_hat N order sg u A k n l\<bar> \<le> (\<Sum>j < order. \<bar>ext N (A j) (int n + sg * (5 ^ k * int (u * j))) l\<bar>)"
    unfolding a_hat_def by (rule sum_abs)
  also have "\<dots> \<le> (\<Sum>j < order. b)" using assms by (intro sum_mono ext_bound) auto
  finally show ?thesis by simp
qed

lemma slot_a_hat:
  assumes y: "half_turn p N y" and N: "0 < N" and e: "\<And>j. j < order \<Longrightarrow> int (e j) mod (2 * int N) = (- sg * (5 ^ k * int (u * j))) mod (2 * int N)"
  shows "slot_value y N (a_hat N order sg u A k) i l mod p = (\<Sum>j < order. slot_value y N (A j) i l * y ^ ((2 * i + 1) * e j)) mod p"
proof -
  have "a_hat N order sg u A k n l = (\<Sum>j < order. shift N (int (e j)) (A j) n l)" for n
    unfolding a_hat_def
  proof (rule sum.cong [OF refl])
    fix j assume "j \<in> {..<order}"
    then have "(int n - int (e j)) mod (2 * int N) = (int n - (- sg * (5 ^ k * int (u * j)))) mod (2 * int N)"
      using e by (intro mod_diff_cong refl) simp
    then show "ext N (A j) (int n + sg * (5 ^ k * int (u * j))) l = shift N (int (e j)) (A j) n l"
      unfolding shift_def by (intro ext_cong) simp
  qed
  then have "slot_value y N (a_hat N order sg u A k) i l = (\<Sum>n < N. \<Sum>j < order. shift N (int (e j)) (A j) n l * y ^ (n * (2 * i + 1)))"
    by (simp add: slot_value_def sum_distrib_right)
  also have "\<dots> = (\<Sum>j < order. slot_value y N (shift N (int (e j)) (A j)) i l)"
    unfolding slot_value_def by (rule sum.swap)
  finally show ?thesis by (simp only:) (rule sum_mod_cong, rule slot_shift [OF y N])
qed


section \<open>Coefficients from slots\<close>

lemma geometric_zero:
  fixes u p :: int
  assumes "u ^ n mod p = 1 mod p" "coprime (u - 1) p"
  shows "(\<Sum>i < n. u ^ i) mod p = 0"
proof -
  have "(u - 1) * (\<Sum>i < n. u ^ i) = u ^ n - 1" by (simp add: power_diff_1_eq lessThan_atLeast0)
  moreover have "p dvd u ^ n - 1" using assms(1) by (simp add: mod_eq_dvd_iff)
  ultimately have "p dvd (\<Sum>i < n. u ^ i)" using assms(2) by (metis coprime_commute coprime_dvd_mult_right_iff)
  then show ?thesis by simp
qed


text \<open>A root of \<open>- 1\<close> of rank a power of two has powers away from \<open>1\<close>.\<close>

lemma coprime_below_half_turn:
  fixes u p :: int
  assumes "(u ^ m + 1) mod p = 0" "odd p"
  shows "coprime (u - 1) p"
proof (rule coprimeI)
  fix c assume c: "c dvd u - 1" "c dvd p"
  have "u - 1 dvd u ^ m - 1" using power_diff_1_eq [of u m] by (simp only: dvd_triv_left)
  then have "c dvd u ^ m - 1" using c(1) dvd_trans by blast
  moreover have "c dvd u ^ m + 1" using assms(1) c(2) dvd_trans by blast
  ultimately have "c dvd (u ^ m + 1) - (u ^ m - 1)" by (rule dvd_diff [rotated])
  then have "c dvd 2" by simp
  then show "is_unit c" using c(2) assms(2) coprime_common_divisor [of 2 p c] by simp
qed

lemma half_turn_powers_coprime:
  assumes y: "half_turn p (2 ^ k) y" and "odd p" "0 < d" "d < 2 ^ Suc k"
  shows "coprime (y ^ d - 1) p"
proof -
  obtain e c where d: "odd c" "d = 2 ^ e * c" using odd_part [OF assms(3)] .
  then have "2 ^ e \<le> d" by (cases c) simp_all
  then have "2 ^ e < (2 :: nat) ^ Suc k" using assms(4) by (rule le_less_trans)
  then have e: "e \<le> k" by (simp only: power_strict_increasing_iff one_less_numeral_iff semiring_norm less_Suc_eq_le)
  have "(y ^ d) ^ (2 ^ (k - e)) = y ^ (c * 2 ^ (e + (k - e)))"
    by (simp only: power_mult [symmetric] d(2) power_add ac_simps)
  also have "\<dots> = (y ^ c) ^ 2 ^ k" using e by (simp add: power_mult)
  finally have "(y ^ d) ^ (2 ^ (k - e)) mod p = - 1 mod p" using half_turn_power [OF y d(1)] by simp
  then have "((y ^ d) ^ (2 ^ (k - e)) + 1) mod p = (- 1 + 1) mod p" by (rule mod_add_cong) simp
  then show ?thesis by (intro coprime_below_half_turn [OF _ assms(2)]) simp
qed

lemma root_powers_coprime:
  assumes y: "half_turn p (2 ^ k) y" and "odd p" "0 < d" "d < 2 ^ k"
  shows "coprime ((y ^ 2) ^ d - 1) p"
  using half_turn_powers_coprime [OF y assms(2), of "2 * d"] assms(3,4) by (simp add: power_mult)


text \<open>For a rank that is a power of two, the slots determine the coefficients.\<close>

lemma slot_orthogonal:
  assumes y: "half_turn p N y" and N: "N = 2 ^ k" and p: "odd p" and ni: "n < N" "i < N"
  shows "(\<Sum>j < N. y ^ (i * (2 * j + 1)) * y ^ ((2 * N - n) * (2 * j + 1))) mod p = (if i = n then int N else 0) mod p"
proof -
  let ?d = "i + (2 * N - n)"
  have t: "y ^ (i * (2 * j + 1)) * y ^ ((2 * N - n) * (2 * j + 1)) = y ^ ?d * ((y ^ 2) ^ ?d) ^ j" for j
  proof -
    have "a * (2 * j + 1) + b * (2 * j + 1) = (a + b) + 2 * (a + b) * j" for a b :: nat by (simp add: algebra_simps)
    note this [of i "2 * N - n"]
    then show ?thesis by (simp only: power_add [symmetric] power_mult [symmetric])
  qed
  show ?thesis
  proof (cases "i = n")
    case True
    then have d: "?d = 2 * N * 1" using ni by simp
    have one: "y ^ ?d mod p = 1 mod p" using full_turn [OF y, of 1] y unfolding d by (simp add: half_turn_def)
    have "(y ^ ?d * ((y ^ 2) ^ ?d) ^ j) mod p = 1 mod p" for j
    proof -
      have "((y ^ 2) ^ D) ^ j = (y ^ D) ^ (2 * j)" for D :: nat by (simp add: mult.commute mult.left_commute flip: power_mult)
      note this [of ?d]
      moreover have "(y ^ ?d) ^ (2 * j) mod p = 1 mod p" by (metis one power_mod power_one)
      ultimately show ?thesis using mod_mult_cong [OF one] by (metis mult_1)
    qed
    then have "(\<Sum>j < N. y ^ ?d * ((y ^ 2) ^ ?d) ^ j) mod p = (\<Sum>j < N. 1) mod p" by (rule sum_mod_cong)
    then show ?thesis using True unfolding t by simp
  next
    case False
    let ?e = "?d mod N"
    have "?e < N" using N by simp
    moreover have "0 < ?e"
    proof (rule ccontr)
      assume "\<not> 0 < ?e"
      then have "(?d + n) mod N = n mod N" using mod_add_left_eq [of ?d N n] by simp
      moreover have "?d + n = i + 2 * N" using ni by simp
      ultimately show False using ni False by simp
    qed
    ultimately have c: "coprime ((y ^ 2) ^ ?e - 1) p" using root_powers_coprime [of p k y ?e] y p N by blast
    have w: "((y ^ 2) ^ ?d) mod p = ((y ^ 2) ^ ?e) mod p"
      unfolding power_mult [symmetric] by (intro turn_cong [OF y]) (simp add: mult_mod_right)
    have "((y ^ 2) ^ ?e) ^ N mod p = 1 mod p"
    proof -
      have "((y ^ 2) ^ a) ^ N = y ^ (2 * N * a)" for a :: nat by (simp add: mult.commute mult.left_commute flip: power_mult)
      note this [of ?e]
      then show ?thesis using full_turn [OF y, of ?e] y by (simp add: half_turn_def)
    qed
    then have "(\<Sum>j < N. ((y ^ 2) ^ ?e) ^ j) mod p = 0" by (rule geometric_zero [OF _ c])
    moreover have "(\<Sum>j < N. ((y ^ 2) ^ ?d) ^ j) mod p = (\<Sum>j < N. ((y ^ 2) ^ ?e) ^ j) mod p"
      using arg_cong [OF w, of "\<lambda>x. x ^ _ mod p"] by (intro sum_mod_cong) (simp only: power_mod)
    ultimately show ?thesis using False unfolding t sum_distrib_left [symmetric] by (auto simp: mod_eq_0_iff_dvd)
  qed
qed

lemma slot_inject:
  assumes y: "half_turn p N y" and N: "N = 2 ^ k" and p: "odd p" and n: "n < N"
    and eq: "\<And>j. j < N \<Longrightarrow> slot_value y N F j l mod p = slot_value y N G j l mod p"
  shows "F n l mod p = G n l mod p"
proof -
  let ?c = "\<lambda>j. y ^ ((2 * N - n) * (2 * j + 1))"
  have recover: "(\<Sum>j < N. slot_value y N F j l * ?c j) mod p = (int N * F n l) mod p" for F
  proof -
    have "(\<Sum>j < N. slot_value y N F j l * ?c j) = (\<Sum>j < N. \<Sum>i < N. F i l * (y ^ (i * (2 * j + 1)) * ?c j))"
      unfolding slot_value_def sum_distrib_right by (simp only: mult.assoc)
    also have "\<dots> = (\<Sum>i < N. F i l * (\<Sum>j < N. y ^ (i * (2 * j + 1)) * ?c j))"
      unfolding sum_distrib_left by (rule sum.swap)
    finally have e: "(\<Sum>j < N. slot_value y N F j l * ?c j) = (\<Sum>i < N. F i l * (\<Sum>j < N. y ^ (i * (2 * j + 1)) * ?c j))" .
    have "(\<Sum>i < N. F i l * (\<Sum>j < N. y ^ (i * (2 * j + 1)) * ?c j)) mod p = (\<Sum>i < N. F i l * (if i = n then int N else 0)) mod p"
      by (intro sum_mod_cong mod_mult_cong refl slot_orthogonal [OF y N p n]) simp
    moreover have "(\<Sum>i < N. F i l * (if i = n then int N else 0)) = int N * F n l"
      using n by (simp add: if_distrib [of "\<lambda>x. _ * x"] cong: if_cong)
    ultimately show ?thesis unfolding e by simp
  qed
  have "(\<Sum>j < N. slot_value y N F j l * ?c j) mod p = (\<Sum>j < N. slot_value y N G j l * ?c j) mod p"
    using eq by (intro sum_mod_cong mod_mult_cong) simp_all
  then have "(int N * F n l) mod p = (int N * G n l) mod p" unfolding recover .
  then have "p dvd int N * (F n l - G n l)" by (simp add: mod_eq_dvd_iff right_diff_distrib)
  moreover have "coprime p (int N)"
    unfolding N using p by (simp only: coprime_commute [of p] of_nat_power of_nat_numeral coprime_power_left_iff coprime_left_2_iff_odd simp_thms)
  ultimately have "p dvd F n l - G n l" by (simp add: coprime_dvd_mult_right_iff)
  then show ?thesis by (simp add: mod_eq_dvd_iff)
qed

end
