(* ===== verification/Gadget_Correct.thy ===== *)
theory Gadget_Correct
  imports Base_Pir Main_Loop_Correct Bfv_Correct
begin

text \<open>
  The gadget decomposition of \<open>partial_gal\<close>: two residues determine the representative of smallest absolute
  value modulo \<open>q\<close>, and its two digits in base \<open>2 ^ 26\<close>, balanced around zero, are represented modulo both
  primes. All of it happens on signed 64-bit lanes.
\<close>

section \<open>Signed lanes\<close>

lemma sint_word_of_int: "- (2 ^ 63) \<le> c \<Longrightarrow> c < 2 ^ 63 \<Longrightarrow> sint (word_of_int c :: u64) = c"
  by (simp add: signed_of_int signed_take_bit_int_eq_self)

lemma signed_drop_word_of_int:
  assumes "- (2 ^ 63) \<le> c" "c < 2 ^ 63"
  shows "signed_drop_bit n (word_of_int c :: u64) = word_of_int (c div 2 ^ n)"
proof -
  have "signed_drop_bit n (word_of_int c :: u64) = word_of_int (sint (signed_drop_bit n (word_of_int c :: u64)))" by simp
  also have "\<dots> = word_of_int (c div 2 ^ n)"
    unfolding sint_signed_drop_bit_eq sint_word_of_int [OF assms] drop_bit_eq_div ..
  finally show ?thesis .
qed

lemma push_word_of_int: "push_bit n (word_of_int c :: u64) = word_of_int (c * 2 ^ n)"
  by (simp add: push_bit_eq_mult)

text \<open>\<open>lanes_are v f\<close>: lane \<open>i\<close> is the signed integer \<open>f i\<close>.\<close>

definition lanes_are :: "m512i \<Rightarrow> (nat \<Rightarrow> int) \<Rightarrow> bool" where
  "lanes_are v f \<longleftrightarrow> lanes8 v \<and> (\<forall>i < 8. v ! i = word_of_int (f i))"

lemma lanes_are_ops:
  assumes "lanes_are x f" "lanes_are y g"
  shows "lanes_are (mm512_add_epi64 x y) (\<lambda>i. f i + g i)" "lanes_are (mm512_sub_epi64 x y) (\<lambda>i. f i - g i)"
    "lanes_are (mm512_slli_epi64 n x) (\<lambda>i. f i * 2 ^ n)"
  using assms by (auto simp: lanes_are_def lane_ops mm512_slli_epi64_def push_word_of_int)

lemma lanes_are_set1: "lanes_are (mm512_set1_epi64 (word_of_int c)) (\<lambda>_. c)"
  by (simp add: lanes_are_def lane_set1)

lemma lanes_are_srai:
  assumes "lanes_are x f" "\<And>i. i < 8 \<Longrightarrow> - (2 ^ 63) \<le> f i \<and> f i < 2 ^ 63"
  shows "lanes_are (mm512_srai_epi64 n x) (\<lambda>i. f i div 2 ^ n)"
  using assms by (auto simp: lanes_are_def mm512_srai_epi64_def signed_drop_word_of_int)

lemma lanes_are_greater:
  assumes "lanes_are x f" "lanes_are y g" "lanes_are v h"
    and "\<And>i. i < 8 \<Longrightarrow> - (2 ^ 63) \<le> f i \<and> f i < 2 ^ 63" "\<And>i. i < 8 \<Longrightarrow> - (2 ^ 63) \<le> g i \<and> g i < 2 ^ 63"
  shows "lanes_are (mm512_mask v (mm512_cmpgt_epi64_mask x y)) (\<lambda>i. if f i > g i then h i else 0)"
  using assms by (auto simp: lanes_are_def lane_masked sint_word_of_int)

lemma lanes_are_represents:
  assumes "lanes_are x f" "\<And>i. i < 8 \<Longrightarrow> 0 \<le> f i \<and> f i \<le> b" "b < 2 ^ 63"
  shows "represents r b x f"
proof -
  have "uint (x ! i) = f i" if "i < 8" for i
  proof -
    have "0 \<le> f i" "f i < 2 ^ 64" using assms(2) [OF that] assms(3) by simp_all
    then show ?thesis using assms(1) that by (simp add: lanes_are_def unsigned_of_int take_bit_int_eq_self)
  qed
  then show ?thesis using assms(1,2) by (simp add: represents_def lanes_are_def)
qed

lemma represents_lanes_are:
  assumes "represents r b x f"
  shows "lanes_are x (\<lambda>i. uint (x ! i))"
  using representsD(1) [OF assms] by (simp add: lanes_are_def)


section \<open>The constants\<close>

text \<open>The two deployed primes, with the scalar rings their vectors are built on.\<close>

definition prime_pair :: "'z special_zn \<times> 'z special_zn \<Rightarrow> 'z zn_arith \<times> 'z zn_arith \<Rightarrow> bool" where
  "prime_pair rns Zqs \<longleftrightarrow> special_ok (fst rns) \<and> special_ok (snd rns) \<and> pm (fst rns) = Q_FACTOR1 \<and> pm (snd rns) = Q_FACTOR2 \<and>
     zn_arith_spec (fst Zqs) \<and> zn_arith_spec (snd Zqs) \<and>
     sz_component_ring (fst rns) = zn_ring.truncate (fst Zqs) \<and> sz_component_ring (snd rns) = zn_ring.truncate (snd Zqs)"

lemmas q_values = Q_FACTOR1_def Q_FACTOR2_def FIXED_Q_def

lemma truncated_ring: "zn_modulus (zn_ring.truncate R) = zn_modulus R" "zn_lift (zn_ring.truncate R) = zn_lift R"
  by (simp_all add: zn_ring.defs)

lemma prime_pairD:
  assumes "prime_pair rns Zqs"
  shows "special_ok (fst rns)" "special_ok (snd rns)" "pm (fst rns) = Q_FACTOR1" "pm (snd rns) = Q_FACTOR2"
    "zn_arith_spec (fst Zqs)" "zn_arith_spec (snd Zqs)" "zn_modulus (fst Zqs) = Q_FACTOR1" "zn_modulus (snd Zqs) = Q_FACTOR2"
    "zn_lift (sz_component_ring (fst rns)) = zn_lift (fst Zqs)" "zn_lift (sz_component_ring (snd rns)) = zn_lift (snd Zqs)"
proof -
  show ok: "special_ok (fst rns)" "special_ok (snd rns)" "pm (fst rns) = Q_FACTOR1" "pm (snd rns) = Q_FACTOR2"
    "zn_arith_spec (fst Zqs)" "zn_arith_spec (snd Zqs)"
    using assms unfolding prime_pair_def by blast+
  have t: "sz_component_ring (fst rns) = zn_ring.truncate (fst Zqs)" "sz_component_ring (snd rns) = zn_ring.truncate (snd Zqs)"
    using assms unfolding prime_pair_def by blast+
  show "zn_lift (sz_component_ring (fst rns)) = zn_lift (fst Zqs)" "zn_lift (sz_component_ring (snd rns)) = zn_lift (snd Zqs)"
    unfolding t truncated_ring by simp_all
  show "zn_modulus (fst Zqs) = Q_FACTOR1" "zn_modulus (snd Zqs) = Q_FACTOR2"
    using special_okD(5) [OF ok(1)] special_okD(5) [OF ok(2)] unfolding t truncated_ring ok(3,4) .
qed

text \<open>The kernel evaluates the Euclidean algorithm on the two primes.\<close>

lemma primes_coprime: "coprime Q_FACTOR1 Q_FACTOR2" "coprime Q_FACTOR2 Q_FACTOR1"
proof -
  have "gcd Q_FACTOR1 Q_FACTOR2 = 1" unfolding q_values by code_simp
  then show "coprime Q_FACTOR1 Q_FACTOR2" by (simp only: coprime_iff_gcd_eq_1)
  then show "coprime Q_FACTOR2 Q_FACTOR1" by (simp only: coprime_commute)
qed

text \<open>\<open>gadget_ok gd rns i1 i2\<close>: the vectors hold their constants, \<open>i1\<close> and \<open>i2\<close> invert the other prime.\<close>

definition gadget_ok :: "gadget \<Rightarrow> 'z special_zn \<times> 'z special_zn \<Rightarrow> int \<Rightarrow> int \<Rightarrow> bool" where
  "gadget_ok gd rns i1 i2 \<longleftrightarrow> lanes_are (avx_q gd) (\<lambda>_. FIXED_Q) \<and> lanes_are (avx_q1_multiple gd) (\<lambda>_. 2 * Q_FACTOR1) \<and>
     lanes_are (avx_q2_multiple gd) (\<lambda>_. 2 * Q_FACTOR2) \<and> lanes_are (avx_q_half gd) (\<lambda>_. FIXED_Q div 2) \<and>
     lanes_are (avx_B_half gd) (\<lambda>_. 2 ^ 25) \<and>
     represents (fst rns) (2 * pm (fst rns)) (avx_inv_q2_mod_q1 gd) (\<lambda>_. i2) \<and> (Q_FACTOR2 * i2) mod Q_FACTOR1 = 1 \<and>
     represents (snd rns) (2 * pm (snd rns)) (avx_inv_q1_mod_q2 gd) (\<lambda>_. i1) \<and> (Q_FACTOR1 * i1) mod Q_FACTOR2 = 1"

lemma constant_component:
  assumes "special_ok r"
  shows "represents r (2 * pm r) (from_components r (replicate 8 z)) (\<lambda>_. zn_lift (sz_component_ring r) z)"
  using represents_mono [OF from_components_represents [OF assms, of "replicate 8 z"], of "2 * pm r"] md_bounds(1) [OF assms]
  by (simp add: represents_def)

lemma gadget_consts_Ok:
  assumes P: "prime_pair rns Zqs"
  shows "\<exists>gd i1 i2. gadget_consts rns Zqs FIXED_Q = (Ok gd :: ('e, gadget) outcome) \<and> gadget_ok gd rns i1 i2"
proof -
  note p = prime_pairD [OF P]
  obtain j where j: "modulus_inv (snd Zqs) (fst Zqs) = (Ok j :: ('e, 'a) outcome)" "(Q_FACTOR2 * zn_lift (fst Zqs) j) mod Q_FACTOR1 = 1"
    using modulus_inv_Ok [OF p(5), of "snd Zqs"] primes_coprime(2) p(7,8) by auto
  obtain k where k: "modulus_inv (fst Zqs) (snd Zqs) = (Ok k :: ('e, 'a) outcome)" "(Q_FACTOR1 * zn_lift (snd Zqs) k) mod Q_FACTOR2 = 1"
    using modulus_inv_Ok [OF p(6), of "fst Zqs"] primes_coprime(1) p(7,8) by auto
  have m: "(drop_bit LOG2_B FIXED_Q div Q_FACTOR1 + 2) * Q_FACTOR1 = 2 * Q_FACTOR1"
    "(drop_bit LOG2_B FIXED_Q div Q_FACTOR2 + 2) * Q_FACTOR2 = 2 * Q_FACTOR2"
    by (simp_all add: q_values LOG2_B_def drop_bit_eq_div)
  have h: "push_bit LOG2_B 1 div 2 = (word_of_int (2 ^ 25) :: u64)"
    by (simp add: LOG2_B_def push_bit_eq_mult)
  let ?gd = "\<lparr>avx_q = mm512_set1_epi64 (word_of_int FIXED_Q), avx_q1_multiple = mm512_set1_epi64 (word_of_int (2 * Q_FACTOR1)),
    avx_q2_multiple = mm512_set1_epi64 (word_of_int (2 * Q_FACTOR2)), avx_q_half = mm512_set1_epi64 (word_of_int (FIXED_Q div 2)),
    avx_B_half = mm512_set1_epi64 (word_of_int (2 ^ 25)), avx_inv_q2_mod_q1 = from_components (fst rns) (replicate 8 j),
    avx_inv_q1_mod_q2 = from_components (snd rns) (replicate 8 k)\<rparr>"
  have "gadget_consts rns Zqs FIXED_Q = (Ok ?gd :: ('e, gadget) outcome)"
    unfolding gadget_consts_def Let_def p(7,8) m h
    using j(1) k(1) by (simp only: modulus_inv_def p(7,8) bind_outcome.simps)
  moreover have "gadget_ok ?gd rns (zn_lift (snd Zqs) k) (zn_lift (fst Zqs) j)"
    unfolding gadget_ok_def gadget.simps
    using lanes_are_set1 constant_component [OF p(1), of j] constant_component [OF p(2), of k] j(2) k(2)
    by (intro conjI) (simp_all only: p(9,10) lanes_are_set1)
  ultimately show ?thesis by blast
qed


section \<open>The representative of smallest absolute value\<close>

text \<open>The arithmetic of the Chinese remainder theorem and of centring, on integers.\<close>

lemma crt_residues:
  fixes p q e f x y i j :: int
  assumes "e = (x * j) mod p" "(q * j) mod p = 1" "f = (y * i) mod q" "(p * i) mod q = 1"
  shows "(e * q + f * p) mod p = x mod p" "(e * q + f * p) mod q = y mod q"
proof -
  have c: "((u * k) mod m * n) mod m = u mod m" if "(n * k) mod m = 1" for u k m n :: int
  proof -
    have "((u * k) mod m * n) mod m = (u * ((n * k) mod m)) mod m"
      by (simp only: mod_mult_left_eq mod_mult_right_eq ac_simps)
    then show ?thesis by (simp only: that mult_1_right)
  qed
  have "(e * q + f * p) mod p = (e * q) mod p" by simp
  then show "(e * q + f * p) mod p = x mod p" unfolding assms(1) c [OF assms(2)] .
  have "(e * q + f * p) mod q = (f * p) mod q" by simp
  then show "(e * q + f * p) mod q = y mod q" unfolding assms(3) c [OF assms(4)] .
qed

definition centred :: "int \<Rightarrow> int" where
  "centred s = (let t = (if s > FIXED_Q then s - FIXED_Q else s) in if t > FIXED_Q div 2 then t - FIXED_Q else t)"

lemma centred_props:
  assumes "0 \<le> s" "s < 2 * FIXED_Q"
  shows "\<bar>centred s\<bar> \<le> FIXED_Q div 2" "centred s mod Q_FACTOR1 = s mod Q_FACTOR1" "centred s mod Q_FACTOR2 = s mod Q_FACTOR2"
proof -
  show "\<bar>centred s\<bar> \<le> FIXED_Q div 2"
    using assms unfolding centred_def Let_def by (simp add: q_values)
  obtain k where k: "centred s = s + k * FIXED_Q"
    by (rule that [of "(if s > FIXED_Q then - 1 else 0) +
        (if (if s > FIXED_Q then s - FIXED_Q else s) > FIXED_Q div 2 then - 1 else 0)"])
      (simp add: centred_def Let_def)
  have "centred s = s + k * Q_FACTOR2 * Q_FACTOR1" by (simp add: k FIXED_Q_def)
  then show "centred s mod Q_FACTOR1 = s mod Q_FACTOR1" by (simp only: mod_mult_self1)
  have "centred s = s + k * Q_FACTOR1 * Q_FACTOR2" by (simp add: k FIXED_Q_def)
  then show "centred s mod Q_FACTOR2 = s mod Q_FACTOR2" by (simp only: mod_mult_self1)
qed

lemma take_bit_32_uint: "uint (w :: u64) < 2 ^ 32 \<Longrightarrow> take_bit 32 w = w"
  using unsigned_greater_eq [of w, where 'a = int] by (simp only: word_uint_eq_iff unsigned_take_bit_eq take_bit_int_eq_self)

lemma lift_product:
  assumes P: "prime_pair rns Zqs" and r: "r = fst rns \<and> r' = snd rns \<or> r = snd rns \<and> r' = fst rns"
    and x: "represents r (2 * pm r) x f" and y: "represents r (2 * pm r) y (\<lambda>_. k)"
  shows "lanes_are (mm512_mul_epu32 (simd_smallest_positive_lift r (mul_assign r x y)) (sz_modulusx8 r'))
    (\<lambda>i. ((f i * k) mod pm r) * pm r')"
proof -
  have ok: "special_ok r" "special_ok r'" using r prime_pairD(1,2) [OF P] by auto
  let ?e = "simd_smallest_positive_lift r (mul_assign r x y)"
  note e = lift_represents [OF ok(1) mul_assign_represents [OF ok(1) x y]]
  have "mm512_mul_epu32 ?e (sz_modulusx8 r') ! i = word_of_int (((f i * k) mod pm r) * pm r')" if i: "i < 8" for i
  proof -
    have b: "uint (?e ! i) < pm r" "pm r \<le> 2 ^ 30" "pm r' \<le> 2 ^ 30" "0 < pm r"
      using representsD(2) [OF e i] md_bounds [OF ok(1)] md_bounds [OF ok(2)] by simp_all
    have "uint (?e ! i) mod pm r = uint (?e ! i)" using b by (simp add: unsigned_greater_eq)
    then have v: "uint (?e ! i) = (f i * k) mod pm r" using representsD(3) [OF e i] by simp
    have m: "uint (sz_modulusx8 r' ! i) = pm r'"
      using md_bounds(3) [OF ok(2)] i by (simp add: special_okD(2) [OF ok(2)] lane_simps)
    have "take_bit 32 (?e ! i) = ?e ! i" "take_bit 32 (sz_modulusx8 r' ! i) = sz_modulusx8 r' ! i"
      using b m by (simp_all add: take_bit_32_uint)
    then have "mm512_mul_epu32 ?e (sz_modulusx8 r') ! i = ?e ! i * sz_modulusx8 r' ! i"
      using representsD(1) [OF e] i by (simp add: lane_simps special_okD(2) [OF ok(2)] mul_epu32_def)
    also have "\<dots> = word_of_int (uint (?e ! i) * uint (sz_modulusx8 r' ! i))" by simp
    finally show ?thesis unfolding v m .
  qed
  then show ?thesis using representsD(1) [OF e] by (simp add: lanes_are_def special_okD(2) [OF ok(2)])
qed


lemma shortest_lift_lanes:
  assumes P: "prime_pair rns Zqs" and G: "gadget_ok gd rns i1 i2"
    and x: "represents (fst rns) (2 * pm (fst rns)) x f" and y: "represents (snd rns) (2 * pm (snd rns)) y g"
  shows "\<exists>v. lanes_are (shortest_lift_avx gd rns (x, y)) v \<and>
    (\<forall>i < 8. \<bar>v i\<bar> \<le> FIXED_Q div 2 \<and> v i mod Q_FACTOR1 = f i mod Q_FACTOR1 \<and> v i mod Q_FACTOR2 = g i mod Q_FACTOR2)"
proof -
  note p = prime_pairD [OF P]
  note c = G [unfolded gadget_ok_def p(3,4)]
  define e where "e = (\<lambda>i. (f i * i2) mod Q_FACTOR1)"
  define e' where "e' = (\<lambda>i. (g i * i1) mod Q_FACTOR2)"
  define s where "s = (\<lambda>i. e i * Q_FACTOR2 + e' i * Q_FACTOR1)"
  define t where "t = (\<lambda>i. s i - (if s i > FIXED_Q then FIXED_Q else 0))"
  let ?a = "mm512_add_epi64 (mm512_mul_epu32 (simd_smallest_positive_lift (fst rns) (mul_assign (fst rns) x (avx_inv_q2_mod_q1 gd)))
      (sz_modulusx8 (snd rns)))
    (mm512_mul_epu32 (simd_smallest_positive_lift (snd rns) (mul_assign (snd rns) y (avx_inv_q1_mod_q2 gd))) (sz_modulusx8 (fst rns)))"
  have s: "lanes_are ?a s"
    using lanes_are_ops(1) [OF lift_product [OF P _ x, of "snd rns" "avx_inv_q2_mod_q1 gd" i2]
        lift_product [OF P _ y, of "fst rns" "avx_inv_q1_mod_q2 gd" i1]] c
    unfolding p(3,4) s_def e_def e'_def by simp
  have b: "0 \<le> e i" "e i < Q_FACTOR1" "0 \<le> e' i" "e' i < Q_FACTOR2" for i
    by (simp_all add: e_def e'_def q_values)
  have sb: "0 \<le> s i \<and> s i < 2 * FIXED_Q" for i
    using b [of i] by (simp add: s_def q_values)
  have small: "- (2 ^ 63) \<le> s i \<and> s i < 2 ^ 63" "- (2 ^ 63) \<le> t i \<and> t i < 2 ^ 63"
    "- (2 ^ 63) \<le> FIXED_Q \<and> FIXED_Q < 2 ^ 63" "- (2 ^ 63) \<le> FIXED_Q div 2 \<and> FIXED_Q div 2 < 2 ^ 63" for i
    using sb [of i] by (simp_all add: t_def q_values)
  have q: "lanes_are (avx_q gd) (\<lambda>_. FIXED_Q)" "lanes_are (avx_q_half gd) (\<lambda>_. FIXED_Q div 2)"
    using c by blast+
  have t: "lanes_are (mm512_sub_epi64 ?a (mm512_mask (avx_q gd) (mm512_cmpgt_epi64_mask ?a (avx_q gd)))) t"
    unfolding t_def by (rule lanes_are_ops(2) [OF s lanes_are_greater [OF s q(1) q(1) small(1,3)]])
  have v: "lanes_are (shortest_lift_avx gd rns (x, y)) (\<lambda>i. t i - (if t i > FIXED_Q div 2 then FIXED_Q else 0))"
    unfolding shortest_lift_avx_def Let_def fst_conv snd_conv
    by (rule lanes_are_ops(2) [OF t lanes_are_greater [OF t q(2) q(1) small(2,4)]])
  have "t i - (if t i > FIXED_Q div 2 then FIXED_Q else 0) = centred (s i)" for i
    by (simp add: t_def centred_def Let_def)
  then have "lanes_are (shortest_lift_avx gd rns (x, y)) (\<lambda>i. centred (s i))" using v by simp
  moreover have "s i mod Q_FACTOR1 = f i mod Q_FACTOR1" "s i mod Q_FACTOR2 = g i mod Q_FACTOR2" for i
    unfolding s_def using c by (blast intro: crt_residues [OF e_def [THEN fun_cong] _ e'_def [THEN fun_cong]])+
  ultimately show ?thesis using centred_props sb by (intro exI [of _ "\<lambda>i. centred (s i)"]) simp
qed


section \<open>Digits\<close>

text \<open>Division by \<open>2 ^ 26\<close> rounded to the nearest integer.\<close>

definition upper_digit :: "int \<Rightarrow> int" where
  "upper_digit c = (c + 2 ^ 25) div 2 ^ 26"

lemma upper_digit_props:
  shows "\<bar>c - 2 ^ 26 * upper_digit c\<bar> \<le> 2 ^ 25" "\<bar>c\<bar> \<le> FIXED_Q div 2 \<Longrightarrow> \<bar>upper_digit c\<bar> \<le> 2 ^ 24"
    "\<bar>c\<bar> \<le> 2 ^ 24 \<Longrightarrow> upper_digit c = 0"
  by (auto simp: upper_digit_def q_values)

lemma split_digit_lanes:
  assumes P: "prime_pair rns Zqs" and G: "gadget_ok gd rns i1 i2"
    and c: "lanes_are current v" and b: "\<And>i. i < 8 \<Longrightarrow> \<bar>v i\<bar> \<le> FIXED_Q div 2"
    and s: "split_digit gd rns current = ((d0, d1), high)"
  shows "lanes_are high (\<lambda>i. upper_digit (v i))"
    "represents (fst rns) (2 * pm (fst rns)) d0 (\<lambda>i. v i - 2 ^ 26 * upper_digit (v i))"
    "represents (snd rns) (2 * pm (snd rns)) d1 (\<lambda>i. v i - 2 ^ 26 * upper_digit (v i))"
proof -
  note p = prime_pairD [OF P]
  have g: "lanes_are (avx_q1_multiple gd) (\<lambda>_. 2 * Q_FACTOR1)" "lanes_are (avx_q2_multiple gd) (\<lambda>_. 2 * Q_FACTOR2)"
    "lanes_are (avx_B_half gd) (\<lambda>_. 2 ^ 25)"
    using G unfolding gadget_ok_def by blast+
  let ?high = "mm512_srai_epi64 LOG2_B (mm512_add_epi64 current (avx_B_half gd))"
  let ?low = "mm512_sub_epi64 current (mm512_slli_epi64 LOG2_B ?high)"
  let ?l = "\<lambda>i. v i - 2 ^ 26 * upper_digit (v i)"
  have d: "high = ?high" "d0 = reduce_after_mul (fst rns) (mm512_add_epi64 ?low (avx_q1_multiple gd))"
    "d1 = reduce_after_mul (snd rns) (mm512_add_epi64 ?low (avx_q2_multiple gd))"
    using s by (auto simp: split_digit_def Let_def simd_from_p_sqr_def)
  have "- (2 ^ 63) \<le> v i + 2 ^ 25 \<and> v i + 2 ^ 25 < 2 ^ 63" if "i < 8" for i
    using b [OF that] by (simp add: q_values abs_le_iff)
  then show h: "lanes_are high (\<lambda>i. upper_digit (v i))"
    unfolding d upper_digit_def using lanes_are_srai [OF lanes_are_ops(1) [OF c g(3)], of 26] by (simp add: LOG2_B_def)
  have low: "lanes_are ?low ?l"
    using lanes_are_ops(2) [OF c lanes_are_ops(3) [OF h h, where n = LOG2_B]] by (simp add: d LOG2_B_def mult.commute)
  have r: "represents r (2 * pm r) (reduce_after_mul r (mm512_add_epi64 ?low m)) ?l"
    if r: "special_ok r" and m: "lanes_are m (\<lambda>_. 2 * pm r)" and big: "2 ^ 25 - 2 ^ 12 < pm r" for r and m :: m512i
  proof -
    have "2 ^ 25 \<le> 2 * pm r" "2 ^ 25 + 2 * pm r < 2 ^ 63" using big md_bounds(2) [OF r] by simp_all
    then have w: "represents r (2 ^ 25 + 2 * pm r) (mm512_add_epi64 ?low m) (\<lambda>i. ?l i + 2 * pm r)"
    proof (intro lanes_are_represents [OF lanes_are_ops(1) [OF low m]])
      fix i :: nat
      show "0 \<le> ?l i + 2 * pm r \<and> ?l i + 2 * pm r \<le> 2 ^ 25 + 2 * pm r"
        using upper_digit_props(1) [of "v i"] \<open>2 ^ 25 \<le> 2 * pm r\<close> unfolding abs_le_iff by linarith
    qed
    have "2 * 2 ^ 24 \<le> 2 * pm r * pm r" using big by (intro mult_mono) simp_all
    then have "represents r (2 * pm r) (reduce_after_mul r (mm512_add_epi64 ?low m)) (\<lambda>i. ?l i + 2 * pm r)"
      by (intro reduce_after_mul_represents [OF r w]) simp
    then show ?thesis by (rule represents_cong) simp
  qed
  show "represents (fst rns) (2 * pm (fst rns)) d0 ?l" "represents (snd rns) (2 * pm (snd rns)) d1 ?l"
    unfolding d using r [OF p(1)] r [OF p(2)] g by (simp_all add: p(3,4) q_values)
qed


section \<open>The decomposition\<close>

text \<open>
  \<open>digits_of f g v low high\<close>: per lane, \<open>v\<close> is the representative of smallest absolute value with residues
  \<open>f\<close> and \<open>g\<close> modulo the two primes, and \<open>low + 2 ^ 26 * high\<close> its balanced expansion.
\<close>

definition digits_of :: "(nat \<Rightarrow> int) \<Rightarrow> (nat \<Rightarrow> int) \<Rightarrow> (nat \<Rightarrow> int) \<Rightarrow> (nat \<Rightarrow> int) \<Rightarrow> (nat \<Rightarrow> int) \<Rightarrow> bool" where
  "digits_of f g v low high \<longleftrightarrow> (\<forall>i < 8. v i mod Q_FACTOR1 = f i mod Q_FACTOR1 \<and> v i mod Q_FACTOR2 = g i mod Q_FACTOR2 \<and>
     \<bar>v i\<bar> \<le> FIXED_Q div 2 \<and> v i = low i + 2 ^ 26 * high i \<and> \<bar>low i\<bar> \<le> 2 ^ 25 \<and> \<bar>high i\<bar> \<le> 2 ^ 24)"

lemma decompose_entry_digits:
  assumes P: "prime_pair rns Zqs" and G: "gadget_ok gd rns i1 i2"
    and x: "represents (fst rns) (2 * pm (fst rns)) x f" and y: "represents (snd rns) (2 * pm (snd rns)) y g"
  obtains d00 d01 d10 d11 v low high where "decompose_entry gd rns (x, y) = ((d00, d01), (d10, d11))"
    "digits_of f g v low high"
    "represents (fst rns) (2 * pm (fst rns)) d00 low" "represents (snd rns) (2 * pm (snd rns)) d01 low"
    "represents (fst rns) (2 * pm (fst rns)) d10 high" "represents (snd rns) (2 * pm (snd rns)) d11 high"
proof -
  obtain v where v: "lanes_are (shortest_lift_avx gd rns (x, y)) v"
    "\<And>i. i < 8 \<Longrightarrow> \<bar>v i\<bar> \<le> FIXED_Q div 2 \<and> v i mod Q_FACTOR1 = f i mod Q_FACTOR1 \<and> v i mod Q_FACTOR2 = g i mod Q_FACTOR2"
    using shortest_lift_lanes [OF P G x y] by blast
  let ?h = "\<lambda>i. upper_digit (v i)"
  obtain d00 d01 high where s0: "split_digit gd rns (shortest_lift_avx gd rns (x, y)) = ((d00, d01), high)"
    by (metis surj_pair)
  note d0 = split_digit_lanes [OF P G v(1) _ s0]
  obtain d10 d11 rest where s1: "split_digit gd rns high = ((d10, d11), rest)" by (metis surj_pair)
  have hb: "\<bar>?h i\<bar> \<le> 2 ^ 24" if "i < 8" for i using upper_digit_props(2) v(2) [OF that] by blast
  have "\<bar>?h i\<bar> \<le> FIXED_Q div 2" if "i < 8" for i using hb [OF that] by (simp add: q_values)
  then have d1: "represents (fst rns) (2 * pm (fst rns)) d10 (\<lambda>i. ?h i - 2 ^ 26 * upper_digit (?h i))"
    "represents (snd rns) (2 * pm (snd rns)) d11 (\<lambda>i. ?h i - 2 ^ 26 * upper_digit (?h i))"
    using split_digit_lanes [OF P G d0(1) _ s1] v(2) by blast+
  have z: "?h i = ?h i - 2 ^ 26 * upper_digit (?h i)" if "i < 8" for i
    using upper_digit_props(3) [OF hb [OF that]] by simp
  show ?thesis
  proof
    show "decompose_entry gd rns (x, y) = ((d00, d01), (d10, d11))"
      by (simp add: decompose_entry_def s0 s1)
    show "digits_of f g v (\<lambda>i. v i - 2 ^ 26 * ?h i) ?h"
      unfolding digits_of_def using v(2) hb upper_digit_props(1) by simp
    show "represents (fst rns) (2 * pm (fst rns)) d00 (\<lambda>i. v i - 2 ^ 26 * ?h i)"
      "represents (snd rns) (2 * pm (snd rns)) d01 (\<lambda>i. v i - 2 ^ 26 * ?h i)"
      using d0(2,3) v(2) by blast+
    show "represents (fst rns) (2 * pm (fst rns)) d10 ?h" "represents (snd rns) (2 * pm (snd rns)) d11 ?h"
      using z by (auto intro: represents_cong [OF d1(1)] represents_cong [OF d1(2)])
  qed
qed


section \<open>Property\<close>

text \<open>The deployed primes, over the integers.\<close>

definition demo_pair :: "int special_zn \<times> int special_zn" where
  "demo_pair = (demo_ring 26, demo_ring 25)"

definition demo_scalars :: "int zn_arith \<times> int zn_arith" where
  "demo_scalars = (int_arith Q_FACTOR1, int_arith Q_FACTOR2)"

lemma demo_pair_ok: "prime_pair demo_pair demo_scalars"
proof -
  have q: "pm (demo_ring 26) = Q_FACTOR1" "pm (demo_ring 25) = Q_FACTOR2"
    using demo_ring_ok(2) demo_ring_25_ok(2) by (simp_all add: Q_FACTOR1_def Q_FACTOR2_def)
  have "sz_component_ring (demo_ring 26) = zn_ring.truncate (int_arith Q_FACTOR1)"
    "sz_component_ring (demo_ring 25) = zn_ring.truncate (int_arith Q_FACTOR2)"
    by (simp_all add: demo_ring_def Let_def int_zn_def int_arith_def zn_ring.defs q_values fun_eq_iff)
  then show ?thesis
    using demo_ring_ok(1) demo_ring_25_ok(1) q int_arith_spec by (simp add: prime_pair_def demo_pair_def demo_scalars_def q_values)
qed

text \<open>
  C39. The gadget decomposition of \<open>partial_gal\<close>: for the deployed primes its constants always exist, and from
  the residues of a coefficient modulo the two primes, as lazily reduced lanes, it computes in every lane
  two integer digits, each given modulo both primes, whose combination \<open>low + 2 ^ 26 * high\<close> has the two residues
  and is the one of smallest absolute value modulo \<open>q\<close>. The digits are balanced: at most \<open>2 ^ 25\<close> and \<open>2 ^ 24\<close>
  in absolute value, so that two digits suffice. No step leaves its signed 64-bit lane.
\<close>

theorem gadget_decomposition:
  assumes "prime_pair rns Zqs"
    and "represents (fst rns) (2 * pm (fst rns)) x f" "represents (snd rns) (2 * pm (snd rns)) y g"
  shows "\<exists>gd d00 d01 d10 d11 v low high. gadget_consts rns Zqs FIXED_Q = (Ok gd :: (unit, gadget) outcome) \<and>
    decompose_entry gd rns (x, y) = ((d00, d01), (d10, d11)) \<and> digits_of f g v low high \<and>
    represents (fst rns) (2 * pm (fst rns)) d00 low \<and> represents (snd rns) (2 * pm (snd rns)) d01 low \<and>
    represents (fst rns) (2 * pm (fst rns)) d10 high \<and> represents (snd rns) (2 * pm (snd rns)) d11 high"
proof -
  obtain gd i1 i2 where g: "gadget_consts rns Zqs FIXED_Q = (Ok gd :: (unit, gadget) outcome)" "gadget_ok gd rns i1 i2"
    using gadget_consts_Ok [OF assms(1)] by blast
  show ?thesis
    by (rule decompose_entry_digits [OF assms(1) g(2) assms(2,3)]) (use g(1) in blast)
qed

theorem gadget_decomposition_witness:
  "\<exists>gd d00 d01 d10 d11 v low high. gadget_consts demo_pair demo_scalars FIXED_Q = (Ok gd :: (unit, gadget) outcome) \<and>
    decompose_entry gd demo_pair (replicate 8 (2 ^ 26), replicate 8 (2 ^ 25)) = ((d00, d01), (d10, d11)) \<and>
    digits_of (\<lambda>_. 4095) (\<lambda>_. 4095) v low high \<and> represents (fst demo_pair) (2 * pm (fst demo_pair)) d00 low"
proof -
  have r: "represents (fst demo_pair) (2 * pm (fst demo_pair)) (replicate 8 (2 ^ 26)) (\<lambda>_. 4095)"
    "represents (snd demo_pair) (2 * pm (snd demo_pair)) (replicate 8 (2 ^ 25)) (\<lambda>_. 4095)"
    by (simp_all add: represents_def demo_pair_def demo_ring_ok(2) demo_ring_25_ok(2))
  show ?thesis
    using gadget_decomposition [OF demo_pair_ok r] by (elim exE conjE) (intro exI conjI; assumption)
qed

end
