(* ===== verification/Partial_Gal_Correct.thy ===== *)
theory Partial_Gal_Correct
  imports Gadget_Correct Ntt_Correct
begin

text \<open>
  \<open>partial_gal\<close> of \<open>base_pir.rs\<close>: the automorphism of the generator 5 on the \<open>a\<close>-part of a ciphertext. In
  every slot and lane its two digit polynomials recompose the rotated input modulo both primes, and its
  result is their product with the Galois keys.
\<close>

section \<open>Elements in both residues\<close>

definition rns_vec ::
    "'z special_zn \<times> 'z special_zn \<Rightarrow> nat \<Rightarrow> rns_el \<Rightarrow> (nat \<Rightarrow> nat \<Rightarrow> int) \<times> (nat \<Rightarrow> nat \<Rightarrow> int) \<Rightarrow> bool" where
  "rns_vec rns n el V \<longleftrightarrow> vec (fst rns) n (fst el) (fst V) \<and> vec (snd rns) n (snd el) (snd V)"

text \<open>The rings, roots and tables of a database; \<open>ys\<close> are the inverses of the two roots.\<close>

definition rns_ok ::
    "'z special_zn \<times> 'z special_zn \<Rightarrow> 'z zn_arith \<times> 'z zn_arith \<Rightarrow> nat \<Rightarrow> m512i \<times> m512i \<Rightarrow> int \<times> int \<Rightarrow> ntt_table \<times> ntt_table \<Rightarrow> bool" where
  "rns_ok rns Zqs n zeta ys ntts \<longleftrightarrow> prime_pair rns Zqs \<and>
     root_ok (fst rns) n (fst zeta) (fst ys) (fst ntts) \<and> root_ok (snd rns) n (snd zeta) (snd ys) (snd ntts)"

lemma rns_okD:
  assumes "rns_ok rns Zqs n zeta ys ntts"
  shows "prime_pair rns Zqs" "root_ok (fst rns) n (fst zeta) (fst ys) (fst ntts)" "root_ok (snd rns) n (snd zeta) (snd ys) (snd ntts)"
    "special_ok (fst rns)" "special_ok (snd rns)" "pm (fst rns) = Q_FACTOR1" "pm (snd rns) = Q_FACTOR2"
proof -
  show P: "prime_pair rns Zqs" "root_ok (fst rns) n (fst zeta) (fst ys) (fst ntts)"
    "root_ok (snd rns) n (snd zeta) (snd ys) (snd ntts)"
    using assms unfolding rns_ok_def by blast+
  show "special_ok (fst rns)" "special_ok (snd rns)" "pm (fst rns) = Q_FACTOR1" "pm (snd rns) = Q_FACTOR2"
    by (rule prime_pairD [OF P(1)])+
qed

lemma both_ntts_vec:
  assumes ok: "rns_ok rns Zqs n zeta ys ntts" and el: "rns_vec rns n el (F, G)"
  shows "\<exists>res. both_ntts rns zeta ntts el = (Ok res :: ('e, rns_el) outcome) \<and> rns_vec rns n res (slot_value (fst ys) n F, slot_value (snd ys) n G)"
proof -
  have v: "vec (fst rns) n (fst el) F" "vec (snd rns) n (snd el) G" using el by (simp_all add: rns_vec_def)
  obtain x y where "weighted_ntt (fst rns) (fst zeta) (fst ntts) (fst el) = (Ok x :: ('e, m512i list) outcome)"
    "vec (fst rns) n x (slot_value (fst ys) n F)"
    "weighted_ntt (snd rns) (snd zeta) (snd ntts) (snd el) = (Ok y :: ('e, m512i list) outcome)"
    "vec (snd rns) n y (slot_value (snd ys) n G)"
    using weighted_ntt_vec [OF rns_okD(2) [OF ok] v(1)] weighted_ntt_vec [OF rns_okD(3) [OF ok] v(2)] by blast
  then show ?thesis by (simp add: both_ntts_def rns_vec_def)
qed


section \<open>Rotating the rows\<close>

lemma row_index:
  assumes g: "(gen_H * inv_g) mod (2 * N) = 1" and i: "i < N"
  shows "galois_to_index N (2 * N) ((inv_g * index_to_galois N (2 * N) i) mod (2 * N)) = (Ok (galois_lookup N inv_g i) :: ('e, nat) outcome)"
proof -
  have e: "index_to_galois N (2 * N) i = 2 * i + 1" using i by (simp add: index_to_galois_def)
  let ?o = "(inv_g * (2 * i + 1)) mod (2 * N)"
  have o: "?o = 2 * galois_lookup N inv_g i + 1" using lookup_power(2) [OF g i] by simp
  show ?thesis unfolding e o using i by (simp add: galois_to_index_def)
qed

lemma place_rows_put:
  assumes g: "(gen_H * inv_g) mod (2 * N) = 1"
    and "length (fst current) = N" "length (snd current) = N" "length x = N" "length y = N" "i + k = N"
  shows "place_rows N inv_g i k current (x, y) = (Ok (put (galois_lookup_table N inv_g) (\<lambda>j. fst current ! j) [i..<N] x,
    put (galois_lookup_table N inv_g) (\<lambda>j. snd current ! j) [i..<N] y) :: ('e, rns_el) outcome)"
  using assms(4-)
proof (induction k arbitrary: i x y)
  case (Suc k)
  then have i: "i < N" "[i..<N] = i # [i + 1..<N]" by (simp_all add: upt_conv_Cons)
  show ?case
    using Suc row_index [OF g i(1), where 'e = 'e] lookup_power(1) [OF g i(1)] assms(2,3) i(1)
    unfolding i(2) by (simp add: put_def galois_lookup_table_def)
qed (simp add: put_def)

lemma put_vec:
  assumes g: "(gen_H * inv_g) mod (2 * N) = 1" and v: "vec r N vs V" and len: "length x = N"
  shows "vec r N (put (galois_lookup_table N inv_g) (\<lambda>j. vs ! j) [0..<N] x) (\<lambda>j. V (galois_lookup N gen_H j))"
proof -
  let ?tab = "galois_lookup_table N inv_g" and ?s = "galois_lookup N gen_H"
  note maps = galois_row_maps [OF g]
  have "represents r (2 * pm r) (put ?tab (\<lambda>j. vs ! j) [0..<N] x ! j) (V (?s j))" if j: "j < N" for j
  proof -
    have t: "?s j < N" "?tab ! ?s j = j" "inj_on (\<lambda>j. ?tab ! j) (set [0..<N])"
      using maps j by (simp_all add: row_maps_def lessThan_atLeast0)
    then have "put ?tab (\<lambda>j. vs ! j) [0..<N] x ! (?tab ! ?s j) = vs ! ?s j"
      using j len by (intro nth_put) simp_all
    then show ?thesis using t vecD(2) [OF v t(1)] by simp
  qed
  then show ?thesis using len by (simp add: vec_def)
qed


section \<open>Products with the keys\<close>

lemma gadget_product_vec:
  assumes r: "special_ok r" and d: "\<And>k. k < 2 \<Longrightarrow> vec r N (ds ! k) (D k)" and a: "\<And>k. k < 2 \<Longrightarrow> vec r N (gk_a ! k) (A k)"
  shows "\<exists>res. gadget_product r N ds gk_a = (Ok res :: ('e, m512i list) outcome) \<and>
    vec r N res (\<lambda>j l. D 0 j l * A 0 j l + D 1 j l * A 1 j l)"
proof -
  let ?els = "\<lambda>i. map (\<lambda>k. mul_assign r (ds ! k ! i) (gk_a ! k ! i)) [0..<GK_DIGITS]"
  let ?f = "\<lambda>j l. D 0 j l * A 0 j l + D 1 j l * A 1 j l"
  have "\<exists>s. sum_els r (?els i) = (Ok s :: ('e, m512i) outcome) \<and> represents r (2 * pm r) s (?f i)" if i: "i < N" for i
  proof -
    have "represents r (2 * pm r) (mul_assign r (ds ! k ! i) (gk_a ! k ! i)) (\<lambda>l. D k i l * A k i l)" if "k < 2" for k
      using mul_assign_represents [OF r] vecD(2) [OF d [OF that] i] vecD(2) [OF a [OF that] i] by blast
    then have "list_all2 (represents r (2 * pm r)) (?els i) [\<lambda>l. D 0 i l * A 0 i l, \<lambda>l. D 1 i l * A 1 i l]"
      by (simp add: GK_DIGITS_def numeral_2_eq_2)
    from sum_els_represents [OF r this] show ?thesis by simp
  qed
  then have "\<forall>i. \<exists>s. i < N \<longrightarrow> sum_els r (?els i) = (Ok s :: ('e, m512i) outcome) \<and> represents r (2 * pm r) s (?f i)" by blast
  from choice [OF this] obtain s where
    s: "\<forall>i. i < N \<longrightarrow> sum_els r (?els i) = (Ok (s i) :: ('e, m512i) outcome) \<and> represents r (2 * pm r) (s i) (?f i)" ..
  then have "gadget_product r N ds gk_a = (Ok (map s [0..<N]) :: ('e, m512i list) outcome)"
    unfolding gadget_product_def by (intro try_map_Ok) simp
  moreover have "vec r N (map s [0..<N]) ?f" using s by (simp add: vec_def)
  ultimately show ?thesis by blast
qed


section \<open>The decomposition of a whole element\<close>

lemma decomposed_vec:
  assumes P: "prime_pair rns Zqs" and G: "gadget_ok gd rns i1 i2" and x: "vec (fst rns) N x F" and y: "vec (snd rns) N y H"
  defines "entries \<equiv> map (\<lambda>i. decompose_entry gd rns (x ! i, y ! i)) [0..<N]"
  shows "\<exists>v low high. rns_vec rns N (map (fst \<circ> fst) entries, map (snd \<circ> fst) entries) (low, low) \<and>
    rns_vec rns N (map (fst \<circ> snd) entries, map (snd \<circ> snd) entries) (high, high) \<and>
    (\<forall>i < N. digits_of (F i) (H i) (v i) (low i) (high i))"
proof -
  have "\<exists>v low high. digits_of (F i) (H i) v low high \<and>
      represents (fst rns) (2 * pm (fst rns)) (fst (fst (entries ! i))) low \<and> represents (snd rns) (2 * pm (snd rns)) (snd (fst (entries ! i))) low \<and>
      represents (fst rns) (2 * pm (fst rns)) (fst (snd (entries ! i))) high \<and> represents (snd rns) (2 * pm (snd rns)) (snd (snd (entries ! i))) high"
    if i: "i < N" for i
    by (rule decompose_entry_digits [OF P G vecD(2) [OF x i] vecD(2) [OF y i]]) (use i in \<open>auto simp: entries_def\<close>)
  then obtain v low high where d: "\<And>i. i < N \<Longrightarrow> digits_of (F i) (H i) (v i) (low i) (high i) \<and>
      represents (fst rns) (2 * pm (fst rns)) (fst (fst (entries ! i))) (low i) \<and> represents (snd rns) (2 * pm (snd rns)) (snd (fst (entries ! i))) (low i) \<and>
      represents (fst rns) (2 * pm (fst rns)) (fst (snd (entries ! i))) (high i) \<and> represents (snd rns) (2 * pm (snd rns)) (snd (snd (entries ! i))) (high i)"
    by metis
  have "length entries = N" by (simp add: entries_def)
  then show ?thesis using d by (intro exI [of _ v] exI [of _ low] exI [of _ high]) (simp add: rns_vec_def vec_def)
qed

text \<open>
  \<open>recomposes\<close>: the digit polynomials give, in every slot, \<open>V\<close> modulo the first prime and \<open>W\<close> modulo the
  second, and their coefficients are small.
\<close>

definition recomposes :: "nat \<Rightarrow> int \<times> int \<Rightarrow> (nat \<Rightarrow> nat \<Rightarrow> nat \<Rightarrow> int) \<Rightarrow> (nat \<Rightarrow> nat \<Rightarrow> int) \<times> (nat \<Rightarrow> nat \<Rightarrow> int) \<Rightarrow> bool" where
  "recomposes N ys dig V \<longleftrightarrow> (\<forall>l < 8. (\<forall>i < N. \<bar>dig 0 i l\<bar> \<le> 2 ^ 25 \<and> \<bar>dig 1 i l\<bar> \<le> 2 ^ 24) \<and>
     (\<forall>j < N. (slot_value (fst ys) N (dig 0) j l + 2 ^ LOG2_B * slot_value (fst ys) N (dig 1) j l) mod Q_FACTOR1 = fst V j l mod Q_FACTOR1 \<and>
        (slot_value (snd ys) N (dig 0) j l + 2 ^ LOG2_B * slot_value (snd ys) N (dig 1) j l) mod Q_FACTOR2 = snd V j l mod Q_FACTOR2))"

lemma digits_recompose:
  assumes d: "\<And>i. i < N \<Longrightarrow> digits_of (F i) (H i) (v i) (low i) (high i)"
    and F: "\<And>j l. j < N \<Longrightarrow> l < 8 \<Longrightarrow> slot_value (fst ys) N F j l mod Q_FACTOR1 = fst V j l mod Q_FACTOR1"
    and H: "\<And>j l. j < N \<Longrightarrow> l < 8 \<Longrightarrow> slot_value (snd ys) N H j l mod Q_FACTOR2 = snd V j l mod Q_FACTOR2"
  shows "recomposes N ys (\<lambda>k. if k = 0 then low else high) V"
proof -
  have s: "(slot_value y N low j l + 2 ^ LOG2_B * slot_value y N high j l) mod p = slot_value y N X j l mod p"
    if "\<And>i. i < N \<Longrightarrow> v i l mod p = X i l mod (p :: int)" "l < 8" for y j l p X
  proof -
    have "(low i l + 2 ^ LOG2_B * high i l) mod p = X i l mod p" if "i < N" for i
      using d [OF that] \<open>l < 8\<close> \<open>\<And>i. i < N \<Longrightarrow> v i l mod p = X i l mod p\<close> [OF that] by (simp add: digits_of_def LOG2_B_def)
    then show ?thesis
      unfolding slot_linear [symmetric] by (rule slot_cong)
  qed
  have m: "v i l mod Q_FACTOR1 = F i l mod Q_FACTOR1" "v i l mod Q_FACTOR2 = H i l mod Q_FACTOR2"
    "\<bar>low i l\<bar> \<le> 2 ^ 25" "\<bar>high i l\<bar> \<le> 2 ^ 24" if "i < N" "l < 8" for i l
    using d [OF that(1)] that(2) unfolding digits_of_def by blast+
  show ?thesis
    unfolding recomposes_def using s m F H by simp
qed


section \<open>\<open>partial_gal\<close>\<close>

text \<open>What \<open>partial_gal\<close> returns for the input \<open>V\<close> and keys \<open>A\<close>, in terms of the digit polynomials \<open>dig\<close>.\<close>

definition key_product :: "int \<Rightarrow> nat \<Rightarrow> (nat \<Rightarrow> nat \<Rightarrow> nat \<Rightarrow> int) \<Rightarrow> (nat \<Rightarrow> nat \<Rightarrow> nat \<Rightarrow> int) \<Rightarrow> nat \<Rightarrow> nat \<Rightarrow> int" where
  "key_product y N dig A j l = slot_value y N (dig 0) j l * A 0 j l + slot_value y N (dig 1) j l * A 1 j l"

definition rotated :: "nat \<Rightarrow> (nat \<Rightarrow> nat \<Rightarrow> int) \<times> (nat \<Rightarrow> nat \<Rightarrow> int) \<Rightarrow> (nat \<Rightarrow> nat \<Rightarrow> int) \<times> (nat \<Rightarrow> nat \<Rightarrow> int)" where
  "rotated N V = (\<lambda>j. fst V (galois_lookup N gen_H j), \<lambda>j. snd V (galois_lookup N gen_H j))"

definition gal_result ::
    "'z special_zn \<times> 'z special_zn \<Rightarrow> nat \<Rightarrow> int \<times> int \<Rightarrow> (nat \<Rightarrow> nat \<Rightarrow> int) \<times> (nat \<Rightarrow> nat \<Rightarrow> int) \<Rightarrow>
     (nat \<Rightarrow> nat \<Rightarrow> nat \<Rightarrow> int) \<times> (nat \<Rightarrow> nat \<Rightarrow> nat \<Rightarrow> int) \<Rightarrow> (nat \<Rightarrow> nat \<Rightarrow> nat \<Rightarrow> int) \<Rightarrow> rns_el \<Rightarrow> rns_el list \<Rightarrow> bool" where
  "gal_result rns N ys V A dig res ds \<longleftrightarrow> recomposes N ys dig (rotated N V) \<and> length ds = 2 \<and>
     (\<forall>k < 2. rns_vec rns N (ds ! k) (slot_value (fst ys) N (dig k), slot_value (snd ys) N (dig k))) \<and>
     rns_vec rns N res (key_product (fst ys) N dig (fst A), key_product (snd ys) N dig (snd A))"

lemma partial_gal_result:
  assumes ok: "rns_ok rns Zqs N zeta ys ntts" and g: "(gen_H * inv_g) mod (2 * N) = 1"
    and cur: "rns_vec rns N current V" and gk: "\<And>k. k < 2 \<Longrightarrow> rns_vec rns N (gk_a ! k) (fst A k, snd A k)" and len: "length gk_a = 2"
  shows "\<exists>res ds dig. partial_gal rns Zqs zeta ntts FIXED_Q N inv_g current gk_a = (Ok (res, ds) :: ('e, rns_el \<times> rns_el list) outcome) \<and>
    gal_result rns N ys V A dig res ds"
proof -
  note o = rns_okD [OF ok]
  note tab = galois_lookup_table_def
  have v: "vec (fst rns) N (fst current) (fst V)" "vec (snd rns) N (snd current) (snd V)" using cur by (simp_all add: rns_vec_def)
  let ?z = "(replicate N (from_int (fst rns) 0), replicate N (from_int (snd rns) 0))"
  define g0 where "g0 = put (galois_lookup_table N inv_g) (\<lambda>j. fst current ! j) [0..<N] (fst ?z)"
  define g1 where "g1 = put (galois_lookup_table N inv_g) (\<lambda>j. snd current ! j) [0..<N] (snd ?z)"
  have place: "place_rows N inv_g 0 N current ?z = (Ok (g0, g1) :: ('e, rns_el) outcome)"
    unfolding g0_def g1_def using vecD(1) [OF v(1)] vecD(1) [OF v(2)] place_rows_put [OF g, where current = current and 'e = 'e] by simp
  have gv: "vec (fst rns) N g0 (fst (rotated N V))" "vec (snd rns) N g1 (snd (rotated N V))"
    using put_vec [OF g v(1), of "fst ?z"] put_vec [OF g v(2), of "snd ?z"] by (simp_all add: g0_def g1_def rotated_def)
  obtain gd i1 i2 where gd: "gadget_consts rns Zqs FIXED_Q = (Ok gd :: ('e, gadget) outcome)" "gadget_ok gd rns i1 i2"
    using gadget_consts_Ok [OF o(1)] by blast
  let ?x = "inv_weighted_ntt (fst rns) (fst zeta) (fst ntts) g0" and ?y = "inv_weighted_ntt (snd rns) (snd zeta) (snd ntts) g1"
  obtain F where F: "vec (fst rns) N ?x F" "\<forall>j < N. \<forall>l < 8. slot_value (fst ys) N F j l mod Q_FACTOR1 = fst (rotated N V) j l mod Q_FACTOR1"
    using inv_weighted_ntt_vec [OF o(2) gv(1)] unfolding o(6) by blast
  obtain H where H: "vec (snd rns) N ?y H" "\<forall>j < N. \<forall>l < 8. slot_value (snd ys) N H j l mod Q_FACTOR2 = snd (rotated N V) j l mod Q_FACTOR2"
    using inv_weighted_ntt_vec [OF o(3) gv(2)] unfolding o(7) by blast
  define entries where "entries = map (\<lambda>i. decompose_entry gd rns (?x ! i, ?y ! i)) [0..<N]"
  let ?d0 = "(map (fst \<circ> fst) entries, map (snd \<circ> fst) entries)" and ?d1 = "(map (fst \<circ> snd) entries, map (snd \<circ> snd) entries)"
  obtain v low high where d: "rns_vec rns N ?d0 (low, low)" "rns_vec rns N ?d1 (high, high)"
    "\<forall>i < N. digits_of (F i) (H i) (v i) (low i) (high i)"
    using decomposed_vec [OF o(1) gd(2) F(1) H(1), folded entries_def] by blast
  define dig where "dig = (\<lambda>k :: nat. if k = 0 then low else high)"
  have rec: "recomposes N ys dig (rotated N V)"
    unfolding dig_def using d(3) F(2) H(2) by (intro digits_recompose) blast+
  obtain n0 n1 where n: "both_ntts rns zeta ntts ?d0 = (Ok n0 :: ('e, rns_el) outcome)" "both_ntts rns zeta ntts ?d1 = (Ok n1 :: ('e, rns_el) outcome)"
    "rns_vec rns N n0 (slot_value (fst ys) N (dig 0), slot_value (snd ys) N (dig 0))" "rns_vec rns N n1 (slot_value (fst ys) N (dig 1), slot_value (snd ys) N (dig 1))"
    using both_ntts_vec [OF ok d(1), where 'e = 'e] both_ntts_vec [OF ok d(2), where 'e = 'e] unfolding dig_def by auto
  have nk: "rns_vec rns N ([n0, n1] ! k) (slot_value (fst ys) N (dig k), slot_value (snd ys) N (dig k))" if "k < 2" for k
    using that n(3,4) by (auto simp: less_2_cases_iff)
  have pk: "vec (fst rns) N (map fst [n0, n1] ! k) (slot_value (fst ys) N (dig k))" "vec (fst rns) N (map fst gk_a ! k) (fst A k)"
    "vec (snd rns) N (map snd [n0, n1] ! k) (slot_value (snd ys) N (dig k))" "vec (snd rns) N (map snd gk_a ! k) (snd A k)" if "k < 2" for k
    using nk [OF that] gk [OF that] len that by (simp_all add: rns_vec_def del: list.map)
  obtain r0 where r0: "gadget_product (fst rns) N (map fst [n0, n1]) (map fst gk_a) = (Ok r0 :: ('e, m512i list) outcome)"
    "vec (fst rns) N r0 (key_product (fst ys) N dig (fst A))"
    using gadget_product_vec [OF o(4) pk(1,2), where 'e = 'e] unfolding key_product_def [abs_def] by blast
  obtain r1 where r1: "gadget_product (snd rns) N (map snd [n0, n1]) (map snd gk_a) = (Ok r1 :: ('e, m512i list) outcome)"
    "vec (snd rns) N r1 (key_product (snd ys) N dig (snd A))"
    using gadget_product_vec [OF o(5) pk(3,4), where 'e = 'e] unfolding key_product_def [abs_def] by blast
  have "partial_gal rns Zqs zeta ntts FIXED_Q N inv_g current gk_a = (Ok ((r0, r1), [n0, n1]) :: ('e, rns_el \<times> rns_el list) outcome)"
    unfolding partial_gal_def place bind_outcome.simps gd(1) Let_def fst_conv snd_conv entries_def [symmetric]
    using n(1,2) r0(1) r1(1) by (simp only: try_map.simps bind_outcome.simps)
  moreover have "gal_result rns N ys V A dig (r0, r1) [n0, n1]"
    unfolding gal_result_def using rec nk r0(2) r1(2) by (simp add: rns_vec_def)
  ultimately show ?thesis by blast
qed

end
