(* ===== verification/Pir_Database.thy ===== *)
theory Pir_Database
  imports Base_Pir
begin

text \<open>
  \<open>PIRDatabase\<close> of \<open>crates/pir/src/base_pir.rs\<close> as a record, with its operations: creation in a memory
  slice, loading entries, the preprocessing of the query-independent part, and answering queries.
  Alignment checks of the memory slice and the reinterpretation of its elements have no value semantics.
\<close>

section \<open>The database\<close>

record ('z, 'p, 'r) pir_database =
  db_ring :: "('z, 'p) poly_ring"
  db_ciphertext_ring :: "('z, 'r) poly_ring"
  db_index_group :: index_group
  db_transformed_entries :: compressed_rns_el
  db_transformed_entries_conj :: compressed_rns_el
  db_reply_a :: rns_el
  db_inner_prod_gk :: "compressed_rns_el list"
  db_inner_prod_conj_gk :: "compressed_rns_el list"
  db_rns_base :: "'z special_zn \<times> 'z special_zn"
  db_component_rings :: "'z zn_arith \<times> 'z zn_arith"
  db_len_N_ntts :: "ntt_table \<times> ntt_table"
  db_len_subgroup_order_ntts :: "ntt_table \<times> ntt_table"
  db_zeta :: "m512i \<times> m512i"
  db_use_seeds :: used_seeds

text \<open>\<open>split_at_mut\<close> for one pair of slices: the 26-bit part first.\<close>

definition take_pair :: "nat \<Rightarrow> compressed list \<Rightarrow> ('e, compressed_rns_el \<times> compressed list) outcome" where
  "take_pair sz memory =
     (if 2 * sz > length memory then Panic
      else Ok ((take sz memory, take sz (drop sz memory)), drop (2 * sz) memory))"

definition take_pair_when :: "bool \<Rightarrow> nat \<Rightarrow> compressed list \<Rightarrow> ('e, compressed_rns_el \<times> compressed list) outcome" where
  "take_pair_when needed sz memory = (if needed then take_pair sz memory else Ok (([], []), memory))"

text \<open>
  What \<open>create\<close> computes with \<open>feanor_math\<close>: the rings \<open>SpecialZnx8::new\<close> is built on, primitive roots of
  unity, powers of vectors and transform tables. \<open>log2\<close> is \<open>abs_log2_ceil\<close>.
\<close>

record 'z ntt_setup =
  new_rns :: "nat \<Rightarrow> 'z special_zn"
  new_component :: "nat \<Rightarrow> 'z zn_arith"
  prim_root :: "'z zn_arith \<Rightarrow> nat \<Rightarrow> 'z option"
  pow_zeta :: "'z special_zn \<Rightarrow> m512i \<Rightarrow> nat \<Rightarrow> m512i"
  new_ntt :: "'z special_zn \<Rightarrow> m512i \<Rightarrow> nat \<Rightarrow> ntt_table"

definition split_memory ::
    "index_group \<Rightarrow> nat \<Rightarrow> compressed list \<Rightarrow>
     ('e, compressed_rns_el \<times> compressed_rns_el \<times> compressed_rns_el list \<times> compressed_rns_el list \<times> compressed list) outcome" where
  "split_memory index_group sz memory =
     bind_outcome (take_pair sz memory) (\<lambda>(transformed_entries, memory).
     bind_outcome (take_pair_when (requires_conj index_group) sz memory) (\<lambda>(transformed_entries_conj, memory).
     bind_outcome (take_pair sz memory) (\<lambda>(gk0, memory).
     bind_outcome (take_pair sz memory) (\<lambda>(gk1, memory).
     bind_outcome (take_pair_when (requires_conj index_group) sz memory) (\<lambda>(conj_gk0, memory).
     bind_outcome (take_pair_when (requires_conj index_group) sz memory) (\<lambda>(conj_gk1, memory).
     Ok (transformed_entries, transformed_entries_conj, [gk0, gk1], [conj_gk0, conj_gk1], memory)))))))"

definition create ::
    "(int \<Rightarrow> nat option) \<Rightarrow> 'z ntt_setup \<Rightarrow> ('z, 'p) poly_ring \<Rightarrow> ('z, 'r) poly_ring \<Rightarrow> index_group \<Rightarrow> used_seeds \<Rightarrow>
     compressed list \<Rightarrow> ('e, ('z, 'p, 'r) pir_database) outcome" where
  "create lg su ring ciphertext_ring index_group use_seeds memory =
     (let N = pr_rank ring in
      bind_outcome (unwrap (lg (int N))) (\<lambda>log2_N.
      if N \<noteq> 2 ^ log2_N \<or> required_memory_general index_group N \<noteq> length memory then Panic else
      let rns0 = new_rns su 26; rns1 = new_rns su 25; Zq1 = new_component su 26; Zq2 = new_component su 25 in
      if Q_FACTOR1 \<noteq> zn_modulus Zq1 \<or> Q_FACTOR2 \<noteq> zn_modulus Zq2 \<or>
         zn_modulus Zq1 * zn_modulus Zq2 \<noteq> zn_modulus (pr_base ciphertext_ring) \<or>
         N \<noteq> pr_rank ciphertext_ring \<or> N \<noteq> ig_N index_group then Panic else
      bind_outcome (split_memory index_group (N * loop_len index_group) memory)
        (\<lambda>(transformed_entries, transformed_entries_conj, inner_prod_gk, inner_prod_conj_gk, memory).
      bind_outcome (unwrap (prim_root su Zq1 (log2_N + 1))) (\<lambda>zeta0.
      bind_outcome (unwrap (prim_root su Zq2 (log2_N + 1))) (\<lambda>zeta1.
      bind_outcome (unwrap (lg (int (group_order index_group)))) (\<lambda>log_subgroup_order.
      let zeta = (from_components rns0 (replicate 8 zeta0), from_components rns1 (replicate 8 zeta1));
          red_zeta = (rev_delegate rns0 (fst zeta), rev_delegate rns1 (snd zeta));
          root_power = 2 * 2 ^ (log2_N - log_subgroup_order)
      in Ok \<lparr>db_ring = ring, db_ciphertext_ring = ciphertext_ring, db_index_group = index_group,
             db_transformed_entries = transformed_entries, db_transformed_entries_conj = transformed_entries_conj,
             db_reply_a = ([], []), db_inner_prod_gk = inner_prod_gk, db_inner_prod_conj_gk = inner_prod_conj_gk,
             db_rns_base = (rns0, rns1), db_component_rings = (Zq1, Zq2),
             db_len_N_ntts = (new_ntt su rns0 (pow_zeta su rns0 (fst red_zeta) 2) log2_N,
                              new_ntt su rns1 (pow_zeta su rns1 (snd red_zeta) 2) log2_N),
             db_len_subgroup_order_ntts =
               (new_ntt su rns0 (pow_zeta su rns0 (fst red_zeta) root_power) log_subgroup_order,
                new_ntt su rns1 (pow_zeta su rns1 (snd red_zeta) root_power) log_subgroup_order),
             db_zeta = zeta, db_use_seeds = use_seeds\<rparr>))))))"

section \<open>Between ring elements and vectors\<close>

definition to_simd_element :: "('z, 'p, 'r) pir_database \<Rightarrow> 'r list \<Rightarrow> ('e, rns_el) outcome" where
  "to_simd_element db els =
     (let N = pr_rank (db_ring db); C = db_ciphertext_ring db; coeffs = map (pr_basis C) els;
          residues = (\<lambda>r Zqi. map (\<lambda>i. from_components r (map (\<lambda>cs. zn_of_int Zqi (zn_smallest_lift (pr_base C) (cs ! i))) coeffs)) [0..<N])
      in both_ntts (db_rns_base db) (db_zeta db) (db_len_N_ntts db)
           (residues (fst (db_rns_base db)) (fst (db_component_rings db)), residues (snd (db_rns_base db)) (snd (db_component_rings db))))"

definition compress_rns :: "rns_el \<Rightarrow> compressed_rns_el" where
  "compress_rns el = (map compress_lanes (fst el), map compress_lanes (snd el))"

definition to_compressed_simd_element :: "('z, 'p, 'r) pir_database \<Rightarrow> 'r list \<Rightarrow> ('e, compressed_rns_el) outcome" where
  "to_compressed_simd_element db els = bind_outcome (to_simd_element db els) (\<lambda>as_simd. Ok (compress_rns as_simd))"

text \<open>The two residues of a coefficient recombined modulo \<open>q\<close>; the sum in \<open>Zq\<close> is written with lifts.\<close>

definition crt_combine :: "'z zn_arith \<Rightarrow> 'z zn_arith \<times> 'z zn_arith \<Rightarrow> 'z \<Rightarrow> 'z \<Rightarrow> 'z \<Rightarrow> 'z \<Rightarrow> 'z" where
  "crt_combine Zq Zqs q2_inv_mod_q1 q1_inv_mod_q2 entry0 entry1 =
     (let Zq1 = fst Zqs; Zq2 = snd Zqs in
      zn_of_int Zq
        (zn_lift Zq (zn_mul Zq (zn_of_int Zq (zn_modulus Zq2)) (zn_of_int Zq (zn_smallest_lift Zq1 (zn_mul Zq1 entry0 q2_inv_mod_q1)))) +
         zn_lift Zq (zn_mul Zq (zn_of_int Zq (zn_modulus Zq1)) (zn_of_int Zq (zn_smallest_lift Zq2 (zn_mul Zq2 entry1 q1_inv_mod_q2))))))"

definition from_simd_element :: "('z, 'p, 'r) pir_database \<Rightarrow> rns_el \<Rightarrow> ('e, 'r list) outcome" where
  "from_simd_element db el =
     (let N = pr_rank (db_ring db); C = db_ciphertext_ring db; rns0 = fst (db_rns_base db); rns1 = snd (db_rns_base db);
          Zq1 = fst (db_component_rings db); Zq2 = snd (db_component_rings db);
          el0 = inv_weighted_ntt rns0 (fst (db_zeta db)) (fst (db_len_N_ntts db)) (fst el);
          el1 = inv_weighted_ntt rns1 (snd (db_zeta db)) (snd (db_len_N_ntts db)) (snd el)
      in bind_outcome (unwrap (zn_invert Zq1 (zn_of_int Zq1 (zn_modulus Zq2)))) (\<lambda>q2_inv_mod_q1.
         bind_outcome (unwrap (zn_invert Zq2 (zn_of_int Zq2 (zn_modulus Zq1)))) (\<lambda>q1_inv_mod_q2.
         if N > length el0 \<or> N > length el1 then Panic
         else let in_zq = (\<lambda>i k. crt_combine (pr_base C) (Zq1, Zq2) q2_inv_mod_q1 q1_inv_mod_q2
                (get_components rns0 (el0 ! i) ! k) (get_components rns1 (el1 ! i) ! k))
              in Ok (map (\<lambda>k. pr_from_basis C (map (\<lambda>i. in_zq i k) [0..<N])) [0..<SIMD_COUNT]))))"

text \<open>\<open>get_a\<close> before \<open>set_db\<close> panics, since \<open>reply_a\<close> is still empty.\<close>

definition get_a :: "('z, 'p, 'r) pir_database \<Rightarrow> ('e, 'r list) outcome" where
  "get_a db =
     (let N = pr_rank (db_ring db) in
      if N > length (fst (db_reply_a db)) \<or> N > length (snd (db_reply_a db)) then Panic
      else from_simd_element db (take N (fst (db_reply_a db)), take N (snd (db_reply_a db))))"


section \<open>Loading entries\<close>

text \<open>
  \<open>coset_ntt\<close> on one row. Elements of \<open>Z/m\<close>, \<open>m = 2N\<close>, are written as residues; \<open>pow\<close> is the power
  function of \<open>feanor_math\<close> on vectors.
\<close>

definition coset_index :: "nat \<Rightarrow> nat \<Rightarrow> nat \<Rightarrow> nat \<Rightarrow> ('e, nat) outcome" where
  "coset_index m l coset galois_element =
     (let d = int ((m - galois_element) mod m) - int coset in
      if d mod int (m div l) \<noteq> 0 \<or> d < 0 then Panic else Ok (nat d div (m div l)))"

text \<open>\<open>permute\<close> asks for the index of every position, so that one that panics makes it panic.\<close>

definition permute_by :: "(nat \<Rightarrow> ('e, nat) outcome) \<Rightarrow> 'a list \<Rightarrow> ('e, 'a list) outcome" where
  "permute_by perm vals =
     bind_outcome (try_map perm [0..<length vals]) (\<lambda>tab. permute (\<lambda>i. tab ! i) vals)"

definition coset_ntt ::
    "('z special_zn \<Rightarrow> m512i \<Rightarrow> nat \<Rightarrow> m512i) \<Rightarrow> index_group \<Rightarrow> 'z special_zn \<Rightarrow> m512i \<Rightarrow> nat \<Rightarrow> ntt_table \<Rightarrow> m512i list \<Rightarrow>
     ('e, m512i list) outcome" where
  "coset_ntt pow index_group Zqx8 base_zeta zeta_power fft_table vals =
     (let N = ig_N index_group; m = 2 * N; l = length vals in
      if l \<noteq> group_order index_group then Panic
      else if \<not> list_ex (\<lambda>x. (x * query_base_power index_group) mod m = zeta_power) [0..<m] then Panic
      else let coset = zeta_power mod (m div l); zeta = pow Zqx8 base_zeta coset in
        bind_outcome (unwrap (checked_left_div Zqx8 (from_int Zqx8 1) zeta)) (\<lambda>zeta_inv.
          let vals = fft fft_table (weight Zqx8 zeta_inv (from_int Zqx8 1) vals);
              zeta_power_neg = (m - zeta_power) mod m
          in if requires_conj index_group
             then permute_by (\<lambda>i. if i < N div 2 then coset_index m l coset ((zeta_power_neg * gen_H ^ i) mod m)
                                  else coset_index m l coset ((zeta_power * gen_H ^ (i - N div 2)) mod m)) vals
             else permute_by (\<lambda>i. coset_index m l coset ((zeta_power_neg * gen_H ^ i) mod m)) vals))"

text \<open>Rows of a matrix that is kept as the list of its columns.\<close>

definition row_of :: "'a list list \<Rightarrow> nat \<Rightarrow> 'a list" where
  "row_of cols i = map (\<lambda>c. c ! i) cols"

definition map_rows :: "nat \<Rightarrow> (nat \<Rightarrow> 'a list \<Rightarrow> ('e, 'a list) outcome) \<Rightarrow> 'a list list \<Rightarrow> ('e, 'a list list) outcome" where
  "map_rows N f cols =
     bind_outcome (try_map (\<lambda>i. f i (row_of cols i)) [0..<N]) (\<lambda>rows. Ok (map (\<lambda>j. map (\<lambda>r. r ! j) rows) [0..<length cols]))"

definition map_cols :: "(nat \<Rightarrow> 'a list \<Rightarrow> ('e, 'b list) outcome) \<Rightarrow> 'a list list \<Rightarrow> ('e, 'b list list) outcome" where
  "map_cols f cols = try_map (\<lambda>j. f j (cols ! j)) [0..<length cols]"

text \<open>Step 6 for one column: back to coefficients, to the plaintext ring, scaled, and into both rings.\<close>

definition embed_column ::
    "('z, 'p, 'r) pir_database \<Rightarrow> 'z \<Rightarrow> m512i list \<Rightarrow> ('e, compressed_rns_el) outcome" where
  "embed_column db scale col =
     (let Zt = pr_base (db_ring db); rns = db_rns_base db; Zqs = db_component_rings db; N = pr_rank (db_ring db);
          c = inv_weighted_ntt (fst rns) (fst (db_zeta db)) (fst (db_len_N_ntts db)) col;
          entries = map (\<lambda>i. map (\<lambda>e. zn_smallest_lift Zt (zn_mul Zt (zn_of_int Zt (zn_smallest_lift (fst Zqs) e)) scale))
            (get_components (fst rns) (c ! i))) [0..<N];
          result = (map (\<lambda>x. from_components (fst rns) (map (zn_of_int (fst Zqs)) x)) entries,
                    map (\<lambda>x. from_components (snd rns) (map (zn_of_int (snd Zqs)) x)) entries)
      in bind_outcome (both_ntts rns (db_zeta db) (db_len_N_ntts db) result) (\<lambda>result. Ok (compress_rns result)))"

definition set_transformed_entries ::
    "('z special_zn \<Rightarrow> m512i \<Rightarrow> nat \<Rightarrow> m512i) \<Rightarrow> nat \<Rightarrow> 'p list \<Rightarrow> ('z, 'p, 'r) pir_database \<Rightarrow> ('e, ('z, 'p, 'r) pir_database) outcome" where
  "set_transformed_entries pow inv_g entries db =
     (let R = db_ring db; N = pr_rank R; m = 2 * N; t = zn_modulus (pr_base R); r = fst (db_rns_base db); g = db_index_group db;
          zeta = fst (db_zeta db); fft_table = fst (db_len_N_ntts db)
      in if \<not> 2 * t * int N < zn_modulus (sz_component_ring r) then Panic
         else if group_order g * SIMD_COUNT \<noteq> length entries then Panic
         else let step1 = map (\<lambda>j. map (\<lambda>i. from_components r (map (\<lambda>k. pr_basis R (entries ! (j * SIMD_COUNT + k)) ! i) [0..<SIMD_COUNT]))
                [0..<N]) [0..<group_order g];
              base_power = (m - query_base_power g mod m) mod m
         in bind_outcome (map_cols (\<lambda>j. weighted_ntt r zeta fft_table) step1) (\<lambda>step2.
            bind_outcome (map_rows N (\<lambda>i. coset_ntt pow g r zeta ((index_to_galois N m i * base_power) mod m)
              (fst (db_len_subgroup_order_ntts db))) step2) (\<lambda>step3.
            bind_outcome (map_cols (\<lambda>j. permute_by (\<lambda>i. galois_to_index N m ((inv_g ^ j * index_to_galois N m i) mod m))) step3) (\<lambda>step4.
            let step5 = (if requires_conj g then rev (take (N div 2) step4) @ rev (drop (N div 2) step4) else rev step4)
            in bind_outcome (unwrap (zn_invert (pr_base R) (zn_of_int (pr_base R) (int (group_order g))))) (\<lambda>scale.
               bind_outcome (try_map (embed_column db scale) step5) (\<lambda>cols.
               let plain = take (loop_len g) cols; conj = drop (loop_len g) cols
               in Ok (db\<lparr>db_transformed_entries := (concat (map fst plain), concat (map snd plain)),
                         db_transformed_entries_conj := (concat (map fst conj), concat (map snd conj)),
                         db_reply_a := ([], [])\<rparr>)))))))"


section \<open>Preprocessing\<close>

text \<open>
  The loop over the passes: the running \<open>a\<close>-part of the reply and, per pass, the decomposition the online
  phase multiplies with the Galois keys.
\<close>

definition add_product :: "'z special_zn \<Rightarrow> nat \<Rightarrow> nat \<Rightarrow> m512i list \<Rightarrow> m512i list \<Rightarrow> compressed list \<Rightarrow> m512i list" where
  "add_product r N i gal_sum qry_a transformed_entries =
     map (\<lambda>j. add_assign r (gal_sum ! j) (mul_assign r (qry_a ! j) (uncompress_lanes (transformed_entries ! (i * N + j))))) [0..<N]"

definition store_rns :: "nat \<Rightarrow> rns_el \<Rightarrow> compressed_rns_el \<Rightarrow> compressed_rns_el" where
  "store_rns k el mem = (splice (fst mem) k (map compress_lanes (fst el)), splice (snd mem) k (map compress_lanes (snd el)))"

fun preprocess_loop ::
    "'z special_zn \<times> 'z special_zn \<Rightarrow> 'z zn_arith \<times> 'z zn_arith \<Rightarrow> m512i \<times> m512i \<Rightarrow> ntt_table \<times> ntt_table \<Rightarrow> int \<Rightarrow> nat \<Rightarrow> nat \<Rightarrow>
     rns_el \<Rightarrow> rns_el list \<Rightarrow> compressed_rns_el \<Rightarrow> nat \<Rightarrow> nat \<Rightarrow> rns_el \<times> compressed_rns_el list \<Rightarrow>
     ('e, rns_el \<times> compressed_rns_el list) outcome" where
  "preprocess_loop rns_base Zqs zeta ntts q N inv_g qry_a gk_a transformed_entries i 0 st = Ok st"
| "preprocess_loop rns_base Zqs zeta ntts q N inv_g qry_a gk_a transformed_entries i (Suc k) st =
     bind_outcome (partial_gal rns_base Zqs zeta ntts q N inv_g (fst st) gk_a) (\<lambda>(gal_sum, gal_sum_b).
       let inner_prod_gk = map (\<lambda>k. store_rns (i * N) (gal_sum_b ! k) (snd st ! k)) [0..<GK_DIGITS];
           sum0 = add_product (fst rns_base) N i (fst gal_sum) (fst qry_a) (fst transformed_entries);
           sum1 = add_product (snd rns_base) N i (snd gal_sum) (snd qry_a) (snd transformed_entries)
       in preprocess_loop rns_base Zqs zeta ntts q N inv_g qry_a gk_a transformed_entries (i + 1) k ((sum0, sum1), inner_prod_gk))"

definition run_preprocess_loop ::
    "nat \<Rightarrow> rns_el \<Rightarrow> rns_el list \<Rightarrow> compressed_rns_el \<Rightarrow> compressed_rns_el list \<Rightarrow> ('z, 'p, 'r) pir_database \<Rightarrow>
     ('e, rns_el \<times> compressed_rns_el list) outcome" where
  "run_preprocess_loop inv_g qry_a gk_a transformed_entries inner_prod_gk db =
     (let N = pr_rank (db_ring db); len = N * loop_len (db_index_group db); rns = db_rns_base db;
          zeros = (\<lambda>r. replicate N (from_int r 0)) in
      if \<not> list_all (\<lambda>l. length (fst l) = len \<and> length (snd l) = len) inner_prod_gk \<or>
         len \<noteq> length (fst transformed_entries) \<or> len \<noteq> length (snd transformed_entries) then Panic
      else preprocess_loop rns (db_component_rings db) (db_zeta db) (db_len_N_ntts db)
             (zn_modulus (pr_base (db_ciphertext_ring db))) N inv_g qry_a gk_a transformed_entries 0 (loop_len (db_index_group db))
             ((zeros (fst rns), zeros (snd rns)), inner_prod_gk))"

definition add_rns :: "'z special_zn \<times> 'z special_zn \<Rightarrow> rns_el \<Rightarrow> rns_el \<Rightarrow> rns_el" where
  "add_rns rns a b = (map2 (add_assign (fst rns)) (fst a) (fst b), map2 (add_assign (snd rns)) (snd a) (snd b))"

definition preprocess_db ::
    "'g rng_ops \<Rightarrow> nat \<Rightarrow> ('z, 'p, 'r) pir_database \<Rightarrow> ('e, ('z, 'p, 'r) pir_database) outcome" where
  "preprocess_db rng inv_g db =
     (let C = db_ciphertext_ring db; seeds = db_use_seeds db;
          simd = (\<lambda>seed. to_simd_element db (replicate SIMD_COUNT (expand rng C seed)))
      in bind_outcome (try_map (\<lambda>i. simd (get_gk_seeds seeds ! i)) [0..<GK_DIGITS]) (\<lambda>gk_a.
         bind_outcome (simd (get_qry_seeds seeds ! 0)) (\<lambda>qry_a.
         bind_outcome (run_preprocess_loop inv_g qry_a gk_a (db_transformed_entries db) (db_inner_prod_gk db) db) (\<lambda>(s, inner_prod_gk).
         if requires_conj (db_index_group db) then
           bind_outcome (simd (get_qry_seeds seeds ! 1)) (\<lambda>qry_conj_a.
           bind_outcome (run_preprocess_loop inv_g qry_conj_a gk_a (db_transformed_entries_conj db) (db_inner_prod_conj_gk db) db)
             (\<lambda>(sum_conj, inner_prod_gk_conj).
             Ok (db\<lparr>db_reply_a := add_rns (db_rns_base db) s sum_conj, db_inner_prod_gk := inner_prod_gk,
                    db_inner_prod_conj_gk := inner_prod_gk_conj\<rparr>)))
         else Ok (db\<lparr>db_reply_a := s, db_inner_prod_gk := inner_prod_gk\<rparr>)))))"

definition set_db_entries ::
    "'g rng_ops \<Rightarrow> ('z special_zn \<Rightarrow> m512i \<Rightarrow> nat \<Rightarrow> m512i) \<Rightarrow> nat \<Rightarrow> 'p list \<Rightarrow> ('z, 'p, 'r) pir_database \<Rightarrow> ('e, ('z, 'p, 'r) pir_database) outcome" where
  "set_db_entries rng pow inv_g entries db =
     bind_outcome (set_transformed_entries pow inv_g entries db) (preprocess_db rng inv_g)"


section \<open>Answering queries\<close>

record 'r query_ref =
  qr_qry_b :: 'r
  qr_qry_conj_b :: "'r option"
  qr_gk_b :: "'r list"

text \<open>
  The loop for one prime and one of the two halves of the group. \<open>component\<close> selects the prime: first or
  second of every pair.
\<close>

definition run_main_loop ::
    "(compressed_rns_el \<Rightarrow> compressed list) \<Rightarrow> 'z special_zn \<Rightarrow> 'z special_zn \<times> 'z special_zn \<Rightarrow> nat \<Rightarrow> nat \<Rightarrow> nat list \<Rightarrow>
     compressed_rns_el \<Rightarrow> compressed_rns_el list \<Rightarrow> compressed_rns_el list \<Rightarrow> compressed_rns_el \<Rightarrow>
     ('e, m512i list) outcome" where
  "run_main_loop component Zqx8 rns_base N len lookup_table qry_b gk_b inner_prod_gk transformed_entries =
     bind_outcome (main_pir_loop N len (reduce_every_iterations (fst rns_base) (snd rns_base)) Zqx8
         (replicate N (from_int (fst rns_base) 0)) (replicate N (from_int (fst rns_base) 0)) lookup_table
         \<lparr>in_qry_b = component qry_b, in_gk_b = map component gk_b, in_inner_prod_gk = map component inner_prod_gk,
          in_transformed_entries = component transformed_entries\<rparr>)
       (\<lambda>(sums, sum_new). Ok sums)"

text \<open>Both halves of the group for one prime, permuted back and reduced.\<close>

definition answer_component ::
    "(compressed_rns_el \<Rightarrow> compressed list) \<Rightarrow> 'z special_zn \<Rightarrow> ('z, 'p, 'r) pir_database \<Rightarrow> nat list \<Rightarrow>
     compressed_rns_el \<Rightarrow> compressed_rns_el \<Rightarrow> compressed_rns_el list \<Rightarrow> ('e, m512i list) outcome" where
  "answer_component component Zqx8 db lookup_table qry_b qry_b_conj gk_b =
     (let N = pr_rank (db_ring db); len = loop_len (db_index_group db); rns = db_rns_base db in
      bind_outcome (run_main_loop component Zqx8 rns N len lookup_table qry_b gk_b (db_inner_prod_gk db) (db_transformed_entries db)) (\<lambda>sums.
      bind_outcome (if requires_conj (db_index_group db)
          then bind_outcome (run_main_loop component Zqx8 rns N len lookup_table qry_b_conj gk_b (db_inner_prod_conj_gk db)
            (db_transformed_entries_conj db)) (\<lambda>sum_conj. Ok (map2 mm512_add_epi64 sums sum_conj))
          else Ok sums) (\<lambda>sums.
      bind_outcome (permute (\<lambda>i. lookup_table ! i) sums) (\<lambda>sums.
      Ok (map (reduce_from_u64 Zqx8) sums)))))"

definition perform_pir_split ::
    "nat \<Rightarrow> 'r query_ref list \<Rightarrow> ('z, 'p, 'r) pir_database \<Rightarrow> ('e, 'r list) outcome" where
  "perform_pir_split inv_g queries db =
     (let N = pr_rank (db_ring db); rns = db_rns_base db; lookup_table = galois_lookup_table N inv_g in
      bind_outcome (to_compressed_simd_element db (map qr_qry_b queries)) (\<lambda>qry_b.
      bind_outcome (if requires_conj (db_index_group db)
          then bind_outcome (try_map (\<lambda>q. unwrap (qr_qry_conj_b q)) queries) (to_compressed_simd_element db)
          else Ok ([], [])) (\<lambda>qry_b_conj.
      bind_outcome (try_map (\<lambda>i. to_compressed_simd_element db (map (\<lambda>q. qr_gk_b q ! i) queries)) [0..<GK_DIGITS]) (\<lambda>gk_b.
      bind_outcome (answer_component fst (fst rns) db lookup_table qry_b qry_b_conj gk_b) (\<lambda>res0.
      bind_outcome (answer_component snd (snd rns) db lookup_table qry_b qry_b_conj gk_b) (\<lambda>res1.
      from_simd_element db (res0, res1)))))))"

definition perform_pir ::
    "nat \<Rightarrow> 'r query_ref \<Rightarrow> ('z, 'p, 'r) pir_database \<Rightarrow> ('e, 'r list) outcome" where
  "perform_pir inv_g q db = perform_pir_split inv_g (replicate SIMD_COUNT q) db"


section \<open>Two levels\<close>

text \<open>
  \<open>perform_batched_double_pir\<close> of \<open>crates/pir/src/double_pir.rs\<close>. The second-level database is built in
  zeroed memory, as the first use of the reused buffer finds it; \<open>abs_log2_floor\<close> of the second plaintext
  modulus is the argument \<open>log2_t_floor\<close>. The comparison of the ciphertext rings of the shards is left
  out; the check of the result lengths pairs the answered queries with the fleets from the front, as the
  code does.
\<close>

definition part_results_of ::
    "nat \<Rightarrow> (int \<Rightarrow> int \<Rightarrow> int) \<Rightarrow> ('z, 'p) poly_ring \<Rightarrow> ('z, 'r) poly_ring \<Rightarrow> ('z, 'p, 'r) pir_database list \<Rightarrow> 'r double_query \<Rightarrow>
     ('e, 'p list list) outcome" where
  "part_results_of inv_g rdiv R_secondary C databases query =
     bind_outcome (try_map (\<lambda>db.
       if requires_conj (db_index_group db) \<noteq> (dq_primary_conj query \<noteq> None) then Panic
       else bind_outcome (get_a db) (\<lambda>a.
         bind_outcome (perform_pir inv_g \<lparr>qr_qry_b = dq_primary query, qr_qry_conj_b = dq_primary_conj query, qr_gk_b = dq_gk query\<rparr> db) (\<lambda>b.
         try_map (\<lambda>k. result_parts rdiv R_secondary C (a ! k, b ! k)) [0..<SIMD_COUNT]))) databases) (\<lambda>parts.
     Ok (concat parts))"

definition perform_batched_double_pir ::
    "(int \<Rightarrow> nat option) \<Rightarrow> 'g rng_ops \<Rightarrow> 'z ntt_setup \<Rightarrow> nat \<Rightarrow> (int \<Rightarrow> int \<Rightarrow> int) \<Rightarrow> nat \<Rightarrow> 'p \<Rightarrow> 'r \<Rightarrow>
     ('z, 'p, 'r) pir_database list list \<Rightarrow> ('z, 'p) poly_ring \<Rightarrow> 'r double_query option list \<Rightarrow> index_group \<Rightarrow>
     ('e, ('r \<times> 'r) list option list) outcome" where
  "perform_batched_double_pir lg rng su inv_g rdiv log2_t_floor zero_p zero_r databases R_secondary queries index_group_secondary =
     (if SECONDARY_PLAIN_MODULUS \<noteq> zn_modulus (pr_base R_secondary) \<or> databases ! 0 = [] then Panic
      else let C = db_ciphertext_ring (databases ! 0 ! 0); N = pr_rank R_secondary; databases_len = map length databases in
      if \<not> list_all (list_all (\<lambda>db. db_use_seeds db = FirstSet)) databases then Panic
      else if log2_t_floor = 0 \<or>
        CTXT_PARTS \<noteq> (PRIMARY_A_LOG2_RESPONSE_Q + PRIMARY_B_LOG2_RESPONSE_Q - 1) div log2_t_floor + 1 then Panic
      else if \<not> CTXT_PARTS * BATCH_COUNT \<le> SIMD_COUNT then Panic
      else if \<not> list_all (\<lambda>len. len * SIMD_COUNT \<le> group_order index_group_secondary) databases_len then Panic
      else bind_outcome (try_map (\<lambda>k. case queries ! k of None \<Rightarrow> Ok None
          | Some query \<Rightarrow> bind_outcome (part_results_of inv_g rdiv R_secondary C (databases ! k) query) (\<lambda>rs. Ok (Some rs)))
        [0..<BATCH_COUNT]) (\<lambda>part_results.
      if \<not> list_all (\<lambda>(res, len). len * SIMD_COUNT = length res) (zip (List.map_filter id part_results) databases_len) then Panic else
      let zero_query = \<lparr>qr_qry_b = zero_r, qr_qry_conj_b = Some zero_r, qr_gk_b = replicate GK_DIGITS zero_r\<rparr>;
          memory = replicate (required_memory_general index_group_secondary N) (replicate 8 0);
          as_ref = (\<lambda>q. \<lparr>qr_qry_b = dq_secondary q, qr_qry_conj_b = dq_secondary_conj q, qr_gk_b = dq_gk q\<rparr>);
          refs = map (\<lambda>i. if i div CTXT_PARTS < length queries
            then (case queries ! (i div CTXT_PARTS) of Some q \<Rightarrow> as_ref q | None \<Rightarrow> zero_query) else zero_query) [0..<SIMD_COUNT]
      in bind_outcome (create lg su R_secondary C index_group_secondary SecondSet memory) (\<lambda>db.
         bind_outcome (set_db_entries rng (pow_zeta su) inv_g
           (secondary_entries zero_p (group_order index_group_secondary) databases_len part_results) db) (\<lambda>db.
         bind_outcome (get_a db) (\<lambda>a.
         bind_outcome (perform_pir_split inv_g refs db) (\<lambda>b.
         let ct = zip a b
         in Ok (map (\<lambda>i. if queries ! i = None then None
                         else Some (map (\<lambda>k. ct ! (i * CTXT_PARTS + k)) [0..<CTXT_PARTS])) [0..<BATCH_COUNT])))))))"

end
