(* ===== verification/Preprocess_Correct.thy ===== *)
theory Preprocess_Correct
  imports Partial_Gal_Correct Pir_Database
begin

text \<open>
  The two phases of \<open>PIRDatabase\<close>: what \<open>preprocess_loop\<close> stores, and how the online sum of
  \<open>main_pir_loop\<close> completes it. Together they evaluate, slot_value by slot_value, the sum over the passes of entry
  times decrypted query, rotated once per later pass, up to the noise of the Galois keys.
\<close>

section \<open>Stored elements\<close>

lemma compress_held:
  assumes "2 * pm r < 2 ^ 31" "represents r (2 * pm r) v f"
  shows "held r (compress_lanes v) f"
proof -
  have "map scast (compress_lanes v) = v"
  proof (rule nth_equalityI)
    fix i assume "i < length (map scast (compress_lanes v) :: u64 list)"
    then have "i < 8" by (simp add: compress_lanes_def)
    moreover from this have "uint (v ! i) < 2 ^ 31" using representsD(2) [OF assms(2)] assms(1) by (meson le_less_trans)
    ultimately show "map scast (compress_lanes v) ! i = v ! i" by (simp add: compress_lanes_def scast_ucast_small)
  qed (use representsD(1) [OF assms(2)] in \<open>simp add: compress_lanes_def\<close>)
  then show ?thesis using assms(2) by (simp add: held_def compress_lanes_def)
qed

lemma uncompress_held:
  assumes "held r c f"
  shows "represents r (2 * pm r) (uncompress_lanes c) f"
proof -
  have "length (uncompress_lanes c) = 8" by (simp add: uncompress_lanes_def mm512_setr_epi64_def)
  then have "uncompress_lanes c = map scast c"
    using assms by (intro nth_equalityI) (simp_all add: held_def uncompress_lane)
  then show ?thesis using assms by (simp add: held_def)
qed

lemma add_product_vec:
  assumes r: "special_ok r" and g: "vec r N gal_sum X" and q: "vec r N qry Q"
    and te: "\<And>j. j < N \<Longrightarrow> held r (te ! (i * N + j)) (E i j)"
  shows "vec r N (add_product r N i gal_sum qry te) (\<lambda>j l. X j l + Q j l * E i j l)"
  using add_assign_represents [OF r vecD(2) [OF g] mul_assign_represents [OF r vecD(2) [OF q] uncompress_held [OF te]]]
  by (simp add: vec_def add_product_def)

lemma nth_splice:
  assumes "k + length src \<le> length bs" "i < length bs"
  shows "splice bs k src ! i = (if k \<le> i \<and> i < k + length src then src ! (i - k) else bs ! i)"
  using assms by (auto simp: splice_def nth_append min_def)

lemma store_holds:
  assumes v: "vec r N vs F" and small: "2 * pm r < 2 ^ 31" and len: "length mem = N * len" and i: "i < len"
  defines "mem' \<equiv> splice mem (i * N) (map compress_lanes vs)"
  shows "length mem' = N * len" "j < N \<Longrightarrow> held r (mem' ! (i * N + j)) (F j)"
    "i' < i \<Longrightarrow> j < N \<Longrightarrow> mem' ! (i' * N + j) = mem ! (i' * N + j)"
proof -
  have l: "length vs = N" by (rule vecD(1) [OF v])
  have "Suc i * N \<le> len * N" using i by (intro mult_le_mono1) simp
  then have fit: "i * N + length (map compress_lanes vs) \<le> length mem" using len l by (simp add: mult.commute add.commute)
  then show "length mem' = N * len" using len by (simp add: mem'_def)
  show "held r (mem' ! (i * N + j)) (F j)" if "j < N"
    using nth_splice [OF fit, of "i * N + j"] fit l that compress_held [OF small vecD(2) [OF v that]] by (simp add: mem'_def)
  show "mem' ! (i' * N + j) = mem ! (i' * N + j)" if "i' < i" "j < N"
  proof -
    have "Suc i' * N \<le> i * N" using that by (intro mult_le_mono1) simp
    then have "i' * N + j < i * N" using that by simp
    then show ?thesis using nth_splice [OF fit, of "i' * N + j"] fit l by (simp add: mem'_def)
  qed
qed


section \<open>The offline phase\<close>

text \<open>The running \<open>a\<close>-part for digit polynomials \<open>dig\<close>, keys \<open>A\<close>, query \<open>Q\<close> and entries \<open>E\<close>.\<close>

fun reply_value ::
    "int \<Rightarrow> nat \<Rightarrow> (nat \<Rightarrow> nat \<Rightarrow> nat \<Rightarrow> nat \<Rightarrow> int) \<Rightarrow> (nat \<Rightarrow> nat \<Rightarrow> nat \<Rightarrow> int) \<Rightarrow> (nat \<Rightarrow> nat \<Rightarrow> int) \<Rightarrow> (nat \<Rightarrow> nat \<Rightarrow> nat \<Rightarrow> int) \<Rightarrow>
     nat \<Rightarrow> nat \<Rightarrow> nat \<Rightarrow> int" where
  "reply_value y N dig A Q E 0 j l = 0"
| "reply_value y N dig A Q E (Suc i) j l = key_product y N (dig i) A j l + Q j l * E i j l"

lemma reply_value_next:
  "reply_value y N dig A Q E (Suc i) = (\<lambda>j l. key_product y N (dig i) A j l + Q j l * E i j l)"
  by (intro ext) simp

lemma reply_value_cong:
  assumes "\<And>i'. i' < i \<Longrightarrow> dig i' = dig' i'"
  shows "reply_value y N dig A Q E i = reply_value y N dig' A Q E i"
proof (intro ext)
  fix j l show "reply_value y N dig A Q E i j l = reply_value y N dig' A Q E i j l"
    using assms by (cases i) simp_all
qed

text \<open>\<open>reply_pair\<close>: modulo both primes. The online phase reads \<open>dec_value\<close> at position \<open>j\<close> of pass \<open>i\<close>.\<close>

definition reply_pair where
  "reply_pair ys N dig A Q E i = (reply_value (fst ys) N dig (fst A) (fst Q) (fst E) i, reply_value (snd ys) N dig (snd A) (snd Q) (snd E) i)"

definition dec_value :: "int \<Rightarrow> nat \<Rightarrow> (nat \<Rightarrow> nat \<Rightarrow> nat \<Rightarrow> nat \<Rightarrow> int) \<Rightarrow> nat \<Rightarrow> nat \<Rightarrow> nat \<Rightarrow> nat \<Rightarrow> int" where
  "dec_value y N dig k i j = slot_value y N (dig i k) j"

definition stored :: "'z special_zn \<times> 'z special_zn \<Rightarrow> nat \<Rightarrow> int \<times> int \<Rightarrow> (nat \<Rightarrow> nat \<Rightarrow> nat \<Rightarrow> nat \<Rightarrow> int) \<Rightarrow> compressed_rns_el list \<Rightarrow> nat \<Rightarrow> bool" where
  "stored rns N ys dig mem i \<longleftrightarrow> (\<forall>k < 2. \<forall>j < N. held (fst rns) (fst (mem ! k) ! (i * N + j)) (dec_value (fst ys) N dig k i j) \<and>
     held (snd rns) (snd (mem ! k) ! (i * N + j)) (dec_value (snd ys) N dig k i j))"

definition prepared where
  "prepared rns N ys len A Q E i dig st \<longleftrightarrow> rns_vec rns N (fst st) (reply_pair ys N dig A Q E i) \<and>
     length (snd st) = 2 \<and> (\<forall>k < 2. length (fst (snd st ! k)) = N * len \<and> length (snd (snd st ! k)) = N * len) \<and>
     (\<forall>i' < i. recomposes N ys (dig i') (rotated N (reply_pair ys N dig A Q E i')) \<and> stored rns N ys dig (snd st) i')"

lemma prepared_step:
  assumes ok: "rns_ok rns Zqs N zeta ys ntts" and p: "prepared rns N ys len A Q E i dig (cur, mem)" and i: "i < len"
    and res: "gal_result rns N ys (reply_pair ys N dig A Q E i) A d gal_sum ds"
    and q: "rns_vec rns N qry Q" and te: "\<And>j. j < N \<Longrightarrow> held (fst rns) (fst te ! (i * N + j)) (fst E i j)"
      "\<And>j. j < N \<Longrightarrow> held (snd rns) (snd te ! (i * N + j)) (snd E i j)"
  shows "prepared rns N ys len A Q E (Suc i) (dig(i := d))
    ((add_product (fst rns) N i (fst gal_sum) (fst qry) (fst te), add_product (snd rns) N i (snd gal_sum) (snd qry) (snd te)),
     map (\<lambda>k. store_rns (i * N) (ds ! k) (mem ! k)) [0..<2])"
proof -
  note o = rns_okD [OF ok]
  let ?dig = "dig(i := d)" and ?mem = "map (\<lambda>k. store_rns (i * N) (ds ! k) (mem ! k)) [0..<2]"
  have same: "reply_pair ys N ?dig A Q E i' = reply_pair ys N dig A Q E i'" if "i' \<le> i" for i'
    unfolding reply_pair_def using that by (intro arg_cong2 [where f = Pair] reply_value_cong) simp_all
  have small: "2 * pm (fst rns) < 2 ^ 31" "2 * pm (snd rns) < 2 ^ 31" unfolding o(6,7) by (simp_all add: q_values)
  have len: "length (fst (mem ! k)) = N * len" "length (snd (mem ! k)) = N * len" if "k < 2" for k
    using p that by (simp_all add: prepared_def)
  have ds: "vec (fst rns) N (fst (ds ! k)) (slot_value (fst ys) N (d k))" "vec (snd rns) N (snd (ds ! k)) (slot_value (snd ys) N (d k))" if "k < 2" for k
    using res that by (simp_all add: gal_result_def rns_vec_def)
  note st0 = store_holds [OF ds(1) small(1) len(1) i] and st1 = store_holds [OF ds(2) small(2) len(2) i]
  have "stored rns N ys ?dig ?mem i'" if i': "i' < Suc i" for i'
  proof (cases "i' = i")
    case True
    then show ?thesis using st0(2) st1(2) by (simp add: stored_def store_rns_def dec_value_def)
  next
    case False
    then have "i' < i" "stored rns N ys dig mem i'" using i' p by (simp_all add: prepared_def)
    then show ?thesis using False st0(3) st1(3) by (simp add: stored_def store_rns_def dec_value_def)
  qed
  moreover have "recomposes N ys (?dig i') (rotated N (reply_pair ys N ?dig A Q E i'))" if i': "i' < Suc i" for i'
    using i' p res same [of i'] by (cases "i' = i") (simp_all add: prepared_def gal_result_def)
  moreover have "rns_vec rns N (add_product (fst rns) N i (fst gal_sum) (fst qry) (fst te),
      add_product (snd rns) N i (snd gal_sum) (snd qry) (snd te)) (reply_pair ys N ?dig A Q E (Suc i))"
    using add_product_vec [OF o(4), of N "fst gal_sum" _ "fst qry" _ "fst te" i "fst E", OF _ _ te(1)]
      add_product_vec [OF o(5), of N "snd gal_sum" _ "snd qry" _ "snd te" i "snd E", OF _ _ te(2)] res q
    by (simp add: gal_result_def rns_vec_def reply_pair_def reply_value_next)
  ultimately show ?thesis using st0(1) st1(1) unfolding prepared_def by (simp add: store_rns_def)
qed


lemma preprocess_loop_prepared:
  assumes ok: "rns_ok rns Zqs N zeta ys ntts" and g: "(gen_H * inv_g) mod (2 * N) = 1"
    and gk: "\<And>k. k < 2 \<Longrightarrow> rns_vec rns N (gk_a ! k) (fst A k, snd A k)" "length gk_a = 2" and q: "rns_vec rns N qry Q"
    and te: "\<And>i j. i < len \<Longrightarrow> j < N \<Longrightarrow> held (fst rns) (fst te ! (i * N + j)) (fst E i j) \<and> held (snd rns) (snd te ! (i * N + j)) (snd E i j)"
    and "prepared rns N ys len A Q E i dig st" "i + k \<le> len"
  shows "\<exists>st' dig'. preprocess_loop rns Zqs zeta ntts FIXED_Q N inv_g qry gk_a te i k st =
      (Ok st' :: ('e, rns_el \<times> compressed_rns_el list) outcome) \<and> prepared rns N ys len A Q E (i + k) dig' st'"
  using assms(7-)
proof (induction k arbitrary: i dig st)
  case (Suc k)
  obtain cur mem where st: "st = (cur, mem)" by (cases st)
  have cur: "rns_vec rns N cur (reply_pair ys N dig A Q E i)" using Suc.prems(1) by (simp add: prepared_def st)
  obtain gal_sum ds d where pg: "partial_gal rns Zqs zeta ntts FIXED_Q N inv_g cur gk_a = (Ok (gal_sum, ds) :: ('e, rns_el \<times> rns_el list) outcome)"
    "gal_result rns N ys (reply_pair ys N dig A Q E i) A d gal_sum ds"
    using partial_gal_result [OF ok g cur gk] by blast
  have i: "i < len" using Suc.prems(2) by simp
  note step = prepared_step [OF ok Suc.prems(1) [unfolded st] i pg(2) q te [OF i, THEN conjunct1] te [OF i, THEN conjunct2]]
  from Suc.IH [OF step] show ?case
    using Suc.prems(2) by (simp add: st pg(1) GK_DIGITS_def del: upt_Suc)
qed auto

text \<open>\<open>run_preprocess_loop\<close> from a fresh memory.\<close>

lemma prepared_start:
  assumes ok: "rns_ok rns Zqs N zeta ys ntts"
    and "length mem = 2" "\<And>k. k < 2 \<Longrightarrow> length (fst (mem ! k)) = N * len \<and> length (snd (mem ! k)) = N * len"
  shows "prepared rns N ys len A Q E 0 dig ((replicate N (from_int (fst rns) 0), replicate N (from_int (snd rns) 0)), mem)"
proof -
  have "reply_value y N dig A' Q' E' 0 = (\<lambda>_ _. 0)" for y A' Q' E' by (intro ext) simp
  then show ?thesis
    using assms(2,3) zeros_vec [OF rns_okD(4) [OF ok]] zeros_vec [OF rns_okD(5) [OF ok]]
    by (simp add: prepared_def rns_vec_def reply_pair_def)
qed

section \<open>The online phase\<close>

text \<open>What one pass adds, decrypted under \<open>S\<close>: the entry times the decrypted query, and the noise of the keys.\<close>

definition answer_term ::
    "(nat \<Rightarrow> nat \<Rightarrow> nat \<Rightarrow> nat \<Rightarrow> int) \<Rightarrow> (nat \<Rightarrow> nat \<Rightarrow> nat \<Rightarrow> int) \<Rightarrow> (nat \<Rightarrow> nat \<Rightarrow> int) \<Rightarrow> (nat \<Rightarrow> nat \<Rightarrow> int) \<Rightarrow> (nat \<Rightarrow> nat \<Rightarrow> int) \<Rightarrow>
     (nat \<Rightarrow> nat \<Rightarrow> nat \<Rightarrow> int) \<Rightarrow> nat \<Rightarrow> nat \<Rightarrow> nat \<Rightarrow> int" where
  "answer_term D E QA QB S e i j l =
     E i j l * (QB j l + QA j l * S j l) + D 0 i j l * e 0 j l + D 1 i j l * e 1 j l"

text \<open>The parts \<open>G\<close> and \<open>A\<close> of a key encrypt \<open>2 ^ (LOG2_B * k)\<close> times the rotated secret, up to \<open>e\<close>.\<close>

definition key_relation ::
    "int \<Rightarrow> nat \<Rightarrow> (nat \<Rightarrow> nat \<Rightarrow> nat \<Rightarrow> int) \<Rightarrow> (nat \<Rightarrow> nat \<Rightarrow> nat \<Rightarrow> int) \<Rightarrow> (nat \<Rightarrow> nat \<Rightarrow> int) \<Rightarrow> (nat \<Rightarrow> nat \<Rightarrow> nat \<Rightarrow> int) \<Rightarrow> bool" where
  "key_relation p N G A S e \<longleftrightarrow> (\<forall>k < 2. \<forall>j < N. \<forall>l < 8. (G k j l + A k j l * S j l) mod p =
     (2 ^ (LOG2_B * k) * S (galois_lookup N gen_H j) l + e k j l) mod p)"

lemma passes_decrypt:
  assumes s: "\<And>j. j < N \<Longrightarrow> galois_lookup N gen_H j < N" and keys: "key_relation p N G A S e"
    and dec: "\<And>i j l. i < len \<Longrightarrow> j < N \<Longrightarrow> l < 8 \<Longrightarrow>
      (slot_value y N (dig i 0) j l + 2 ^ LOG2_B * slot_value y N (dig i 1) j l) mod p = reply_value y N dig A QA E i (galois_lookup N gen_H j) l mod p"
    and "i \<le> len" "j < N" "l < 8"
  shows "(rotated_sum (galois_lookup N gen_H) (pass_term (dec_value y N dig) E G QB) i j l + reply_value y N dig A QA E i j l * S j l) mod p =
    rotated_sum (galois_lookup N gen_H) (answer_term (dec_value y N dig) E QA QB S e) i j l mod p"
  using assms(4,5)
proof (induction i arbitrary: j)
  case (Suc i)
  let ?s = "galois_lookup N gen_H" and ?a = "reply_value y N dig A QA E"
  let ?C = "rotated_sum ?s (pass_term (dec_value y N dig) E G QB)" and ?R = "rotated_sum ?s (answer_term (dec_value y N dig) E QA QB S e)"
  let ?D = "\<lambda>k. slot_value y N (dig i k) j l"
  have i: "i \<le> len" "i < len" using Suc.prems by simp_all
  obtain w where w: "?R i (?s j) l = ?C i (?s j) l + ?a i (?s j) l * S (?s j) l + p * w"
    using mod_eqE [OF Suc.IH [OF i(1) s [OF Suc.prems(2)]]] by blast
  obtain u where u: "?a i (?s j) l = ?D 0 + 2 ^ LOG2_B * ?D 1 + p * u"
    using mod_eqE [OF dec [OF i(2) Suc.prems(2) assms(6)]] by blast
  have k: "(G k j l + A k j l * S j l) mod p = (2 ^ (LOG2_B * k) * S (?s j) l + e k j l) mod p" if "k < 2" for k
    using keys that Suc.prems(2) assms(6) by (simp add: key_relation_def)
  obtain v0 where v0: "S (?s j) l + e 0 j l = G 0 j l + A 0 j l * S j l + p * v0"
    using mod_eqE [OF k [of 0]] by auto
  obtain v1 where v1: "2 ^ LOG2_B * S (?s j) l + e 1 j l = G 1 j l + A 1 j l * S j l + p * v1"
    using mod_eqE [OF k [of 1]] by auto
  have e: "e 0 j l = G 0 j l + A 0 j l * S j l + p * v0 - S (?s j) l" "e 1 j l = G 1 j l + A 1 j l * S j l + p * v1 - 2 ^ LOG2_B * S (?s j) l"
    using v0 v1 by simp_all
  have "?R (Suc i) j l = ?C (Suc i) j l + ?a (Suc i) j l * S j l + p * (w + u * S (?s j) l + ?D 0 * v0 + ?D 1 * v1)"
    unfolding rotated_sum.simps reply_value.simps w u
    by (simp add: answer_term_def pass_term_def key_product_def dec_value_def e algebra_simps del: One_nat_def)
  then show ?case by simp
qed (simp add: rotated_sum.simps)

end
