(* ===== verification/Answer_Correct.thy ===== *)
theory Answer_Correct
  imports Preprocess_Correct
begin

text \<open>
  Answering queries on a preprocessed shard: conversion of ring elements to vectors and back, both halves
  of the index group, and the two parts of the reply, \<open>get_a\<close> from the offline phase and
  \<open>perform_pir_split\<close> from the online phase, as one ciphertext.
\<close>

section \<open>A database\<close>

text \<open>
  \<open>database_ok\<close>: the rings, roots and tables are what \<open>create\<close> builds on. \<open>ys\<close> are the inverse roots.
\<close>

definition database_ok :: "nat \<Rightarrow> int \<times> int \<Rightarrow> nat \<Rightarrow> ('z, 'p, 'r) pir_database \<Rightarrow> bool" where
  "database_ok N ys inv_g db \<longleftrightarrow> pr_rank (db_ring db) = N \<and> pr_rank (db_ciphertext_ring db) = N \<and> N mod 16 = 0 \<and>
     (gen_H * inv_g) mod (2 * N) = 1 \<and> rns_ok (db_rns_base db) (db_component_rings db) N (db_zeta db) ys (db_len_N_ntts db) \<and>
     poly_spec (db_ciphertext_ring db) \<and> zn_modulus (pr_base (db_ciphertext_ring db)) = FIXED_Q"

lemma database_okD:
  assumes "database_ok N ys inv_g db"
  shows "pr_rank (db_ring db) = N" "pr_rank (db_ciphertext_ring db) = N" "N mod 16 = 0" "(gen_H * inv_g) mod (2 * N) = 1"
    "rns_ok (db_rns_base db) (db_component_rings db) N (db_zeta db) ys (db_len_N_ntts db)"
    "poly_spec (db_ciphertext_ring db)" "zn_modulus (pr_base (db_ciphertext_ring db)) = FIXED_Q"
    "zn_arith_spec (pr_base (db_ciphertext_ring db))"
  using assms by (auto simp: database_ok_def poly_spec_def)

text \<open>The slots of eight ring elements in the lanes, modulo both primes.\<close>

definition lane_coeff :: "('z, 'r) poly_ring \<Rightarrow> 'r list \<Rightarrow> nat \<Rightarrow> nat \<Rightarrow> int" where
  "lane_coeff C els i l = coeff C (els ! l) i"

definition lane_slots :: "('z, 'r) poly_ring \<Rightarrow> int \<times> int \<Rightarrow> 'r list \<Rightarrow> (nat \<Rightarrow> nat \<Rightarrow> int) \<times> (nat \<Rightarrow> nat \<Rightarrow> int)" where
  "lane_slots C ys els = (slot_value (fst ys) (pr_rank C) (lane_coeff C els), slot_value (snd ys) (pr_rank C) (lane_coeff C els))"


section \<open>Ring elements to vectors\<close>

lemma residues_vec:
  assumes r: "special_ok r" and R: "zn_arith_spec R" "zn_modulus R = pm r" "zn_lift (sz_component_ring r) = zn_lift R"
    and C: "poly_spec C" "pr_rank C = N" "zn_modulus (pr_base C) = k * pm r" and els: "length els = 8"
  shows "vec r N (map (\<lambda>i. from_components r (map (\<lambda>cs. zn_of_int R (zn_smallest_lift (pr_base C) (cs ! i))) (map (pr_basis C) els))) [0..<N])
    (lane_coeff C els)"
proof -
  have s: "zn_arith_spec (pr_base C)" using C(1) by (simp add: poly_spec_def)
  have "represents r (2 * pm r) (from_components r (map (\<lambda>cs. zn_of_int R (zn_smallest_lift (pr_base C) (cs ! i))) (map (pr_basis C) els)))
      (lane_coeff C els i)" if i: "i < N" for i
  proof (rule represents_two [OF r represents_cong [OF from_components_represents [OF r]]])
    fix l :: nat assume l: "l < 8"
    let ?c = "pr_basis C (els ! l) ! i"
    have "zn_smallest_lift (pr_base C) ?c mod pm r = zn_smallest_lift (pr_base C) ?c mod (k * pm r) mod pm r"
      by (rule mod_mod_cancel [symmetric]) simp
    then have "zn_smallest_lift (pr_base C) ?c mod pm r = zn_lift (pr_base C) ?c mod pm r"
      using zn_smallest(1) [OF s, of ?c] unfolding C(3) by (simp only:)
    then show "zn_lift (sz_component_ring r)
        (map (\<lambda>cs. zn_of_int R (zn_smallest_lift (pr_base C) (cs ! i))) (map (pr_basis C) els) ! l) mod pm r = lane_coeff C els i l mod pm r"
      using l els zn_lift_of_int [OF R(1)] by (simp add: R(2,3) lane_coeff_def coeff_def)
  qed
  then show ?thesis by (simp add: vec_def)
qed

lemma to_simd_element_vec:
  assumes db: "database_ok N ys inv_g db" and els: "length els = 8"
  shows "\<exists>el. to_simd_element db els = (Ok el :: ('e, rns_el) outcome) \<and>
    rns_vec (db_rns_base db) N el (lane_slots (db_ciphertext_ring db) ys els)"
proof -
  note d = database_okD [OF db] and o = rns_okD [OF database_okD(5) [OF db]]
  note p = prime_pairD [OF o(1)]
  let ?C = "db_ciphertext_ring db"
  have q: "zn_modulus (pr_base ?C) = Q_FACTOR2 * pm (fst (db_rns_base db))" "zn_modulus (pr_base ?C) = Q_FACTOR1 * pm (snd (db_rns_base db))"
    unfolding d(7) o(6,7) FIXED_Q_def by simp_all
  let ?x = "\<lambda>r R. map (\<lambda>i. from_components r (map (\<lambda>cs. zn_of_int R (zn_smallest_lift (pr_base ?C) (cs ! i))) (map (pr_basis ?C) els))) [0..<N]"
  let ?r = "db_rns_base db" and ?R = "db_component_rings db"
  have "rns_vec ?r N (?x (fst ?r) (fst ?R), ?x (snd ?r) (snd ?R)) (lane_coeff ?C els, lane_coeff ?C els)"
    using residues_vec [OF o(4) p(5) _ p(9) d(6,2) q(1) els] residues_vec [OF o(5) p(6) _ p(10) d(6,2) q(2) els]
    by (simp only: rns_vec_def fst_conv snd_conv p(3,4,7,8))
  from both_ntts_vec [OF d(5) this, where 'e = 'e] show ?thesis
    by (simp add: to_simd_element_def Let_def d(1,2) lane_slots_def)
qed

text \<open>Compressed elements hold the same values.\<close>

definition rns_held ::
    "'z special_zn \<times> 'z special_zn \<Rightarrow> nat \<Rightarrow> compressed_rns_el \<Rightarrow> (nat \<Rightarrow> nat \<Rightarrow> int) \<times> (nat \<Rightarrow> nat \<Rightarrow> int) \<Rightarrow> bool" where
  "rns_held rns n el V \<longleftrightarrow> length (fst el) = n \<and> length (snd el) = n \<and>
     (\<forall>j < n. held (fst rns) (fst el ! j) (fst V j) \<and> held (snd rns) (snd el ! j) (snd V j))"

lemma to_compressed_held:
  assumes db: "database_ok N ys inv_g db" and els: "length els = 8"
  shows "\<exists>el. to_compressed_simd_element db els = (Ok el :: ('e, compressed_rns_el) outcome) \<and>
    rns_held (db_rns_base db) N el (lane_slots (db_ciphertext_ring db) ys els)"
proof -
  note o = rns_okD [OF database_okD(5) [OF db]]
  obtain el where el: "to_simd_element db els = (Ok el :: ('e, rns_el) outcome)"
    "rns_vec (db_rns_base db) N el (lane_slots (db_ciphertext_ring db) ys els)"
    using to_simd_element_vec [OF db els] by blast
  have small: "2 * pm (fst (db_rns_base db)) < 2 ^ 31" "2 * pm (snd (db_rns_base db)) < 2 ^ 31"
    unfolding o(6,7) by (simp_all add: q_values)
  show ?thesis
    using el small by (simp add: to_compressed_simd_element_def compress_rns_def rns_held_def rns_vec_def vec_def compress_held)
qed


section \<open>Vectors to ring elements\<close>

lemma crt_combine_residues:
  assumes P: "prime_pair rns Zqs" and Zq: "zn_arith_spec Zq" "zn_modulus Zq = FIXED_Q"
    and j: "(Q_FACTOR2 * zn_lift (fst Zqs) j) mod Q_FACTOR1 = 1" and i: "(Q_FACTOR1 * zn_lift (snd Zqs) i) mod Q_FACTOR2 = 1"
    and x: "zn_lift (fst Zqs) x mod Q_FACTOR1 = f mod Q_FACTOR1" and y: "zn_lift (snd Zqs) y mod Q_FACTOR2 = g mod Q_FACTOR2"
  shows "zn_lift Zq (crt_combine Zq Zqs j i x y) mod Q_FACTOR1 = f mod Q_FACTOR1"
    "zn_lift Zq (crt_combine Zq Zqs j i x y) mod Q_FACTOR2 = g mod Q_FACTOR2"
proof -
  note p = prime_pairD [OF P]
  let ?e = "zn_smallest_lift (fst Zqs) (zn_mul (fst Zqs) x j)" and ?h = "zn_smallest_lift (snd Zqs) (zn_mul (snd Zqs) y i)"
  let ?e' = "(zn_lift (fst Zqs) x * zn_lift (fst Zqs) j) mod Q_FACTOR1" and ?h' = "(zn_lift (snd Zqs) y * zn_lift (snd Zqs) i) mod Q_FACTOR2"
  let ?s = "zn_lift Zq (crt_combine Zq Zqs j i x y)"
  have e: "?e mod Q_FACTOR1 = ?e'" "?h mod Q_FACTOR2 = ?h'"
    using zn_smallest(1) [OF p(5)] zn_smallest(1) [OF p(6)] zn_lift_mul [OF p(5)] zn_lift_mul [OF p(6)] by (simp_all add: p(7,8))
  have "?s mod FIXED_Q = ((Q_FACTOR2 mod FIXED_Q * (?e mod FIXED_Q)) mod FIXED_Q + (Q_FACTOR1 mod FIXED_Q * (?h mod FIXED_Q)) mod FIXED_Q) mod FIXED_Q mod FIXED_Q"
    by (simp add: crt_combine_def Let_def zn_lift_of_int [OF Zq(1)] zn_lift_mul [OF Zq(1)] Zq(2) p(7,8))
  also have "\<dots> = (?e * Q_FACTOR2 + ?h * Q_FACTOR1) mod FIXED_Q"
    by (simp only: mod_mult_left_eq mod_mult_right_eq mod_add_left_eq mod_add_right_eq mod_mod_trivial mult.commute)
  finally have s: "?s mod FIXED_Q = (?e * Q_FACTOR2 + ?h * Q_FACTOR1) mod FIXED_Q" .
  have d: "Q_FACTOR1 dvd FIXED_Q" "Q_FACTOR2 dvd FIXED_Q" by (simp_all add: FIXED_Q_def)
  have s12: "?s mod m = (?e * Q_FACTOR2 + ?h * Q_FACTOR1) mod m" if "m dvd FIXED_Q" for m
    using arg_cong [OF s, of "\<lambda>x. x mod m"] unfolding mod_mod_cancel [OF that] .
  note c = crt_residues [OF refl j refl i, of "zn_lift (fst Zqs) x" "zn_lift (snd Zqs) y"]
  have "?s mod Q_FACTOR1 = (?e' * Q_FACTOR2 + ?h' * Q_FACTOR1) mod Q_FACTOR1"
    unfolding s12 [OF d(1)] e(1) [symmetric] by (simp add: mod_mult_left_eq)
  then show "?s mod Q_FACTOR1 = f mod Q_FACTOR1" unfolding c(1) x .
  have "?s mod Q_FACTOR2 = (?e' * Q_FACTOR2 + ?h' * Q_FACTOR1) mod Q_FACTOR2"
    unfolding s12 [OF d(2)] e(2) [symmetric] by (simp add: mod_mult_left_eq)
  then show "?s mod Q_FACTOR2 = g mod Q_FACTOR2" unfolding c(2) y .
qed

lemma from_simd_element_slots:
  assumes db: "database_ok N ys inv_g (db :: ('z, 'p, 'r) pir_database)" and el: "rns_vec (db_rns_base db) N el V"
  shows "\<exists>xs. from_simd_element db el = (Ok xs :: ('e, 'r list) outcome) \<and> length xs = 8 \<and>
    (\<forall>j < N. \<forall>l < 8. fst (lane_slots (db_ciphertext_ring db) ys xs) j l mod Q_FACTOR1 = fst V j l mod Q_FACTOR1 \<and>
       snd (lane_slots (db_ciphertext_ring db) ys xs) j l mod Q_FACTOR2 = snd V j l mod Q_FACTOR2)"
proof -
  note d = database_okD [OF db] and o = rns_okD [OF database_okD(5) [OF db]]
  note p = prime_pairD [OF o(1)]
  let ?C = "db_ciphertext_ring db" and ?r = "db_rns_base db" and ?R = "db_component_rings db"
  let ?x = "inv_weighted_ntt (fst ?r) (fst (db_zeta db)) (fst (db_len_N_ntts db)) (fst el)"
  let ?y = "inv_weighted_ntt (snd ?r) (snd (db_zeta db)) (snd (db_len_N_ntts db)) (snd el)"
  have v: "vec (fst ?r) N (fst el) (fst V)" "vec (snd ?r) N (snd el) (snd V)" using el by (simp_all add: rns_vec_def)
  obtain F where F: "vec (fst ?r) N ?x F" "\<forall>j < N. \<forall>l < 8. slot_value (fst ys) N F j l mod Q_FACTOR1 = fst V j l mod Q_FACTOR1"
    using inv_weighted_ntt_vec [OF o(2) v(1)] unfolding o(6) by blast
  obtain H where H: "vec (snd ?r) N ?y H" "\<forall>j < N. \<forall>l < 8. slot_value (snd ys) N H j l mod Q_FACTOR2 = snd V j l mod Q_FACTOR2"
    using inv_weighted_ntt_vec [OF o(3) v(2)] unfolding o(7) by blast
  obtain j where j: "modulus_inv (snd ?R) (fst ?R) = (Ok j :: ('e, 'z) outcome)" "(Q_FACTOR2 * zn_lift (fst ?R) j) mod Q_FACTOR1 = 1"
    using modulus_inv_Ok [OF p(5), of "snd ?R"] primes_coprime(2) p(7,8) by auto
  obtain i where i: "modulus_inv (fst ?R) (snd ?R) = (Ok i :: ('e, 'z) outcome)" "(Q_FACTOR1 * zn_lift (snd ?R) i) mod Q_FACTOR2 = 1"
    using modulus_inv_Ok [OF p(6), of "fst ?R"] primes_coprime(1) p(7,8) by auto
  define z where "z = (\<lambda>n k. crt_combine (pr_base ?C) ?R j i (get_components (fst ?r) (?x ! n) ! k) (get_components (snd ?r) (?y ! n) ! k))"
  define xs where "xs = map (\<lambda>k. pr_from_basis ?C (map (\<lambda>n. z n k) [0..<N])) [0..<8]"
  have xs: "from_simd_element db el = (Ok xs :: ('e, 'r list) outcome)"
    using j(1) i(1) vecD(1) [OF F(1)] vecD(1) [OF H(1)]
    by (simp add: from_simd_element_def Let_def modulus_inv_def d(1) xs_def z_def pir_consts)
  have c: "lane_coeff ?C xs n l mod Q_FACTOR1 = F n l mod Q_FACTOR1 \<and> lane_coeff ?C xs n l mod Q_FACTOR2 = H n l mod Q_FACTOR2"
    if n: "n < N" and l: "l < 8" for n l
  proof -
    have small: "2 * pm (fst ?r) < 2 ^ 31" "2 * pm (snd ?r) < 2 ^ 31" unfolding o(6,7) by (simp_all add: q_values)
    have x: "zn_lift (fst ?R) (get_components (fst ?r) (?x ! n) ! l) mod Q_FACTOR1 = F n l mod Q_FACTOR1"
      using components_represents [OF o(4) vecD(2) [OF F(1) n] small(1) l] by (simp only: p(9) o(6) mod_mod_trivial)
    have y: "zn_lift (snd ?R) (get_components (snd ?r) (?y ! n) ! l) mod Q_FACTOR2 = H n l mod Q_FACTOR2"
      using components_represents [OF o(5) vecD(2) [OF H(1) n] small(2) l] by (simp only: p(10) o(7) mod_mod_trivial)
    have "lane_coeff ?C xs n l = zn_lift (pr_base ?C) (z n l)"
      using coeff_from_basis [OF d(6), of "map (\<lambda>n. z n l) [0..<N]" n] n l by (simp add: lane_coeff_def xs_def d(2))
    then show ?thesis
      using crt_combine_residues [OF o(1) d(8,7) j(2) i(2) x y] by (simp add: z_def)
  qed
  have "slot_value y N (lane_coeff ?C xs) n l mod Q_FACTOR1 = slot_value y N F n l mod Q_FACTOR1"
    "slot_value y N (lane_coeff ?C xs) n l mod Q_FACTOR2 = slot_value y N H n l mod Q_FACTOR2" if "l < 8" for y n l
    using c that by (intro slot_cong; simp)+
  moreover have "length xs = 8" by (simp add: xs_def)
  ultimately show ?thesis
    using xs F(2) H(2) by (intro exI [of _ xs]) (simp add: lane_slots_def d(2))
qed

section \<open>The online loop on a database\<close>

lemma whole_held:
  assumes "length xs = N * len" "\<And>i j. i < len \<Longrightarrow> j < N \<Longrightarrow> held r (xs ! (i * N + j)) (F i j)"
  shows "whole xs (N * len)"
proof -
  have "length (xs ! x) = 8" if x: "x < N * len" for x
  proof -
    have "x mod N < N" using x by (cases "N = 0") simp_all
    moreover have "x div N < len" using x by (simp add: less_mult_imp_div_less mult.commute)
    ultimately have "held r (xs ! (x div N * N + x mod N)) (F (x div N) (x mod N))" by (intro assms(2))
    then show ?thesis by (simp add: held_def)
  qed
  then show ?thesis using assms(1) by (simp add: whole_def)
qed

lemma inputs_holdI:
  assumes "length (in_qry_b inp) = N" "\<And>j. j < N \<Longrightarrow> held r (in_qry_b inp ! j) (Q j)"
    and "\<And>k. k < 2 \<Longrightarrow> length (in_gk_b inp ! k) = N" "\<And>k j. k < 2 \<Longrightarrow> j < N \<Longrightarrow> held r (in_gk_b inp ! k ! j) (G k j)"
    and "length (in_transformed_entries inp) = N * len"
      "\<And>i j. i < len \<Longrightarrow> j < N \<Longrightarrow> held r (in_transformed_entries inp ! (i * N + j)) (E i j)"
    and "\<And>k. k < 2 \<Longrightarrow> length (in_inner_prod_gk inp ! k) = N * len"
      "\<And>k i j. k < 2 \<Longrightarrow> i < len \<Longrightarrow> j < N \<Longrightarrow> held r (in_inner_prod_gk inp ! k ! (i * N + j)) (D k i j)"
  shows "inputs_hold r inp N len D E G Q"
proof -
  have "whole (in_transformed_entries inp) (N * len)" by (rule whole_held [OF assms(5,6)])
  moreover have "whole (in_inner_prod_gk inp ! k) (N * len)" if "k < 2" for k
    by (rule whole_held [OF assms(7) [OF that] assms(8) [OF that]])
  moreover have "whole (in_qry_b inp) N" "k < 2 \<Longrightarrow> whole (in_gk_b inp ! k) N" for k
    using assms(1-4) by (auto simp: whole_def held_def)
  ultimately show ?thesis using assms by (simp add: inputs_hold_def inputs_ok_def)
qed

lemma zero_buffer:
  assumes "special_ok r0" "special_ok r"
  shows "represents r (pm r - 1) (from_int r0 0) (\<lambda>_. 0)"
proof -
  note z = from_int_represents [OF assms(1), of 0]
  have "uint (from_int r0 0 ! i) = 0" if "i < 8" for i
    using representsD(2) [OF z that] representsD(3) [OF z that] by (simp add: unsigned_greater_eq)
  then show ?thesis using representsD(1) [OF z] md_bounds(1) [OF assms(2)] by (simp add: represents_def)
qed

lemma run_main_loop_holds:
  assumes P: "prime_pair rns Zqs" and r: "r = fst rns \<or> r = snd rns" and g: "(gen_H * inv_g) mod (2 * N) = 1" and N: "N mod 16 = 0"
    and inp: "inputs_hold r \<lparr>in_qry_b = component qry_b, in_gk_b = map component gk_b, in_inner_prod_gk = map component ig,
      in_transformed_entries = component te\<rparr> N len D E G Q" and len: "even len"
  shows "\<exists>sums. run_main_loop component r rns N len (galois_lookup_table N inv_g) qry_b gk_b ig te = (Ok sums :: ('e, m512i list) outcome) \<and>
    rows_hold r (pm r - 1) (galois_lookup_table N inv_g) N sums (rotated_sum (galois_lookup N gen_H) (pass_term D E G Q) len)"
proof -
  note p = prime_pairD [OF P]
  have ok: "special_ok r" "r \<in> {fst rns, snd rns}" using r p(1,2) by auto
  have "0 < N" using g by (cases "N = 0") (simp_all add: gen_H_def)
  note maps = galois_row_maps [OF g]
  let ?z = "replicate N (from_int (fst rns) 0)"
  have zero: "rows_hold r (pm r - 1) (galois_lookup_table N inv_g) N ?z (\<lambda>_ _. 0)"
    using zero_buffer [OF p(1) ok(1)] maps by (simp add: rows_hold_def row_maps_def)
  note R = deployed_passes(1) [OF p(1-4)]
  obtain s1 s2 where "main_pir_loop N len 341 r ?z ?z (galois_lookup_table N inv_g)
      \<lparr>in_qry_b = component qry_b, in_gk_b = map component gk_b, in_inner_prod_gk = map component ig,
       in_transformed_entries = component te\<rparr> = (Ok (s1, s2) :: ('e, m512i list \<times> m512i list) outcome)"
    "rows_hold r (pm r - 1) (galois_lookup_table N inv_g) N (if even len then s1 else s2)
      (rotated_sum (galois_lookup N gen_H) (pass_term D E G Q) len)"
    using main_loop_holds [OF ok(1) inp maps N \<open>0 < N\<close> _ deployed_passes(2) [OF p(1-4) ok(2)] _ zero, of ?z, where 'e = 'e] by auto
  then show ?thesis using len by (simp add: run_main_loop_def R)
qed

text \<open>Both halves of the group, permuted back and reduced.\<close>

lemma unpermute_rows:
  assumes r: "special_ok r" and g: "(gen_H * inv_g) mod (2 * N) = 1" and rows: "rows_hold r b (galois_lookup_table N inv_g) N sums V"
  shows "\<exists>s. permute (\<lambda>i. galois_lookup_table N inv_g ! i) sums = (Ok s :: ('e, m512i list) outcome) \<and>
    vec r N (map (reduce_from_u64 r) s) V"
proof -
  have len: "length sums = N" using rows by (simp add: rows_hold_def)
  let ?s = "map (\<lambda>i. sums ! (galois_lookup_table N inv_g ! i)) [0..<length sums]"
  have "permute (\<lambda>i. galois_lookup_table N inv_g ! i) sums = (Ok ?s :: ('e, m512i list) outcome)"
    by (rule permute_bijection) (simp only: len lookup_table_bijection [OF g])
  moreover have "vec r N (map (reduce_from_u64 r) ?s) V"
    using rows represents_two [OF r reduce_from_u64_represents [OF r]] unfolding len by (auto simp: rows_hold_def vec_def)
  ultimately show ?thesis by blast
qed

lemma add_rows:
  assumes r: "special_ok r" and "row_maps tab s N" "rows_hold r (pm r - 1) tab N x V" "rows_hold r (pm r - 1) tab N y W"
  shows "rows_hold r (2 * pm r) tab N (map2 mm512_add_epi64 x y) (\<lambda>j l. V j l + W j l)"
proof -
  have "represents r (2 * pm r) (mm512_add_epi64 (x ! (tab ! j)) (y ! (tab ! j))) (\<lambda>l. V j l + W j l)" if "j < N" for j
  proof -
    have v: "represents r (pm r - 1) (x ! (tab ! j)) (V j)" "represents r (pm r - 1) (y ! (tab ! j)) (W j)"
      using assms(3,4) that by (simp_all add: rows_hold_def)
    have "pm r - 1 + (pm r - 1) < 2 ^ 64" using md_bounds(2) [OF r] by simp
    from add_represents [OF v this] show ?thesis by (rule represents_mono) simp
  qed
  then show ?thesis using assms(2-4) by (simp add: rows_hold_def row_maps_def)
qed

lemma answer_component_holds:
  assumes P: "prime_pair (db_rns_base db) Zqs" and r: "r = fst (db_rns_base db) \<or> r = snd (db_rns_base db)"
    and g: "(gen_H * inv_g) mod (2 * N) = 1" "N mod 16 = 0" "pr_rank (db_ring db) = N"
    and len: "loop_len (db_index_group db) = len" "even len"
    and plain: "inputs_hold r \<lparr>in_qry_b = component qry_b, in_gk_b = map component gk_b,
      in_inner_prod_gk = map component (db_inner_prod_gk db), in_transformed_entries = component (db_transformed_entries db)\<rparr> N len D E G Q"
    and conj: "requires_conj (db_index_group db) \<Longrightarrow> inputs_hold r \<lparr>in_qry_b = component qry_b', in_gk_b = map component gk_b,
      in_inner_prod_gk = map component (db_inner_prod_conj_gk db), in_transformed_entries = component (db_transformed_entries_conj db)\<rparr> N len D' E' G Q'"
  shows "\<exists>b. answer_component component r db (galois_lookup_table N inv_g) qry_b qry_b' gk_b = (Ok b :: ('e, m512i list) outcome) \<and>
    vec r N b (\<lambda>j l. rotated_sum (galois_lookup N gen_H) (pass_term D E G Q) len j l +
      (if requires_conj (db_index_group db) then rotated_sum (galois_lookup N gen_H) (pass_term D' E' G Q') len j l else 0))"
proof -
  have ok: "special_ok r" using r prime_pairD(1,2) [OF P] by auto
  let ?tab = "galois_lookup_table N inv_g" and ?s = "galois_lookup N gen_H"
  obtain s where s: "run_main_loop component r (db_rns_base db) N len ?tab qry_b gk_b (db_inner_prod_gk db) (db_transformed_entries db) =
      (Ok s :: ('e, m512i list) outcome)" "rows_hold r (pm r - 1) ?tab N s (rotated_sum ?s (pass_term D E G Q) len)"
    using run_main_loop_holds [OF P r g(1,2) plain len(2)] by blast
  show ?thesis
  proof (cases "requires_conj (db_index_group db)")
    case False
    then show ?thesis
      using s(1) unpermute_rows [OF ok g(1) s(2), where 'e = 'e] by (auto simp: answer_component_def Let_def len(1) g(3))
  next
    case True
    obtain t where t: "run_main_loop component r (db_rns_base db) N len ?tab qry_b' gk_b (db_inner_prod_conj_gk db) (db_transformed_entries_conj db) =
        (Ok t :: ('e, m512i list) outcome)" "rows_hold r (pm r - 1) ?tab N t (rotated_sum ?s (pass_term D' E' G Q') len)"
      using run_main_loop_holds [OF P r g(1,2) conj [OF True] len(2)] by blast
    show ?thesis
      using True s(1) t(1) unpermute_rows [OF ok g(1) add_rows [OF ok galois_row_maps [OF g(1)] s(2) t(2)], where 'e = 'e]
      by (auto simp: answer_component_def Let_def len(1) g(3))
  qed
qed

section \<open>The offline phase on a database\<close>

text \<open>
  \<open>loaded\<close>: the memory has the sizes \<open>create\<close> gives it and the entries of both halves are \<open>E\<close> and \<open>E'\<close>,
  by pass, slot and lane, modulo both primes.
\<close>

definition entries_held ::
    "'z special_zn \<times> 'z special_zn \<Rightarrow> nat \<Rightarrow> nat \<Rightarrow> compressed_rns_el \<Rightarrow> (nat \<Rightarrow> nat \<Rightarrow> nat \<Rightarrow> int) \<times> (nat \<Rightarrow> nat \<Rightarrow> nat \<Rightarrow> int) \<Rightarrow> bool" where
  "entries_held rns N len te E \<longleftrightarrow> length (fst te) = N * len \<and> length (snd te) = N * len \<and>
     (\<forall>i < len. \<forall>j < N. held (fst rns) (fst te ! (i * N + j)) (fst E i j) \<and> held (snd rns) (snd te ! (i * N + j)) (snd E i j))"

definition sized :: "nat \<Rightarrow> compressed_rns_el list \<Rightarrow> bool" where
  "sized n mem \<longleftrightarrow> length mem = 2 \<and> (\<forall>k < 2. length (fst (mem ! k)) = n \<and> length (snd (mem ! k)) = n)"

definition loaded where
  "loaded N db E E' \<longleftrightarrow> (let len = loop_len (db_index_group db) in
     entries_held (db_rns_base db) N len (db_transformed_entries db) E \<and> sized (N * len) (db_inner_prod_gk db) \<and>
     (requires_conj (db_index_group db) \<longrightarrow> entries_held (db_rns_base db) N len (db_transformed_entries_conj db) E' \<and>
        sized (N * len) (db_inner_prod_conj_gk db)))"

lemma run_preprocess_holds:
  assumes db: "database_ok N ys inv_g db" and gk: "\<And>k. k < 2 \<Longrightarrow> rns_vec (db_rns_base db) N (gk_a ! k) (fst A k, snd A k)" "length gk_a = 2"
    and q: "rns_vec (db_rns_base db) N qry Q" and te: "entries_held (db_rns_base db) N (loop_len (db_index_group db)) te E"
    and mem: "sized (N * loop_len (db_index_group db)) mem"
  shows "\<exists>a mem' dig. run_preprocess_loop inv_g qry gk_a te mem db = (Ok (a, mem') :: ('e, rns_el \<times> compressed_rns_el list) outcome) \<and>
    prepared (db_rns_base db) N ys (loop_len (db_index_group db)) A Q E (loop_len (db_index_group db)) dig (a, mem')"
proof -
  note d = database_okD [OF db]
  let ?len = "loop_len (db_index_group db)" and ?rns = "db_rns_base db"
  have m: "length mem = 2" "\<And>k. k < 2 \<Longrightarrow> length (fst (mem ! k)) = N * ?len \<and> length (snd (mem ! k)) = N * ?len"
    using mem by (simp_all add: sized_def)
  have h: "held (fst ?rns) (fst te ! (i * N + j)) (fst E i j) \<and> held (snd ?rns) (snd te ! (i * N + j)) (snd E i j)" if "i < ?len" "j < N" for i j
    using te that by (simp add: entries_held_def)
  have sizes: "list_all (\<lambda>l. length (fst l) = N * ?len \<and> length (snd l) = N * ?len) mem" "length (fst te) = N * ?len" "length (snd te) = N * ?len"
    using m te by (auto simp: list_all_length entries_held_def)
  note start = prepared_start [OF d(5) m, where A = A and Q = Q and E = E and dig = "\<lambda>_ _ _ _. 0"]
  obtain st' dig where "preprocess_loop ?rns (db_component_rings db) (db_zeta db) (db_len_N_ntts db) FIXED_Q N inv_g qry gk_a te 0 ?len
      ((replicate N (from_int (fst ?rns) 0), replicate N (from_int (snd ?rns) 0)), mem) = (Ok st' :: ('e, rns_el \<times> compressed_rns_el list) outcome)"
    "prepared ?rns N ys ?len A Q E (0 + ?len) dig st'"
    using preprocess_loop_prepared [OF d(5,4) gk q h start, where k = ?len and 'e = 'e] by auto
  then show ?thesis
    using sizes by (cases st') (auto simp: run_preprocess_loop_def Let_def d(1,7))
qed

lemma add_rns_vec:
  assumes "special_ok (fst rns)" "special_ok (snd rns)" "rns_vec rns N x V" "rns_vec rns N y W"
  shows "rns_vec rns N (add_rns rns x y) (\<lambda>j l. fst V j l + fst W j l, \<lambda>j l. snd V j l + snd W j l)"
  using assms add_assign_represents [OF assms(1)] add_assign_represents [OF assms(2)]
  by (simp add: rns_vec_def vec_def add_rns_def)

text \<open>The public parts, expanded from the seeds of the database, the same in every lane.\<close>

definition public_slots :: "'g rng_ops \<Rightarrow> ('z, 'p, 'r) pir_database \<Rightarrow> int \<times> int \<Rightarrow> seed \<Rightarrow> (nat \<Rightarrow> nat \<Rightarrow> int) \<times> (nat \<Rightarrow> nat \<Rightarrow> int)" where
  "public_slots rng db ys seed =
     lane_slots (db_ciphertext_ring db) ys (replicate 8 (expand rng (db_ciphertext_ring db) seed))"

definition public_keys where
  "public_keys rng db ys =
     (\<lambda>k. fst (public_slots rng db ys (get_gk_seeds (db_use_seeds db) ! k)), \<lambda>k. snd (public_slots rng db ys (get_gk_seeds (db_use_seeds db) ! k)))"

definition public_query where
  "public_query rng db ys k = public_slots rng db ys (get_qry_seeds (db_use_seeds db) ! k)"

lemma preprocess_db_holds:
  assumes db: "database_ok N ys inv_g (db :: ('z, 'p, 'r) pir_database)" and ld: "loaded N db E E'"
  shows "\<exists>a s s' mem mem' dig dig'. preprocess_db rng inv_g db = (Ok (db\<lparr>db_reply_a := a, db_inner_prod_gk := mem, db_inner_prod_conj_gk := mem'\<rparr>) ::
      ('e, ('z, 'p, 'r) pir_database) outcome) \<and>
    (let rns = db_rns_base db; len = loop_len (db_index_group db); A = public_keys rng db ys; Q = public_query rng db ys in
     prepared rns N ys len A (Q 0) E len dig (s, mem) \<and>
     (if requires_conj (db_index_group db) then prepared rns N ys len A (Q 1) E' len dig' (s', mem') \<and> a = add_rns rns s s' else a = s))"
proof -
  let ?rns = "db_rns_base db" and ?len = "loop_len (db_index_group db)" and ?A = "public_keys rng db ys" and ?Q = "public_query rng db ys"
  let ?C = "db_ciphertext_ring db"
  have els: "length (replicate SIMD_COUNT (x :: 'r)) = 8" "replicate SIMD_COUNT x = replicate 8 x" for x by (simp_all add: pir_consts)
  obtain g0 where g0: "to_simd_element db (replicate SIMD_COUNT (expand rng ?C (get_gk_seeds (db_use_seeds db) ! 0))) = (Ok g0 :: ('e, rns_el) outcome)"
    "rns_vec ?rns N g0 (fst ?A 0, snd ?A 0)"
    using to_simd_element_vec [OF db els(1), where 'e = 'e] unfolding els(2) public_keys_def public_slots_def by force
  obtain g1 where g1: "to_simd_element db (replicate SIMD_COUNT (expand rng ?C (get_gk_seeds (db_use_seeds db) ! 1))) = (Ok g1 :: ('e, rns_el) outcome)"
    "rns_vec ?rns N g1 (fst ?A 1, snd ?A 1)"
    using to_simd_element_vec [OF db els(1), where 'e = 'e] unfolding els(2) public_keys_def public_slots_def by force
  have q: "\<exists>q. to_simd_element db (replicate SIMD_COUNT (expand rng ?C (get_qry_seeds (db_use_seeds db) ! k))) = (Ok q :: ('e, rns_el) outcome) \<and>
      rns_vec ?rns N q (?Q k)" for k
    using to_simd_element_vec [OF db els(1), where 'e = 'e] unfolding els(2) public_query_def public_slots_def .
  have gk: "k < 2 \<Longrightarrow> rns_vec ?rns N ([g0, g1] ! k) (fst ?A k, snd ?A k)" "length [g0, g1] = 2" for k
    using g0(2) g1(2) by (auto simp: less_2_cases_iff)
  have keys: "try_map (\<lambda>i. to_simd_element db (replicate SIMD_COUNT (expand rng ?C (get_gk_seeds (db_use_seeds db) ! i)))) [0..<GK_DIGITS] =
      (Ok [g0, g1] :: ('e, rns_el list) outcome)"
    using g0(1) g1(1) by (simp add: GK_DIGITS_def numeral_2_eq_2)
  obtain q0 where q0: "to_simd_element db (replicate SIMD_COUNT (expand rng ?C (get_qry_seeds (db_use_seeds db) ! 0))) = (Ok q0 :: ('e, rns_el) outcome)"
    "rns_vec ?rns N q0 (?Q 0)" using q by blast
  have l: "entries_held ?rns N ?len (db_transformed_entries db) E" "sized (N * ?len) (db_inner_prod_gk db)"
    "requires_conj (db_index_group db) \<Longrightarrow> entries_held ?rns N ?len (db_transformed_entries_conj db) E'"
    "requires_conj (db_index_group db) \<Longrightarrow> sized (N * ?len) (db_inner_prod_conj_gk db)"
    using ld by (simp_all add: loaded_def Let_def)
  obtain s mem dig where s: "run_preprocess_loop inv_g q0 [g0, g1] (db_transformed_entries db) (db_inner_prod_gk db) db =
      (Ok (s, mem) :: ('e, rns_el \<times> compressed_rns_el list) outcome)" "prepared ?rns N ys ?len ?A (?Q 0) E ?len dig (s, mem)"
    using run_preprocess_holds [OF db gk q0(2) l(1,2)] by blast
  show ?thesis
  proof (cases "requires_conj (db_index_group db)")
    case False
    then have "preprocess_db rng inv_g db = (Ok (db\<lparr>db_reply_a := s, db_inner_prod_gk := mem, db_inner_prod_conj_gk := db_inner_prod_conj_gk db\<rparr>) ::
        ('e, ('z, 'p, 'r) pir_database) outcome)"
      by (simp add: preprocess_db_def Let_def keys q0(1) s(1))
    then show ?thesis
      using False s(2) by (intro exI [of _ s] exI [of _ mem] exI [of _ "db_inner_prod_conj_gk db"] exI [of _ dig] conjI) (simp_all add: Let_def)
  next
    case True
    obtain q1 where q1: "to_simd_element db (replicate SIMD_COUNT (expand rng ?C (get_qry_seeds (db_use_seeds db) ! 1))) = (Ok q1 :: ('e, rns_el) outcome)"
      "rns_vec ?rns N q1 (?Q 1)" using q by blast
    obtain s' mem' dig' where s': "run_preprocess_loop inv_g q1 [g0, g1] (db_transformed_entries_conj db) (db_inner_prod_conj_gk db) db =
        (Ok (s', mem') :: ('e, rns_el \<times> compressed_rns_el list) outcome)" "prepared ?rns N ys ?len ?A (?Q 1) E' ?len dig' (s', mem')"
      using run_preprocess_holds [OF db gk q1(2) l(3,4) [OF True]] by blast
    have "preprocess_db rng inv_g db = (Ok (db\<lparr>db_reply_a := add_rns ?rns s s', db_inner_prod_gk := mem, db_inner_prod_conj_gk := mem'\<rparr>) ::
        ('e, ('z, 'p, 'r) pir_database) outcome)"
      using True q1(1) by (simp add: preprocess_db_def Let_def keys q0(1) s(1) s'(1))
    then show ?thesis
      using True s(2) s'(2)
      by (intro exI [of _ "add_rns ?rns s s'"] exI [of _ s] exI [of _ s'] exI [of _ mem] exI [of _ mem'] exI [of _ dig] exI [of _ dig'] conjI)
        (simp_all add: Let_def)
  qed
qed

section \<open>The reply\<close>

lemma prepared_digits:
  assumes "prepared rns N ys len A Q E len dig st" "i < len" "l < 8"
  shows "j < N \<Longrightarrow> (slot_value (fst ys) N (dig i 0) j l + 2 ^ LOG2_B * slot_value (fst ys) N (dig i 1) j l) mod Q_FACTOR1 =
      reply_value (fst ys) N dig (fst A) (fst Q) (fst E) i (galois_lookup N gen_H j) l mod Q_FACTOR1"
    "j < N \<Longrightarrow> (slot_value (snd ys) N (dig i 0) j l + 2 ^ LOG2_B * slot_value (snd ys) N (dig i 1) j l) mod Q_FACTOR2 =
      reply_value (snd ys) N dig (snd A) (snd Q) (snd E) i (galois_lookup N gen_H j) l mod Q_FACTOR2"
    "n < N \<Longrightarrow> \<bar>dig i 0 n l\<bar> \<le> 2 ^ 25 \<and> \<bar>dig i 1 n l\<bar> \<le> 2 ^ 24"
  using assms by (simp_all add: prepared_def recomposes_def rotated_def reply_pair_def)

definition small_digits :: "nat \<Rightarrow> nat \<Rightarrow> (nat \<Rightarrow> nat \<Rightarrow> nat \<Rightarrow> nat \<Rightarrow> int) \<Rightarrow> bool" where
  "small_digits N len dig \<longleftrightarrow> (\<forall>i < len. \<forall>n < N. \<forall>l < 8. \<bar>dig i 0 n l\<bar> \<le> 2 ^ 25 \<and> \<bar>dig i 1 n l\<bar> \<le> 2 ^ 24)"

lemma prepared_small: "prepared rns N ys len A Q E len dig st \<Longrightarrow> small_digits N len dig"
  unfolding small_digits_def using prepared_digits(3) by blast

lemma prepared_inputs:
  assumes p: "prepared rns N ys len A Q E len dig (a, mem)" and te: "entries_held rns N len te E"
    and q: "rns_held rns N qry QB" and gk: "\<And>k. k < 2 \<Longrightarrow> rns_held rns N (gk_b ! k) (G k)" "length gk_b = 2"
  shows "inputs_hold (fst rns) \<lparr>in_qry_b = fst qry, in_gk_b = map fst gk_b, in_inner_prod_gk = map fst mem, in_transformed_entries = fst te\<rparr>
      N len (dec_value (fst ys) N dig) (fst E) (\<lambda>k. fst (G k)) (fst QB)"
    "inputs_hold (snd rns) \<lparr>in_qry_b = snd qry, in_gk_b = map snd gk_b, in_inner_prod_gk = map snd mem, in_transformed_entries = snd te\<rparr>
      N len (dec_value (snd ys) N dig) (snd E) (\<lambda>k. snd (G k)) (snd QB)"
proof -
  have m: "length mem = 2" "\<And>k. k < 2 \<Longrightarrow> length (fst (mem ! k)) = N * len \<and> length (snd (mem ! k)) = N * len"
    "\<And>i. i < len \<Longrightarrow> stored rns N ys dig mem i"
    using p by (simp_all add: prepared_def)
  note defs = rns_held_def entries_held_def stored_def
  show "inputs_hold (fst rns) \<lparr>in_qry_b = fst qry, in_gk_b = map fst gk_b, in_inner_prod_gk = map fst mem, in_transformed_entries = fst te\<rparr>
      N len (dec_value (fst ys) N dig) (fst E) (\<lambda>k. fst (G k)) (fst QB)"
    using m te q gk by (intro inputs_holdI) (simp_all add: defs)
  show "inputs_hold (snd rns) \<lparr>in_qry_b = snd qry, in_gk_b = map snd gk_b, in_inner_prod_gk = map snd mem, in_transformed_entries = snd te\<rparr>
      N len (dec_value (snd ys) N dig) (snd E) (\<lambda>k. snd (G k)) (snd QB)"
    using m te q gk by (intro inputs_holdI) (simp_all add: defs)
qed

text \<open>What the client sends, in the slots of the lanes.\<close>

definition received :: "('z, 'p, 'r) pir_database \<Rightarrow> int \<times> int \<Rightarrow> ('r query_ref \<Rightarrow> 'r) \<Rightarrow> 'r query_ref list \<Rightarrow> (nat \<Rightarrow> nat \<Rightarrow> int) \<times> (nat \<Rightarrow> nat \<Rightarrow> int)" where
  "received db ys part queries = lane_slots (db_ciphertext_ring db) ys (map part queries)"

definition received_keys where
  "received_keys db ys queries = (\<lambda>k. fst (received db ys (\<lambda>q. qr_gk_b q ! k) queries), \<lambda>k. snd (received db ys (\<lambda>q. qr_gk_b q ! k) queries))"

text \<open>The sum of both halves over one prime.\<close>

definition answer_sum ::
    "nat \<Rightarrow> nat \<Rightarrow> bool \<Rightarrow> (nat \<Rightarrow> nat \<Rightarrow> nat \<Rightarrow> int) \<Rightarrow> (nat \<Rightarrow> nat \<Rightarrow> nat \<Rightarrow> int) \<Rightarrow> nat \<Rightarrow> nat \<Rightarrow> int" where
  "answer_sum N len both T T' j l = rotated_sum (galois_lookup N gen_H) T len j l +
     (if both then rotated_sum (galois_lookup N gen_H) T' len j l else 0)"

lemma combine_mod:
  fixes p :: int
  assumes "b mod p = (c + c') mod p" "a mod p = (r + r') mod p" "(c + r * s) mod p = t mod p" "(c' + r' * s) mod p = t' mod p"
  shows "(b + a * s) mod p = (t + t') mod p"
proof -
  have "(b + a * s) mod p = ((c + c') + (r + r') * s) mod p"
    by (rule mod_add_cong [OF assms(1) mod_mult_cong [OF assms(2) refl]])
  also have "(c + c') + (r + r') * s = (c + r * s) + (c' + r' * s)" by (simp add: algebra_simps)
  also have "\<dots> mod p = (t + t') mod p" by (rule mod_add_cong [OF assms(3,4)])
  finally show ?thesis .
qed

lemma database_ok_update:
  "database_ok N ys inv_g (db\<lparr>db_reply_a := a, db_inner_prod_gk := mem, db_inner_prod_conj_gk := mem'\<rparr>) = database_ok N ys inv_g db"
  by (simp add: database_ok_def)

lemma get_a_slots:
  assumes db: "database_ok N ys inv_g db" and a: "rns_vec (db_rns_base db) N (db_reply_a db) V"
  shows "\<exists>xs. get_a db = (Ok xs :: ('e, 'r list) outcome) \<and> length xs = 8 \<and>
    (\<forall>j < N. \<forall>l < 8. fst (lane_slots (db_ciphertext_ring db) ys xs) j l mod Q_FACTOR1 = fst V j l mod Q_FACTOR1 \<and>
       snd (lane_slots (db_ciphertext_ring db) ys xs) j l mod Q_FACTOR2 = snd V j l mod Q_FACTOR2)"
proof -
  have l: "length (fst (db_reply_a db)) = N" "length (snd (db_reply_a db)) = N"
    using a by (simp_all add: rns_vec_def vec_def)
  then have "get_a db = (from_simd_element db (db_reply_a db) :: ('e, 'r list) outcome)"
    using database_okD(1) [OF db] by (simp add: get_a_def)
  then show ?thesis using from_simd_element_slots [OF db a, where 'e = 'e] by simp
qed

lemma perform_slots:
  assumes db: "database_ok N ys inv_g (db :: ('z, 'p, 'r) pir_database)" and queries: "length queries = 8"
      "requires_conj (db_index_group db) \<Longrightarrow> \<forall>q \<in> set queries. qr_qry_conj_b q \<noteq> None"
    and len: "loop_len (db_index_group db) = len" "even len"
    and plain: "prepared (db_rns_base db) N ys len A Q E len dig (s, db_inner_prod_gk db)" "entries_held (db_rns_base db) N len (db_transformed_entries db) E"
    and conjd: "requires_conj (db_index_group db) \<Longrightarrow> prepared (db_rns_base db) N ys len A Q' E' len dig' (s', db_inner_prod_conj_gk db)"
      "requires_conj (db_index_group db) \<Longrightarrow> entries_held (db_rns_base db) N len (db_transformed_entries_conj db) E'"
  defines "G \<equiv> received_keys db ys queries" and "QB \<equiv> received db ys qr_qry_b queries" and "QB' \<equiv> received db ys (the \<circ> qr_qry_conj_b) queries"
  shows "\<exists>xs. perform_pir_split inv_g queries db = (Ok xs :: ('e, 'r list) outcome) \<and> length xs = 8 \<and>
    (\<forall>j < N. \<forall>l < 8. fst (lane_slots (db_ciphertext_ring db) ys xs) j l mod Q_FACTOR1 =
        answer_sum N len (requires_conj (db_index_group db)) (pass_term (dec_value (fst ys) N dig) (fst E) (fst G) (fst QB))
          (pass_term (dec_value (fst ys) N dig') (fst E') (fst G) (fst QB')) j l mod Q_FACTOR1 \<and>
       snd (lane_slots (db_ciphertext_ring db) ys xs) j l mod Q_FACTOR2 =
        answer_sum N len (requires_conj (db_index_group db)) (pass_term (dec_value (snd ys) N dig) (snd E) (snd G) (snd QB))
          (pass_term (dec_value (snd ys) N dig') (snd E') (snd G) (snd QB')) j l mod Q_FACTOR2)"
proof -
  note d = database_okD [OF db] and o = rns_okD [OF database_okD(5) [OF db]]
  let ?rns = "db_rns_base db" and ?both = "requires_conj (db_index_group db)"
  have "\<exists>g. to_compressed_simd_element db (map (\<lambda>q. qr_gk_b q ! k) queries) = (Ok g :: ('e, compressed_rns_el) outcome) \<and>
      rns_held ?rns N g (fst G k, snd G k)" for k
    using to_compressed_held [OF db, of "map (\<lambda>q. qr_gk_b q ! k) queries", where 'e = 'e] queries(1)
    by (simp add: G_def received_keys_def received_def)
  then obtain g0 g1 where g: "to_compressed_simd_element db (map (\<lambda>q. qr_gk_b q ! 0) queries) = (Ok g0 :: ('e, compressed_rns_el) outcome)"
    "to_compressed_simd_element db (map (\<lambda>q. qr_gk_b q ! 1) queries) = (Ok g1 :: ('e, compressed_rns_el) outcome)"
    "rns_held ?rns N g0 (fst G 0, snd G 0)" "rns_held ?rns N g1 (fst G 1, snd G 1)" by blast
  have gk: "k < 2 \<Longrightarrow> rns_held ?rns N ([g0, g1] ! k) (fst G k, snd G k)" "length [g0, g1] = 2" for k
    using g(3,4) by (auto simp: less_2_cases_iff)
  have keys: "try_map (\<lambda>i. to_compressed_simd_element db (map (\<lambda>q. qr_gk_b q ! i) queries)) [0..<GK_DIGITS] =
      (Ok [g0, g1] :: ('e, compressed_rns_el list) outcome)"
    using g(1,2) by (simp add: GK_DIGITS_def numeral_2_eq_2)
  obtain qb where qb: "to_compressed_simd_element db (map qr_qry_b queries) = (Ok qb :: ('e, compressed_rns_el) outcome)" "rns_held ?rns N qb QB"
    using to_compressed_held [OF db, of "map qr_qry_b queries", where 'e = 'e] queries(1) by (auto simp: QB_def received_def)
  have "\<exists>qc. (if ?both then bind_outcome (try_map (\<lambda>q. unwrap (qr_qry_conj_b q)) queries) (to_compressed_simd_element db) else Ok ([], [])) =
      (Ok qc :: ('e, compressed_rns_el) outcome) \<and> (?both \<longrightarrow> rns_held ?rns N qc QB')"
  proof (cases ?both)
    case True
    have "try_map (\<lambda>q. unwrap (qr_qry_conj_b q)) queries = (Ok (map (the \<circ> qr_qry_conj_b) queries) :: ('e, 'r list) outcome)"
      using queries(2) [OF True] by (intro try_map_Ok) (auto simp: unwrap_def)
    then show ?thesis
      using True to_compressed_held [OF db, of "map (the \<circ> qr_qry_conj_b) queries", where 'e = 'e] queries(1)
      by (simp add: QB'_def received_def)
  qed simp
  then obtain qc where qc: "(if ?both then bind_outcome (try_map (\<lambda>q. unwrap (qr_qry_conj_b q)) queries) (to_compressed_simd_element db) else Ok ([], [])) =
      (Ok qc :: ('e, compressed_rns_el) outcome)" "?both \<longrightarrow> rns_held ?rns N qc QB'" by blast
  have inp: "inputs_hold (fst ?rns) \<lparr>in_qry_b = fst qb, in_gk_b = map fst [g0, g1], in_inner_prod_gk = map fst (db_inner_prod_gk db),
      in_transformed_entries = fst (db_transformed_entries db)\<rparr> N len (dec_value (fst ys) N dig) (fst E) (fst G) (fst QB)"
    "inputs_hold (snd ?rns) \<lparr>in_qry_b = snd qb, in_gk_b = map snd [g0, g1], in_inner_prod_gk = map snd (db_inner_prod_gk db),
      in_transformed_entries = snd (db_transformed_entries db)\<rparr> N len (dec_value (snd ys) N dig) (snd E) (snd G) (snd QB)"
    using prepared_inputs [OF plain qb(2) gk] by simp_all
  have inp': "inputs_hold (fst ?rns) \<lparr>in_qry_b = fst qc, in_gk_b = map fst [g0, g1], in_inner_prod_gk = map fst (db_inner_prod_conj_gk db),
      in_transformed_entries = fst (db_transformed_entries_conj db)\<rparr> N len (dec_value (fst ys) N dig') (fst E') (fst G) (fst QB')"
    "inputs_hold (snd ?rns) \<lparr>in_qry_b = snd qc, in_gk_b = map snd [g0, g1], in_inner_prod_gk = map snd (db_inner_prod_conj_gk db),
      in_transformed_entries = snd (db_transformed_entries_conj db)\<rparr> N len (dec_value (snd ys) N dig') (snd E') (snd G) (snd QB')" if ?both
    using prepared_inputs [OF conjd(1) [OF that] conjd(2) [OF that] _ gk, of qc QB'] qc(2) that by simp_all
  obtain b0 where b0: "answer_component fst (fst ?rns) db (galois_lookup_table N inv_g) qb qc [g0, g1] = (Ok b0 :: ('e, m512i list) outcome)"
    "vec (fst ?rns) N b0 (answer_sum N len ?both (pass_term (dec_value (fst ys) N dig) (fst E) (fst G) (fst QB))
        (pass_term (dec_value (fst ys) N dig') (fst E') (fst G) (fst QB')))"
    using answer_component_holds [OF o(1) _ d(4,3,1) len inp(1) inp'(1), where 'e = 'e] unfolding answer_sum_def [abs_def] by blast
  obtain b1 where b1: "answer_component snd (snd ?rns) db (galois_lookup_table N inv_g) qb qc [g0, g1] = (Ok b1 :: ('e, m512i list) outcome)"
    "vec (snd ?rns) N b1 (answer_sum N len ?both (pass_term (dec_value (snd ys) N dig) (snd E) (snd G) (snd QB))
        (pass_term (dec_value (snd ys) N dig') (snd E') (snd G) (snd QB')))"
    using answer_component_holds [OF o(1) _ d(4,3,1) len inp(2) inp'(2), where 'e = 'e] unfolding answer_sum_def [abs_def] by blast
  have "perform_pir_split inv_g queries db = (from_simd_element db (b0, b1) :: ('e, 'r list) outcome)"
    unfolding perform_pir_split_def Let_def d(1) using qb(1) qc(1) keys b0(1) b1(1) by (simp only: bind_outcome.simps)
  then show ?thesis
    using from_simd_element_slots [OF db, of "(b0, b1)" "(_, _)", where 'e = 'e] b0(2) b1(2) unfolding rns_vec_def fst_conv snd_conv by metis
qed

text \<open>\<open>answer_decrypted\<close>: the ideal value of a slot_value, over one prime: entries times decrypted queries, and key noise.\<close>

definition answer_decrypted where
  "answer_decrypted y N len both dig dig' E E' QA QB QA' QB' S e =
     answer_sum N len both (answer_term (dec_value y N dig) E QA QB S e) (answer_term (dec_value y N dig') E' QA' QB' S e)"

lemma phases_decrypt:
  assumes s: "\<And>j. j < N \<Longrightarrow> galois_lookup N gen_H j < N" and keys: "key_relation p N G A S e" and j: "j < N" "l < 8"
    and dec: "\<And>i j l. i < len \<Longrightarrow> j < N \<Longrightarrow> l < 8 \<Longrightarrow>
      (slot_value y N (dig i 0) j l + 2 ^ LOG2_B * slot_value y N (dig i 1) j l) mod p = reply_value y N dig A QA E i (galois_lookup N gen_H j) l mod p"
    and dec': "\<And>i j l. both \<Longrightarrow> i < len \<Longrightarrow> j < N \<Longrightarrow> l < 8 \<Longrightarrow>
      (slot_value y N (dig' i 0) j l + 2 ^ LOG2_B * slot_value y N (dig' i 1) j l) mod p = reply_value y N dig' A QA' E' i (galois_lookup N gen_H j) l mod p"
    and b: "b mod p = answer_sum N len both (pass_term (dec_value y N dig) E G QB) (pass_term (dec_value y N dig') E' G QB') j l mod p"
    and a: "a mod p = (reply_value y N dig A QA E len j l + (if both then reply_value y N dig' A QA' E' len j l else 0)) mod p"
  shows "(b + a * S j l) mod p = answer_decrypted y N len both dig dig' E E' QA QB QA' QB' S e j l mod p"
  unfolding answer_decrypted_def answer_sum_def
proof (rule combine_mod [OF b [unfolded answer_sum_def] a])
  show "(rotated_sum (galois_lookup N gen_H) (pass_term (dec_value y N dig) E G QB) len j l + reply_value y N dig A QA E len j l * S j l) mod p =
      rotated_sum (galois_lookup N gen_H) (answer_term (dec_value y N dig) E QA QB S e) len j l mod p"
    by (rule passes_decrypt [OF s keys dec order_refl j])
  show "((if both then rotated_sum (galois_lookup N gen_H) (pass_term (dec_value y N dig') E' G QB') len j l else 0) +
      (if both then reply_value y N dig' A QA' E' len j l else 0) * S j l) mod p =
    (if both then rotated_sum (galois_lookup N gen_H) (answer_term (dec_value y N dig') E' QA' QB' S e) len j l else 0) mod p"
  proof (cases both)
    case True
    then show ?thesis using passes_decrypt [OF s keys _ order_refl j] dec' by simp
  qed simp
qed

lemma evaluation_of_db:
  fixes db :: "('z, 'p, 'r) pir_database"
  assumes db: "database_ok N ys inv_g db" and ld: "loaded N db E E'" and even: "even (loop_len (db_index_group db))" and queries: "length queries = 8"
      "requires_conj (db_index_group db) \<Longrightarrow> \<forall>q \<in> set queries. qr_qry_conj_b q \<noteq> None"
    and keys: "key_relation Q_FACTOR1 N (fst (received_keys db ys queries)) (fst (public_keys rng db ys)) (fst S) (fst e)"
      "key_relation Q_FACTOR2 N (snd (received_keys db ys queries)) (snd (public_keys rng db ys)) (snd S) (snd e)"
  defines "C \<equiv> db_ciphertext_ring db" and "len \<equiv> loop_len (db_index_group db)" and "both \<equiv> requires_conj (db_index_group db)"
    and "Q \<equiv> public_query rng db ys" and "QB \<equiv> received db ys qr_qry_b queries" and "QB' \<equiv> received db ys (the \<circ> qr_qry_conj_b) queries"
  shows "\<exists>db' a b dig dig'. preprocess_db rng inv_g db = (Ok db' :: ('e, ('z, 'p, 'r) pir_database) outcome) \<and>
    get_a db' = (Ok a :: ('e, 'r list) outcome) \<and> perform_pir_split inv_g queries db' = (Ok b :: ('e, 'r list) outcome) \<and>
    length a = 8 \<and> length b = 8 \<and> small_digits N len dig \<and> small_digits N len dig' \<and>
    (\<forall>j < N. \<forall>l < 8.
      (fst (lane_slots C ys b) j l + fst (lane_slots C ys a) j l * fst S j l) mod Q_FACTOR1 =
        answer_decrypted (fst ys) N len both dig dig' (fst E) (fst E') (fst (Q 0)) (fst QB) (fst (Q 1)) (fst QB') (fst S) (fst e) j l mod Q_FACTOR1 \<and>
      (snd (lane_slots C ys b) j l + snd (lane_slots C ys a) j l * snd S j l) mod Q_FACTOR2 =
        answer_decrypted (snd ys) N len both dig dig' (snd E) (snd E') (snd (Q 0)) (snd QB) (snd (Q 1)) (snd QB') (snd S) (snd e) j l mod Q_FACTOR2)"
proof -
  note d = database_okD [OF db] and o = rns_okD [OF database_okD(5) [OF db]]
  let ?rns = "db_rns_base db" and ?A = "public_keys rng db ys"
  have rows: "galois_lookup N gen_H j < N" if "j < N" for j
    using galois_row_maps [OF d(4)] that by (simp add: row_maps_def)
  obtain a0 s s' mem mem' dig dig0 where pre: "preprocess_db rng inv_g db =
      (Ok (db\<lparr>db_reply_a := a0, db_inner_prod_gk := mem, db_inner_prod_conj_gk := mem'\<rparr>) :: ('e, ('z, 'p, 'r) pir_database) outcome)"
    "prepared ?rns N ys len ?A (Q 0) E len dig (s, mem)"
    "if both then prepared ?rns N ys len ?A (Q 1) E' len dig0 (s', mem') \<and> a0 = add_rns ?rns s s' else a0 = s"
    using preprocess_db_holds [OF db ld, of rng, where 'e = 'e] unfolding Let_def len_def both_def Q_def by blast
  define dig' where "dig' = (if both then dig0 else dig)"
  have second: "both \<Longrightarrow> prepared ?rns N ys len ?A (Q 1) E' len dig' (s', mem')" using pre(3) by (simp add: dig'_def)
  let ?db = "db\<lparr>db_reply_a := a0, db_inner_prod_gk := mem, db_inner_prod_conj_gk := mem'\<rparr>"
  have db': "database_ok N ys inv_g ?db" using db by (simp only: database_ok_update)
  let ?va = "(\<lambda>j l. fst (reply_pair ys N dig ?A (Q 0) E len) j l + (if both then fst (reply_pair ys N dig' ?A (Q 1) E' len) j l else 0),
    \<lambda>j l. snd (reply_pair ys N dig ?A (Q 0) E len) j l + (if both then snd (reply_pair ys N dig' ?A (Q 1) E' len) j l else 0))"
  have av: "rns_vec (db_rns_base ?db) N (db_reply_a ?db) ?va"
  proof (cases both)
    case True
    have "rns_vec ?rns N s (reply_pair ys N dig ?A (Q 0) E len)" "rns_vec ?rns N s' (reply_pair ys N dig' ?A (Q 1) E' len)"
      using pre(2) second [OF True] by (simp_all add: prepared_def)
    from add_rns_vec [OF o(4,5) this] show ?thesis using pre(3) True by simp
  next
    case False
    then show ?thesis using pre(2,3) by (simp add: prepared_def)
  qed
  obtain a where a: "get_a ?db = (Ok a :: ('e, 'r list) outcome)" "length a = 8" "\<forall>j < N. \<forall>l < 8.
      fst (lane_slots C ys a) j l mod Q_FACTOR1 = fst ?va j l mod Q_FACTOR1 \<and> snd (lane_slots C ys a) j l mod Q_FACTOR2 = snd ?va j l mod Q_FACTOR2"
    using get_a_slots [OF db' av, where 'e = 'e] by (auto simp: C_def)
  have l: "entries_held ?rns N len (db_transformed_entries db) E" "both \<Longrightarrow> entries_held ?rns N len (db_transformed_entries_conj db) E'"
    using ld by (simp_all add: loaded_def Let_def len_def both_def)
  have same: "received_keys ?db ys queries = received_keys db ys queries" "received ?db ys f queries = received db ys f queries" for f
    by (simp_all add: received_keys_def received_def)
  obtain b where b: "perform_pir_split inv_g queries ?db = (Ok b :: ('e, 'r list) outcome)" "length b = 8" "\<forall>j < N. \<forall>l < 8.
      fst (lane_slots C ys b) j l mod Q_FACTOR1 = answer_sum N len both
        (pass_term (dec_value (fst ys) N dig) (fst E) (fst (received_keys db ys queries)) (fst QB))
        (pass_term (dec_value (fst ys) N dig') (fst E') (fst (received_keys db ys queries)) (fst QB')) j l mod Q_FACTOR1 \<and>
      snd (lane_slots C ys b) j l mod Q_FACTOR2 = answer_sum N len both
        (pass_term (dec_value (snd ys) N dig) (snd E) (snd (received_keys db ys queries)) (snd QB))
        (pass_term (dec_value (snd ys) N dig') (snd E') (snd (received_keys db ys queries)) (snd QB')) j l mod Q_FACTOR2"
    using perform_slots [OF db' queries(1) _ _ _ _ _ , of len ?A "Q 0" E dig s "Q 1" E' dig' s', where 'e = 'e]
      queries(2) even pre(2) second l
    unfolding same by (auto simp: C_def len_def both_def QB_def QB'_def)
  have small: "small_digits N len dig" "small_digits N len dig'"
    using prepared_small [OF pre(2)] prepared_small [OF second] by (simp_all add: dig'_def split: if_splits)
  have "(fst (lane_slots C ys b) j l + fst (lane_slots C ys a) j l * fst S j l) mod Q_FACTOR1 =
      answer_decrypted (fst ys) N len both dig dig' (fst E) (fst E') (fst (Q 0)) (fst QB) (fst (Q 1)) (fst QB') (fst S) (fst e) j l mod Q_FACTOR1 \<and>
    (snd (lane_slots C ys b) j l + snd (lane_slots C ys a) j l * snd S j l) mod Q_FACTOR2 =
      answer_decrypted (snd ys) N len both dig dig' (snd E) (snd E') (snd (Q 0)) (snd QB) (snd (Q 1)) (snd QB') (snd S) (snd e) j l mod Q_FACTOR2"
    if j: "j < N" "l < 8" for j l
  proof
    show "(fst (lane_slots C ys b) j l + fst (lane_slots C ys a) j l * fst S j l) mod Q_FACTOR1 =
      answer_decrypted (fst ys) N len both dig dig' (fst E) (fst E') (fst (Q 0)) (fst QB) (fst (Q 1)) (fst QB') (fst S) (fst e) j l mod Q_FACTOR1"
      using prepared_digits(1) [OF pre(2)] prepared_digits(1) [OF second] b(3) a(3) j
      by (intro phases_decrypt [OF rows keys(1)]) (simp_all add: reply_pair_def)
    show "(snd (lane_slots C ys b) j l + snd (lane_slots C ys a) j l * snd S j l) mod Q_FACTOR2 =
      answer_decrypted (snd ys) N len both dig dig' (snd E) (snd E') (snd (Q 0)) (snd QB) (snd (Q 1)) (snd QB') (snd S) (snd e) j l mod Q_FACTOR2"
      using prepared_digits(2) [OF pre(2)] prepared_digits(2) [OF second] b(3) a(3) j
      by (intro phases_decrypt [OF rows keys(2)]) (simp_all add: reply_pair_def)
  qed
  then show ?thesis using pre(1) a(1,2) b(1,2) small by blast
qed

end
