(* ===== verification/Coset_Correct.thy ===== *)
theory Coset_Correct
  imports Turns Answer_Correct
begin

text \<open>
  \<open>coset_ntt\<close> of \<open>base_pir.rs\<close>: the values of a polynomial at the powers \<open>5 ^ k\<close> (and \<open>- 5 ^ k\<close> for the full group) of a
  root of unity, in the order of the passes.
\<close>

section \<open>Groups\<close>

text \<open>The two constructors of \<open>IndexGroup\<close>, for a rank that is a power of two.\<close>

definition group_ok :: "index_group \<Rightarrow> nat \<Rightarrow> nat \<Rightarrow> bool" where
  "group_ok g N m \<longleftrightarrow> N = 2 ^ Suc m \<and> ig_N g = N \<and> (ig_l g = N \<or> (\<exists>r \<le> m. ig_l g = 2 ^ r))"

lemma group_full:
  assumes "group_ok g N m" "requires_conj g"
  shows "group_order g = N" "query_base_power g = 1" "loop_len g = 2 ^ m" "2 * N div group_order g = 2" "N div 2 = 2 ^ m"
  using assms by (auto simp: group_ok_def group_order_def query_base_power_def loop_len_def requires_conj_def)

lemma group_sub:
  assumes "group_ok g N m" "\<not> requires_conj g"
  obtains r where "r \<le> m" "group_order g = 2 ^ r" "loop_len g = group_order g" "group_order g * query_base_power g = 2 ^ m"
    "2 * N div group_order g = 4 * query_base_power g"
proof -
  obtain r where r: "r \<le> m" "ig_l g = 2 ^ r" "ig_N g = 2 ^ Suc m" "N = 2 ^ Suc m"
    using assms by (auto simp: group_ok_def requires_conj_def)
  have "(2 :: nat) ^ r < 2 ^ Suc m" using r(1) by (intro power_strict_increasing) simp_all
  then have l: "loop_len g = 2 ^ r" using r by (simp add: loop_len_def)
  have split: "(2 :: nat) ^ m = 2 ^ r * 2 ^ (m - r)" using r(1) by (simp flip: power_add)
  then have u: "query_base_power g = 2 ^ (m - r)" using r by (simp add: query_base_power_def l)
  have "2 * N = 2 ^ r * (4 * 2 ^ (m - r))" using r(4) split by simp
  then have d: "2 * N div group_order g = 4 * query_base_power g"
    using r(2) by (simp add: u group_order_def)
  show ?thesis by (rule that [OF r(1) _ _ _ d]) (use r split l in \<open>simp_all add: group_order_def u\<close>)
qed

lemma group_step:
  assumes "group_ok g N m"
  shows "0 < group_order g" "0 < 2 * N div group_order g" "2 * N = group_order g * (2 * N div group_order g)" "0 < N"
    "query_base_power g dvd 2 * N div group_order g" "0 < query_base_power g"
proof -
  have "N = 2 ^ Suc m" using assms by (simp add: group_ok_def)
  then show "0 < N" by simp
  have "0 < group_order g \<and> 0 < 2 * N div group_order g \<and> 2 * N = group_order g * (2 * N div group_order g) \<and>
      query_base_power g dvd 2 * N div group_order g \<and> 0 < query_base_power g"
  proof (cases "requires_conj g")
    case True
    then show ?thesis using group_full [OF assms True] \<open>0 < N\<close> by simp
  next
    case False
    obtain r where r: "group_order g = 2 ^ r" "group_order g * query_base_power g = 2 ^ m" "2 * N div group_order g = 4 * query_base_power g"
      using group_sub [OF assms False] by blast
    have "0 < query_base_power g" using r(2) by (cases "query_base_power g") simp_all
    moreover have "2 * N = group_order g * (4 * query_base_power g)"
      using r(2) \<open>N = 2 ^ Suc m\<close> by (simp only: mult.left_commute [of _ 4]) simp
    moreover have "0 < group_order g" by (simp add: r(1))
    ultimately show ?thesis unfolding r(3) by (intro conjI) simp_all
  qed
  then show "0 < group_order g" "0 < 2 * N div group_order g" "2 * N = group_order g * (2 * N div group_order g)"
    "query_base_power g dvd 2 * N div group_order g" "0 < query_base_power g" by simp_all
qed

section \<open>The exponents\<close>

text \<open>The signs and exponents of the passes: \<open>5 ^ k\<close>, then \<open>- 5 ^ k\<close>, for a root \<open>y ^ zp\<close>.\<close>

definition conjugate :: "index_group \<Rightarrow> nat \<Rightarrow> int" where
  "conjugate g k = (if requires_conj g \<and> \<not> k < loop_len g then - (5 ^ (k - loop_len g)) else 5 ^ k)"

lemma neg_residue:
  assumes "0 < (m :: nat)"
  shows "int ((m - c mod m) mod m) = (- int c) mod int m"
proof -
  have "c mod m \<le> m" using assms by simp
  then have "int (m - c mod m) = int m - int c mod int m" by (simp add: of_nat_diff zmod_int)
  then have "int ((m - c mod m) mod m) = (int m - int c mod int m) mod int m" by (simp add: zmod_int)
  then show ?thesis by (simp add: mod_diff_right_eq mod_minus_eq)
qed

lemma coset_index_Ok:
  assumes "0 < d" "m div l = d" "x = (m - ge) mod m" "x mod d = coset"
  shows "coset_index m l coset ge = (Ok (x div d) :: ('e, nat) outcome)"
proof -
  have "x = d * (x div d) + coset" unfolding assms(4) [symmetric] by simp
  then have "int x - int coset = int d * int (x div d)" by (metis add_diff_cancel_right' of_nat_add of_nat_mult)
  moreover have "\<not> int d * int (x div d) < 0" by (simp add: not_less)
  ultimately show ?thesis using assms(1) unfolding coset_index_def assms(2) assms(3) [symmetric] Let_def by (simp add: nat_mult_distrib)
qed

lemma coprime_two_power: "odd (c :: int) \<Longrightarrow> coprime (2 ^ n) c"
  by (simp only: coprime_power_left_iff coprime_left_2_iff_odd simp_thms)

lemma conjugate_odd: "odd (conjugate g k)"
  by (simp add: conjugate_def)

lemma five_mod_4: "\<exists>q. (5 :: int) ^ k = 4 * q + 1"
proof (induction k)
  case (Suc k)
  then obtain q where "(5 :: int) ^ k = 4 * q + 1" by blast
  then show ?case by (intro exI [of _ "5 * q + 1"]) simp
qed (intro exI [of _ 0], simp)

lemma conjugate_mod_step:
  assumes g: "group_ok g N m" and zp: "int zp = int (query_base_power g) * c"
  shows "(int zp * conjugate g k) mod int (2 * N div group_order g) = int zp mod int (2 * N div group_order g)"
proof (cases "requires_conj g")
  case True
  then have "(int zp * conjugate g k) mod 2 = int zp mod 2" using conjugate_odd [of g k] by (auto simp: mod2_eq_if)
  then show ?thesis using group_full(4) [OF g True] by simp
next
  case False
  then have d: "2 * N div group_order g = 4 * query_base_power g" using group_sub [OF g False] by blast
  obtain q where q: "(5 :: int) ^ k = 4 * q + 1" using five_mod_4 by blast
  have "int zp * conjugate g k = int zp + c * q * int (4 * query_base_power g)"
    using False unfolding conjugate_def q zp by (simp add: algebra_simps)
  then show ?thesis unfolding d by (simp only: mod_mult_self1)
qed

lemma conjugate_distinct:
  assumes g: "group_ok g N m" and zp: "int zp = int (query_base_power g) * c" "odd c" and k: "k < group_order g" "k' < group_order g"
    and eq: "(int zp * conjugate g k) mod int (2 * N) = (int zp * conjugate g k') mod int (2 * N)"
  shows "k = k'"
proof -
  have N: "N = 2 ^ Suc m" using g by (simp add: group_ok_def)
  have dvd: "int (2 * N) dvd int zp * (conjugate g k - conjugate g k')" using eq by (simp add: mod_eq_dvd_iff algebra_simps)
  show ?thesis
  proof (cases "requires_conj g")
    case True
    note f = group_full [OF g True]
    have c: "int zp = c" using zp f by simp
    have "coprime (int (2 * N)) c" using coprime_two_power [OF zp(2), of "m + 2"] by (simp add: N)
    then have d: "int (2 * N) dvd conjugate g k - conjugate g k'" using dvd unfolding c by (simp add: coprime_dvd_mult_right_iff)
    have same: "a = b" if "int (2 * N) dvd 5 ^ a - 5 ^ b" "a < 2 ^ m" "b < 2 ^ m" for a b
      using that five_distinct [of "2 ^ m" m a b] by (simp add: N)
    have four: "\<not> int (2 * N) dvd 5 ^ a + 5 ^ b" for a b
    proof
      assume "int (2 * N) dvd 5 ^ a + 5 ^ b"
      moreover have "(4 :: int) dvd int (2 * N)" by (simp add: N)
      ultimately have "4 dvd (5 :: int) ^ a + 5 ^ b" by (rule dvd_trans [rotated])
      moreover obtain q q' where "(5 :: int) ^ a = 4 * q + 1" "(5 :: int) ^ b = 4 * q' + 1" using five_mod_4 by meson
      ultimately show False by presburger
    qed
    let ?M = "2 ^ m :: nat"
    have b: "k < ?M + ?M" "k' < ?M + ?M" using k f N by simp_all
    have cj: "conjugate g i = (if i < ?M then 5 ^ i else - (5 ^ (i - ?M)))" for i using True f(3) by (simp add: conjugate_def)
    consider "k < ?M" "k' < ?M" | "\<not> k < ?M" "\<not> k' < ?M" | "k < ?M" "\<not> k' < ?M" | "\<not> k < ?M" "k' < ?M" by blast
    then show ?thesis
    proof cases
      case 1
      then show ?thesis using d same [of k k'] by (simp add: cj)
    next
      case 2
      then have "int (2 * N) dvd 5 ^ (k' - ?M) - 5 ^ (k - ?M)" using d by (simp add: cj)
      moreover have "k' - ?M < ?M" "k - ?M < ?M" using 2 b by linarith+
      ultimately have "k' - ?M = k - ?M" by (rule same)
      then show ?thesis using 2 by linarith
    next
      case 3
      then show ?thesis using d four [of k "k' - ?M"] by (simp add: cj)
    next
      case 4
      then have "int (2 * N) dvd - (5 ^ (k - ?M) + 5 ^ k')" using d by (simp add: cj)
      then show ?thesis using four [of "k - ?M" k'] by (simp only: dvd_minus_iff)
    qed
  next
    case False
    obtain r where r: "group_order g = 2 ^ r" "group_order g * query_base_power g = 2 ^ m" using group_sub [OF g False] by blast
    have "int (2 * N) = int (query_base_power g) * (4 * int (group_order g))"
      using arg_cong [OF r(2), of int] by (simp add: N algebra_simps)
    then have "4 * int (group_order g) dvd c * (5 ^ k - 5 ^ k')"
      using dvd group_step(6) [OF g] False unfolding zp(1) by (simp add: conjugate_def mult.assoc)
    moreover have "coprime (4 * int (group_order g)) c" using coprime_two_power [OF zp(2), of "r + 2"] by (simp add: r(1))
    ultimately have "4 * int (group_order g) dvd 5 ^ k - 5 ^ k'" by (simp add: coprime_dvd_mult_right_iff)
    then show ?thesis by (rule five_distinct [OF r(1) k])
  qed
qed


section \<open>The transform\<close>

text \<open>Documented behaviour of \<open>pow\<close> and of the division: powers of the root are units.\<close>

definition pow_ok :: "('z special_zn \<Rightarrow> m512i \<Rightarrow> nat \<Rightarrow> m512i) \<Rightarrow> 'z special_zn \<Rightarrow> m512i \<Rightarrow> bool" where
  "pow_ok pow r zeta \<longleftrightarrow> (\<forall>z e. represents r (2 * pm r) zeta (\<lambda>_. z) \<longrightarrow> represents r (2 * pm r) (pow r zeta e) (\<lambda>_. z ^ e)) \<and>
     (\<forall>e. checked_left_div r (from_int r 1) (pow r zeta e) \<noteq> None)"

lemma permute_by_Ok:
  assumes "\<And>i. i < length vals \<Longrightarrow> perm i = (Ok (h i) :: ('e, nat) outcome)" "inj_on h {..<length vals}" "\<And>i. i < length vals \<Longrightarrow> h i < length vals"
  shows "permute_by perm vals = (Ok (map (\<lambda>i. vals ! h i) [0..<length vals]) :: ('e, 'a list) outcome)"
proof -
  let ?tab = "map h [0..<length vals]"
  have "try_map perm [0..<length vals] = (Ok ?tab :: ('e, nat list) outcome)" using assms(1) by (intro try_map_Ok) simp
  moreover have "index_bijection (\<lambda>i. ?tab ! i) (length vals)"
  proof
    have "bij_betw h {..<length vals} {..<length vals}"
      unfolding bij_betw_def using assms(2,3) by (intro conjI endo_inj_surj) auto
    then show "bij_betw (\<lambda>i. ?tab ! i) {..<length vals} {..<length vals}"
      by (rule bij_betw_cong [THEN iffD1, rotated]) simp
  qed
  ultimately show ?thesis using permute_bijection [of "\<lambda>i. ?tab ! i" vals, where 'e = 'e] by (simp add: permute_by_def cong: map_cong)
qed

lemma coset_ntt_vec:
  assumes root: "root_ok r N zeta y t" and pow: "pow_ok pow r zeta" and y: "half_turn (pm r) N y" and g: "group_ok g N m"
    and table: "ntt_spec r (group_order g) (y ^ (2 * N div group_order g)) fft_table"
    and zp: "zeta_power < 2 * N" "int zeta_power = int (query_base_power g) * c" "odd c" and vals: "vec r (group_order g) vals F"
  shows "\<exists>res. coset_ntt pow g r zeta zeta_power fft_table vals = (Ok res :: ('e, m512i list) outcome) \<and>
    (\<forall>V. (\<forall>k < group_order g. \<exists>e. int e mod int (2 * N) = (int zeta_power * conjugate g k) mod int (2 * N) \<and>
        (\<forall>l < 8. V k l mod pm r = (\<Sum>j < group_order g. F j l * y ^ (e * j)) mod pm r)) \<longrightarrow> vec r (group_order g) res V)"
proof -
  let ?m = "2 * N" and ?L = "group_order g"
  let ?d = "?m div ?L" and ?u = "query_base_power g"
  note st = group_step [OF g]
  have r: "special_ok r" using root by (simp add: root_ok_def)
  have N: "ig_N g = N" using g by (simp add: group_ok_def)
  let ?coset = "zeta_power mod ?d" and ?neg = "(?m - zeta_power) mod ?m"
  have check: "list_ex (\<lambda>x. (x * ?u) mod ?m = zeta_power) [0..<?m]"
  proof -
    have "?u dvd zeta_power" using zp(2) by (metis dvd_triv_left int_dvd_int_iff)
    then obtain x where x: "zeta_power = ?u * x" by blast
    have "x \<le> zeta_power" using st(6) unfolding x by simp
    then have "x < ?m" using zp(1) by (rule le_less_trans)
    moreover have "(x * ?u) mod ?m = zeta_power" using zp(1) unfolding x by (simp add: mult.commute)
    ultimately show ?thesis unfolding list_ex_iff by (intro bexI [of _ x]) simp_all
  qed
  obtain z where z: "represents r (2 * pm r) zeta (\<lambda>_. z)" "(z * y) mod pm r = 1" using root by (auto simp: root_ok_def)
  let ?zeta = "pow r zeta ?coset"
  obtain zi where zi: "checked_left_div r (from_int r 1) ?zeta = Some zi" using pow unfolding pow_ok_def by blast
  have "(z ^ ?coset * y ^ ?coset) mod pm r = 1"
  proof -
    have "(z * y) ^ ?coset mod pm r = 1 ^ ?coset mod pm r" by (metis z(2) power_mod)
    then show ?thesis using y by (simp add: power_mult_distrib half_turn_def)
  qed
  then have inv: "represents r (2 * pm r) zi (\<lambda>_. y ^ ?coset)"
    using pow z(1) unfolding pow_ok_def by (intro checked_div_inverse [OF r _ _ zi]) auto
  define vals' where "vals' = fft fft_table (weight r zi (from_int r 1) vals)"
  have v': "vec r ?L vals' (fft_value (y ^ ?d) ?L (\<lambda>i l. F i l * (1 * (y ^ ?coset) ^ i)))"
    using table weight_vec [OF r inv represents_two [OF r from_int_represents [OF r]] vals] unfolding ntt_spec_def vals'_def by blast
  have len: "length vals = ?L" "length vals' = ?L" using vecD(1) vals v' by blast+
  define ge where "ge k = (if requires_conj g \<and> \<not> k < N div 2 then (zeta_power * gen_H ^ (k - N div 2)) mod ?m else (?neg * gen_H ^ k) mod ?m)" for k
  define x where "x k = (?m - ge k) mod ?m" for k
  have loop: "requires_conj g \<Longrightarrow> loop_len g = N div 2" using group_full [OF g] by simp
  have x: "int (x k) mod int ?m = (int zeta_power * conjugate g k) mod int ?m" for k
  proof -
    have m0: "0 < ?m" using st(4) by simp
    have neg: "int ?neg mod int ?m = (- int zeta_power) mod int ?m"
      using neg_residue [OF m0, of zeta_power] zp(1) by simp
    have e: "int (x k) = (- int (ge k)) mod int ?m"
      using neg_residue [OF m0, of "ge k"] m0 by (simp add: x_def ge_def)
    show ?thesis
    proof (cases "requires_conj g \<and> \<not> k < N div 2")
      case True
      then have "int (ge k) = (int zeta_power * 5 ^ (k - N div 2)) mod int ?m" by (simp add: ge_def gen_H_def zmod_int)
      then show ?thesis using True loop unfolding e by (simp add: conjugate_def mod_minus_eq)
    next
      case False
      then have "int (ge k) = (int ?neg * 5 ^ k) mod int ?m" by (auto simp: ge_def gen_H_def zmod_int)
      then have "int (ge k) = ((- int zeta_power) * 5 ^ k) mod int ?m" using mod_mult_cong [OF neg refl] by metis
      moreover have "conjugate g k = 5 ^ k" using False loop by (auto simp: conjugate_def)
      ultimately show ?thesis unfolding e by (simp add: mod_minus_eq)
    qed
  qed
  have dvd: "?d dvd ?m" using st(3) by (metis dvd_triv_right)
  have coset: "x k mod ?d = ?coset" for k
  proof -
    have "int (x k) mod int ?d = (int (x k) mod int ?m) mod int ?d" using dvd by (metis int_dvd_int_iff mod_mod_cancel)
    also have "\<dots> = int zeta_power mod int ?d"
      unfolding x using dvd conjugate_mod_step [OF g zp(2)] by (metis int_dvd_int_iff mod_mod_cancel)
    finally show ?thesis by (metis of_nat_eq_iff zmod_int)
  qed
  have xm: "x k < ?m" for k using st(4) by (simp add: x_def)
  have idx: "coset_index ?m ?L ?coset (ge k) = (Ok (x k div ?d) :: ('e, nat) outcome)" for k
    by (rule coset_index_Ok [OF st(2) refl x_def coset])
  have split: "x k = ?coset + ?d * (x k div ?d)" for k using mod_mult_div_eq [of "x k" ?d] unfolding coset by simp
  have p: "permute_by (\<lambda>i. coset_index ?m ?L ?coset (ge i)) vals' = (Ok (map (\<lambda>i. vals' ! (x i div ?d)) [0..<length vals']) :: ('e, m512i list) outcome)"
  proof (rule permute_by_Ok [OF idx])
    show "inj_on (\<lambda>i. x i div ?d) {..<length vals'}"
    proof (rule inj_onI)
      fix i j assume ij: "i \<in> {..<length vals'}" "j \<in> {..<length vals'}" "x i div ?d = x j div ?d"
      then have "x i = x j" using split by metis
      then have "(int zeta_power * conjugate g i) mod int ?m = (int zeta_power * conjugate g j) mod int ?m" using x by metis
      then show "i = j" using ij(1,2) len by (intro conjugate_distinct [OF g zp(2,3)]) simp_all
    qed
    show "x i div ?d < length vals'" for i
      using xm [of i] st(2,3) len by (simp add: div_less_iff_less_mult)
  qed
  then have res: "coset_ntt pow g r zeta zeta_power fft_table vals = (Ok (map (\<lambda>i. vals' ! (x i div ?d)) [0..<?L]) :: ('e, m512i list) outcome)"
  proof (cases "requires_conj g")
    case True
    then have "(\<lambda>i. if i < N div 2 then coset_index ?m ?L ?coset ((?neg * gen_H ^ i) mod ?m)
        else coset_index ?m ?L ?coset ((zeta_power * gen_H ^ (i - N div 2)) mod ?m)) = (\<lambda>i. coset_index ?m ?L ?coset (ge i) :: ('e, nat) outcome)"
      by (auto simp: ge_def)
    then show ?thesis using len check zi p True by (simp add: coset_ntt_def Let_def N unwrap_def vals'_def)
  next
    case False
    then have "(\<lambda>i. coset_index ?m ?L ?coset ((?neg * gen_H ^ i) mod ?m)) = (\<lambda>i. coset_index ?m ?L ?coset (ge i) :: ('e, nat) outcome)"
      by (auto simp: ge_def)
    then show ?thesis using len check zi p False by (simp add: coset_ntt_def Let_def N unwrap_def vals'_def)
  qed
  have "vec r ?L (map (\<lambda>i. vals' ! (x i div ?d)) [0..<?L]) V"
    if V: "\<forall>k < ?L. \<exists>e. int e mod int ?m = (int zeta_power * conjugate g k) mod int ?m \<and>
      (\<forall>l < 8. V k l mod pm r = (\<Sum>j < ?L. F j l * y ^ (e * j)) mod pm r)" for V
    unfolding vec_def
  proof (intro conjI allI impI)
    fix k assume k: "k < ?L"
    obtain e where e: "int e mod int ?m = int (x k) mod int ?m" "\<forall>l < 8. V k l mod pm r = (\<Sum>j < ?L. F j l * y ^ (e * j)) mod pm r"
      using V k x by metis
    have em: "e mod ?m = x k mod ?m" using e(1) by (metis of_nat_eq_iff zmod_int)
    have "x k div ?d < ?L" using xm [of k] st(2,3) by (simp add: div_less_iff_less_mult)
    from vecD(2) [OF v' this]
    have "represents r (2 * pm r) (vals' ! (x k div ?d)) (V k)"
    proof (rule represents_cong)
      fix l :: nat assume l: "l < 8"
      have "(F j l * (1 * (y ^ ?coset) ^ j) * (y ^ ?d) ^ (j * (x k div ?d))) mod pm r = (F j l * y ^ (e * j)) mod pm r" for j
      proof -
        have "(y ^ ?coset) ^ j * (y ^ ?d) ^ (j * (x k div ?d)) = y ^ ((?coset + ?d * (x k div ?d)) * j)"
          by (simp add: algebra_simps flip: power_mult power_add)
        also have "?coset + ?d * (x k div ?d) = x k" using split [of k] by simp
        finally have a: "F j l * (1 * (y ^ ?coset) ^ j) * (y ^ ?d) ^ (j * (x k div ?d)) = F j l * y ^ (x k * j)"
          by (simp only: mult_1 mult.assoc)
        have "y ^ (x k * j) mod pm r = y ^ (e * j) mod pm r"
          using em by (intro turn_cong [OF y] mod_mult_cong) simp_all
        then show ?thesis unfolding a by (intro mod_mult_cong refl)
      qed
      then show "fft_value (y ^ ?d) ?L (\<lambda>i l. F i l * (1 * (y ^ ?coset) ^ i)) (x k div ?d) l mod pm r = V k l mod pm r"
        using e(2) l unfolding fft_value_def by (simp only:) (rule sum_mod_cong)
    qed
    then show "represents r (2 * pm r) (map (\<lambda>i. vals' ! (x i div ?d)) [0..<?L] ! k) (V k)" using k by simp
  qed simp
  then show ?thesis using res by blast
qed

end
