(* ===== verification/Evaluation.thy ===== *)
theory Evaluation
  imports Answer_Correct Negacyclic
begin

text \<open>
  What a shard answers, in terms of the ring: the reply decrypts to the sum over the passes of entry times
  decrypted query, each rotated by the automorphisms of the later passes, plus one noise polynomial with
  small integer coefficients.
\<close>

section \<open>The noise of the Galois keys\<close>

text \<open>\<open>err k\<close> is the noise of the \<open>k\<close>-th Galois key, \<open>dig i k\<close> the digit of pass \<open>i\<close> it is multiplied with.\<close>

fun pass_noise ::
    "nat \<Rightarrow> nat \<Rightarrow> (nat \<Rightarrow> nat \<Rightarrow> nat \<Rightarrow> nat \<Rightarrow> int) \<Rightarrow> (nat \<Rightarrow> nat \<Rightarrow> nat \<Rightarrow> int) \<Rightarrow> nat \<Rightarrow> nat \<Rightarrow> nat \<Rightarrow> int" where
  "pass_noise N inv_g dig err 0 = (\<lambda>n l. 0)"
| "pass_noise N inv_g dig err (Suc i) = (\<lambda>n l. auto5 N inv_g (pass_noise N inv_g dig err i) n l +
     (nega N (dig i 0) (err 0) n l + nega N (dig i 1) (err 1) n l))"

lemma slot_add: "slot_value y N (\<lambda>n l. F n l + G n l) j l = slot_value y N F j l + slot_value y N G j l"
  using slot_linear [of y N F 1 G j l] by simp

lemma noise_slots:
  assumes y: "half_turn p N y" and g: "(gen_H * inv_g) mod (2 * N) = 1" and j: "j < N"
  shows "rotated_sum (galois_lookup N gen_H) (answer_term (dec_value y N dig) E QA QB S (\<lambda>k. slot_value y N (err k))) i j l mod p =
    (rotated_sum (galois_lookup N gen_H) (\<lambda>i j l. E i j l * (QB j l + QA j l * S j l)) i j l + slot_value y N (pass_noise N inv_g dig err i) j l) mod p"
  using j
proof (induction i arbitrary: j)
  case 0
  then show ?case by (simp add: rotated_sum.simps slot_value_def)
next
  case (Suc i)
  let ?s = "galois_lookup N gen_H" and ?n = "pass_noise N inv_g dig err"
  let ?R = "rotated_sum ?s (answer_term (dec_value y N dig) E QA QB S (\<lambda>k. slot_value y N (err k)))"
  let ?I = "rotated_sum ?s (\<lambda>i j l. E i j l * (QB j l + QA j l * S j l))"
  have sj: "?s j < N" using galois_row_maps [OF g] Suc.prems by (simp add: row_maps_def)
  let ?t = "E i j l * (QB j l + QA j l * S j l)" and ?d = "\<lambda>k. slot_value y N (dig i k) j l * slot_value y N (err k) j l"
  have parts: "slot_value y N (?n (Suc i)) j l = slot_value y N (auto5 N inv_g (?n i)) j l + (slot_value y N (nega N (dig i 0) (err 0)) j l + slot_value y N (nega N (dig i 1) (err 1)) j l)"
    by (simp only: pass_noise.simps slot_add)
  have n: "slot_value y N (?n (Suc i)) j l mod p = (slot_value y N (?n i) (?s j) l + (?d 0 + ?d 1)) mod p"
    unfolding parts by (intro mod_add_cong slot_auto5 [OF y g Suc.prems] slot_nega [OF y])
  have "?R (Suc i) j l = ?R i (?s j) l + (?t + (?d 0 + ?d 1))"
    by (simp add: rotated_sum.simps answer_term_def dec_value_def)
  then have "?R (Suc i) j l mod p = ((?I i (?s j) l + slot_value y N (?n i) (?s j) l) + (?t + (?d 0 + ?d 1))) mod p"
    using mod_add_cong [OF Suc.IH [OF sj] refl] by (simp only:)
  also have "(?I i (?s j) l + slot_value y N (?n i) (?s j) l) + (?t + (?d 0 + ?d 1)) = ?I (Suc i) j l + (slot_value y N (?n i) (?s j) l + (?d 0 + ?d 1))"
    by (simp add: rotated_sum.simps)
  finally show ?case using mod_add_cong [OF refl n [symmetric], of "?I (Suc i) j l"] by (simp only:)
qed

lemma pass_noise_bound:
  assumes dig: "small_digits N len dig" and err: "\<And>k n. k < 2 \<Longrightarrow> n < N \<Longrightarrow> \<bar>err k n l\<bar> \<le> bound"
    and "i \<le> len" "n < N" "l < 8"
  shows "\<bar>pass_noise N inv_g dig err i n l\<bar> \<le> int i * (int N * ((2 ^ 25 + 2 ^ 24) * bound))"
  using assms(3,4)
proof (induction i arbitrary: n)
  case (Suc i)
  let ?b = "int N * ((2 ^ 25 + 2 ^ 24) * bound)"
  have N: "0 < N" using Suc.prems by simp
  have "\<bar>auto5 N inv_g (pass_noise N inv_g dig err i) n l\<bar> \<le> int i * ?b"
    using Suc by (intro auto5_bound [OF _ N]) simp
  moreover have "\<bar>nega N (dig i 0) (err 0) n l\<bar> \<le> int N * (2 ^ 25 * bound)"
    using dig err Suc.prems assms(5) by (intro nega_bound) (simp_all add: small_digits_def)
  moreover have "\<bar>nega N (dig i 1) (err 1) n l\<bar> \<le> int N * (2 ^ 24 * bound)"
    using dig err Suc.prems assms(5) by (intro nega_bound) (simp_all add: small_digits_def)
  moreover have "int (Suc i) * ?b = int i * ?b + (int N * (2 ^ 25 * bound) + int N * (2 ^ 24 * bound))"
    by (simp add: algebra_simps)
  ultimately show ?case unfolding pass_noise.simps by linarith
qed simp


section \<open>Decryption in the ring\<close>

text \<open>Documented behaviour of the ring's product: polynomials modulo \<open>X\<^sup>N + 1\<close>.\<close>

definition poly_mul_spec :: "('z, 'r) poly_ring \<Rightarrow> bool" where
  "poly_mul_spec C \<longleftrightarrow> (\<forall>x y i. i < pr_rank C \<longrightarrow>
     coeff C (pr_mul C x y) i = nega (pr_rank C) (\<lambda>i _. coeff C x i) (\<lambda>i _. coeff C y i) i 0 mod zn_modulus (pr_base C))"

text \<open>Coefficient \<open>n\<close> of the decryption in lane \<open>l\<close>, as \<open>dec\<close> computes it before rounding.\<close>

definition decrypted :: "('z, 'r) poly_ring \<Rightarrow> 'r list \<Rightarrow> 'r list \<Rightarrow> 'r list \<Rightarrow> nat \<Rightarrow> nat \<Rightarrow> int" where
  "decrypted C sks as bs n l = coeff C (pr_add C (pr_mul C (as ! l) (sks ! l)) (bs ! l)) n"

lemma slot_decrypted:
  assumes y: "half_turn p (pr_rank C) y" and C: "poly_spec C" "poly_mul_spec C" and p: "p dvd zn_modulus (pr_base C)"
  shows "slot_value y (pr_rank C) (decrypted C sks as bs) j l mod p =
    (slot_value y (pr_rank C) (lane_coeff C bs) j l + slot_value y (pr_rank C) (lane_coeff C as) j l * slot_value y (pr_rank C) (lane_coeff C sks) j l) mod p"
proof -
  let ?N = "pr_rank C" and ?q = "zn_modulus (pr_base C)"
  have "decrypted C sks as bs n l mod p = (nega ?N (lane_coeff C as) (lane_coeff C sks) n l + lane_coeff C bs n l) mod p" if n: "n < ?N" for n
  proof -
    have m: "coeff C (pr_mul C (as ! l) (sks ! l)) n = nega ?N (lane_coeff C as) (lane_coeff C sks) n l mod ?q"
      using C(2) n unfolding poly_mul_spec_def nega_def lane_coeff_def by blast
    have "decrypted C sks as bs n l = (nega ?N (lane_coeff C as) (lane_coeff C sks) n l + lane_coeff C bs n l) mod ?q"
      unfolding decrypted_def coeff_ops(1) [OF C(1) n] m by (simp add: lane_coeff_def mod_add_left_eq)
    then show ?thesis by (simp only: mod_mod_cancel [OF p])
  qed
  then have "slot_value y ?N (decrypted C sks as bs) j l mod p =
      slot_value y ?N (\<lambda>n l. nega ?N (lane_coeff C as) (lane_coeff C sks) n l + lane_coeff C bs n l) j l mod p"
    by (rule slot_cong)
  also have "\<dots> = (slot_value y ?N (lane_coeff C as) j l * slot_value y ?N (lane_coeff C sks) j l + slot_value y ?N (lane_coeff C bs) j l) mod p"
    unfolding slot_add by (rule mod_add_cong [OF slot_nega [OF y] refl])
  finally show ?thesis by (simp only: add.commute)
qed

section \<open>Keys and queries of the clients\<close>

text \<open>
  \<open>sks\<close> are the secret keys of the eight lanes. The Galois keys of a query decrypt to the secret with the
  automorphism applied, scaled by the powers of the gadget base, up to \<open>bound\<close> in every coefficient.
\<close>

definition keys_encrypt ::
    "nat \<Rightarrow> 'g rng_ops \<Rightarrow> int \<Rightarrow> 'r list \<Rightarrow> ('z, 'p, 'r) pir_database \<Rightarrow> 'r query_ref list \<Rightarrow> bool" where
  "keys_encrypt inv_g rng bound sks db queries \<longleftrightarrow>
     (let C = db_ciphertext_ring db; N = pr_rank C in \<forall>k < 2. \<forall>l < 8. \<forall>n < N. \<exists>err. \<bar>err\<bar> \<le> bound \<and>
       decrypted C sks (replicate 8 (expand rng C (get_gk_seeds (db_use_seeds db) ! k))) (map (\<lambda>q. qr_gk_b q ! k) queries) n l =
         (2 ^ (LOG2_B * k) * auto5 N inv_g (lane_coeff C sks) n l + err) mod zn_modulus (pr_base C))"

text \<open>The decryption of a query ciphertext, whose \<open>a\<close>-part is expanded from the \<open>k\<close>-th query seed.\<close>

definition query_content ::
    "'g rng_ops \<Rightarrow> 'r list \<Rightarrow> ('z, 'p, 'r) pir_database \<Rightarrow> nat \<Rightarrow> ('r query_ref \<Rightarrow> 'r) \<Rightarrow> 'r query_ref list \<Rightarrow> nat \<Rightarrow> nat \<Rightarrow> int" where
  "query_content rng sks db k part queries =
     decrypted (db_ciphertext_ring db) sks (replicate 8 (expand rng (db_ciphertext_ring db) (get_qry_seeds (db_use_seeds db) ! k))) (map part queries)"

definition evaluation_ok :: "nat \<Rightarrow> int \<times> int \<Rightarrow> nat \<Rightarrow> ('z, 'p, 'r) pir_database \<Rightarrow> bool" where
  "evaluation_ok N ys inv_g db \<longleftrightarrow> database_ok N ys inv_g db \<and> half_turn Q_FACTOR1 N (fst ys) \<and> half_turn Q_FACTOR2 N (snd ys) \<and>
     poly_mul_spec (db_ciphertext_ring db)"

text \<open>The answer without noise: Horner's rule over the passes with the automorphism in place of the power.\<close>

definition shard_answer ::
    "int \<Rightarrow> nat \<Rightarrow> nat \<Rightarrow> bool \<Rightarrow> (nat \<Rightarrow> nat \<Rightarrow> nat \<Rightarrow> int) \<Rightarrow> (nat \<Rightarrow> nat \<Rightarrow> nat \<Rightarrow> int) \<Rightarrow> (nat \<Rightarrow> nat \<Rightarrow> int) \<Rightarrow> (nat \<Rightarrow> nat \<Rightarrow> int) \<Rightarrow>
     nat \<Rightarrow> nat \<Rightarrow> int" where
  "shard_answer y N len both E E' qry qry' =
     answer_sum N len both (\<lambda>i j l. E i j l * slot_value y N qry j l) (\<lambda>i j l. E' i j l * slot_value y N qry' j l)"

lemma rotated_sum_cong:
  assumes s: "\<And>j. j < N \<Longrightarrow> s j < N" and t: "\<And>i j. j < N \<Longrightarrow> T i j l mod p = T' i j l mod (p :: int)" and "j < N"
  shows "rotated_sum s T i j l mod p = rotated_sum s T' i j l mod p"
  using assms(3)
proof (induction i arbitrary: j)
  case (Suc i)
  show ?case unfolding rotated_sum.simps by (rule mod_add_cong [OF Suc.IH [OF s [OF Suc.prems]] t [OF Suc.prems]])
qed (simp add: rotated_sum.simps)

lemma keys_related:
  assumes C: "poly_spec C" "poly_mul_spec C" "pr_rank C = N" and p: "p dvd zn_modulus (pr_base C)" and y: "half_turn p N y"
    and g: "(gen_H * inv_g) mod (2 * N) = 1"
    and k: "\<And>k n l. k < 2 \<Longrightarrow> n < N \<Longrightarrow> l < 8 \<Longrightarrow>
      decrypted C sks (A k) (G k) n l = (2 ^ (LOG2_B * k) * auto5 N inv_g (lane_coeff C sks) n l + err k n l) mod zn_modulus (pr_base C)"
  shows "key_relation p N (\<lambda>k. slot_value y N (lane_coeff C (G k))) (\<lambda>k. slot_value y N (lane_coeff C (A k))) (slot_value y N (lane_coeff C sks)) (\<lambda>k. slot_value y N (err k))"
  unfolding key_relation_def
proof (intro allI impI)
  fix k j l :: nat assume kjl: "k < 2" "j < N" "l < 8"
  let ?S = "lane_coeff C sks" and ?c = "2 ^ (LOG2_B * k) :: int"
  have d: "slot_value y N (decrypted C sks (A k) (G k)) j l mod p =
      (slot_value y N (lane_coeff C (G k)) j l + slot_value y N (lane_coeff C (A k)) j l * slot_value y N ?S j l) mod p"
    using slot_decrypted [OF _ C(1,2) p, of y sks "A k" "G k" j l] y by (simp only: C(3))
  have "decrypted C sks (A k) (G k) n l mod p = (err k n l + ?c * auto5 N inv_g ?S n l) mod p" if "n < N" for n
    unfolding k [OF kjl(1) that kjl(3)] by (simp only: mod_mod_cancel [OF p] add.commute)
  then have "slot_value y N (decrypted C sks (A k) (G k)) j l mod p = slot_value y N (\<lambda>n l. err k n l + ?c * auto5 N inv_g ?S n l) j l mod p"
    by (rule slot_cong)
  also have "\<dots> = (slot_value y N (err k) j l + ?c * slot_value y N ?S (galois_lookup N gen_H j) l) mod p"
    unfolding slot_linear by (intro mod_add_cong mod_mult_cong refl slot_auto5 [OF y g kjl(2)])
  finally show "(slot_value y N (lane_coeff C (G k)) j l + slot_value y N (lane_coeff C (A k)) j l * slot_value y N ?S j l) mod p =
      (?c * slot_value y N ?S (galois_lookup N gen_H j) l + slot_value y N (err k) j l) mod p"
    unfolding d by (simp only: add.commute)
qed

definition total_noise where
  "total_noise N inv_g both dig dig' err len n l =
     pass_noise N inv_g dig err len n l + (if both then pass_noise N inv_g dig' err len n l else 0)"

lemma answer_noise:
  assumes y: "half_turn p N y" and g: "(gen_H * inv_g) mod (2 * N) = 1" and j: "j < N"
    and q: "\<And>j. j < N \<Longrightarrow> (QB j l + QA j l * S j l) mod p = slot_value y N qry j l mod p"
    and q': "\<And>j. both \<Longrightarrow> j < N \<Longrightarrow> (QB' j l + QA' j l * S j l) mod p = slot_value y N qry' j l mod p"
  shows "answer_decrypted y N len both dig dig' E E' QA QB QA' QB' S (\<lambda>k. slot_value y N (err k)) j l mod p =
    (shard_answer y N len both E E' qry qry' j l + slot_value y N (total_noise N inv_g both dig dig' err len) j l) mod p"
proof -
  let ?s = "galois_lookup N gen_H"
  have rows: "?s i < N" if "i < N" for i using galois_row_maps [OF g] that by (simp add: row_maps_def)
  have half: "rotated_sum ?s (answer_term (dec_value y N d) F A B S (\<lambda>k. slot_value y N (err k))) len j l mod p =
      (rotated_sum ?s (\<lambda>i j l. F i j l * slot_value y N r j l) len j l + slot_value y N (pass_noise N inv_g d err len) j l) mod p"
    if "\<And>j. j < N \<Longrightarrow> (B j l + A j l * S j l) mod p = slot_value y N r j l mod p" for d F A B r
  proof -
    have "rotated_sum ?s (\<lambda>i j l. F i j l * (B j l + A j l * S j l)) len j l mod p = rotated_sum ?s (\<lambda>i j l. F i j l * slot_value y N r j l) len j l mod p"
      by (rule rotated_sum_cong [OF rows _ j]) (assumption, rule mod_mult_cong [OF refl that])
    then show ?thesis
      unfolding noise_slots [OF y g j] by (rule mod_add_cong [OF _ refl])
  qed
  note h = half [where A = QA and B = QB and r = qry and d = dig and F = E, OF q]
  note h' = half [where A = QA' and B = QB' and r = qry' and d = dig' and F = E', OF q']
  show ?thesis
  proof (cases both)
    case True
    have "answer_decrypted y N len both dig dig' E E' QA QB QA' QB' S (\<lambda>k. slot_value y N (err k)) j l mod p =
        ((rotated_sum ?s (\<lambda>i j l. E i j l * slot_value y N qry j l) len j l + slot_value y N (pass_noise N inv_g dig err len) j l) +
         (rotated_sum ?s (\<lambda>i j l. E' i j l * slot_value y N qry' j l) len j l + slot_value y N (pass_noise N inv_g dig' err len) j l)) mod p"
      using True unfolding answer_decrypted_def answer_sum_def by (simp only: if_True) (rule mod_add_cong [OF h h' [OF True]])
    then show ?thesis
      using True by (simp add: shard_answer_def answer_sum_def total_noise_def [abs_def] slot_add ac_simps)
  next
    case False
    then show ?thesis
      using h by (simp add: answer_decrypted_def shard_answer_def answer_sum_def total_noise_def [abs_def])
  qed
qed

lemma total_noise_bound:
  assumes "small_digits N len dig" "small_digits N len dig'" "\<And>k n. k < 2 \<Longrightarrow> n < N \<Longrightarrow> \<bar>err k n l\<bar> \<le> bound" "n < N" "l < 8" "0 \<le> bound"
  shows "\<bar>total_noise N inv_g both dig dig' err len n l\<bar> \<le> 2 * int len * (int N * ((2 ^ 25 + 2 ^ 24) * bound))"
proof -
  define b where "b = int len * (int N * ((2 ^ 25 + 2 ^ 24) * bound))"
  have "\<bar>pass_noise N inv_g dig err len n l\<bar> \<le> b" "\<bar>pass_noise N inv_g dig' err len n l\<bar> \<le> b"
    unfolding b_def using pass_noise_bound [of N len _ err l bound len n, OF _ assms(3) order_refl assms(4,5)] assms(1,2) by blast+
  moreover have "0 \<le> b" using assms(6) by (simp add: b_def)
  moreover have "\<bar>total_noise N inv_g both dig dig' err len n l\<bar> \<le>
      \<bar>pass_noise N inv_g dig err len n l\<bar> + \<bar>pass_noise N inv_g dig' err len n l\<bar>"
    by (cases both) (simp_all add: total_noise_def abs_triangle_ineq)
  ultimately have "\<bar>total_noise N inv_g both dig dig' err len n l\<bar> \<le> 2 * b" by linarith
  then show ?thesis by (simp only: b_def mult.assoc)
qed

lemma keys_encrypt_errors:
  assumes "keys_encrypt inv_g rng bound sks db queries" "pr_rank (db_ciphertext_ring db) = N"
  obtains err where "\<And>k n l. k < 2 \<Longrightarrow> n < N \<Longrightarrow> l < 8 \<Longrightarrow> \<bar>err k n l\<bar> \<le> bound \<and>
    decrypted (db_ciphertext_ring db) sks (replicate 8 (expand rng (db_ciphertext_ring db) (get_gk_seeds (db_use_seeds db) ! k)))
      (map (\<lambda>q. qr_gk_b q ! k) queries) n l =
    (2 ^ (LOG2_B * k) * auto5 N inv_g (lane_coeff (db_ciphertext_ring db) sks) n l + err k n l) mod zn_modulus (pr_base (db_ciphertext_ring db))"
proof -
  let ?P = "\<lambda>k n l e. \<bar>e\<bar> \<le> bound \<and>
    decrypted (db_ciphertext_ring db) sks (replicate 8 (expand rng (db_ciphertext_ring db) (get_gk_seeds (db_use_seeds db) ! k)))
      (map (\<lambda>q. qr_gk_b q ! k) queries) n l =
    (2 ^ (LOG2_B * k) * auto5 N inv_g (lane_coeff (db_ciphertext_ring db) sks) n l + e) mod zn_modulus (pr_base (db_ciphertext_ring db))"
  have "\<exists>e. ?P k n l e" if "k < 2" "n < N" "l < 8" for k n l
    using assms that unfolding keys_encrypt_def Let_def by blast
  then have "?P k n l (SOME e. ?P k n l e)" if "k < 2" "n < N" "l < 8" for k n l
    using that by (intro someI_ex [where P = "?P k n l"]) blast
  then show ?thesis by (rule that [of "\<lambda>k n l. SOME e. ?P k n l e"])
qed

lemma evaluation_slots:
  fixes db :: "('z, 'p, 'r) pir_database"
  assumes ok: "evaluation_ok N ys inv_g db" and ld: "loaded N db E E'" and even: "even (loop_len (db_index_group db))"
    and queries: "length queries = 8" "requires_conj (db_index_group db) \<longrightarrow> (\<forall>q \<in> set queries. qr_qry_conj_b q \<noteq> None)"
    and keys: "keys_encrypt inv_g rng bound sks db queries" "0 \<le> bound"
  defines "C \<equiv> db_ciphertext_ring db" and "len \<equiv> loop_len (db_index_group db)" and "both \<equiv> requires_conj (db_index_group db)"
    and "qry \<equiv> query_content rng sks db 0 qr_qry_b queries" and "qry' \<equiv> query_content rng sks db 1 (the \<circ> qr_qry_conj_b) queries"
  shows "\<exists>db' a b noise. preprocess_db rng inv_g db = (Ok db' :: ('e, ('z, 'p, 'r) pir_database) outcome) \<and>
    get_a db' = (Ok a :: ('e, 'r list) outcome) \<and> perform_pir_split inv_g queries db' = (Ok b :: ('e, 'r list) outcome) \<and>
    length a = 8 \<and> length b = 8 \<and> (\<forall>n < N. \<forall>l < 8. \<bar>noise n l\<bar> \<le> 2 * int len * (int N * ((2 ^ 25 + 2 ^ 24) * bound))) \<and>
    (\<forall>j < N. \<forall>l < 8.
      slot_value (fst ys) N (decrypted C sks a b) j l mod Q_FACTOR1 =
        (shard_answer (fst ys) N len both (fst E) (fst E') qry qry' j l + slot_value (fst ys) N noise j l) mod Q_FACTOR1 \<and>
      slot_value (snd ys) N (decrypted C sks a b) j l mod Q_FACTOR2 =
        (shard_answer (snd ys) N len both (snd E) (snd E') qry qry' j l + slot_value (snd ys) N noise j l) mod Q_FACTOR2)"
proof -
  have db: "database_ok N ys inv_g db" and y: "half_turn Q_FACTOR1 N (fst ys)" "half_turn Q_FACTOR2 N (snd ys)" and mul: "poly_mul_spec C"
    using ok by (simp_all add: evaluation_ok_def C_def)
  note d = database_okD [OF db]
  have C: "poly_spec C" "pr_rank C = N" "zn_modulus (pr_base C) = FIXED_Q" using d by (simp_all add: C_def)
  have p: "Q_FACTOR1 dvd zn_modulus (pr_base C)" "Q_FACTOR2 dvd zn_modulus (pr_base C)" by (simp_all add: C(3) FIXED_Q_def)
  obtain err where err: "\<And>k n l. k < 2 \<Longrightarrow> n < N \<Longrightarrow> l < 8 \<Longrightarrow> \<bar>err k n l\<bar> \<le> bound \<and>
      decrypted C sks (replicate 8 (expand rng C (get_gk_seeds (db_use_seeds db) ! k))) (map (\<lambda>q. qr_gk_b q ! k) queries) n l =
      (2 ^ (LOG2_B * k) * auto5 N inv_g (lane_coeff C sks) n l + err k n l) mod zn_modulus (pr_base C)"
    using keys_encrypt_errors [OF keys(1) d(2)] unfolding C_def by blast
  let ?S = "(slot_value (fst ys) N (lane_coeff C sks), slot_value (snd ys) N (lane_coeff C sks))"
  let ?e = "(\<lambda>k. slot_value (fst ys) N (err k), \<lambda>k. slot_value (snd ys) N (err k))"
  note rel = keys_related [OF C(1) mul C(2) _ _ d(4) err [THEN conjunct2]]
  have k1: "key_relation Q_FACTOR1 N (fst (received_keys db ys queries)) (fst (public_keys rng db ys)) (fst ?S) (fst ?e)"
    using rel [OF p(1) y(1)] by (simp add: received_keys_def received_def public_keys_def public_slots_def lane_slots_def C_def [symmetric] C(2))
  have k2: "key_relation Q_FACTOR2 N (snd (received_keys db ys queries)) (snd (public_keys rng db ys)) (snd ?S) (snd ?e)"
    using rel [OF p(2) y(2)] by (simp add: received_keys_def received_def public_keys_def public_slots_def lane_slots_def C_def [symmetric] C(2))
  let ?Q = "public_query rng db ys" and ?QB = "received db ys qr_qry_b queries" and ?QB' = "received db ys (the \<circ> qr_qry_conj_b) queries"
  obtain db' a b dig dig' where r: "preprocess_db rng inv_g db = (Ok db' :: ('e, ('z, 'p, 'r) pir_database) outcome)"
    "get_a db' = (Ok a :: ('e, 'r list) outcome)" "perform_pir_split inv_g queries db' = (Ok b :: ('e, 'r list) outcome)"
    "length a = 8" "length b = 8" "small_digits N len dig" "small_digits N len dig'"
    "\<forall>j < N. \<forall>l < 8.
      (fst (lane_slots C ys b) j l + fst (lane_slots C ys a) j l * fst ?S j l) mod Q_FACTOR1 =
        answer_decrypted (fst ys) N len both dig dig' (fst E) (fst E') (fst (?Q 0)) (fst ?QB) (fst (?Q 1)) (fst ?QB') (fst ?S) (fst ?e) j l mod Q_FACTOR1 \<and>
      (snd (lane_slots C ys b) j l + snd (lane_slots C ys a) j l * snd ?S j l) mod Q_FACTOR2 =
        answer_decrypted (snd ys) N len both dig dig' (snd E) (snd E') (snd (?Q 0)) (snd ?QB) (snd (?Q 1)) (snd ?QB') (snd ?S) (snd ?e) j l mod Q_FACTOR2"
    using evaluation_of_db [OF db ld even queries(1) _ k1 k2, where 'e = 'e] queries(2) unfolding C_def len_def both_def by blast
  have dec: "slot_value y N (decrypted C sks as bs) j l mod m = (slot_value y N (lane_coeff C bs) j l + slot_value y N (lane_coeff C as) j l * slot_value y N (lane_coeff C sks) j l) mod m"
    if "half_turn m N y" "m dvd zn_modulus (pr_base C)" for y m as bs j l
    using slot_decrypted [OF _ C(1) mul that(2), of y sks as bs j l] that(1) by (simp only: C(2))
  have qs: "fst (?Q k) = slot_value (fst ys) N (lane_coeff C (replicate 8 (expand rng C (get_qry_seeds (db_use_seeds db) ! k))))"
    "snd (?Q k) = slot_value (snd ys) N (lane_coeff C (replicate 8 (expand rng C (get_qry_seeds (db_use_seeds db) ! k))))"
    "fst (received db ys part queries) = slot_value (fst ys) N (lane_coeff C (map part queries))"
    "snd (received db ys part queries) = slot_value (snd ys) N (lane_coeff C (map part queries))"
    "fst (lane_slots C ys x) = slot_value (fst ys) N (lane_coeff C x)" "snd (lane_slots C ys x) = slot_value (snd ys) N (lane_coeff C x)" for k part x
    by (simp_all add: public_query_def public_slots_def received_def lane_slots_def C_def [symmetric] C(2))
  have qd: "qry = decrypted C sks (replicate 8 (expand rng C (get_qry_seeds (db_use_seeds db) ! 0))) (map qr_qry_b queries)"
    "qry' = decrypted C sks (replicate 8 (expand rng C (get_qry_seeds (db_use_seeds db) ! 1))) (map (the \<circ> qr_qry_conj_b) queries)"
    by (simp_all add: qry_def qry'_def query_content_def C_def)
  let ?n = "total_noise N inv_g both dig dig' err len"
  have "\<bar>?n n l\<bar> \<le> 2 * int len * (int N * ((2 ^ 25 + 2 ^ 24) * bound))" if "n < N" "l < 8" for n l
    using err that by (intro total_noise_bound [OF r(6,7) _ that keys(2)]) blast
  moreover have "slot_value (fst ys) N (decrypted C sks a b) j l mod Q_FACTOR1 =
      (shard_answer (fst ys) N len both (fst E) (fst E') qry qry' j l + slot_value (fst ys) N ?n j l) mod Q_FACTOR1" if "j < N" "l < 8" for j l
  proof -
    have "slot_value (fst ys) N (decrypted C sks a b) j l mod Q_FACTOR1 =
        answer_decrypted (fst ys) N len both dig dig' (fst E) (fst E') (fst (?Q 0)) (fst ?QB) (fst (?Q 1)) (fst ?QB') (fst ?S) (fst ?e) j l mod Q_FACTOR1"
      using r(8) that unfolding dec [OF y(1) p(1)] qs by simp
    then show ?thesis
      unfolding fst_conv by (simp only:) (intro answer_noise [OF y(1) d(4) that(1)]; simp only: qs qd dec [OF y(1) p(1)])
  qed
  moreover have "slot_value (snd ys) N (decrypted C sks a b) j l mod Q_FACTOR2 =
      (shard_answer (snd ys) N len both (snd E) (snd E') qry qry' j l + slot_value (snd ys) N ?n j l) mod Q_FACTOR2" if "j < N" "l < 8" for j l
  proof -
    have "slot_value (snd ys) N (decrypted C sks a b) j l mod Q_FACTOR2 =
        answer_decrypted (snd ys) N len both dig dig' (snd E) (snd E') (snd (?Q 0)) (snd ?QB) (snd (?Q 1)) (snd ?QB') (snd ?S) (snd ?e) j l mod Q_FACTOR2"
      using r(8) that unfolding dec [OF y(2) p(2)] qs by simp
    then show ?thesis
      unfolding snd_conv by (simp only:) (intro answer_noise [OF y(2) d(4) that(1)]; simp only: qs qd dec [OF y(2) p(2)])
  qed
  ultimately show ?thesis using r(1-5) by (intro exI [of _ db'] exI [of _ a] exI [of _ b] exI [of _ ?n]) simp
qed

end
