(* ===== verification/Transformed_Correct.thy ===== *)
theory Transformed_Correct
  imports Coset_Correct Evaluation
begin

text \<open>
  What \<open>set_transformed_entries\<close> of \<open>base_pir.rs\<close> stores of the plaintext entries: per pass, the slots of the
  entries' transform under the powers of 5, with the automorphisms of the later passes undone and the order of
  the group divided out modulo the plaintext modulus.
\<close>

section \<open>Embedding a column\<close>

text \<open>The value \<open>embed_column\<close> gives a coefficient \<open>x\<close>.\<close>

definition rescaled :: "'z zn_arith \<Rightarrow> 'z \<Rightarrow> int \<Rightarrow> int" where
  "rescaled Zt scale x = zn_smallest_lift Zt (zn_mul Zt (zn_of_int Zt x) scale)"

lemma rescaled_bounds:
  assumes "zn_arith_spec Zt"
  shows "2 * \<bar>rescaled Zt scale x\<bar> \<le> zn_modulus Zt"
    "rescaled Zt scale x mod zn_modulus Zt = (x * zn_lift Zt scale) mod zn_modulus Zt"
  using zn_smallest [OF assms] zn_lift_mul [OF assms] zn_lift_of_int [OF assms] by (simp_all add: rescaled_def mod_mult_left_eq)

lemma residues_of_ints:
  assumes r: "special_ok r" and R: "zn_arith_spec R" "zn_modulus R = pm r" "zn_lift (sz_component_ring r) = zn_lift R"
    and cs: "length cs = N" "\<And>n. n < N \<Longrightarrow> length (cs ! n) = 8" "\<And>n l. n < N \<Longrightarrow> l < 8 \<Longrightarrow> cs ! n ! l = F n l"
  shows "vec r N (map (\<lambda>x. from_components r (map (zn_of_int R) x)) cs) F"
  unfolding vec_def
proof (intro conjI allI impI)
  fix n assume n: "n < N"
  have "represents r (2 * pm r) (from_components r (map (zn_of_int R) (cs ! n))) (F n)"
    using cs(2,3) [OF n] zn_lift_of_int [OF R(1)]
    by (intro represents_two [OF r] represents_cong [OF from_components_represents [OF r]]) (simp add: R(2,3))
  then show "represents r (2 * pm r) (map (\<lambda>x. from_components r (map (zn_of_int R) x)) cs ! n) (F n)" using n cs(1) by simp
qed (use cs in simp)

lemma embed_column_held:
  fixes scale :: 'z
  assumes db: "database_ok N ys inv_g db" and y: "half_turn Q_FACTOR1 N (fst ys)" and N: "N = 2 ^ k"
    and col: "vec (fst (db_rns_base db)) N col (slot_value (fst ys) N T)"
    and small: "\<And>n l. n < N \<Longrightarrow> l < 8 \<Longrightarrow> 2 * \<bar>T n l\<bar> < Q_FACTOR1"
  defines "S \<equiv> \<lambda>n l. rescaled (pr_base (db_ring db)) scale (T n l)"
  shows "\<exists>c. embed_column db scale col = (Ok c :: ('e, compressed_rns_el) outcome) \<and>
    rns_held (db_rns_base db) N c (slot_value (fst ys) N S, slot_value (snd ys) N S)"
proof -
  note d = database_okD [OF db] and o = rns_okD [OF database_okD(5) [OF db]]
  note p = prime_pairD [OF o(1)]
  let ?r = "db_rns_base db" and ?R = "db_component_rings db"
  let ?c = "inv_weighted_ntt (fst ?r) (fst (db_zeta db)) (fst (db_len_N_ntts db)) col"
  obtain F where F: "vec (fst ?r) N ?c F" "\<forall>j < N. \<forall>l < 8. slot_value (fst ys) N F j l mod Q_FACTOR1 = slot_value (fst ys) N T j l mod Q_FACTOR1"
    using inv_weighted_ntt_vec [OF o(2) col] unfolding o(6) by blast
  have sm: "2 * pm (fst ?r) < 2 ^ 31" "2 * pm (snd ?r) < 2 ^ 31" unfolding o(6,7) by (simp_all add: q_values)
  have lift: "zn_smallest_lift (fst ?R) (get_components (fst ?r) (?c ! n) ! l) = T n l" if n: "n < N" and l: "l < 8" for n l
  proof (rule centered_unique [OF _ _ small [OF n l]])
    have "F n l mod Q_FACTOR1 = T n l mod Q_FACTOR1"
      by (rule slot_inject [OF y N _ n]) (use F(2) l in \<open>blast | simp add: Q_FACTOR1_def\<close>)+
    moreover have "zn_lift (fst ?R) (get_components (fst ?r) (?c ! n) ! l) = F n l mod Q_FACTOR1"
      using components_represents [OF o(4) vecD(2) [OF F(1) n] sm(1) l] by (simp only: p(9) o(6))
    ultimately show "zn_smallest_lift (fst ?R) (get_components (fst ?r) (?c ! n) ! l) mod Q_FACTOR1 = T n l mod Q_FACTOR1"
      using zn_smallest(1) [OF p(5)] by (simp only: p(7))
    show "2 * \<bar>zn_smallest_lift (fst ?R) (get_components (fst ?r) (?c ! n) ! l)\<bar> \<le> Q_FACTOR1"
      using zn_smallest(2) [OF p(5)] by (simp add: p(7))
  qed
  define cs where "cs = map (\<lambda>i. map (\<lambda>e. zn_smallest_lift (pr_base (db_ring db)) (zn_mul (pr_base (db_ring db))
    (zn_of_int (pr_base (db_ring db)) (zn_smallest_lift (fst ?R) e)) scale)) (get_components (fst ?r) (?c ! i))) [0..<N]"
  have eight: "length (get_components (fst ?r) (?c ! n)) = 8" if "n < N" for n
    using representsD(1) [OF vecD(2) [OF F(1) that]] by (simp add: get_components_def compress_lanes_def)
  have cs: "length cs = N" "\<And>n. n < N \<Longrightarrow> length (cs ! n) = 8" "\<And>n l. n < N \<Longrightarrow> l < 8 \<Longrightarrow> cs ! n ! l = S n l"
    using eight lift by (simp_all add: cs_def S_def rescaled_def)
  let ?x = "\<lambda>r R. map (\<lambda>x. from_components r (map (zn_of_int R) x)) cs"
  have "rns_vec ?r N (?x (fst ?r) (fst ?R), ?x (snd ?r) (snd ?R)) (S, S)"
    using residues_of_ints [OF o(4) p(5) _ p(9) cs] residues_of_ints [OF o(5) p(6) _ p(10) cs]
    by (simp only: rns_vec_def fst_conv snd_conv p(3,4,7,8))
  from both_ntts_vec [OF d(5) this, where 'e = 'e] obtain el where
    el: "both_ntts ?r (db_zeta db) (db_len_N_ntts db) (?x (fst ?r) (fst ?R), ?x (snd ?r) (snd ?R)) = (Ok el :: ('e, rns_el) outcome)"
    "rns_vec ?r N el (slot_value (fst ys) N S, slot_value (snd ys) N S)" by blast
  have "embed_column db scale col = (Ok (compress_rns el) :: ('e, compressed_rns_el) outcome)"
    by (simp only: embed_column_def Let_def d(1) cs_def [symmetric] el(1) bind_outcome.simps)
  then show ?thesis
    using el(2) sm by (simp add: compress_rns_def rns_held_def rns_vec_def vec_def compress_held)
qed


section \<open>Undoing the automorphisms of a column\<close>

lemma auto_index:
  assumes "odd h" "i < N"
  shows "galois_to_index N (2 * N) ((h * index_to_galois N (2 * N) i) mod (2 * N)) = (Ok (galois_lookup N h i) :: ('e, nat) outcome)"
proof -
  have e: "index_to_galois N (2 * N) i = 2 * i + 1" using assms(2) by (simp add: index_to_galois_def)
  have o: "(h * (2 * i + 1)) mod (2 * N) = 2 * galois_lookup N h i + 1" using odd_lookup(1) [OF assms] by simp
  show ?thesis unfolding e o using assms(2) by (simp add: galois_to_index_def)
qed

lemma auto_column:
  assumes y: "half_turn (pm r) N y" and h: "(h * a) mod (2 * N) = 1" "odd h" and col: "vec r N col (slot_value y N F)"
  shows "\<exists>res. permute_by (\<lambda>i. galois_to_index N (2 * N) ((h * index_to_galois N (2 * N) i) mod (2 * N))) col = (Ok res :: ('e, m512i list) outcome) \<and>
    vec r N res (slot_value y N (auto5 N a F))"
proof -
  let ?s = "galois_lookup N h"
  have len: "length col = N" using vecD(1) [OF col] .
  have "inj_on ?s {..<N}"
  proof (rule inj_onI)
    fix i j assume ij: "i \<in> {..<N}" "j \<in> {..<N}" "?s i = ?s j"
    have "(a * (2 * ?s n + 1)) mod (2 * N) = 2 * n + 1" if "n < N" for n
    proof -
      have "(a * (2 * ?s n + 1)) mod (2 * N) = ((h * a) mod (2 * N) * (2 * n + 1)) mod (2 * N)"
        unfolding odd_lookup(1) [OF h(2) that] by (simp only: mod_mult_left_eq mod_mult_right_eq ac_simps)
      then show ?thesis unfolding h(1) using that by simp
    qed
    from trans [OF this [of i, symmetric, unfolded ij(3)] this [of j]] ij(1,2) have "2 * i + 1 = 2 * j + 1" by (simp only: lessThan_iff)
    then show "i = j" by simp
  qed
  then have inj: "inj_on ?s {..<length col}" unfolding len .
  have "permute_by (\<lambda>i. galois_to_index N (2 * N) ((h * index_to_galois N (2 * N) i) mod (2 * N))) col =
      (Ok (map (\<lambda>i. col ! ?s i) [0..<length col]) :: ('e, m512i list) outcome)"
  proof (rule permute_by_Ok [OF _ inj])
    fix i assume i: "i < length col"
    then have "i < N" using len by simp
    note this
    then show "galois_to_index N (2 * N) ((h * index_to_galois N (2 * N) i) mod (2 * N)) = (Ok (?s i) :: ('e, nat) outcome)"
      by (rule auto_index [OF h(2)])
    show "?s i < length col" unfolding len by (rule odd_lookup(2) [OF h(2) \<open>i < N\<close>])
  qed
  moreover have "vec r N (map (\<lambda>i. col ! ?s i) [0..<N]) (slot_value y N (auto5 N a F))"
    unfolding vec_def
  proof (intro conjI allI impI)
    fix j assume j: "j < N"
    show "represents r (2 * pm r) (map (\<lambda>i. col ! ?s i) [0..<N] ! j) (slot_value y N (auto5 N a F) j)"
      using represents_cong [OF vecD(2) [OF col odd_lookup(2) [OF h(2) j]] slot_auto [OF y h j, symmetric]] j by simp
  qed simp
  ultimately show ?thesis unfolding len by blast
qed


section \<open>Transforming a row\<close>

definition turn_power :: "index_group \<Rightarrow> nat \<Rightarrow> nat" where
  "turn_power g k = (if requires_conj g \<and> \<not> k < loop_len g then k - loop_len g else k)"

definition turn_sign :: "index_group \<Rightarrow> nat \<Rightarrow> int" where
  "turn_sign g k = (if requires_conj g \<and> \<not> k < loop_len g then - 1 else 1)"

lemma conjugate_split: "conjugate g k = turn_sign g k * 5 ^ turn_power g k"
  by (simp add: conjugate_def turn_sign_def turn_power_def)

text \<open>The transform of the entries that column \<open>k\<close> holds after the third step.\<close>

definition hat :: "nat \<Rightarrow> index_group \<Rightarrow> (nat \<Rightarrow> nat \<Rightarrow> nat \<Rightarrow> int) \<Rightarrow> nat \<Rightarrow> nat \<Rightarrow> nat \<Rightarrow> int" where
  "hat N g A k = a_hat N (group_order g) (turn_sign g k) (query_base_power g) A (turn_power g k)"

lemma even_steps:
  assumes "group_ok g N m"
  shows "int (query_base_power g) dvd int N"
proof (cases "requires_conj g")
  case True
  then show ?thesis using group_full [OF assms] by simp
next
  case False
  obtain r where r: "group_order g * query_base_power g = 2 ^ m" using group_sub [OF assms False] by blast
  have "N = 2 * (group_order g * query_base_power g)" using assms unfolding r group_ok_def by simp
  then show ?thesis by simp
qed

lemma row_power:
  assumes g: "group_ok g N m" and i: "i < N"
  defines "zp \<equiv> (index_to_galois N (2 * N) i * ((2 * N - query_base_power g mod (2 * N)) mod (2 * N))) mod (2 * N)"
  shows "zp < 2 * N" "int zp mod int (2 * N) = (- (int (2 * i + 1) * int (query_base_power g))) mod int (2 * N)"
    "\<exists>c. odd c \<and> int zp = int (query_base_power g) * c"
proof -
  let ?u = "int (query_base_power g)" and ?m = "2 * N"
  have m: "0 < ?m" using i by simp
  show "zp < ?m" using m by (simp add: zp_def)
  have "index_to_galois N ?m i = 2 * i + 1" using i by (simp add: index_to_galois_def)
  then have "int zp = (int (2 * i + 1) * int ((?m - query_base_power g mod ?m) mod ?m)) mod int ?m"
    by (simp only: zp_def zmod_int of_nat_mult)
  also have "\<dots> = (int (2 * i + 1) * (- ?u)) mod int ?m"
    unfolding neg_residue [OF m] by (simp only: mod_mult_right_eq)
  finally have e: "int zp = (- (int (2 * i + 1) * ?u)) mod int ?m" by simp
  then show "int zp mod int ?m = (- (int (2 * i + 1) * ?u)) mod int ?m" by simp
  obtain b where b: "int N = ?u * b" using even_steps [OF g] by blast
  define q where "q = (- (int (2 * i + 1) * ?u)) div int ?m"
  have "int zp = - (int (2 * i + 1) * ?u) - int ?m * q" unfolding e q_def by (simp only: minus_mult_div_eq_mod [symmetric])
  also have "\<dots> = ?u * (- int (2 * i + 1) - 2 * b * q)" using b by (simp add: algebra_simps)
  finally show "\<exists>c. odd c \<and> int zp = ?u * c" by (intro exI [of _ "- int (2 * i + 1) - 2 * b * q"]) simp
qed

lemma coset_row:
  assumes root: "root_ok r N zeta y t" and pow: "pow_ok pow r zeta" and y: "half_turn (pm r) N y" and g: "group_ok g N m"
    and table: "ntt_spec r (group_order g) (y ^ (2 * N div group_order g)) fft_table" and i: "i < N"
    and vals: "vec r (group_order g) vals (\<lambda>j l. slot_value y N (A j) i l)"
  shows "\<exists>res. coset_ntt pow g r zeta ((index_to_galois N (2 * N) i * ((2 * N - query_base_power g mod (2 * N)) mod (2 * N))) mod (2 * N)) fft_table vals =
      (Ok res :: ('e, m512i list) outcome) \<and> vec r (group_order g) res (\<lambda>k. slot_value y N (hat N g A k) i)"
proof -
  let ?zp = "(index_to_galois N (2 * N) i * ((2 * N - query_base_power g mod (2 * N)) mod (2 * N))) mod (2 * N)"
  let ?u = "int (query_base_power g)"
  note z = row_power [OF g i]
  obtain c where c: "odd c" "int ?zp = ?u * c" using z(3) by blast
  have N0: "0 < N" using i by simp
  obtain res where res: "coset_ntt pow g r zeta ?zp fft_table vals = (Ok res :: ('e, m512i list) outcome)"
    "\<And>V. (\<forall>k < group_order g. \<exists>e. int e mod int (2 * N) = (int ?zp * conjugate g k) mod int (2 * N) \<and>
      (\<forall>l < 8. V k l mod pm r = (\<Sum>j < group_order g. slot_value y N (A j) i l * y ^ (e * j)) mod pm r)) \<Longrightarrow> vec r (group_order g) res V"
    using coset_ntt_vec [OF root pow y g table z(1) c(2,1) vals, where 'e = 'e] by blast
  have "vec r (group_order g) res (\<lambda>k. slot_value y N (hat N g A k) i)"
  proof (intro res(2) allI impI)
    fix k
    let ?s = "turn_sign g k" and ?w = "turn_power g k"
    define e where "e = nat ((- (?s * 5 ^ ?w * ?u)) mod int (2 * N))"
    have e: "int e = (- (?s * 5 ^ ?w * ?u)) mod int (2 * N)" using N0 by (simp add: e_def)
    have "int (e * j) mod (2 * int N) = (- ?s * (5 ^ ?w * int (query_base_power g * j))) mod (2 * int N)" for j
      using mod_mult_left_eq [of "- (?s * 5 ^ ?w * ?u)" "int (2 * N)" "int j"] by (simp add: e mult.assoc)
    then have v: "slot_value y N (hat N g A k) i l mod pm r =
        (\<Sum>j < group_order g. slot_value y N (A j) i l * y ^ ((2 * i + 1) * (e * j))) mod pm r" for l
      unfolding hat_def by (intro slot_a_hat [OF y N0])
    have "int ((2 * i + 1) * e) mod int (2 * N) = (int (2 * i + 1) * (- (?s * 5 ^ ?w * ?u))) mod int (2 * N)"
      unfolding of_nat_mult [of "2 * i + 1"] e by (simp only: mod_mult_right_eq)
    also have "int (2 * i + 1) * (- (?s * 5 ^ ?w * ?u)) = (- (int (2 * i + 1) * ?u)) * conjugate g k"
      unfolding conjugate_split by (simp only: minus_mult_left [symmetric] minus_mult_right [symmetric] ac_simps)
    also have "\<dots> mod int (2 * N) = (int ?zp * conjugate g k) mod int (2 * N)"
      by (rule mod_mult_cong [OF z(2) [symmetric] refl])
    finally show "\<exists>e. int e mod int (2 * N) = (int ?zp * conjugate g k) mod int (2 * N) \<and>
        (\<forall>l < 8. slot_value y N (hat N g A k) i l mod pm r = (\<Sum>j < group_order g. slot_value y N (A j) i l * y ^ (e * j)) mod pm r)"
      using v by (intro exI [of _ "(2 * i + 1) * e"]) (simp only: mult.assoc simp_thms)
  qed
  then show ?thesis using res(1) by blast
qed


section \<open>All columns\<close>

lemma inverse_powers:
  assumes g: "group_ok g N m" and inv_g: "(gen_H * inv_g) mod (2 * N) = 1" and k: "k < group_order g"
  shows "(inv_g ^ k * 5 ^ turn_power g k) mod (2 * N) = 1" "odd (inv_g ^ k)"
proof -
  have N: "N = 2 ^ Suc m" using g by (simp add: group_ok_def)
  have one: "1 mod (2 * N) = (1 :: nat)" using N by simp
  have base: "(inv_g ^ j * 5 ^ j) mod (2 * N) = 1" for j
  proof -
    have "(gen_H * inv_g) ^ j mod (2 * N) = 1 ^ j mod (2 * N)" using inv_g one by (metis power_mod)
    then show ?thesis using one by (simp only: gen_H_def power_mult_distrib power_one mult.commute)
  qed
  have "odd inv_g"
  proof
    assume "even inv_g"
    then have "even ((gen_H * inv_g) mod (2 * N))" by (simp add: dvd_mod_iff)
    then show False using inv_g by simp
  qed
  then show "odd (inv_g ^ k)" by simp
  show "(inv_g ^ k * 5 ^ turn_power g k) mod (2 * N) = 1"
  proof (cases "requires_conj g \<and> \<not> k < loop_len g")
    case True
    let ?h = "2 ^ m :: nat"
    have h: "loop_len g = ?h" using True group_full [OF g] by simp
    obtain c where c: "(5 :: int) ^ ?h = 1 + 2 ^ (m + 2) * c" using five_power [of m] by auto
    have "int (5 ^ ?h mod (2 * N)) = (1 + int (2 * N) * c) mod int (2 * N)" unfolding zmod_int of_nat_power using c by (simp add: N)
    then have "int (5 ^ ?h mod (2 * N)) = int (1 mod (2 * N))" by (simp only: mod_mult_self2 zmod_int of_nat_1)
    then have five: "5 ^ ?h mod (2 * N) = 1" unfolding one by simp
    have "(inv_g ^ ?h * 5 ^ ?h) mod (2 * N) = (inv_g ^ ?h * (5 ^ ?h mod (2 * N))) mod (2 * N)" by (simp only: mod_mult_right_eq)
    then have "inv_g ^ ?h mod (2 * N) = 1" unfolding five base by simp
    then have "(inv_g ^ ?h * (inv_g ^ (k - ?h) * 5 ^ (k - ?h))) mod (2 * N) = (1 * 1) mod (2 * N)"
      by (intro mod_mult_cong) (simp_all only: base one)
    moreover have "inv_g ^ k = inv_g ^ ?h * inv_g ^ (k - ?h)" using True h by (simp flip: power_add)
    ultimately show ?thesis using True h one by (simp only: turn_power_def simp_thms if_True mult.assoc mult_1)
  next
    case False
    then show ?thesis using base [of k] by (auto simp: turn_power_def)
  qed
qed

lemma try_map_choose:
  assumes "\<And>x. x \<in> set xs \<Longrightarrow> \<exists>z. f x = Ok z \<and> P x z"
  shows "\<exists>zs. try_map f xs = Ok zs \<and> list_all2 P xs zs"
  using assms
proof (induction xs)
  case (Cons x xs)
  then obtain z zs where "f x = Ok z \<and> P x z" "try_map f xs = Ok zs \<and> list_all2 P xs zs" by (metis list.set_intros)
  then show ?case by simp
qed simp

lemma try_map_upto:
  assumes "\<And>i. i < n \<Longrightarrow> \<exists>z. f i = Ok z \<and> P i z"
  shows "\<exists>zs. try_map f [0..<n] = Ok zs \<and> length zs = n \<and> (\<forall>i < n. P i (zs ! i))"
  using try_map_choose [of "[0..<n]" f P] assms by (auto simp: list_all2_conv_all_nth)

lemma map_cols_each:
  assumes "length cols = n" "\<And>j. j < n \<Longrightarrow> \<exists>z. f j (cols ! j) = Ok z \<and> P j z"
  shows "\<exists>zs. map_cols f cols = Ok zs \<and> length zs = n \<and> (\<forall>j < n. P j (zs ! j))"
  unfolding map_cols_def assms(1) by (rule try_map_upto [OF assms(2)])

text \<open>A transform of the rows of a matrix, given by what it makes of the entries of each row.\<close>

lemma map_rows_vec:
  assumes cols: "length cols = n" "\<And>j. j < n \<Longrightarrow> vec r N (cols ! j) (\<lambda>i. F j i)"
    and f: "\<And>i vals. i < N \<Longrightarrow> vec r n vals (\<lambda>j. F j i) \<Longrightarrow> \<exists>res. f i vals = (Ok res :: ('e, m512i list) outcome) \<and> vec r n res (\<lambda>j. G j i)"
  shows "\<exists>cols'. map_rows N f cols = (Ok cols' :: ('e, m512i list list) outcome) \<and> length cols' = n \<and> (\<forall>j < n. vec r N (cols' ! j) (\<lambda>i. G j i))"
proof -
  have "vec r n (row_of cols i) (\<lambda>j. F j i)" if "i < N" for i
    unfolding vec_def row_of_def using cols(1) vecD(2) [OF cols(2) that] by simp
  then obtain rows where rows: "try_map (\<lambda>i. f i (row_of cols i)) [0..<N] = (Ok rows :: ('e, m512i list list) outcome)"
    "length rows = N" "\<forall>i < N. vec r n (rows ! i) (\<lambda>j. G j i)"
    using try_map_upto [of N "\<lambda>i. f i (row_of cols i)" "\<lambda>i res. vec r n res (\<lambda>j. G j i)"] f by blast
  have "map_rows N f cols = (Ok (map (\<lambda>j. map (\<lambda>r. r ! j) rows) [0..<n]) :: ('e, m512i list list) outcome)"
    using rows(1) by (simp add: map_rows_def cols(1))
  moreover have "vec r N (map (\<lambda>r. r ! j) rows) (\<lambda>i. G j i)" if "j < n" for j
    using rows(2) vecD(2) [OF rows(3) [rule_format] that] by (simp add: vec_def)
  ultimately show ?thesis by simp
qed

lemma columns_transformed:
  assumes root: "root_ok r N zeta y t" and pow: "pow_ok pow r zeta" and y: "half_turn (pm r) N y" and g: "group_ok g N m"
    and table: "ntt_spec r (group_order g) (y ^ (2 * N div group_order g)) fft_table" and inv_g: "(gen_H * inv_g) mod (2 * N) = 1"
    and cols: "length cols = group_order g" "\<And>j. j < group_order g \<Longrightarrow> vec r N (cols ! j) (A j)"
  shows "\<exists>step2 step3 step4. map_cols (\<lambda>j. weighted_ntt r zeta t) cols = (Ok step2 :: ('e, m512i list list) outcome) \<and>
    map_rows N (\<lambda>i. coset_ntt pow g r zeta ((index_to_galois N (2 * N) i * ((2 * N - query_base_power g mod (2 * N)) mod (2 * N))) mod (2 * N)) fft_table) step2 =
      (Ok step3 :: ('e, m512i list list) outcome) \<and>
    map_cols (\<lambda>j. permute_by (\<lambda>i. galois_to_index N (2 * N) ((inv_g ^ j * index_to_galois N (2 * N) i) mod (2 * N)))) step3 =
      (Ok step4 :: ('e, m512i list list) outcome) \<and>
    length step4 = group_order g \<and>
    (\<forall>k < group_order g. vec r N (step4 ! k) (slot_value y N (auto5 N (5 ^ turn_power g k) (hat N g A k))))"
proof -
  let ?L = "group_order g"
  obtain step2 where s2: "map_cols (\<lambda>j. weighted_ntt r zeta t) cols = (Ok step2 :: ('e, m512i list list) outcome)" "length step2 = ?L"
    "\<forall>j < ?L. vec r N (step2 ! j) (slot_value y N (A j))"
    using map_cols_each [OF cols(1), of "\<lambda>j. weighted_ntt r zeta t" "\<lambda>j v. vec r N v (slot_value y N (A j))"] weighted_ntt_vec [OF root cols(2), where 'e = 'e] by blast
  obtain step3 where s3: "map_rows N (\<lambda>i. coset_ntt pow g r zeta ((index_to_galois N (2 * N) i * ((2 * N - query_base_power g mod (2 * N)) mod (2 * N))) mod (2 * N)) fft_table) step2 =
      (Ok step3 :: ('e, m512i list list) outcome)" "length step3 = ?L" "\<forall>k < ?L. vec r N (step3 ! k) (slot_value y N (hat N g A k))"
    using map_rows_vec [OF s2(2) s2(3) [rule_format] coset_row [OF root pow y g table, where 'e = 'e], of "\<lambda>i. i" "\<lambda>i v. v" "\<lambda>i. A"] by blast
  obtain step4 where s4: "map_cols (\<lambda>j. permute_by (\<lambda>i. galois_to_index N (2 * N) ((inv_g ^ j * index_to_galois N (2 * N) i) mod (2 * N)))) step3 =
      (Ok step4 :: ('e, m512i list list) outcome)" "length step4 = ?L"
    "\<forall>k < ?L. vec r N (step4 ! k) (slot_value y N (auto5 N (5 ^ turn_power g k) (hat N g A k)))"
    using map_cols_each [OF s3(2), of "\<lambda>j. permute_by (\<lambda>i. galois_to_index N (2 * N) ((inv_g ^ j * index_to_galois N (2 * N) i) mod (2 * N)))"
        "\<lambda>k v. vec r N v (slot_value y N (auto5 N (5 ^ turn_power g k) (hat N g A k)))"]
      auto_column [OF y inverse_powers [OF g inv_g] s3(3) [rule_format], where 'e = 'e] by blast
  show ?thesis using s2(1) s3(1) s4 by blast
qed


section \<open>The stored entries\<close>

text \<open>Coefficient \<open>n\<close> of the entry that query index \<open>j\<close> selects in lane \<open>l\<close>.\<close>

definition entry_coeff :: "('z, 'p) poly_ring \<Rightarrow> 'p list \<Rightarrow> nat \<Rightarrow> nat \<Rightarrow> nat \<Rightarrow> int" where
  "entry_coeff R entries j n l = coeff R (entries ! (j * SIMD_COUNT + l)) n"

text \<open>Plaintext coefficients are representatives below the first prime as well.\<close>

definition entries_fit :: "('z, 'p, 'r) pir_database \<Rightarrow> 'p list \<Rightarrow> bool" where
  "entries_fit db entries \<longleftrightarrow> (\<forall>x \<in> set entries. \<forall>n < pr_rank (db_ring db).
     zn_lift (sz_component_ring (fst (db_rns_base db))) (pr_basis (db_ring db) x ! n) = coeff (db_ring db) x n)"

definition transform_ok ::
    "('z special_zn \<Rightarrow> m512i \<Rightarrow> nat \<Rightarrow> m512i) \<Rightarrow> nat \<Rightarrow> nat \<Rightarrow> int \<times> int \<Rightarrow> ('z, 'p, 'r) pir_database \<Rightarrow> bool" where
  "transform_ok pow N m ys db \<longleftrightarrow> (let r = fst (db_rns_base db); g = db_index_group db; t = zn_modulus (pr_base (db_ring db)) in
     group_ok g N m \<and> pow_ok pow r (fst (db_zeta db)) \<and> ntt_spec r (group_order g) (fst ys ^ (2 * N div group_order g)) (fst (db_len_subgroup_order_ntts db)) \<and>
     poly_spec (db_ring db) \<and> 2 * t * int N < Q_FACTOR1 \<and> coprime (int (group_order g)) t)"

text \<open>What pass \<open>i\<close> of a half multiplies the query with; the passes take the columns of a half in reverse.\<close>

definition stored_entry ::
    "('z, 'p, 'r) pir_database \<Rightarrow> 'z \<Rightarrow> (nat \<Rightarrow> nat \<Rightarrow> nat \<Rightarrow> int) \<Rightarrow> nat \<Rightarrow> nat \<Rightarrow> nat \<Rightarrow> int" where
  "stored_entry db scale A k n l = (let N = pr_rank (db_ring db); g = db_index_group db in
     rescaled (pr_base (db_ring db)) scale (auto5 N (5 ^ turn_power g k) (hat N g A k) n l))"

definition reversed_column :: "index_group \<Rightarrow> nat \<Rightarrow> nat" where
  "reversed_column g i = (if i < loop_len g then loop_len g - 1 - i else loop_len g + (loop_len g - 1 - (i - loop_len g)))"

lemma group_halves:
  assumes "group_ok g N m"
  shows "group_order g = (if requires_conj g then 2 * loop_len g else loop_len g)" "group_order g \<le> N"
    "requires_conj g \<Longrightarrow> N div 2 = loop_len g" "0 < loop_len g"
proof -
  have N: "N = 2 ^ Suc m" using assms by (simp add: group_ok_def)
  have "group_order g = (if requires_conj g then 2 * loop_len g else loop_len g) \<and> group_order g \<le> N \<and> (requires_conj g \<longrightarrow> N div 2 = loop_len g) \<and> 0 < loop_len g"
  proof (cases "requires_conj g")
    case True
    then show ?thesis using group_full [OF assms] N by simp
  next
    case False
    obtain r where r: "r \<le> m" "group_order g = 2 ^ r" "loop_len g = group_order g" using group_sub [OF assms False] by blast
    have "(2 :: nat) ^ r \<le> 2 ^ Suc m" using r(1) by (intro power_increasing) simp_all
    then show ?thesis using False r N by simp
  qed
  then show "group_order g = (if requires_conj g then 2 * loop_len g else loop_len g)" "group_order g \<le> N"
    "requires_conj g \<Longrightarrow> N div 2 = loop_len g" "0 < loop_len g" by blast+
qed

lemma reversed_columns:
  assumes g: "group_ok g N m" and cols: "length cols = group_order g"
  defines "step5 \<equiv> (if requires_conj g then rev (take (N div 2) cols) @ rev (drop (N div 2) cols) else rev cols)"
  shows "length step5 = group_order g" "i < group_order g \<Longrightarrow> step5 ! i = cols ! reversed_column g i" "i < group_order g \<Longrightarrow> reversed_column g i < group_order g"
  using group_halves [OF g] cols
  by (auto simp: step5_def reversed_column_def nth_append rev_nth min_def split: if_splits)

lemma concat_held:
  assumes "length cols = len" "\<And>i. i < len \<Longrightarrow> rns_held rns N (cols ! i) (F i, G i)"
  shows "entries_held rns N len (concat (map fst cols), concat (map snd cols)) (F, G)"
proof -
  have each: "length (fst (cols ! i)) = N" "length (snd (cols ! i)) = N" if "i < len" for i using assms(2) [OF that] by (simp_all add: rns_held_def)
  have maps: "map fst cols = map (\<lambda>i. fst (cols ! i)) [0..<len]" "map snd cols = map (\<lambda>i. snd (cols ! i)) [0..<len]"
    using assms(1) by (auto intro: nth_equalityI)
  show ?thesis
    unfolding entries_held_def fst_conv snd_conv maps
    using length_concat_groups [of len _ N, OF each(1)] length_concat_groups [of len _ N, OF each(2)]
      nth_concat_groups [of len _ N, OF each(1)] nth_concat_groups [of len _ N, OF each(2)] assms(2)
    by (simp add: rns_held_def mult.commute)
qed

lemma first_step:
  assumes r: "special_ok r" and fit: "\<And>x n. x \<in> set entries \<Longrightarrow> n < N \<Longrightarrow> zn_lift (sz_component_ring r) (pr_basis R x ! n) = coeff R x n"
    and len: "length entries = L * SIMD_COUNT" and j: "j < L"
  shows "vec r N (map (\<lambda>i. from_components r (map (\<lambda>k. pr_basis R (entries ! (j * SIMD_COUNT + k)) ! i) [0..<SIMD_COUNT])) [0..<N]) (entry_coeff R entries j)"
  unfolding vec_def
proof (intro conjI allI impI)
  fix n assume n: "n < N"
  let ?zs = "map (\<lambda>k. pr_basis R (entries ! (j * SIMD_COUNT + k)) ! n) [0..<SIMD_COUNT]"
  have "represents r (2 * pm r) (from_components r ?zs) (entry_coeff R entries j n)"
  proof (rule represents_two [OF r represents_cong [OF from_components_represents [OF r]]])
    fix l :: nat assume l: "l < 8"
    have "j * 8 + l < length entries" using j l len by (simp add: SIMD_COUNT_def)
    then show "zn_lift (sz_component_ring r) (?zs ! l) mod pm r = entry_coeff R entries j n l mod pm r"
      using l fit [OF nth_mem n] by (simp add: entry_coeff_def SIMD_COUNT_def)
  qed
  then show "represents r (2 * pm r) (map (\<lambda>i. from_components r (map (\<lambda>k. pr_basis R (entries ! (j * SIMD_COUNT + k)) ! i) [0..<SIMD_COUNT])) [0..<N] ! n)
      (entry_coeff R entries j n)" using n by simp
qed simp

lemma set_transformed_holds:
  fixes db :: "('z, 'p, 'r) pir_database"
  assumes db: "database_ok N ys inv_g db" and y: "half_turn Q_FACTOR1 N (fst ys)" and tr: "transform_ok pow N m ys db"
    and entries: "length entries = group_order (db_index_group db) * SIMD_COUNT" "entries_fit db entries"
  defines "g \<equiv> db_index_group db" and "t \<equiv> zn_modulus (pr_base (db_ring db))" and "A \<equiv> entry_coeff (db_ring db) entries"
  shows "\<exists>scale te te'. set_transformed_entries pow inv_g entries db =
      (Ok (db\<lparr>db_transformed_entries := te, db_transformed_entries_conj := te', db_reply_a := ([], [])\<rparr>) :: ('e, ('z, 'p, 'r) pir_database) outcome) \<and>
    (int (group_order g) * zn_lift (pr_base (db_ring db)) scale) mod t = 1 \<and>
    (let S = \<lambda>y i. slot_value y N (stored_entry db scale A (reversed_column g i)); len = loop_len g in
      entries_held (db_rns_base db) N len te (S (fst ys), S (snd ys)) \<and>
      (requires_conj g \<longrightarrow> entries_held (db_rns_base db) N len te' (\<lambda>i. S (fst ys) (len + i), \<lambda>i. S (snd ys) (len + i))))"
proof -
  note d = database_okD [OF db] and o = rns_okD [OF database_okD(5) [OF db]]
  let ?r = "fst (db_rns_base db)" and ?R = "db_ring db" and ?L = "group_order g"
  have T: "group_ok g N m" "pow_ok pow ?r (fst (db_zeta db))" "ntt_spec ?r ?L (fst ys ^ (2 * N div ?L)) (fst (db_len_subgroup_order_ntts db))"
    "poly_spec ?R" "2 * t * int N < Q_FACTOR1" "coprime (int ?L) t"
    using tr unfolding transform_ok_def Let_def g_def t_def by blast+
  have Zt: "zn_arith_spec (pr_base ?R)" using T(4) by (simp add: poly_spec_def)
  note halves = group_halves [OF T(1)]
  have y': "half_turn (pm ?r) N (fst ys)" unfolding o(6) by (rule y)
  define step1 where "step1 = map (\<lambda>j. map (\<lambda>i. from_components ?r (map (\<lambda>k. pr_basis ?R (entries ! (j * SIMD_COUNT + k)) ! i) [0..<SIMD_COUNT]))
    [0..<N]) [0..<?L]"
  have s1: "length step1 = ?L" "\<And>j. j < ?L \<Longrightarrow> vec ?r N (step1 ! j) (A j)"
    using first_step [OF o(4), of entries N ?R ?L] entries d(1) by (simp_all add: step1_def A_def entries_fit_def g_def)
  obtain step2 step3 step4 where s: "map_cols (\<lambda>j. weighted_ntt ?r (fst (db_zeta db)) (fst (db_len_N_ntts db))) step1 = (Ok step2 :: ('e, m512i list list) outcome)"
    "map_rows N (\<lambda>i. coset_ntt pow g ?r (fst (db_zeta db)) ((index_to_galois N (2 * N) i * ((2 * N - query_base_power g mod (2 * N)) mod (2 * N))) mod (2 * N))
      (fst (db_len_subgroup_order_ntts db))) step2 = (Ok step3 :: ('e, m512i list list) outcome)"
    "map_cols (\<lambda>j. permute_by (\<lambda>i. galois_to_index N (2 * N) ((inv_g ^ j * index_to_galois N (2 * N) i) mod (2 * N)))) step3 = (Ok step4 :: ('e, m512i list list) outcome)"
    "length step4 = ?L" "\<forall>k < ?L. vec ?r N (step4 ! k) (slot_value (fst ys) N (auto5 N (5 ^ turn_power g k) (hat N g A k)))"
    using columns_transformed [OF o(2) T(2) y' T(1,3) d(4) s1, where 'e = 'e] by blast
  define step5 where "step5 = (if requires_conj g then rev (take (N div 2) step4) @ rev (drop (N div 2) step4) else rev step4)"
  note s5 = reversed_columns [OF T(1) s(4), folded step5_def]
  have "coprime (zn_lift (pr_base ?R) (zn_of_int (pr_base ?R) (int ?L))) t"
    unfolding zn_lift_of_int [OF Zt] t_def [symmetric] using T(6) zn_modulus_gt_1 [OF Zt] by (simp add: t_def)
  then obtain scale where scale: "zn_invert (pr_base ?R) (zn_of_int (pr_base ?R) (int ?L)) = Some scale"
    "(zn_lift (pr_base ?R) (zn_of_int (pr_base ?R) (int ?L)) * zn_lift (pr_base ?R) scale) mod t = 1"
    using Zt unfolding zn_arith_spec_def t_def by blast
  define S where "S = (\<lambda>i. stored_entry db scale A (reversed_column g i))"
  have emb: "\<exists>c. embed_column db scale (step5 ! i) = (Ok c :: ('e, compressed_rns_el) outcome) \<and>
      rns_held (db_rns_base db) N c (slot_value (fst ys) N (S i), slot_value (snd ys) N (S i))" if i: "i < ?L" for i
  proof -
    let ?k = "reversed_column g i"
    let ?T = "auto5 N (5 ^ turn_power g ?k) (hat N g A ?k)"
    have v: "vec ?r N (step5 ! i) (slot_value (fst ys) N ?T)" using s(5) s5(2,3) [OF i] by simp
    have small: "2 * \<bar>?T n l\<bar> < Q_FACTOR1" if n: "n < N" and l: "l < 8" for n l
    proof -
      have N0: "0 < N" using n by simp
      have "\<bar>A j n l\<bar> \<le> t" for j n l
        using zn_lift_range [OF Zt, of "pr_basis ?R (entries ! (j * SIMD_COUNT + l)) ! n"] by (simp add: A_def entry_coeff_def coeff_def t_def)
      then have "\<bar>?T n l\<bar> \<le> int ?L * t" unfolding hat_def by (intro auto5_bound [OF a_hat_bound N0] N0)
      also have "\<dots> \<le> int N * t" using halves(2) zn_modulus_gt_1 [OF Zt] by (intro mult_right_mono) (simp_all add: t_def)
      finally show ?thesis using T(5) by (simp add: ac_simps)
    qed
    have "N = 2 ^ Suc m" using T(1) by (simp add: group_ok_def)
    from embed_column_held [OF db y this v small, of scale, where 'e = 'e]
    show ?thesis by (simp add: S_def stored_entry_def [abs_def] Let_def d(1) g_def)
  qed
  obtain cols where cols: "try_map (embed_column db scale) step5 = (Ok cols :: ('e, compressed_rns_el list) outcome)" "length cols = ?L"
    "\<And>i. i < ?L \<Longrightarrow> rns_held (db_rns_base db) N (cols ! i) (slot_value (fst ys) N (S i), slot_value (snd ys) N (S i))"
  proof -
    have each: "\<exists>c. embed_column db scale x = (Ok c :: ('e, compressed_rns_el) outcome)" if "x \<in> set step5" for x
      using that emb s5(1) by (metis in_set_conv_nth)
    have "\<exists>cols. try_map (embed_column db scale) step5 = (Ok cols :: ('e, compressed_rns_el list) outcome) \<and>
        list_all2 (\<lambda>x c. embed_column db scale x = (Ok c :: ('e, compressed_rns_el) outcome)) step5 cols"
      by (rule try_map_choose) (use each in blast)
    then obtain cols where c: "try_map (embed_column db scale) step5 = (Ok cols :: ('e, compressed_rns_el list) outcome)"
      "list_all2 (\<lambda>x c. embed_column db scale x = (Ok c :: ('e, compressed_rns_el) outcome)) step5 cols" by blast
    have "rns_held (db_rns_base db) N (cols ! i) (slot_value (fst ys) N (S i), slot_value (snd ys) N (S i))" if i: "i < ?L" for i
    proof -
      have "embed_column db scale (step5 ! i) = (Ok (cols ! i) :: ('e, compressed_rns_el) outcome)"
        using c(2) i s5(1) by (simp add: list_all2_conv_all_nth)
      then show ?thesis using emb [OF i] by auto
    qed
    then show ?thesis using c(1) list_all2_lengthD [OF c(2)] s5(1) by (intro that [of cols]) simp_all
  qed
  let ?len = "loop_len g"
  let ?plain = "take ?len cols" and ?conj = "drop ?len cols"
  have len: "?len \<le> ?L" "requires_conj g \<Longrightarrow> ?L = ?len + ?len" using halves(1) by (auto split: if_splits)
  have plain: "entries_held (db_rns_base db) N ?len (concat (map fst ?plain), concat (map snd ?plain))
      (\<lambda>i. slot_value (fst ys) N (S i), \<lambda>i. slot_value (snd ys) N (S i))"
    by (rule concat_held) (use cols len in simp_all)
  have conj: "entries_held (db_rns_base db) N ?len (concat (map fst ?conj), concat (map snd ?conj))
      (\<lambda>i. slot_value (fst ys) N (S (?len + i)), \<lambda>i. slot_value (snd ys) N (S (?len + i)))" if "requires_conj g"
    by (rule concat_held) (use cols len(2) [OF that] in simp_all)
  have fits: "2 * zn_modulus (pr_base ?R) * int N < zn_modulus (sz_component_ring ?r)"
    using T(5) special_okD(5) [OF o(4)] o(6) by (simp add: t_def)
  have "set_transformed_entries pow inv_g entries db = (Ok (db\<lparr>db_transformed_entries := (concat (map fst ?plain), concat (map snd ?plain)),
      db_transformed_entries_conj := (concat (map fst ?conj), concat (map snd ?conj)), db_reply_a := ([], [])\<rparr>) :: ('e, ('z, 'p, 'r) pir_database) outcome)"
    unfolding set_transformed_entries_def Let_def d(1) entries(1) g_def [symmetric] step1_def [symmetric]
    using fits by (simp only: not_True_eq_False if_False simp_thms s(1-3) bind_outcome.simps scale(1) unwrap_def option.case step5_def [symmetric] cols(1))
  moreover have "(int ?L * zn_lift (pr_base ?R) scale) mod t = 1"
    using scale(2) unfolding zn_lift_of_int [OF Zt] t_def [symmetric] by (simp only: mod_mult_left_eq)
  ultimately show ?thesis using plain conj unfolding S_def Let_def by blast
qed

end
