(* ===== verification/Ring_Answer.thy ===== *)
theory Ring_Answer
  imports Turns Evaluation
begin

text \<open>
  The answer of a shard as a polynomial over the integers: Horner's rule over the passes with the automorphism of
  5 in place of the power. It is linear in the query, small for small queries, and for a query \<open>X\<^sup>d\<close> and
  the transformed entries it is the selected entry.
\<close>

section \<open>Products and monomials\<close>

lemma neg_mod: "a mod p = b mod (p :: int) \<Longrightarrow> - a mod p = - b mod p"
  using mod_mult_cong [of "- 1" p "- 1" a b] by simp

lemma nega_ext:
  assumes "n < N"
  shows "nega N F G n l = (\<Sum>a < N. F a l * ext N G (int n - int a) l)"
  unfolding nega_def
proof (rule sum.cong [OF refl])
  fix a assume a: "a \<in> {..<N}"
  show "(if a \<le> n then F a l * G (n - a) l else - (F a l * G (N + n - a) l)) = F a l * ext N G (int n - int a) l"
  proof (cases "a \<le> n")
    case True
    then have "int n - int a = int (n - a)" by simp
    then show ?thesis using True assms ext_small [of "n - a" N G l] by simp
  next
    case False
    then have "int n - int a + int N = int (N + n - a)" using a by simp
    moreover have "ext N G (int n - int a + int N) l = - ext N G (int n - int a) l" using assms by (intro ext_turn) simp
    ultimately have "ext N G (int n - int a) l = - ext N G (int (N + n - a)) l" by (simp only: minus_minus)
    moreover have "N + n - a < N" using False a by simp
    ultimately show ?thesis using False ext_small [of "N + n - a" N G l] by simp
  qed
qed

lemma ext_one:
  assumes "0 < N"
  shows "ext N (\<lambda>n l. if n = 0 then 1 else 0) e l = (if e mod (2 * int N) = 0 then 1 else if e mod (2 * int N) = int N then - 1 else 0)"
proof -
  have "0 \<le> e mod (2 * int N)" "e mod (2 * int N) < 2 * int N" using assms by simp_all
  then show ?thesis by (auto simp: ext_def Let_def nat_less_iff)
qed

lemma nega_mono:
  assumes "n < N"
  shows "nega N F (mono N d) n l = ext N F (int n - d) l"
proof -
  have N: "0 < N" using assms by simp
  define i where "i = (int n - d) mod (2 * int N)"
  have i: "0 \<le> i" "i < 2 * int N" using N by (simp_all add: i_def)
  have t: "ext N (mono N d) (int n - int a) l = (if int a = i then 1 else if int a = i - int N then - 1 else 0)" if a: "a < N" for a
  proof -
    have "(int n - int a - d) mod (2 * int N) = (i - int a) mod (2 * int N)"
    proof -
      have "int n - int a - d = (int n - d) - int a" by simp
      then show ?thesis unfolding i_def by (simp only: mod_diff_left_eq)
    qed
    moreover have "(i - int a) mod (2 * int N) = (if int a \<le> i then i - int a else i - int a + 2 * int N)"
    proof (cases "int a \<le> i")
      case False
      have "(i - int a) mod (2 * int N) = (i - int a + 2 * int N) mod (2 * int N)" by (simp only: mod_add_self2)
      also have "\<dots> = i - int a + 2 * int N" using False i a by (intro mod_pos_pos_trivial) simp_all
      finally show ?thesis using False by simp
    qed (use i in simp)
    ultimately show ?thesis
      unfolding mono_def ext_shift [OF N] ext_one [OF N] using i a by auto
  qed
  have "nega N F (mono N d) n l = (\<Sum>a < N. F a l * (if int a = i then 1 else if int a = i - int N then - 1 else 0))"
    unfolding nega_ext [OF assms] by (intro sum.cong refl) (simp add: t)
  also have "\<dots> = (if i < int N then F (nat i) l else - F (nat i - N) l)"
  proof (cases "i < int N")
    case True
    then have "F a l * (if int a = i then 1 else if int a = i - int N then - 1 else 0) = (if a = nat i then F a l else 0)" for a
      using i by auto
    then show ?thesis using True i by (simp add: sum.delta nat_less_iff)
  next
    case False
    then have "F a l * (if int a = i then 1 else if int a = i - int N then - 1 else 0) = (if a = nat i - N then - F a l else 0)" if "a < N" for a
      using i that by auto
    then have "(\<Sum>a < N. F a l * (if int a = i then 1 else if int a = i - int N then - 1 else 0)) = (\<Sum>a < N. if a = nat i - N then - F a l else 0)"
      by (intro sum.cong refl) simp
    moreover have "nat i - N < N" using i False by linarith
    ultimately show ?thesis using False by (simp only: sum.delta finite_lessThan lessThan_iff if_True if_False)
  qed
  also have "\<dots> = ext N F (int n - d) l" using i by (simp add: ext_def Let_def i_def [symmetric] nat_less_iff)
  finally show ?thesis .
qed

lemma nega_mod:
  assumes "\<And>a. a < N \<Longrightarrow> F a l mod p = F' a l mod p" "\<And>a. a < N \<Longrightarrow> G a l mod p = G' a l mod (p :: int)" "n < N"
  shows "nega N F G n l mod p = nega N F' G' n l mod p"
  unfolding nega_def
proof (rule sum_mod_cong)
  fix a assume a: "a \<in> {..<N}"
  show "(if a \<le> n then F a l * G (n - a) l else - (F a l * G (N + n - a) l)) mod p =
      (if a \<le> n then F' a l * G' (n - a) l else - (F' a l * G' (N + n - a) l)) mod p"
  proof (cases "a \<le> n")
    case True
    then have "n - a < N" using assms(3) by simp
    then have "(F a l * G (n - a) l) mod p = (F' a l * G' (n - a) l) mod p" using a by (intro mod_mult_cong assms(1,2)) simp_all
    then show ?thesis using True by (simp only: if_True)
  next
    case False
    then have "N + n - a < N" using a by simp
    then have "(F a l * G (N + n - a) l) mod p = (F' a l * G' (N + n - a) l) mod p" using a by (intro mod_mult_cong assms(1,2)) simp_all
    then have "- (F a l * G (N + n - a) l) mod p = - (F' a l * G' (N + n - a) l) mod p" by (rule neg_mod)
    then show ?thesis using False by (simp only: if_False)
  qed
qed

lemma nega_linear:
  "nega N E (\<lambda>n l. F n l + c * G n l) n l = nega N E F n l + c * nega N E G n l"
  unfolding nega_def sum_distrib_left sum.distrib [symmetric] by (intro sum.cong refl) (simp add: algebra_simps)

lemma nega_scale: "nega N (\<lambda>n l. c * E n l) F n l = c * nega N E F n l"
  unfolding nega_def sum_distrib_left by (intro sum.cong refl) (simp add: algebra_simps)


section \<open>The answer\<close>

fun ring_answer :: "nat \<Rightarrow> nat \<Rightarrow> (nat \<Rightarrow> nat \<Rightarrow> nat \<Rightarrow> int) \<Rightarrow> (nat \<Rightarrow> nat \<Rightarrow> int) \<Rightarrow> nat \<Rightarrow> nat \<Rightarrow> nat \<Rightarrow> int" where
  "ring_answer N inv_g E F 0 = (\<lambda>n l. 0)"
| "ring_answer N inv_g E F (Suc i) = (\<lambda>n l. auto5 N inv_g (ring_answer N inv_g E F i) n l + nega N (E i) F n l)"

lemma slot_ring_answer:
  assumes y: "half_turn p N y" and g: "(gen_H * inv_g) mod (2 * N) = 1" and j: "j < N"
  shows "rotated_sum (galois_lookup N gen_H) (\<lambda>i j l. slot_value y N (E i) j l * slot_value y N F j l) i j l mod p =
    slot_value y N (ring_answer N inv_g E F i) j l mod p"
  using j
proof (induction i arbitrary: j)
  case 0
  then show ?case by (simp add: rotated_sum.simps slot_value_def)
next
  case (Suc i)
  have "galois_lookup N gen_H j < N" using galois_row_maps [OF g] Suc.prems by (simp add: row_maps_def)
  from Suc.IH [OF this] show ?case
    unfolding rotated_sum.simps ring_answer.simps slot_add
    by (intro mod_add_cong) (simp_all only: slot_auto5 [OF y g Suc.prems] slot_nega [OF y])
qed

lemma auto5_mod:
  assumes "\<And>n. n < N \<Longrightarrow> F n l mod p = G n l mod (p :: int)" "0 < N"
  shows "auto5 N inv_g F n l mod p = auto5 N inv_g G n l mod p"
proof -
  have "(inv_g * n) mod (2 * N) < 2 * N" using assms(2) by simp
  then have "(inv_g * n) mod (2 * N) - N < N" by linarith
  then have "F ((inv_g * n) mod (2 * N) - N) l mod p = G ((inv_g * n) mod (2 * N) - N) l mod p" by (rule assms(1))
  then show ?thesis using assms(1) [of "(inv_g * n) mod (2 * N)"] unfolding auto5_def Let_def by (auto intro: neg_mod)
qed

lemma ring_answer_mod:
  assumes "\<And>i a. i < len \<Longrightarrow> a < N \<Longrightarrow> E i a l mod p = E' i a l mod p" "\<And>a. a < N \<Longrightarrow> F a l mod p = F' a l mod (p :: int)" "i \<le> len" "n < N"
  shows "ring_answer N inv_g E F i n l mod p = ring_answer N inv_g E' F' i n l mod p"
  using assms(3,4)
proof (induction i arbitrary: n)
  case (Suc i)
  have N: "0 < N" using Suc.prems by simp
  show ?case
    unfolding ring_answer.simps using Suc assms(1,2) by (intro mod_add_cong auto5_mod nega_mod N) simp_all
qed simp

lemma ring_answer_linear:
  "ring_answer N inv_g E (\<lambda>n l. F n l + c * G n l) i n l = ring_answer N inv_g E F i n l + c * ring_answer N inv_g E G i n l"
proof (induction i arbitrary: n)
  case (Suc i)
  have "auto5 N inv_g (ring_answer N inv_g E (\<lambda>n l. F n l + c * G n l) i) n l =
      auto5 N inv_g (ring_answer N inv_g E F i) n l + c * auto5 N inv_g (ring_answer N inv_g E G i) n l"
    using Suc by (simp add: auto5_def Let_def)
  then show ?case by (simp add: nega_linear algebra_simps)
qed simp

lemma ring_answer_scale: "ring_answer N inv_g (\<lambda>i n l. c * E i n l) F i n l = c * ring_answer N inv_g E F i n l"
proof (induction i arbitrary: n)
  case (Suc i)
  then have "auto5 N inv_g (ring_answer N inv_g (\<lambda>i n l. c * E i n l) F i) n l = c * auto5 N inv_g (ring_answer N inv_g E F i) n l"
    by (simp add: auto5_def Let_def)
  then show ?case by (simp add: nega_scale algebra_simps)
qed simp

lemma ring_answer_bound:
  assumes "\<And>i a. i < len \<Longrightarrow> a < N \<Longrightarrow> \<bar>E i a l\<bar> \<le> b" "\<And>a. a < N \<Longrightarrow> \<bar>F a l\<bar> \<le> c" "i \<le> len" "n < N"
  shows "\<bar>ring_answer N inv_g E F i n l\<bar> \<le> int i * (int N * (b * c))"
  using assms(3,4)
proof (induction i arbitrary: n)
  case (Suc i)
  have "\<bar>auto5 N inv_g (ring_answer N inv_g E F i) n l\<bar> \<le> int i * (int N * (b * c))"
    using Suc by (intro auto5_bound) simp_all
  moreover have "\<bar>nega N (E i) F n l\<bar> \<le> int N * (b * c)"
    using assms(1,2) Suc.prems by (intro nega_bound) simp_all
  moreover have "int (Suc i) * (int N * (b * c)) = int i * (int N * (b * c)) + int N * (b * c)" by (simp add: algebra_simps)
  ultimately show ?case unfolding ring_answer.simps by linarith
qed simp

text \<open>Unrolled: pass \<open>i - 1 - k\<close> is moved by the \<open>k\<close>-th power of the automorphism.\<close>

lemma ring_answer_sum:
  assumes N: "0 < N" and g: "odd inv_g" and n: "n < N"
  shows "ring_answer N inv_g E F i n l = (\<Sum>k < i. ext N (nega N (E (i - 1 - k)) F) (int inv_g ^ k * int n) l)"
  using n
proof (induction i arbitrary: n)
  case (Suc i)
  let ?G = "\<lambda>k. nega N (E (i - 1 - k)) F"
  have "auto5 N inv_g (ring_answer N inv_g E F i) n l = ext N (\<lambda>n l. \<Sum>k < i. ext N (?G k) (int inv_g ^ k * int n) l) (int inv_g * int n) l"
  proof -
    have "ext N (ring_answer N inv_g E F i) (int inv_g * int n) l = ext N (\<lambda>n l. ring_answer N inv_g E F i n l) (int inv_g * int n) l" by simp
    then show ?thesis unfolding auto5_ext by (intro ext_eq_fun N) (rule Suc.IH)
  qed
  also have "\<dots> = (\<Sum>k < i. ext N (?G k) (int inv_g ^ k * (int inv_g * int n)) l)"
    unfolding ext_sum using ext_subst [OF N, of "int inv_g ^ _" _ 0] g by (intro sum.cong refl) simp
  finally have a: "auto5 N inv_g (ring_answer N inv_g E F i) n l = (\<Sum>k < i. ext N (nega N (E (Suc i - 1 - Suc k)) F) (int inv_g ^ Suc k * int n) l)"
    by (simp add: mult.assoc mult.left_commute)
  show ?case
    unfolding ring_answer.simps a sum.lessThan_Suc_shift using Suc.prems by simp
qed simp

end
