(* ===== verification/Reference_Engine.thy ===== *)
theory Reference_Engine
  imports Answer_Correct Turns
begin

text \<open>
  Concrete instances of the engine's parameters, which show that their contracts can be met: prime fields
  with division, a transform written as a sum, and a small database of rank 16 over the deployed primes.
\<close>

section \<open>Fields\<close>

definition field_arith :: "int \<Rightarrow> int zn_arith" where
  "field_arith m = (int_arith m)\<lparr>zn_checked_div := (\<lambda>a b. map_option (\<lambda>i. (a * i) mod m) (zn_invert (int_arith m) b))\<rparr>"

lemma field_arith_simps [simp]:
  "zn_modulus (field_arith m) = m" "zn_lift (field_arith m) z = z mod m" "zn_of_int (field_arith m) x = x mod m"
  "zn_checked_div (field_arith m) a b = map_option (\<lambda>i. (a * i) mod m) (zn_invert (int_arith m) b)"
  by (simp_all add: field_arith_def int_arith_def)

lemma field_arith_same:
  "zn_mul (field_arith m) = zn_mul (int_arith m)" "zn_neg (field_arith m) = zn_neg (int_arith m)"
  "zn_smallest_lift (field_arith m) = zn_smallest_lift (int_arith m)" "zn_invert (field_arith m) = zn_invert (int_arith m)"
  "zn_lift (field_arith m) = zn_lift (int_arith m)" "zn_modulus (field_arith m) = zn_modulus (int_arith m)"
  by (simp_all add: field_arith_def)

lemma field_arith_spec:
  assumes "m > 1"
  shows "zn_arith_spec (field_arith m)"
proof -
  have i: "zn_arith_spec (int_arith m)" by (rule int_arith_spec [OF assms])
  have "(b mod m * (((a * x) mod m) mod m)) mod m = a mod m" if "zn_invert (int_arith m) b = Some x" for a b x
  proof -
    have "(b * x) mod m = 1" using that by (simp add: int_arith_def Let_def split: if_splits)
    then have e: "((b * x) mod m * a) mod m = a mod m" by simp
    show ?thesis unfolding e [symmetric] by (simp only: mod_mult_left_eq mod_mult_right_eq mod_mod_trivial) (simp only: ac_simps)
  qed
  then have "zn_spec (zn_ring.truncate (field_arith m))"
    using assms by (auto simp: zn_spec_def zn_ring.defs)
  then show ?thesis using i unfolding zn_arith_spec_def field_arith_same by blast
qed

text \<open>The vector rings over them.\<close>

definition field_ring :: "nat \<Rightarrow> int special_zn" where
  "field_ring K = (demo_ring K)\<lparr>sz_component_ring := zn_ring.truncate (field_arith (uint (2 ^ K - 4095 :: u64)))\<rparr>"

definition field_pair :: "int special_zn \<times> int special_zn" where
  "field_pair = (field_ring 26, field_ring 25)"

definition field_scalars :: "int zn_arith \<times> int zn_arith" where
  "field_scalars = (field_arith Q_FACTOR1, field_arith Q_FACTOR2)"

lemma field_ring_ok:
  assumes "K = 26 \<or> K = 25"
  shows "special_ok (field_ring K)" "md (field_ring K) = md (demo_ring K)"
proof -
  show m: "md (field_ring K) = md (demo_ring K)" by (simp add: field_ring_def md_def)
  have d: "special_ok (demo_ring K)" using assms demo_ring_ok(1) demo_ring_25_ok(1) by auto
  then have "uint (2 ^ K - 4095 :: u64) = int (md (demo_ring K))"
    using special_okD(5) [OF d] by (simp add: demo_ring_def Let_def int_zn_def)
  moreover have "1 < uint (2 ^ K - 4095 :: u64)" using assms by auto
  ultimately show "special_ok (field_ring K)"
    using d field_arith_spec [of "uint (2 ^ K - 4095 :: u64)"]
    by (simp add: special_ok_def m, simp add: field_ring_def zn_arith_spec_def zn_ring.defs)
qed

lemma field_pair_ok: "prime_pair field_pair field_scalars"
proof -
  have q: "pm (field_ring 26) = Q_FACTOR1" "pm (field_ring 25) = Q_FACTOR2"
    using demo_ring_ok(2) demo_ring_25_ok(2) by (simp_all add: field_ring_ok(2) q_values)
  have "sz_component_ring (field_ring 26) = zn_ring.truncate (field_arith Q_FACTOR1)"
    "sz_component_ring (field_ring 25) = zn_ring.truncate (field_arith Q_FACTOR2)"
    by (simp_all add: field_ring_def q_values)
  then show ?thesis
    using q field_ring_ok(1) field_arith_spec by (simp add: prime_pair_def field_pair_def field_scalars_def q_values)
qed

section \<open>A transform written as a sum\<close>

definition ref_dft :: "'z special_zn \<Rightarrow> nat \<Rightarrow> int \<Rightarrow> m512i list \<Rightarrow> m512i list" where
  "ref_dft r n w vs = map (\<lambda>j. map (\<lambda>l. word_of_int ((\<Sum>i < n. uint (vs ! i ! l) * w ^ (i * j)) mod zn_modulus (sz_component_ring r))) [0..<8]) [0..<n]"

definition ref_ntt :: "'z special_zn \<Rightarrow> nat \<Rightarrow> int \<Rightarrow> int \<Rightarrow> ntt_table" where
  "ref_ntt r n w n_inv = \<lparr>fft = ref_dft r n w,
     inv_fft = (\<lambda>vs. map (map (\<lambda>x. word_of_int ((uint x * n_inv) mod zn_modulus (sz_component_ring r)))) (ref_dft r n (w ^ (n - 1)) vs))\<rparr>"

lemma residue_lane:
  assumes "special_ok r"
  shows "uint (word_of_int (x mod pm r) :: u64) = x mod pm r"
proof -
  have "0 \<le> x mod pm r" "x mod pm r < pm r" using md_bounds(1) [OF assms] by simp_all
  moreover have "pm r < 2 ^ 64" using md_bounds(2) [OF assms] by simp
  ultimately have "x mod pm r < 2 ^ 64" by linarith
  then show ?thesis using \<open>0 \<le> x mod pm r\<close> by (simp add: unsigned_of_int take_bit_int_eq_self)
qed

lemma residues_represent:
  assumes r: "special_ok r"
  shows "represents r (2 * pm r) (map (\<lambda>l. word_of_int (f l mod pm r)) [0..<8]) f"
proof -
  have "f l mod pm r \<le> 2 * pm r" for l using md_bounds(1) [OF r] pos_mod_bound [of "pm r" "f l"] by linarith
  then show ?thesis using residue_lane [OF r] by (simp add: represents_def)
qed

lemma ref_dft_vec:
  assumes r: "special_ok r" and v: "vec r n vs F"
  shows "vec r n (ref_dft r n w vs) (fft_value w n F)"
proof -
  have "represents r (2 * pm r) (ref_dft r n w vs ! j) (fft_value w n F j)" if j: "j < n" for j
  proof -
    let ?f = "\<lambda>l. \<Sum>i < n. uint (vs ! i ! l) * w ^ (i * j)"
    have "ref_dft r n w vs ! j = map (\<lambda>l. word_of_int (?f l mod pm r)) [0..<8]"
      using j by (simp add: ref_dft_def special_okD(5) [OF r])
    moreover have "?f l mod pm r = fft_value w n F j l mod pm r" if l: "l < 8" for l
      unfolding fft_value_def using representsD(3) [OF vecD(2) [OF v] l] by (intro sum_mod_cong mod_mult_cong refl) simp
    ultimately show ?thesis using represents_cong [OF residues_represent [OF r, of ?f]] by simp
  qed
  then show ?thesis by (simp add: vec_def) (simp add: ref_dft_def)
qed

lemma scaled_vec:
  assumes r: "special_ok r" and v: "vec r n vs F"
  shows "vec r n (map (map (\<lambda>x. word_of_int ((uint x * c) mod zn_modulus (sz_component_ring r)))) vs) (\<lambda>i l. c * F i l)"
proof -
  have "represents r (2 * pm r) (map (\<lambda>x. word_of_int ((uint x * c) mod pm r)) (vs ! i)) (\<lambda>l. c * F i l)" if i: "i < n" for i
  proof -
    have len: "length (vs ! i) = 8" using vecD(2) [OF v i] by (simp add: represents_def)
    have e: "map (\<lambda>x. word_of_int ((uint x * c) mod pm r)) (vs ! i) = map (\<lambda>l. word_of_int ((uint (vs ! i ! l) * c) mod pm r) :: u64) [0..<8]"
      by (rule nth_equalityI) (simp_all add: len)
    have "(uint (vs ! i ! l) * c) mod pm r = (c * F i l) mod pm r" if "l < 8" for l
      using mod_mult_cong [OF representsD(3) [OF vecD(2) [OF v i] that] refl, of c] by (simp only: mult.commute)
    then show ?thesis
      unfolding e by (rule represents_cong [OF residues_represent [OF r, of "\<lambda>l. uint (vs ! i ! l) * c"]])
  qed
  then show ?thesis using vecD(1) [OF v] by (simp add: vec_def special_okD(5) [OF r])
qed

text \<open>Orthogonality of the powers of the root.\<close>

lemma root_orthogonal:
  fixes w p :: int
  assumes one: "w ^ n mod p = 1 mod p" and away: "\<And>d. 0 < d \<Longrightarrow> d < n \<Longrightarrow> coprime (w ^ d - 1) p" and jk: "j < n" "k < n"
  shows "(\<Sum>i < n. (w ^ (n - 1)) ^ (j * i) * w ^ (i * k)) mod p = (if j = k then int n else 0) mod p"
proof -
  let ?d = "(n - 1) * j + k"
  have terms: "(w ^ (n - 1)) ^ (j * i) * w ^ (i * k) = (w ^ ?d) ^ i" for i
    by (simp only: power_mult [symmetric] power_add [symmetric]) (simp add: algebra_simps)
  have wrap: "w ^ m mod p = w ^ (m mod n) mod p" for m
  proof -
    have "(w ^ n) ^ (m div n) mod p = 1 ^ (m div n) mod p" by (metis one power_mod)
    then have "((w ^ n) ^ (m div n) * w ^ (m mod n)) mod p = (1 * w ^ (m mod n)) mod p"
      using mod_mult_cong by fastforce
    then show ?thesis by (simp flip: power_mult power_add)
  qed
  have n: "(w ^ ?d) ^ n mod p = 1 mod p"
    by (simp only: power_mult [symmetric] wrap [of "?d * n"]) simp
  show ?thesis
  proof (cases "j = k")
    case True
    have "?d = n * k" using True jk by (cases n) simp_all
    then have "w ^ ?d mod p = 1 mod p" using wrap [of ?d] by simp
    then have "(w ^ ?d) ^ i mod p = 1 mod p" for i by (metis power_mod power_one)
    then have "(\<Sum>i < n. (w ^ ?d) ^ i) mod p = (\<Sum>i < n. 1) mod p" by (rule sum_mod_cong)
    then show ?thesis using True unfolding terms by simp
  next
    case False
    let ?e = "?d mod n"
    have "?e < n" using jk by simp
    moreover have "0 < ?e"
    proof (rule ccontr)
      assume "\<not> 0 < ?e"
      then have "(?d + j) mod n = j mod n" using mod_add_left_eq [of ?d n j] by simp
      moreover have e: "?d + j = k + j * n" using jk by (cases n) simp_all
      have "(?d + j) mod n = k mod n" unfolding e by simp
      ultimately show False using jk False by simp
    qed
    ultimately have c: "coprime (w ^ ?e - 1) p" using away by blast
    have "(w ^ ?e) ^ i mod p = (w ^ ?d) ^ i mod p" for i by (metis wrap power_mod)
    then have "(\<Sum>i < n. (w ^ ?d) ^ i) mod p = (\<Sum>i < n. (w ^ ?e) ^ i) mod p" "(w ^ ?e) ^ n mod p = 1 mod p"
      using n by (auto intro!: sum_mod_cong)
    then show ?thesis using False geometric_zero [OF _ c] unfolding terms by simp
  qed
qed


lemma ref_ntt_spec:
  assumes r: "special_ok r" and one: "w ^ n mod pm r = 1 mod pm r" and n_inv: "(int n * n_inv) mod pm r = 1"
    and away: "\<And>d. 0 < d \<Longrightarrow> d < n \<Longrightarrow> coprime (w ^ d - 1) (pm r)"
  shows "ntt_spec r n w (ref_ntt r n w n_inv)"
  unfolding ntt_spec_def
proof (intro conjI allI impI)
  fix vs F assume "vec r n vs F"
  then show "vec r n (fft (ref_ntt r n w n_inv) vs) (fft_value w n F)" by (simp add: ref_ntt_def ref_dft_vec [OF r])
next
  fix vs V assume v: "vec r n vs V"
  let ?F = "\<lambda>i l. n_inv * fft_value (w ^ (n - 1)) n V i l"
  have "vec r n (inv_fft (ref_ntt r n w n_inv) vs) ?F" unfolding ref_ntt_def by (simp add: scaled_vec [OF r ref_dft_vec [OF r v]])
  moreover have "fft_value w n ?F k l mod pm r = V k l mod pm r" if k: "k < n" for k l
  proof -
    have "fft_value w n ?F k l = (\<Sum>i < n. \<Sum>j < n. n_inv * V j l * ((w ^ (n - 1)) ^ (j * i) * w ^ (i * k)))"
      unfolding fft_value_def sum_distrib_left sum_distrib_right by (intro sum.cong refl) (simp only: ac_simps)
    also have "\<dots> = (\<Sum>j < n. n_inv * V j l * (\<Sum>i < n. (w ^ (n - 1)) ^ (j * i) * w ^ (i * k)))"
      unfolding sum_distrib_left by (rule sum.swap)
    finally have "fft_value w n ?F k l mod pm r = (\<Sum>j < n. n_inv * V j l * (if j = k then int n else 0)) mod pm r"
      using root_orthogonal [OF one away _ k] by (simp only:) (intro sum_mod_cong mod_mult_cong refl; simp)
    also have "(\<Sum>j < n. n_inv * V j l * (if j = k then int n else 0)) = (int n * n_inv) * V k l"
      using k by (simp add: sum.delta if_distrib [of "\<lambda>x. _ * x"] cong: if_cong)
    finally show ?thesis using mod_mult_left_eq [of "int n * n_inv" "pm r" "V k l"] n_inv by simp
  qed
  ultimately show "\<exists>F. vec r n (inv_fft (ref_ntt r n w n_inv) vs) F \<and> (\<forall>j < n. \<forall>l < 8. fft_value w n F j l mod pm r = V j l mod pm r)"
    by (intro exI [of _ ?F]) simp
qed

lemma field_division:
  assumes K: "K = 26 \<or> K = 25" and v: "represents (field_ring K) (2 * pm (field_ring K)) v (\<lambda>_. z)" and z: "(z * y) mod pm (field_ring K) = 1"
  shows "checked_left_div (field_ring K) (from_int (field_ring K) 1) v \<noteq> None"
proof -
  let ?r = "field_ring K"
  let ?p = "pm ?r"
  have r: "special_ok ?r" using field_ring_ok(1) [OF K] .
  have p: "?p < 2 ^ 31" "?p > 1" using field_ring_ok(2) [OF K] K demo_ring_ok(2) demo_ring_25_ok(2) by auto
  let ?ls = "get_components ?r (reduce_from_2p ?r (from_int ?r 1))" and ?rs = "get_components ?r (reduce_from_2p ?r v)"
  have R: "sz_component_ring ?r = zn_ring.truncate (field_arith ?p)"
    using K field_ring_ok(2) demo_ring_ok(2) demo_ring_25_ok(2) by (auto simp: field_ring_def)
  have "zn_checked_div (sz_component_ring ?r) (?ls ! i) (?rs ! i) \<noteq> None" if i: "i < 8" for i
  proof -
    have b: "?rs ! i mod ?p = z mod ?p"
      using components_represents [OF r reduce_from_2p_represents [OF r v] p(1) i] unfolding R by (simp add: truncated_ring)
    have "coprime (z * y) ?p" using z p(2) coprime_mod_left_iff [of ?p "z * y"] by simp
    then have "coprime (?rs ! i mod ?p) ?p" using p(2) unfolding b by simp
    then obtain x where "zn_invert (int_arith ?p) (?rs ! i) = Some x"
      using int_arith_spec [OF p(2)] unfolding zn_arith_spec_def by (auto simp: int_arith_def)
    then show ?thesis unfolding R by (simp add: zn_ring.defs)
  qed
  then have "None \<notin> (\<lambda>i. zn_checked_div (sz_component_ring ?r) (?ls ! i) (?rs ! i)) ` set [0..<8]" by fastforce
  then show ?thesis by (simp add: checked_left_div_def Let_def)
qed

text \<open>A table for every rank \<open>2 ^ k\<close> and root of \<open>- 1\<close>.\<close>

lemma ref_root_ok:
  assumes K: "K = 26 \<or> K = 25" and y: "half_turn (pm (field_ring K)) (2 ^ k) y" and z: "(z * y) mod pm (field_ring K) = 1"
    and n_inv: "(2 ^ k * n_inv) mod pm (field_ring K) = 1"
  shows "root_ok (field_ring K) (2 ^ k) (replicate 8 (word_of_int (z mod pm (field_ring K)))) y (ref_ntt (field_ring K) (2 ^ k) (y ^ 2) n_inv)"
proof -
  let ?r = "field_ring K" and ?n = "2 ^ k :: nat"
  let ?p = "pm ?r" and ?zeta = "replicate 8 (word_of_int (z mod pm (field_ring K))) :: m512i"
  have r: "special_ok ?r" using field_ring_ok(1) [OF K] .
  have p: "odd ?p" "?p < 2 ^ 31" "?p > 1"
    using md_bounds(2) [OF r] field_ring_ok(2) [OF K] K demo_ring_ok(2) demo_ring_25_ok(2) by auto
  have zeta: "represents ?r (2 * ?p) ?zeta (\<lambda>_. z)"
  proof -
    have e: "?zeta = map (\<lambda>l. word_of_int (z mod ?p)) [0..<8]" by (simp add: map_replicate_const)
    show ?thesis unfolding e by (rule residues_represent [OF r, of "\<lambda>_. z"])
  qed
  have full: "(y ^ 2) ^ ?n mod ?p = 1 mod ?p"
  proof -
    have "(y ^ 1) ^ ?n mod ?p = - 1 mod ?p" by (rule half_turn_power [OF y]) simp
    then have "(y ^ ?n * y ^ ?n) mod ?p = ((- 1) * (- 1)) mod ?p" by (intro mod_mult_cong) simp_all
    then show ?thesis by (simp add: power2_eq_square power_mult_distrib)
  qed
  have "coprime ((y ^ 2) ^ d - 1) ?p" if "0 < d" "d < ?n" for d by (rule root_powers_coprime [OF y p(1) that])
  then have t: "ntt_spec ?r ?n (y ^ 2) (ref_ntt ?r ?n (y ^ 2) n_inv)"
    using n_inv by (intro ref_ntt_spec [OF r full]) simp_all
  have "checked_left_div ?r (from_int ?r 1) ?zeta \<noteq> None" by (rule field_division [OF K zeta z])
  then show ?thesis using r zeta z t by (auto simp: root_ok_def)
qed


section \<open>Polynomials and a database\<close>

lemma sum_single:
  fixes f :: "nat \<Rightarrow> int"
  assumes "k < N" "\<And>b. b < N \<Longrightarrow> f b = (if b = k then v else 0)"
  shows "(\<Sum>b = 0..<N. f b) = v"
proof -
  have "(\<Sum>b = 0..<N. f b) = (\<Sum>b = 0..<N. if b = k then v else 0)" using assms(2) by (intro sum.cong refl) simp
  then show ?thesis using assms(1) by simp
qed

lemma int_poly_mul:
  assumes "i < N"
  shows "coeff (int_poly N m) (pr_mul (int_poly N m) x y) i =
    nega N (\<lambda>i _. coeff (int_poly N m) x i) (\<lambda>i _. coeff (int_poly N m) y i) i 0 mod m"
proof -
  let ?at = "\<lambda>x i. if i < length x then x ! i else 0 :: int"
  have c: "coeff (int_poly N m) x i = ?at x i mod m" if "i < N" for x i
    using that by (simp add: coeff_def int_poly_def int_arith_def Let_def)
  have inner: "(\<Sum>b = 0..<N. if a + b = i then ?at x a * ?at y b else if a + b = i + N then - (?at x a * ?at y b) else 0) =
      (if a \<le> i then ?at x a * ?at y (i - a) else - (?at x a * ?at y (N + i - a)))" if a: "a < N" for a
  proof -
    show ?thesis
    proof (cases "a \<le> i")
      case True
      then show ?thesis using a assms by (intro sum_single [of "i - a"]) auto
    next
      case False
      then show ?thesis using a assms by (intro sum_single [of "N + i - a"]) auto
    qed
  qed
  have "coeff (int_poly N m) (pr_mul (int_poly N m) x y) i =
      (\<Sum>a = 0..<N. \<Sum>b = 0..<N. if a + b = i then ?at x a * ?at y b else if a + b = i + N then - (?at x a * ?at y b) else 0) mod m"
    using assms by (simp add: coeff_def int_poly_def int_arith_def Let_def cong: if_cong)
  also have "\<dots> = (\<Sum>a < N. if a \<le> i then ?at x a * ?at y (i - a) else - (?at x a * ?at y (N + i - a))) mod m"
    unfolding atLeast0LessThan [symmetric] by (intro arg_cong [where f = "\<lambda>x. x mod m"] sum.cong refl inner) simp
  also have "\<dots> = nega N (\<lambda>i _. coeff (int_poly N m) x i) (\<lambda>i _. coeff (int_poly N m) y i) i 0 mod m"
    unfolding nega_def
  proof (rule sum_mod_cong)
    fix a assume "a \<in> {..<N}"
    then have a: "a < N" by simp
    show "(if a \<le> i then ?at x a * ?at y (i - a) else - (?at x a * ?at y (N + i - a))) mod m =
        (if a \<le> i then coeff (int_poly N m) x a * coeff (int_poly N m) y (i - a)
         else - (coeff (int_poly N m) x a * coeff (int_poly N m) y (N + i - a))) mod m"
    proof (cases "a \<le> i")
      case True
      have "i - a < N" using assms by simp
      then show ?thesis unfolding if_P [OF True] by (simp only: c a mod_mult_eq)
    next
      case False
      have "N + i - a < N" using False a by simp
      then have "(?at x a * ?at y (N + i - a)) mod m = (coeff (int_poly N m) x a * coeff (int_poly N m) y (N + i - a)) mod m"
        by (simp only: c a mod_mult_eq)
      then show ?thesis unfolding if_not_P [OF False] by (metis mod_minus_eq)
    qed
  qed
  finally show ?thesis .
qed


lemma int_poly_rank: "pr_rank (int_poly N m) = N" "zn_modulus (pr_base (int_poly N m)) = m"
  by (simp_all add: int_poly_def int_arith_def Let_def)

lemma small_root_ok:
  "root_ok (field_ring 26) 16 (replicate 8 15432174) 514051 (ref_ntt (field_ring 26) 16 (514051 ^ 2) 62910721)"
  "root_ok (field_ring 25) 16 (replicate 8 10089674) 878186 (ref_ntt (field_ring 25) 16 (878186 ^ 2) 31453441)"
proof -
  have m: "pm (field_ring 26) = 67104769" "pm (field_ring 25) = 33550337"
    using demo_ring_ok(2) demo_ring_25_ok(2) by (simp_all add: field_ring_ok(2))
  show "root_ok (field_ring 26) 16 (replicate 8 15432174) 514051 (ref_ntt (field_ring 26) 16 (514051 ^ 2) 62910721)"
    using ref_root_ok [of 26 4 514051 15432174 62910721] unfolding m by (simp add: half_turn_def)
  show "root_ok (field_ring 25) 16 (replicate 8 10089674) 878186 (ref_ntt (field_ring 25) 16 (878186 ^ 2) 31453441)"
    using ref_root_ok [of 25 4 878186 10089674 31453441] unfolding m by (simp add: half_turn_def)
qed

text \<open>A database of rank 16 with one subgroup of two elements: lane \<open>l\<close> of entry \<open>j\<close> of pass \<open>i\<close> is \<open>16i + j + l\<close>.\<close>

definition small_entries :: "int special_zn \<Rightarrow> compressed list" where
  "small_entries r = map (\<lambda>i. compress_lanes (map (\<lambda>l. word_of_int (int (i + l) mod pm r)) [0..<8])) [0..<32]"

definition small_value :: "nat \<Rightarrow> nat \<Rightarrow> nat \<Rightarrow> int" where
  "small_value i j l = int (16 * i + j + l)"

definition small_db :: "(int, int list, int list) pir_database" where
  "small_db = \<lparr>db_ring = int_poly 16 1025, db_ciphertext_ring = int_poly 16 FIXED_Q, db_index_group = \<lparr>ig_N = 16, ig_l = 2\<rparr>,
     db_transformed_entries = (small_entries (field_ring 26), small_entries (field_ring 25)), db_transformed_entries_conj = ([], []),
     db_reply_a = ([], []), db_inner_prod_gk = replicate 2 (replicate 32 (replicate 8 0), replicate 32 (replicate 8 0)),
     db_inner_prod_conj_gk = [], db_rns_base = field_pair, db_component_rings = field_scalars,
     db_len_N_ntts = (ref_ntt (field_ring 26) 16 (514051 ^ 2) 62910721, ref_ntt (field_ring 25) 16 (878186 ^ 2) 31453441),
     db_len_subgroup_order_ntts = (ref_ntt (field_ring 26) 2 1 0, ref_ntt (field_ring 25) 2 1 0),
     db_zeta = (replicate 8 15432174, replicate 8 10089674), db_use_seeds = FirstSet\<rparr>"

lemma small_db_ok: "database_ok 16 (514051, 878186) 13 small_db"
proof -
  have "poly_spec (int_poly 16 FIXED_Q)" by (rule int_poly_spec) (simp add: q_values)
  then show ?thesis
    using small_root_ok field_pair_ok
    by (simp add: database_ok_def small_db_def int_poly_rank gen_H_def rns_ok_def) (simp add: field_pair_def)
qed

lemma small_entries_held:
  assumes K: "K = 26 \<or> K = 25" and i: "i < 2" "j < 16"
  shows "held (field_ring K) (small_entries (field_ring K) ! (i * 16 + j)) (small_value i j)"
proof -
  have "i * 16 + j < 32" using i by simp
  then have e: "small_entries (field_ring K) ! (i * 16 + j) =
      compress_lanes (map (\<lambda>l. word_of_int (small_value i j l mod pm (field_ring K))) [0..<8])"
    by (simp add: small_entries_def small_value_def mult.commute)
  have "2 * pm (field_ring K) < 2 ^ 31"
    using K field_ring_ok(2) demo_ring_ok(2) demo_ring_25_ok(2) by auto
  then show ?thesis unfolding e by (rule compress_held [OF _ residues_represent [OF field_ring_ok(1) [OF K]]])
qed

lemma small_db_loaded: "loaded 16 small_db (small_value, small_value) ((\<lambda>_ _ _. 0), (\<lambda>_ _ _. 0))"
proof -
  have "loop_len (db_index_group small_db) = 2" "\<not> requires_conj (db_index_group small_db)"
    by (simp_all add: small_db_def index_group_defs)
  moreover have "entries_held (db_rns_base small_db) 16 2 (db_transformed_entries small_db) (small_value, small_value)"
    using small_entries_held by (simp add: entries_held_def small_db_def field_pair_def) (simp add: small_entries_def)
  ultimately show ?thesis by (simp add: loaded_def) (simp add: sized_def small_db_def)
qed

end
