(* ===== verification/Shard_Answer.thy ===== *)
theory Shard_Answer
  imports Evaluation Reference_Engine Double_Pir_Correct
begin

text \<open>
  The evaluation of a shard from the clients' keys to the decrypted answer: the Galois keys of \<open>gen_gk_b\<close> are
  what the evaluation needs, and the theorem of the whole evaluation.
\<close>

section \<open>The keys of the clients\<close>

lemma gal_coeff_auto5:
  assumes C: "poly_spec C" and Gal: "zn_arith_spec Gal" "zn_modulus Gal = 2 * int (pr_rank C)"
    and u: "(int gen_H * zn_lift Gal u) mod (2 * int (pr_rank C)) = 1" and g: "(gen_H * inv_g) mod (2 * pr_rank C) = 1" and n: "n < pr_rank C"
  shows "zn_lift (pr_base C) (gal_coeff C Gal u (pr_basis C sk) n) = auto5 (pr_rank C) inv_g (\<lambda>i _. coeff C sk i) n l mod zn_modulus (pr_base C)"
proof -
  let ?N = "pr_rank C" and ?u = "zn_lift Gal u"
  define k where "k = (inv_g * n) mod (2 * ?N)"
  have five: "(int gen_H * int inv_g) mod (2 * int ?N) = 1"
    using g by (metis of_nat_1 of_nat_mult of_nat_numeral zmod_int)
  have "?u mod (2 * int ?N) = (?u * ((int gen_H * int inv_g) mod (2 * int ?N))) mod (2 * int ?N)" unfolding five by simp
  also have "\<dots> = (((int gen_H * ?u) mod (2 * int ?N)) * int inv_g) mod (2 * int ?N)"
    by (simp only: mod_mult_left_eq mod_mult_right_eq ac_simps)
  finally have same: "?u mod (2 * int ?N) = int inv_g mod (2 * int ?N)" unfolding u by simp
  have "zn_lift Gal (zn_mul Gal (zn_of_int Gal (int n)) u) = (int n * ?u) mod (2 * int ?N)"
    by (simp add: zn_lift_mul [OF Gal(1)] zn_lift_of_int [OF Gal(1)] Gal(2) mod_mult_left_eq)
  also have "\<dots> = (int n * int inv_g) mod (2 * int ?N)" using mod_mult_cong [OF refl same] by blast
  also have "\<dots> = int k" by (simp add: k_def zmod_int mult.commute)
  finally have idx: "nat (zn_lift Gal (zn_mul Gal (zn_of_int Gal (int n)) u)) = k" by simp
  have "k < 2 * ?N" using n by (simp add: k_def)
  have "k \<noteq> ?N"
  proof
    assume "k = ?N"
    have "(gen_H * k) mod (2 * ?N) = (n * ((gen_H * inv_g) mod (2 * ?N))) mod (2 * ?N)"
      unfolding k_def by (simp only: mod_mult_left_eq mod_mult_right_eq ac_simps)
    then have "(gen_H * k) mod (2 * ?N) = n" using g n by simp
    moreover have "gen_H * ?N = ?N + 2 * ?N * 2" by (simp add: gen_H_def)
    ultimately show False using \<open>k = ?N\<close> n by simp
  qed
  then show ?thesis
    unfolding gal_coeff_def auto5_def Let_def idx k_def [symmetric]
    by (auto simp: coeff_def zn_lift_neg [OF poly_base [OF C]] zn_lift_range [OF poly_base [OF C]])
qed

lemma gen_gk_b_decrypts:
  assumes C: "poly_spec C" and Gal: "zn_arith_spec Gal" "zn_modulus Gal = 2 * int (pr_rank C)" and g: "(gen_H * inv_g) mod (2 * pr_rank C) = 1"
    and noise: "\<And>s. \<bar>fst (rng_gauss rng s)\<bar> \<le> bound"
    and gen: "gen_gk_b rng Gal C seeds s sk gen_H digits LOG2_B = (Ok (bs, s') :: ('e, 'r list \<times> 'g) outcome)" "digits = length seeds"
    and k: "k < digits" and n: "n < pr_rank C"
  shows "\<exists>e. \<bar>e\<bar> \<le> bound \<and> coeff C (pr_add C (pr_mul C (expand rng C (seeds ! k)) sk) (bs ! k)) n =
    (2 ^ (LOG2_B * k) * auto5 (pr_rank C) inv_g (\<lambda>i _. coeff C sk i) n l + e) mod zn_modulus (pr_base C)"
proof -
  let ?N = "2 * int (pr_rank C)"
  have "coprime (gen_H * inv_g) (2 * pr_rank C)" using g n by (metis coprime_mod_left_iff coprime_1_left mult_is_0 not_less0 zero_neq_numeral)
  then have "coprime gen_H (2 * pr_rank C)" by (simp add: coprime_mult_left_iff)
  then have "coprime (int gen_H) ?N" by (metis coprime_int_iff of_nat_mult of_nat_numeral)
  from gal_inverse [OF Gal this] obtain u where u: "zn_invert Gal (zn_of_int Gal (int gen_H)) = Some u" "(int gen_H * zn_lift Gal u) mod ?N = 1" .
  let ?gal = "pr_from_basis C (map (gal_coeff C Gal u (pr_basis C sk)) [0..<pr_rank C])"
  have bs: "(bs, s') = gk_digits rng C sk ?gal LOG2_B 0 seeds s"
    using gen by (simp add: gen_gk_b_def u unwrap_def Let_def)
  have gal: "coeff C ?gal n = auto5 (pr_rank C) inv_g (\<lambda>i _. coeff C sk i) n l mod zn_modulus (pr_base C)"
    using n gal_coeff_auto5 [OF C Gal u(2) g n] by (simp add: coeff_from_basis [OF C])
  obtain e where e: "\<bar>e\<bar> \<le> bound" "coeff C (pr_add C (pr_mul C (expand rng C (seeds ! k)) sk) (bs ! k)) n =
      (coeff C ?gal n * 2 ^ (LOG2_B * k) + e) mod zn_modulus (pr_base C)"
    using gk_digits_correct [OF C _ n noise, of k seeds sk ?gal LOG2_B 0 s] k gen(2) by (auto simp flip: bs)
  have "(coeff C ?gal n * 2 ^ (LOG2_B * k) + e) mod zn_modulus (pr_base C) =
      (2 ^ (LOG2_B * k) * auto5 (pr_rank C) inv_g (\<lambda>i _. coeff C sk i) n l + e) mod zn_modulus (pr_base C)"
    unfolding gal by (intro mod_add_cong refl) (simp only: mod_mult_left_eq mod_mult_right_eq mult.commute)
  then show ?thesis using e by (intro exI [of _ e]) simp
qed

text \<open>\<open>client_keys\<close>: the Galois key of the query in every lane is what \<open>gen_gk_b\<close> returns to the owner of the secret.\<close>

definition client_keys ::
    "'g rng_ops \<Rightarrow> 'w zn_arith \<Rightarrow> int \<Rightarrow> 'r list \<Rightarrow> ('z, 'p, 'r) pir_database \<Rightarrow> 'r query_ref list \<Rightarrow> bool" where
  "client_keys rng Gal bound sks db queries \<longleftrightarrow> zn_arith_spec Gal \<and> zn_modulus Gal = 2 * int (pr_rank (db_ciphertext_ring db)) \<and>
     (\<forall>s. \<bar>fst (rng_gauss rng s)\<bar> \<le> bound) \<and> length queries = SIMD_COUNT \<and>
     (\<forall>l < SIMD_COUNT. \<exists>s s'. gen_gk_b rng Gal (db_ciphertext_ring db) (get_gk_seeds (db_use_seeds db)) s (sks ! l) gen_H GK_DIGITS LOG2_B =
        (Ok (qr_gk_b (queries ! l), s') :: (unit, 'r list \<times> 'g) outcome))"

lemma client_keys_encrypt:
  assumes ck: "client_keys rng Gal bound sks db queries" and ok: "database_ok N ys inv_g db"
  shows "keys_encrypt inv_g rng bound sks db queries" "0 \<le> bound" "length queries = 8"
proof -
  let ?C = "db_ciphertext_ring db"
  note d = database_okD [OF ok]
  have b: "\<bar>fst (rng_gauss rng s)\<bar> \<le> bound" for s using ck by (simp add: client_keys_def)
  show "0 \<le> bound" using b [of undefined] by linarith
  show len: "length queries = 8" using ck by (simp add: client_keys_def SIMD_COUNT_def)
  have two: "GK_DIGITS = length (get_gk_seeds (db_use_seeds db))" by (simp add: get_gk_seeds_def GK_DIGITS_def)
  show "keys_encrypt inv_g rng bound sks db queries"
    unfolding keys_encrypt_def Let_def
  proof (intro allI impI)
    fix k l n :: nat assume kln: "k < 2" "l < 8" "n < pr_rank ?C"
    obtain s s' where gen: "gen_gk_b rng Gal ?C (get_gk_seeds (db_use_seeds db)) s (sks ! l) gen_H GK_DIGITS LOG2_B =
        (Ok (qr_gk_b (queries ! l), s') :: (unit, 'c list \<times> 'a) outcome)"
      using ck kln(2) by (auto simp: client_keys_def SIMD_COUNT_def)
    have Gal: "zn_arith_spec Gal" "zn_modulus Gal = 2 * int (pr_rank ?C)" using ck by (simp_all add: client_keys_def)
    have g: "(gen_H * inv_g) mod (2 * pr_rank ?C) = 1" using d by simp
    have kd: "k < GK_DIGITS" using kln(1) by (simp add: GK_DIGITS_def)
    have lane: "auto5 (pr_rank ?C) inv_g (lane_coeff ?C sks) n l = auto5 (pr_rank ?C) inv_g (\<lambda>i _. coeff ?C (sks ! l) i) n l"
      by (simp add: auto5_def lane_coeff_def Let_def)
    from gen_gk_b_decrypts [OF d(6) Gal g b gen two kd kln(3), of l]
    show "\<exists>err. \<bar>err\<bar> \<le> bound \<and>
       decrypted ?C sks (replicate 8 (expand rng ?C (get_gk_seeds (db_use_seeds db) ! k))) (map (\<lambda>q. qr_gk_b q ! k) queries) n l =
         (2 ^ (LOG2_B * k) * auto5 (pr_rank ?C) inv_g (lane_coeff ?C sks) n l + err) mod zn_modulus (pr_base ?C)"
      unfolding lane decrypted_def using kln len by simp
  qed
qed


section \<open>Property\<close>

text \<open>
  The answer of a shard to eight clients. The database holds its entries \<open>E\<close> (and \<open>E'\<close> for the conjugate half) as
  residues modulo the two primes, the clients' Galois keys are those of \<open>gen_gk_b\<close> under their secrets \<open>sks\<close>. Then
  the preprocessing, the \<open>a\<close>-part and the \<open>b\<close>-part of the reply are computed without a panic, and in every lane
  the reply decrypts, modulo both primes and in every slot of the ring, to the sum over the passes of entry times
  decrypted query, rotated by the automorphism (\<open>shard_answer\<close>), plus the slots of one noise polynomial with integer
  coefficients of absolute value at most \<open>2 len N (2 ^ 25 + 2 ^ 24) bound\<close>, where \<open>bound\<close> bounds the noise of the keys:
  the keys contribute additively per pass, and the gadget digits keep them small.
\<close>

theorem evaluation_decrypts:
  assumes "evaluation_ok N ys inv_g db" "loaded N db E E'" "even (loop_len (db_index_group db))"
    and "client_keys rng Gal bound sks db queries" "requires_conj (db_index_group db) \<longrightarrow> (\<forall>q \<in> set queries. qr_qry_conj_b q \<noteq> None)"
  shows "\<exists>db' a b noise. preprocess_db rng inv_g db = (Ok db' :: (unit, ('z, 'p, 'r) pir_database) outcome) \<and>
    get_a db' = (Ok a :: (unit, 'r list) outcome) \<and> perform_pir_split inv_g queries db' = (Ok b :: (unit, 'r list) outcome) \<and>
    length a = 8 \<and> length b = 8 \<and>
    (\<forall>n < N. \<forall>l < 8. \<bar>noise n l\<bar> \<le> 2 * int (loop_len (db_index_group db)) * (int N * ((2 ^ 25 + 2 ^ 24) * bound))) \<and>
    (\<forall>j < N. \<forall>l < 8.
      slot_value (fst ys) N (decrypted (db_ciphertext_ring db) sks a b) j l mod Q_FACTOR1 =
        (shard_answer (fst ys) N (loop_len (db_index_group db)) (requires_conj (db_index_group db)) (fst E) (fst E')
          (query_content rng sks db 0 qr_qry_b queries) (query_content rng sks db 1 (the \<circ> qr_qry_conj_b) queries) j l +
         slot_value (fst ys) N noise j l) mod Q_FACTOR1 \<and>
      slot_value (snd ys) N (decrypted (db_ciphertext_ring db) sks a b) j l mod Q_FACTOR2 =
        (shard_answer (snd ys) N (loop_len (db_index_group db)) (requires_conj (db_index_group db)) (snd E) (snd E')
          (query_content rng sks db 0 qr_qry_b queries) (query_content rng sks db 1 (the \<circ> qr_qry_conj_b) queries) j l +
         slot_value (snd ys) N noise j l) mod Q_FACTOR2)"
proof -
  have "database_ok N ys inv_g db" using assms(1) by (simp add: evaluation_ok_def)
  note k = client_keys_encrypt [OF assms(4) this]
  show ?thesis by (rule evaluation_slots [OF assms(1-3) k(3) assms(5) k(1,2)])
qed


text \<open>Eight clients with different secrets, whose keys and queries are computed by the client's functions.\<close>

definition demo_secret :: "nat \<Rightarrow> int list" where
  "demo_secret l = replicate l 0 @ [1, FIXED_Q - 1]"

definition demo_query :: "nat \<Rightarrow> int list query_ref" where
  "demo_query l = \<lparr>
     qr_qry_b = (case enc_sym_b unit_noise (int_poly 16 1025) (int_poly 16 FIXED_Q) (SEEDS ! 2) 0 (demo_secret l) (pr_gen_pow (int_poly 16 1025) 4)
       of Ok (b, g) \<Rightarrow> b | (_ :: (unit, int list \<times> nat) outcome) \<Rightarrow> []),
     qr_qry_conj_b = None,
     qr_gk_b = (case gen_gk_b unit_noise (int_arith 32) (int_poly 16 FIXED_Q) (get_gk_seeds FirstSet) 0 (demo_secret l) gen_H GK_DIGITS LOG2_B
       of Ok (bs, g) \<Rightarrow> bs | (_ :: (unit, int list list \<times> nat) outcome) \<Rightarrow> [])\<rparr>"

lemma demo_client_keys:
  "client_keys unit_noise (int_arith 32) 1 (map demo_secret [0..<8]) small_db (map demo_query [0..<8])"
proof -
  have Gal: "zn_arith_spec (int_arith 32)" "zn_modulus (int_arith 32) = 2 * int (pr_rank (int_poly 16 FIXED_Q))"
    using int_arith_spec [of 32] by (simp_all add: int_poly_rank) (simp add: int_arith_def)
  have "coprime (int gen_H) (2 * int (pr_rank (int_poly 16 FIXED_Q)))"
    by (simp add: int_poly_rank gen_H_def coprime_iff_gcd_eq_1 gcd_non_0_int)
  note ok = gen_gk_b_Ok [OF Gal this, of "get_gk_seeds FirstSet" GK_DIGITS unit_noise 0 _ LOG2_B, where 'e = unit]
  have "\<exists>s'. gen_gk_b unit_noise (int_arith 32) (int_poly 16 FIXED_Q) (get_gk_seeds FirstSet) 0 (demo_secret l) gen_H GK_DIGITS LOG2_B =
      (Ok (qr_gk_b (demo_query l), s') :: (unit, int list list \<times> nat) outcome)" for l
    using ok [of "demo_secret l"] by (auto simp: demo_query_def get_gk_seeds_def GK_DIGITS_def)
  then have "\<exists>s s'. gen_gk_b unit_noise (int_arith 32) (int_poly 16 FIXED_Q) (get_gk_seeds FirstSet) s (demo_secret l) gen_H GK_DIGITS LOG2_B =
      (Ok (qr_gk_b (demo_query l), s') :: (unit, int list list \<times> nat) outcome)" for l by blast
  then show ?thesis
    using Gal by (simp add: client_keys_def SIMD_COUNT_def) (simp add: small_db_def unit_noise_def)
qed

lemma small_evaluation_ok: "evaluation_ok 16 (514051, 878186) 13 small_db"
proof -
  have "poly_mul_spec (int_poly 16 FIXED_Q)"
    unfolding poly_mul_spec_def int_poly_rank using int_poly_mul by blast
  then show ?thesis
    using small_db_ok by (simp add: evaluation_ok_def half_turn_def Q_FACTOR1_def Q_FACTOR2_def) (simp add: small_db_def)
qed

theorem evaluation_decrypts_witness:
  "\<exists>db' a b noise. preprocess_db unit_noise 13 small_db = (Ok db' :: (unit, (int, int list, int list) pir_database) outcome) \<and>
    get_a db' = (Ok a :: (unit, int list list) outcome) \<and>
    perform_pir_split 13 (map demo_query [0..<8]) db' = (Ok b :: (unit, int list list) outcome) \<and> length b = 8 \<and>
    \<bar>noise 7 5\<bar> \<le> (3221225472 :: int) \<and>
    slot_value 514051 16 (decrypted (int_poly 16 FIXED_Q) (map demo_secret [0..<8]) a b) 3 5 mod Q_FACTOR1 =
      (shard_answer 514051 16 2 False small_value (\<lambda>_ _ _. 0) (query_content unit_noise (map demo_secret [0..<8]) small_db 0 qr_qry_b (map demo_query [0..<8]))
        (query_content unit_noise (map demo_secret [0..<8]) small_db 1 (the \<circ> qr_qry_conj_b) (map demo_query [0..<8])) 3 5 +
        slot_value 514051 16 noise 3 5) mod Q_FACTOR1"
proof -
  have len: "loop_len (db_index_group small_db) = 2" "\<not> requires_conj (db_index_group small_db)"
    by (simp_all add: small_db_def index_group_defs)
  have C: "db_ciphertext_ring small_db = int_poly 16 FIXED_Q" by (simp add: small_db_def)
  have even: "even (loop_len (db_index_group small_db))"
    "requires_conj (db_index_group small_db) \<longrightarrow> (\<forall>q \<in> set (map demo_query [0..<8]). qr_qry_conj_b q \<noteq> None)"
    by (simp_all add: len)
  have no: "requires_conj (db_index_group small_db) = False" using len(2) by simp
  show ?thesis
    using evaluation_decrypts [OF small_evaluation_ok small_db_loaded even(1) demo_client_keys even(2)]
    unfolding C len(1) no fst_conv snd_conv
    apply (elim exE conjE)
    subgoal for db' a b noise
      by (intro exI [of _ db'] exI [of _ a] exI [of _ b] exI [of _ noise]) simp
    done
qed

end
