(* ===== verification/Retrieval.thy ===== *)
theory Retrieval
  imports Transformed_Correct Ring_Answer Shard_Answer
begin

text \<open>
  Retrieval from one shard: entries loaded with \<open>set_transformed_entries\<close> and preprocessed, queries encrypted by the
  clients, the reply decrypted by them. Every lane gets the entry its client asked for.
\<close>

section \<open>The selected entry\<close>

lemma ring_answer_turned:
  assumes N: "0 < N" and g: "odd inv_g" and five: "\<And>k. k < len \<Longrightarrow> (inv_g ^ k * 5 ^ k) mod (2 * N) = 1" and n: "n < N"
    and E: "\<And>k. k < len \<Longrightarrow> E (len - 1 - k) = auto5 N (5 ^ k) (H k)"
  shows "ring_answer N inv_g E (mono N d) len n l = (\<Sum>k < len. ext N (H k) (int n - 5 ^ k * d) l)"
  unfolding ring_answer_sum [OF N g n]
proof (rule sum.cong [OF refl])
  fix k assume "k \<in> {..<len}"
  then have k: "k < len" by simp
  let ?e = "int inv_g ^ k * int n"
  have "ext N (nega N (E (len - 1 - k)) (mono N d)) ?e l = ext N (\<lambda>n l. ext N (E (len - 1 - k)) (1 * int n + - d) l) ?e l"
    by (intro ext_eq_fun N) (simp add: nega_mono)
  also have "\<dots> = ext N (\<lambda>n l. ext N (H k) (5 ^ k * int n + 0) l) (?e - d) l"
    using ext_subst [OF N, of 1 "E (len - 1 - k)" "- d" ?e l] E [OF k] by (simp add: auto5_ext [abs_def])
  also have "\<dots> = ext N (H k) (5 ^ k * (?e - d)) l" using ext_subst [OF N, of "5 ^ k" "H k" 0] by simp
  also have "\<dots> = ext N (H k) (int n - 5 ^ k * d) l"
  proof (rule ext_cong)
    have "(int inv_g ^ k * 5 ^ k) mod (2 * int N) = 1" using arg_cong [OF five [OF k], of int] by (simp add: zmod_int)
    then have "((int inv_g ^ k * 5 ^ k) * int n) mod (2 * int N) = (1 * int n) mod (2 * int N)"
      by (intro mod_mult_cong refl) (metis mod_mod_trivial)
    then have "((int inv_g ^ k * 5 ^ k) * int n - 5 ^ k * d) mod (2 * int N) = (1 * int n - 5 ^ k * d) mod (2 * int N)"
      by (rule mod_diff_cong) simp
    then show "(5 ^ k * (?e - d)) mod (2 * int N) = (int n - 5 ^ k * d) mod (2 * int N)"
      by (simp add: algebra_simps)
  qed
  finally show "ext N (nega N (E (len - 1 - k)) (mono N d)) ?e l = ext N (H k) (int n - 5 ^ k * d) l" .
qed

text \<open>Both halves of the group; \<open>S k\<close> is what column \<open>k\<close> is loaded with, and \<open>F\<close> and \<open>F'\<close> are the contents of the two queries.\<close>

definition both_answers ::
    "nat \<Rightarrow> nat \<Rightarrow> index_group \<Rightarrow> (nat \<Rightarrow> nat \<Rightarrow> nat \<Rightarrow> int) \<Rightarrow> (nat \<Rightarrow> nat \<Rightarrow> int) \<Rightarrow> (nat \<Rightarrow> nat \<Rightarrow> int) \<Rightarrow> nat \<Rightarrow> nat \<Rightarrow> int" where
  "both_answers N inv_g g S F F' n l = ring_answer N inv_g (\<lambda>i. S (reversed_column g i)) F (loop_len g) n l +
     (if requires_conj g then ring_answer N inv_g (\<lambda>i. S (reversed_column g (loop_len g + i))) F' (loop_len g) n l else 0)"

lemma both_answers_select:
  assumes g: "group_ok g N m" and inv_g: "(gen_H * inv_g) mod (2 * N) = 1" and i: "i < group_order g" and n: "n < N"
  shows "both_answers N inv_g g (\<lambda>k. auto5 N (5 ^ turn_power g k) (hat N g A k)) (mono N (int (i * query_base_power g)))
    (mono N (int (2 * N - i * query_base_power g))) n l = int (group_order g) * A i n l"
proof -
  let ?len = "loop_len g" and ?S = "\<lambda>k. auto5 N (5 ^ turn_power g k) (hat N g A k)"
  have N: "N = 2 ^ Suc m" "0 < N" using g by (simp_all add: group_ok_def)
  note halves = group_halves [OF g]
  have L: "?len \<le> group_order g" using halves(1) by simp
  have pow: "turn_power g k = k" if "k < ?len" for k using that by (simp add: turn_power_def)
  have five: "(inv_g ^ k * 5 ^ k) mod (2 * N) = 1" if "k < ?len" for k
    using inverse_powers(1) [OF g inv_g, of k] L that pow [OF that] by simp
  have odd: "odd inv_g"
    using inverse_powers(2) [OF g inv_g, of 1] inverse_powers(2) [OF g inv_g, of 0] inv_g
    by (metis N(2) dvd_triv_left even_mult_iff even_mod_2_iff mod_mod_cancel odd_one)
  have first: "ring_answer N inv_g (\<lambda>i. ?S (reversed_column g i)) (mono N d) ?len n l =
      (\<Sum>k < ?len. ext N (a_hat N (group_order g) 1 (query_base_power g) A k) (int n - 5 ^ k * d) l)" for d
  proof (rule ring_answer_turned [OF N(2) odd five n])
    fix k assume k: "k < ?len"
    then have "reversed_column g (?len - 1 - k) = k" by (simp add: reversed_column_def)
    then show "?S (reversed_column g (?len - 1 - k)) = auto5 N (5 ^ k) (a_hat N (group_order g) 1 (query_base_power g) A k)"
      using k by (simp add: pow hat_def turn_sign_def)
  qed
  show ?thesis
  proof (cases "requires_conj g")
    case False
    obtain r where r: "group_order g = 2 ^ r" "?len = group_order g" "group_order g * query_base_power g = 2 ^ m"
      using group_sub [OF g False] by blast
    show ?thesis
      using select_subgroup [OF N(1) r(3,1) i n, of A l] False unfolding both_answers_def first unfolding r(2) by (simp add: mult.commute)
  next
    case True
    note f = group_full [OF g True]
    have second: "ring_answer N inv_g (\<lambda>i. ?S (reversed_column g (?len + i))) (mono N d) ?len n l =
        (\<Sum>k < ?len. ext N (a_hat N (group_order g) (- 1) (query_base_power g) A k) (int n - 5 ^ k * d) l)" for d
    proof (rule ring_answer_turned [OF N(2) odd five n])
      fix k assume k: "k < ?len"
      then have "reversed_column g (?len + (?len - 1 - k)) = ?len + k" by (simp add: reversed_column_def)
      then show "?S (reversed_column g (?len + (?len - 1 - k))) = auto5 N (5 ^ k) (a_hat N (group_order g) (- 1) (query_base_power g) A k)"
        using k True by (simp add: turn_power_def hat_def turn_sign_def)
    qed
    have "ext N H (int n - 5 ^ k * int (2 * N - i)) l = ext N H (int n + 5 ^ k * int i) l" for H k
    proof (rule ext_cong)
      have "int (2 * N - i) = 2 * int N - int i" using i f(1) by (simp add: of_nat_diff)
      then have "int n - 5 ^ k * int (2 * N - i) = (int n + 5 ^ k * int i) + 2 * int N * (- (5 ^ k))" by (simp add: algebra_simps)
      then show "(int n - 5 ^ k * int (2 * N - i)) mod (2 * int N) = (int n + 5 ^ k * int i) mod (2 * int N)" by (simp only: mod_mult_self2)
    qed
    then show ?thesis
      using select_full [OF N(1) _ n, of i A l] i True unfolding both_answers_def first second unfolding f(1-3) by simp
  qed
qed

text \<open>What carries over from the answer of one half.\<close>

lemma both_answers_mod:
  assumes "\<And>k a. k < group_order g \<Longrightarrow> a < N \<Longrightarrow> S k a l mod p = S' k a l mod p" "\<And>a. a < N \<Longrightarrow> F a l mod p = G a l mod (p :: int)"
    and "\<And>a. requires_conj g \<Longrightarrow> a < N \<Longrightarrow> F' a l mod p = G' a l mod p" and g: "group_ok g N m" and n: "n < N"
  shows "both_answers N inv_g g S F F' n l mod p = both_answers N inv_g g S' G G' n l mod p"
proof -
  have r: "i < group_order g \<Longrightarrow> reversed_column g i < group_order g" for i
    using reversed_columns(3) [OF g length_replicate [of "group_order g" undefined]] .
  note h = group_halves(1) [OF g]
  have a: "ring_answer N inv_g (\<lambda>i. S (reversed_column g i)) F (loop_len g) n l mod p =
      ring_answer N inv_g (\<lambda>i. S' (reversed_column g i)) G (loop_len g) n l mod p"
    by (rule ring_answer_mod [where len = "loop_len g"]) (use assms r h n in \<open>simp_all split: if_splits\<close>)
  show ?thesis
  proof (cases "requires_conj g")
    case True
    have "ring_answer N inv_g (\<lambda>i. S (reversed_column g (loop_len g + i))) F' (loop_len g) n l mod p =
        ring_answer N inv_g (\<lambda>i. S' (reversed_column g (loop_len g + i))) G' (loop_len g) n l mod p"
      by (rule ring_answer_mod [where len = "loop_len g"]) (use assms r h n True in simp_all)
    then show ?thesis using a True unfolding both_answers_def by (simp only: if_True) (rule mod_add_cong)
  next
    case False
    then show ?thesis using a by (simp add: both_answers_def)
  qed
qed

lemma both_answers_linear:
  "both_answers N inv_g g S (\<lambda>n l. F n l + c * G n l) (\<lambda>n l. F' n l + c * G' n l) n l =
    both_answers N inv_g g S F F' n l + c * both_answers N inv_g g S G G' n l"
  by (simp add: both_answers_def ring_answer_linear algebra_simps)

lemma both_answers_scale: "both_answers N inv_g g (\<lambda>k n l. c * S k n l) F F' n l = c * both_answers N inv_g g S F F' n l"
  by (simp add: both_answers_def ring_answer_scale algebra_simps)

lemma both_answers_bound:
  assumes "\<And>k a. \<bar>S k a l\<bar> \<le> b" "\<And>a. a < N \<Longrightarrow> \<bar>F a l\<bar> \<le> c" "\<And>a. a < N \<Longrightarrow> \<bar>F' a l\<bar> \<le> c" and g: "group_ok g N m" and n: "n < N"
  shows "\<bar>both_answers N inv_g g S F F' n l\<bar> \<le> int (group_order g) * (int N * (b * c))"
proof -
  have r: "\<bar>ring_answer N inv_g (\<lambda>i. S (h i)) H (loop_len g) n l\<bar> \<le> int (loop_len g) * (int N * (b * c))" if "\<And>a. a < N \<Longrightarrow> \<bar>H a l\<bar> \<le> c" for h H
    using assms(1) that n by (intro ring_answer_bound [where len = "loop_len g"]) simp_all
  note a = r [where H = F, OF assms(2)] r [where H = F', OF assms(3)]
  show ?thesis
  proof (cases "requires_conj g")
    case True
    have "int (group_order g) * (int N * (b * c)) = int (loop_len g) * (int N * (b * c)) + int (loop_len g) * (int N * (b * c))"
      using group_halves(1) [OF g] True by (simp add: algebra_simps)
    moreover have "\<bar>x + y\<bar> \<le> u + u" if "\<bar>x\<bar> \<le> u" "\<bar>y\<bar> \<le> u" for x y u :: int using that by linarith
    ultimately show ?thesis using a True unfolding both_answers_def by (simp only: if_True)
  next
    case False
    then show ?thesis using a(1) group_halves(1) [OF g] by (simp add: both_answers_def)
  qed
qed

lemma slot_both_answers:
  assumes y: "half_turn p N y" and g: "(gen_H * inv_g) mod (2 * N) = 1" and j: "j < N"
  shows "shard_answer y N (loop_len g) (requires_conj g) (\<lambda>i. slot_value y N (S (reversed_column g i)))
      (\<lambda>i. slot_value y N (S (reversed_column g (loop_len g + i)))) F F' j l mod p =
    slot_value y N (both_answers N inv_g g S F F') j l mod p"
proof (cases "requires_conj g")
  case True
  then show ?thesis
    unfolding shard_answer_def answer_sum_def both_answers_def [abs_def] slot_add
    by (simp only: if_True slot_add) (intro mod_add_cong slot_ring_answer [OF y g j])
next
  case False
  then show ?thesis
    using slot_ring_answer [OF y g j] by (simp add: shard_answer_def answer_sum_def both_answers_def [abs_def])
qed


section \<open>The noise of the answer\<close>

text \<open>
  Coefficient by coefficient. A payload \<open>x\<close> of the message \<open>\<mu>\<close> satisfies \<open>t x = \<mu> q - d\<close> with a rounding error
  \<open>d\<close>, so that sums of products of payloads are payloads of the result up to the products with \<open>d\<close>.
\<close>

lemma answer_payload:
  fixes q t h bound :: int
  assumes g: "group_ok g N m" and inv_g: "(gen_H * inv_g) mod (2 * N) = 1" and i: "i < group_order g" and n: "n < N" and t: "0 < t"
    and S: "\<And>k n. S k n l mod t = (auto5 N (5 ^ turn_power g k) (hat N g A k) n l * c) mod t" "\<And>k n. \<bar>S k n l\<bar> \<le> h"
    and c: "(int (group_order g) * c) mod t = 1"
    and F: "\<And>n. n < N \<Longrightarrow> F n l mod q = (x n l + e n l) mod q" "\<And>n. t * x n l = \<mu> n l * q - d n l"
      "\<And>n. n < N \<Longrightarrow> \<mu> n l mod t = mono N (int (i * query_base_power g)) n l mod t" "\<And>n. \<bar>d n l\<bar> \<le> h" "\<And>n. \<bar>e n l\<bar> \<le> bound"
    and F': "\<And>n. requires_conj g \<Longrightarrow> n < N \<Longrightarrow> F' n l mod q = (x' n l + e' n l) mod q" "\<And>n. t * x' n l = \<mu>' n l * q - d' n l"
      "\<And>n. requires_conj g \<Longrightarrow> n < N \<Longrightarrow> \<mu>' n l mod t = mono N (int (2 * N - i * query_base_power g)) n l mod t"
      "\<And>n. \<bar>d' n l\<bar> \<le> h" "\<And>n. \<bar>e' n l\<bar> \<le> bound"
    and target: "t * z = \<mu>z * q - dz" "\<mu>z mod t = A i n l mod t" "\<bar>dz\<bar> \<le> h"
  shows "\<exists>\<eta>. both_answers N inv_g g S F F' n l mod q = (z + \<eta>) mod q \<and>
    t * \<bar>\<eta>\<bar> \<le> h + int (group_order g) * (int N * (h * h)) + t * (int (group_order g) * (int N * (h * bound)))"
proof -
  let ?B = "both_answers N inv_g g S"
  have mod0: "?B G G' n l = ?B H H' n l" if "\<And>a. G a l = H a l" "\<And>a. G' a l = H' a l" for G G' H H'
    using both_answers_mod [where p = 0, OF _ _ _ g n, of S l S G H G' H'] that by simp
  have sum: "?B (\<lambda>n l. x n l + e n l) (\<lambda>n l. x' n l + e' n l) n l = ?B x x' n l + ?B e e' n l"
    using both_answers_linear [of N inv_g g S x 1 e x' e'] by simp
  have zero: "?B (\<lambda>n l. 0) (\<lambda>n l. 0) n l = 0" using both_answers_linear [of N inv_g g S "\<lambda>n l. 0" 1 "\<lambda>n l. 0" "\<lambda>n l. 0" "\<lambda>n l. 0" n l] by simp
  have scaled: "?B (\<lambda>n l. a * G n l) (\<lambda>n l. a * G' n l) n l = a * ?B G G' n l" for a G G'
    using both_answers_linear [of N inv_g g S "\<lambda>n l. 0" a G "\<lambda>n l. 0" G' n l] zero by simp
  have "t * ?B x x' n l = ?B (\<lambda>n l. t * x n l) (\<lambda>n l. t * x' n l) n l" by (rule scaled [symmetric])
  also have "\<dots> = ?B (\<lambda>n l. q * \<mu> n l + (- 1) * d n l) (\<lambda>n l. q * \<mu>' n l + (- 1) * d' n l) n l"
    by (rule mod0) (simp_all add: F(2) F'(2))
  also have "\<dots> = q * ?B \<mu> \<mu>' n l - ?B d d' n l" unfolding both_answers_linear scaled by simp
  finally have tx: "t * ?B x x' n l = q * ?B \<mu> \<mu>' n l - ?B d d' n l" .
  have "?B \<mu> \<mu>' n l mod t = both_answers N inv_g g (\<lambda>k n l. c * auto5 N (5 ^ turn_power g k) (hat N g A k) n l)
      (mono N (int (i * query_base_power g))) (mono N (int (2 * N - i * query_base_power g))) n l mod t"
    by (rule both_answers_mod [OF _ _ _ g n]) (simp_all only: S(1) F(3) F'(3) mult.commute)
  also have "\<dots> = (c * (int (group_order g) * A i n l)) mod t"
    unfolding both_answers_scale both_answers_select [OF g inv_g i n] ..
  also have "c * (int (group_order g) * A i n l) = (int (group_order g) * c) * A i n l" by (simp only: ac_simps)
  also have "\<dots> mod t = A i n l mod t" by (metis c mod_mult_left_eq mult_1)
  finally have "?B \<mu> \<mu>' n l mod t = \<mu>z mod t" unfolding target(2) .
  then obtain w where w: "?B \<mu> \<mu>' n l = \<mu>z + t * w" by (metis mod_eqE mult.commute)
  define \<delta> where "\<delta> = ?B x x' n l - z - q * w"
  have d: "t * \<delta> = dz - ?B d d' n l"
    using tx target(1) unfolding \<delta>_def w by (simp add: algebra_simps)
  have "\<bar>?B d d' n l\<bar> \<le> int (group_order g) * (int N * (h * h))" by (rule both_answers_bound [OF _ _ _ g n]) (rule S(2) F(4) F'(4))+
  then have "\<bar>t * \<delta>\<bar> \<le> h + int (group_order g) * (int N * (h * h))" unfolding d using target(3) by linarith
  then have small: "t * \<bar>\<delta>\<bar> \<le> h + int (group_order g) * (int N * (h * h))" using t by (simp add: abs_mult)
  have e: "\<bar>?B e e' n l\<bar> \<le> int (group_order g) * (int N * (h * bound))" by (rule both_answers_bound [OF _ _ _ g n]) (rule S(2) F(5) F'(5))+
  have "?B F F' n l mod q = (?B x x' n l + ?B e e' n l) mod q"
    unfolding sum [symmetric] by (rule both_answers_mod [OF _ _ _ g n]) (simp_all only: F(1) F'(1))
  also have "?B x x' n l + ?B e e' n l = z + (\<delta> + ?B e e' n l) + q * w" by (simp add: \<delta>_def)
  finally have "?B F F' n l mod q = (z + (\<delta> + ?B e e' n l)) mod q" by simp
  moreover have "t * \<bar>\<delta> + ?B e e' n l\<bar> \<le> h + int (group_order g) * (int N * (h * h)) + t * (int (group_order g) * (int N * (h * bound)))"
  proof -
    have "t * \<bar>\<delta> + ?B e e' n l\<bar> \<le> t * (\<bar>\<delta>\<bar> + \<bar>?B e e' n l\<bar>)" using t by (intro mult_left_mono abs_triangle_ineq) simp
    moreover have "t * \<bar>?B e e' n l\<bar> \<le> t * (int (group_order g) * (int N * (h * bound)))" using e t by (intro mult_left_mono) simp_all
    ultimately show ?thesis using small by (simp only: distrib_left)
  qed
  ultimately show ?thesis by blast
qed


section \<open>Payloads\<close>

lemma payload_quotient:
  assumes P: "zn_arith_spec P" and C: "zn_arith_spec C" and u: "(zn_modulus P * zn_lift C u) mod zn_modulus C = 1"
  shows "\<exists>x d. zn_modulus P * x = zn_smallest_lift P c * zn_modulus C - d \<and> \<bar>d\<bar> \<le> zn_modulus P div 2 \<and>
    zn_lift C (rescale P C u c) = x mod zn_modulus C"
proof -
  obtain x d where x: "zn_smallest_lift P (zn_of_int P (zn_smallest_lift P c * zn_modulus C)) = d"
    "zn_smallest_lift P c * zn_modulus C - d = zn_modulus P * x" "2 * \<bar>d\<bar> \<le> zn_modulus P"
    by (rule rescale_quotient [OF P])
  have "zn_lift C (rescale P C u c) = x mod zn_modulus C" by (rule rescale_lift [OF P C u]) (simp add: x)
  then show ?thesis using x(2,3) by (intro exI [of _ x] exI [of _ d]) simp
qed

text \<open>What a fresh ciphertext holds: the payload of each coefficient of the message, and noise.\<close>

definition payload_split :: "('z, 'p) poly_ring \<Rightarrow> int \<Rightarrow> int \<Rightarrow> 'p \<Rightarrow> (nat \<Rightarrow> int) \<Rightarrow> bool" where
  "payload_split P q bound msg content \<longleftrightarrow> (let t = zn_modulus (pr_base P) in \<exists>x \<mu> d e.
     (\<forall>n < pr_rank P. content n mod q = (x n + e n) mod q \<and> \<mu> n mod t = coeff P msg n) \<and>
     (\<forall>n. t * x n = \<mu> n * q - d n \<and> \<bar>d n\<bar> \<le> t div 2 \<and> \<bar>e n\<bar> \<le> bound))"

lemma enc_sym_b_splits:
  fixes P :: "('z, 'p) poly_ring" and C :: "('z, 'r) poly_ring"
  assumes P: "poly_spec P" and C: "poly_spec C" and rank: "pr_rank P = pr_rank C"
    and cop: "coprime (zn_modulus (pr_base P)) (zn_modulus (pr_base C))" and noise: "\<And>s. \<bar>fst (rng_gauss rng s)\<bar> \<le> bound"
    and enc: "enc_sym_b rng P C seed s sk msg = (Ok (b, s') :: (unit, 'r \<times> 'g) outcome)"
  shows "payload_split P (zn_modulus (pr_base C)) bound msg (coeff C (pr_add C (pr_mul C (expand rng C seed) sk) b))"
proof -
  let ?t = "zn_modulus (pr_base P)" and ?q = "zn_modulus (pr_base C)"
  obtain es g where es: "noise_coeffs rng (pr_rank C) s = (es, g)" by (cases "noise_coeffs rng (pr_rank C) s")
  have len: "length es = pr_rank C" using length_noise [of rng "pr_rank C" s] es by simp
  obtain u where u: "modulus_inv (pr_base P) (pr_base C) = (Ok u :: (unit, 'z) outcome)" "(?t * zn_lift (pr_base C) u) mod ?q = 1"
    using modulus_inv_Ok [OF poly_base [OF C] cop, where 'e = unit] by blast
  let ?payload = "pr_from_basis C (map (rescale (pr_base P) (pr_base C) u) (pr_basis P msg))"
  let ?x = "pr_mul C (expand rng C seed) sk"
  have b: "b = pr_add C (pr_sub C (pr_from_basis C (map (zn_of_int (pr_base C)) es)) ?x) ?payload"
    using enc by (simp add: enc_sym_b_def es u)
  have "\<forall>n. \<exists>x d. ?t * x = zn_smallest_lift (pr_base P) (pr_basis P msg ! n) * ?q - d \<and> \<bar>d\<bar> \<le> ?t div 2 \<and>
      zn_lift (pr_base C) (rescale (pr_base P) (pr_base C) u (pr_basis P msg ! n)) = x mod ?q"
    using payload_quotient [OF poly_base [OF P] poly_base [OF C] u(2)] by blast
  then obtain x d where xd: "\<And>n. ?t * x n = zn_smallest_lift (pr_base P) (pr_basis P msg ! n) * ?q - d n"
    "\<And>n. \<bar>d n\<bar> \<le> ?t div 2" "\<And>n. zn_lift (pr_base C) (rescale (pr_base P) (pr_base C) u (pr_basis P msg ! n)) = x n mod ?q" by metis
  let ?e = "\<lambda>n. if n < pr_rank C then es ! n else 0"
  have bound: "0 \<le> bound" using noise [of undefined] by linarith
  have e: "\<bar>?e n\<bar> \<le> bound" for n
    using noise_bound [OF noise, of "es ! n" "pr_rank C" s] es len bound by simp
  have "coeff C (pr_add C ?x b) n mod ?q = (x n + ?e n) mod ?q" if n: "n < pr_rank P" for n
  proof -
    have "coeff C ?payload n = x n mod ?q" using n rank by (simp add: coeff_from_basis [OF C] length_basis [OF P] xd(3))
    then show ?thesis unfolding b using masked_coeff [OF C _ len, of n ?x ?payload] n rank by (simp add: mod_add_left_eq)
  qed
  then show ?thesis
    unfolding payload_split_def Let_def using xd(1,2) e zn_smallest(1) [OF poly_base [OF P]]
    by (intro exI [of _ x] exI [of _ "\<lambda>n. zn_smallest_lift (pr_base P) (pr_basis P msg ! n)"] exI [of _ d] exI [of _ ?e]) (simp add: coeff_def)
qed


section \<open>The clients\<close>

text \<open>Documented behaviour of the plaintext ring: powers of the generator.\<close>

definition gen_pow_spec :: "('z, 'p) poly_ring \<Rightarrow> bool" where
  "gen_pow_spec R \<longleftrightarrow> (\<forall>e n l. n < pr_rank R \<longrightarrow> coeff R (pr_gen_pow R e) n = mono (pr_rank R) (int e) n l mod zn_modulus (pr_base R))"

text \<open>
  A query as \<open>enc_double_pir\<close> encrypts it: the owner of \<open>sk\<close> asks for group element \<open>i\<close>, with the inverse monomial
  when the group needs the conjugation. In \<open>client_queries\<close> the client of lane \<open>l\<close> asks for \<open>idx l\<close>.
\<close>

definition client_query ::
    "'g rng_ops \<Rightarrow> ('w, 'p) poly_ring \<Rightarrow> ('z, 'r) poly_ring \<Rightarrow> index_group \<Rightarrow> used_seeds \<Rightarrow> 'r \<Rightarrow> nat \<Rightarrow> 'r query_ref \<Rightarrow> bool" where
  "client_query rng R C g use_seeds sk i q \<longleftrightarrow>
     (let seeds = get_qry_seeds use_seeds in
      i < group_order g \<and>
        (\<exists>s s'. enc_sym_b rng R C (seeds ! 0) s sk (pr_gen_pow R (i * query_base_power g)) =
          (Ok (qr_qry_b q, s') :: (unit, 'r \<times> 'g) outcome)) \<and>
        (requires_conj g \<longrightarrow> (\<exists>b s s'. qr_qry_conj_b q = Some b \<and>
          enc_sym_b rng R C (seeds ! 1) s sk (pr_gen_pow R (2 * pr_rank R - i * query_base_power g)) =
            (Ok (b, s') :: (unit, 'r \<times> 'g) outcome))))"

definition client_queries ::
    "'g rng_ops \<Rightarrow> 'r list \<Rightarrow> (nat \<Rightarrow> nat) \<Rightarrow> ('z, 'p, 'r) pir_database \<Rightarrow> 'r query_ref list \<Rightarrow> bool" where
  "client_queries rng sks idx db queries \<longleftrightarrow> (\<forall>l < SIMD_COUNT. client_query rng (db_ring db) (db_ciphertext_ring db) (db_index_group db) (db_use_seeds db) (sks ! l) (idx l) (queries ! l))"

definition memory_sized :: "nat \<Rightarrow> ('z, 'p, 'r) pir_database \<Rightarrow> bool" where
  "memory_sized N db \<longleftrightarrow> (let n = N * loop_len (db_index_group db) in
     sized n (db_inner_prod_gk db) \<and> (requires_conj (db_index_group db) \<longrightarrow> sized n (db_inner_prod_conj_gk db)))"

text \<open>
  The worst case of the noise of a reply, scaled by \<open>t\<close>: rounding of the payloads, noise of the queries (at most \<open>bq\<close>), noise of
  the keys (at most \<open>bk\<close>).
\<close>

definition noise_limit :: "nat \<Rightarrow> index_group \<Rightarrow> int \<Rightarrow> int \<Rightarrow> int \<Rightarrow> int" where
  "noise_limit N g t bq bk = (let h = t div 2; L = int (group_order g) in
     h + L * (int N * (h * h)) + t * (L * (int N * (h * bq))) + t * (2 * int (loop_len g) * (int N * ((2 ^ 25 + 2 ^ 24) * bk))))"

text \<open>What a query contains, however it got there: the payloads of the two monomials for group element \<open>i\<close>, up to noise.\<close>

definition query_lane ::
    "'g rng_ops \<Rightarrow> ('w, 'p) poly_ring \<Rightarrow> ('z, 'r) poly_ring \<Rightarrow> index_group \<Rightarrow> used_seeds \<Rightarrow> int \<Rightarrow> 'r \<Rightarrow> nat \<Rightarrow> 'r query_ref \<Rightarrow> bool" where
  "query_lane rng R C g use_seeds bound sk i q \<longleftrightarrow>
     (let seeds = get_qry_seeds use_seeds; q0 = zn_modulus (pr_base C);
          content = \<lambda>k b n. coeff C (pr_add C (pr_mul C (expand rng C (seeds ! k)) sk) b) n in
      i < group_order g \<and> payload_split R q0 bound (pr_gen_pow R (i * query_base_power g)) (content 0 (qr_qry_b q)) \<and>
      (requires_conj g \<longrightarrow> (\<exists>b. qr_qry_conj_b q = Some b \<and>
         payload_split R q0 bound (pr_gen_pow R (2 * pr_rank R - i * query_base_power g)) (content 1 b))))"

lemma client_query_lane:
  fixes R :: "('z, 'p) poly_ring" and C :: "('z, 'r) poly_ring" and rng :: "'g rng_ops"
  assumes R: "poly_spec R" and C: "poly_spec C" and rank: "pr_rank R = pr_rank C" and cop: "coprime (zn_modulus (pr_base R)) (zn_modulus (pr_base C))"
    and noise: "\<And>s. \<bar>fst (rng_gauss rng s)\<bar> \<le> bound" and cq: "client_query rng R C g use_seeds sk i q"
  shows "query_lane rng R C g use_seeds bound sk i q"
  using cq enc_sym_b_splits [OF R C rank cop noise] unfolding client_query_def query_lane_def Let_def by blast

section \<open>The whole way\<close>

lemma lane_query:
  fixes db :: "('z, 'p, 'r) pir_database" and rng :: "'g rng_ops"
  assumes ok: "database_ok N ys inv_g db" and len: "length queries = 8"
    and ql: "query_lane rng (db_ring db) (db_ciphertext_ring db) (db_index_group db) (db_use_seeds db) bound (sks ! l) i (queries ! l)" and l: "l < 8"
  defines "g \<equiv> db_index_group db"
  shows "i < group_order g"
    "payload_split (db_ring db) FIXED_Q bound (pr_gen_pow (db_ring db) (i * query_base_power g)) (\<lambda>n. query_content rng sks db 0 qr_qry_b queries n l)"
    "requires_conj g \<Longrightarrow> qr_qry_conj_b (queries ! l) \<noteq> None"
    "requires_conj g \<Longrightarrow> payload_split (db_ring db) FIXED_Q bound (pr_gen_pow (db_ring db) (2 * N - i * query_base_power g))
      (\<lambda>n. query_content rng sks db 1 (the \<circ> qr_qry_conj_b) queries n l)"
  using ql l len unfolding query_lane_def Let_def g_def [symmetric] database_okD [OF ok] query_content_def decrypted_def by auto

text \<open>From the contents of the queries of a lane to the payload of the entry.\<close>

lemma lane_answer:
  fixes db :: "('z, 'p, 'r) pir_database"
  assumes ok: "database_ok N ys inv_g db" and R: "poly_spec (db_ring db)" "gen_pow_spec (db_ring db)" and g: "group_ok g N m"
    and i: "i < group_order g" and n: "n < N" and A: "\<And>n. A i n l = coeff (db_ring db) entry n"
    and scale: "(int (group_order g) * zn_lift (pr_base (db_ring db)) scale) mod zn_modulus (pr_base (db_ring db)) = 1"
    and F: "payload_split (db_ring db) FIXED_Q bound (pr_gen_pow (db_ring db) (i * query_base_power g)) (\<lambda>n. F n l)"
    and F': "requires_conj g \<Longrightarrow> payload_split (db_ring db) FIXED_Q bound (pr_gen_pow (db_ring db) (2 * N - i * query_base_power g)) (\<lambda>n. F' n l)"
    and u: "(zn_modulus (pr_base (db_ring db)) * zn_lift (pr_base (db_ciphertext_ring db)) u) mod FIXED_Q = 1"
    and idx: "g = db_index_group db" and bound: "0 \<le> bound"
  defines "t \<equiv> zn_modulus (pr_base (db_ring db))" and "L \<equiv> int (group_order g)"
  shows "\<exists>\<eta>. both_answers N inv_g g (stored_entry db scale A) F F' n l mod FIXED_Q =
      (zn_lift (pr_base (db_ciphertext_ring db)) (rescale (pr_base (db_ring db)) (pr_base (db_ciphertext_ring db)) u (pr_basis (db_ring db) entry ! n)) + \<eta>) mod FIXED_Q \<and>
    t * \<bar>\<eta>\<bar> \<le> t div 2 + L * (int N * (t div 2 * (t div 2))) + t * (L * (int N * (t div 2 * bound)))"
proof -
  note d = database_okD [OF ok]
  have Zt: "zn_arith_spec (pr_base (db_ring db))" using R(1) by (simp add: poly_spec_def)
  have t: "0 < t" using zn_modulus_gt_1 [OF Zt] by (simp add: t_def)
  have half: "\<bar>a\<bar> \<le> b div 2" if "2 * \<bar>a\<bar> \<le> b" for a b :: int using that by linarith
  have S: "stored_entry db scale A k n l mod t = (auto5 N (5 ^ turn_power g k) (hat N g A k) n l * zn_lift (pr_base (db_ring db)) scale) mod t"
    "\<bar>stored_entry db scale A k n l\<bar> \<le> t div 2" for k n
    using rescaled_bounds(2) [OF Zt, of scale] half [OF rescaled_bounds(1) [OF Zt, of scale]] unfolding stored_entry_def Let_def d(1) idx t_def by blast+
  have pow: "coeff (db_ring db) (pr_gen_pow (db_ring db) e) n = mono N (int e) n l mod t" if "n < N" for e n
    using R(2) that unfolding gen_pow_spec_def d(1) t_def by blast
  obtain x \<mu> da e where f: "\<And>n. n < N \<Longrightarrow> F n l mod FIXED_Q = (x n + e n) mod FIXED_Q"
    "\<And>n. n < N \<Longrightarrow> \<mu> n mod t = mono N (int (i * query_base_power g)) n l mod t"
    "\<And>n. t * x n = \<mu> n * FIXED_Q - da n" "\<And>n. \<bar>da n\<bar> \<le> t div 2" "\<And>n. \<bar>e n\<bar> \<le> bound"
    using F pow unfolding payload_split_def Let_def d(1) t_def by (metis (no_types))
  have "\<exists>x' \<mu>' d' e'. (\<forall>n < N. requires_conj g \<longrightarrow> F' n l mod FIXED_Q = (x' n + e' n) mod FIXED_Q \<and>
      \<mu>' n mod t = mono N (int (2 * N - i * query_base_power g)) n l mod t) \<and>
      (\<forall>n. t * x' n = \<mu>' n * FIXED_Q - d' n \<and> \<bar>d' n\<bar> \<le> t div 2 \<and> \<bar>e' n\<bar> \<le> bound)"
  proof (cases "requires_conj g")
    case True
    then show ?thesis using F' pow unfolding payload_split_def Let_def d(1) t_def by (metis (no_types))
  next
    case False
    then show ?thesis using t bound by (intro exI [of _ "\<lambda>_. 0"]) simp
  qed
  then obtain x' \<mu>' d' e' where f': "\<And>n. requires_conj g \<Longrightarrow> n < N \<Longrightarrow> F' n l mod FIXED_Q = (x' n + e' n) mod FIXED_Q"
    "\<And>n. requires_conj g \<Longrightarrow> n < N \<Longrightarrow> \<mu>' n mod t = mono N (int (2 * N - i * query_base_power g)) n l mod t"
    "\<And>n. t * x' n = \<mu>' n * FIXED_Q - d' n" "\<And>n. \<bar>d' n\<bar> \<le> t div 2" "\<And>n. \<bar>e' n\<bar> \<le> bound" by blast
  have C: "zn_arith_spec (pr_base (db_ciphertext_ring db))" "zn_modulus (pr_base (db_ciphertext_ring db)) = FIXED_Q" by (rule d(8,7))+
  obtain z dz where z: "t * z = zn_smallest_lift (pr_base (db_ring db)) (pr_basis (db_ring db) entry ! n) * FIXED_Q - dz" "\<bar>dz\<bar> \<le> t div 2"
    "zn_lift (pr_base (db_ciphertext_ring db)) (rescale (pr_base (db_ring db)) (pr_base (db_ciphertext_ring db)) u (pr_basis (db_ring db) entry ! n)) = z mod FIXED_Q"
    using payload_quotient [OF Zt C(1) u [folded C(2)], of "pr_basis (db_ring db) entry ! n"] unfolding C(2) t_def by blast
  have zt: "zn_smallest_lift (pr_base (db_ring db)) (pr_basis (db_ring db) entry ! n) mod t = A i n l mod t"
    unfolding A coeff_def t_def by (simp only: zn_smallest(1) [OF Zt] zn_lift_range(3) [OF Zt])
  have "\<exists>\<eta>. both_answers N inv_g g (stored_entry db scale A) F F' n l mod FIXED_Q = (z + \<eta>) mod FIXED_Q \<and>
    t * \<bar>\<eta>\<bar> \<le> t div 2 + int (group_order g) * (int N * (t div 2 * (t div 2))) + t * (int (group_order g) * (int N * (t div 2 * bound)))"
    by (rule answer_payload [where x = "\<lambda>n l. x n" and e = "\<lambda>n l. e n" and \<mu> = "\<lambda>n l. \<mu> n" and d = "\<lambda>n l. da n" and
          x' = "\<lambda>n l. x' n" and e' = "\<lambda>n l. e' n" and \<mu>' = "\<lambda>n l. \<mu>' n" and d' = "\<lambda>n l. d' n" and c = "zn_lift (pr_base (db_ring db)) scale" and
          S = "stored_entry db scale A" and F = F and F' = F' and A = A and l = l and q = FIXED_Q and h = "t div 2" and bound = bound and n = n and i = i,
          OF g d(4) i n t S scale [folded t_def] f(1,3,2,4,5) f'(1,3,2,4,5) z(1) zt z(2)])
  then show ?thesis unfolding z(3) L_def by (simp only: mod_add_left_eq)
qed

lemma both_primes:
  assumes "x mod Q_FACTOR1 = z mod Q_FACTOR1" "x mod Q_FACTOR2 = z mod Q_FACTOR2"
  shows "x mod FIXED_Q = z mod FIXED_Q"
proof -
  have "Q_FACTOR1 * Q_FACTOR2 dvd x - z"
    using assms primes_coprime(1) by (intro divides_mult) (simp_all only: mod_eq_dvd_iff)
  then show ?thesis by (simp only: FIXED_Q_def mod_eq_dvd_iff)
qed

text \<open>The coefficients of a reply, from its slots.\<close>

lemma reply_coefficients:
  assumes y: "half_turn Q_FACTOR1 N (fst ys)" "half_turn Q_FACTOR2 N (snd ys)" and inv_g: "(gen_H * inv_g) mod (2 * N) = 1" and N: "N = 2 ^ k" and n: "n < N"
    and slots: "\<And>j. j < N \<Longrightarrow> slot_value (fst ys) N D j l mod Q_FACTOR1 =
        (shard_answer (fst ys) N (loop_len g) (requires_conj g) (\<lambda>i. slot_value (fst ys) N (S (reversed_column g i)))
          (\<lambda>i. slot_value (fst ys) N (S (reversed_column g (loop_len g + i)))) F F' j l + slot_value (fst ys) N noise j l) mod Q_FACTOR1"
      "\<And>j. j < N \<Longrightarrow> slot_value (snd ys) N D j l mod Q_FACTOR2 =
        (shard_answer (snd ys) N (loop_len g) (requires_conj g) (\<lambda>i. slot_value (snd ys) N (S (reversed_column g i)))
          (\<lambda>i. slot_value (snd ys) N (S (reversed_column g (loop_len g + i)))) F F' j l + slot_value (snd ys) N noise j l) mod Q_FACTOR2"
  shows "D n l mod FIXED_Q = (both_answers N inv_g g S F F' n l + noise n l) mod FIXED_Q"
proof -
  let ?W = "\<lambda>n l. both_answers N inv_g g S F F' n l + noise n l"
  have odd: "odd Q_FACTOR1" "odd Q_FACTOR2" by (simp_all add: q_values)
  have "slot_value (fst ys) N D j l mod Q_FACTOR1 = slot_value (fst ys) N ?W j l mod Q_FACTOR1" if "j < N" for j
    unfolding slots(1) [OF that] slot_add by (intro mod_add_cong slot_both_answers [OF y(1) inv_g that] refl)
  then have first: "D n l mod Q_FACTOR1 = ?W n l mod Q_FACTOR1" by (rule slot_inject [OF y(1) N odd(1) n])
  have "slot_value (snd ys) N D j l mod Q_FACTOR2 = slot_value (snd ys) N ?W j l mod Q_FACTOR2" if "j < N" for j
    unfolding slots(2) [OF that] slot_add by (intro mod_add_cong slot_both_answers [OF y(2) inv_g that] refl)
  then have "D n l mod Q_FACTOR2 = ?W n l mod Q_FACTOR2" by (rule slot_inject [OF y(2) N odd(2) n])
  with first show ?thesis by (rule both_primes)
qed

lemma loaded_evaluation:
  fixes db :: "('z, 'p, 'r) pir_database"
  assumes ok: "evaluation_ok N ys inv_g db" and tr: "transform_ok pow N m ys db" and mem: "memory_sized N db"
    and even: "even (loop_len (db_index_group db))"
    and entries: "length entries = group_order (db_index_group db) * SIMD_COUNT" "entries_fit db entries"
    and keys: "keys_encrypt inv_g rng bound sks db queries" "0 \<le> bound" "length queries = 8"
    and conj: "requires_conj (db_index_group db) \<longrightarrow> (\<forall>q \<in> set queries. qr_qry_conj_b q \<noteq> None)"
  defines "g \<equiv> db_index_group db" and "A \<equiv> entry_coeff (db_ring db) entries" and "t \<equiv> zn_modulus (pr_base (db_ring db))"
    and "F \<equiv> query_content rng sks db 0 qr_qry_b queries" and "F' \<equiv> query_content rng sks db 1 (the \<circ> qr_qry_conj_b) queries"
  shows "\<exists>db' a b scale noise. set_db_entries rng pow inv_g entries db = (Ok db' :: (unit, ('z, 'p, 'r) pir_database) outcome) \<and>
    get_a db' = (Ok a :: (unit, 'r list) outcome) \<and> perform_pir_split inv_g queries db' = (Ok b :: (unit, 'r list) outcome) \<and>
    length a = 8 \<and> length b = 8 \<and> (int (group_order g) * zn_lift (pr_base (db_ring db)) scale) mod t = 1 \<and>
    (\<forall>n < N. \<forall>l < 8. \<bar>noise n l\<bar> \<le> 2 * int (loop_len g) * (int N * ((2 ^ 25 + 2 ^ 24) * bound)) \<and>
      decrypted (db_ciphertext_ring db) sks a b n l mod FIXED_Q =
        (both_answers N inv_g g (stored_entry db scale A) F F' n l + noise n l) mod FIXED_Q)"
proof -
  have dok: "database_ok N ys inv_g db" and y: "half_turn Q_FACTOR1 N (fst ys)" "half_turn Q_FACTOR2 N (snd ys)"
    using ok by (simp_all add: evaluation_ok_def)
  note d = database_okD [OF dok]
  have T: "group_ok g N m" using tr unfolding transform_ok_def Let_def g_def by blast
  obtain scale te te' where st: "set_transformed_entries pow inv_g entries db =
      (Ok (db\<lparr>db_transformed_entries := te, db_transformed_entries_conj := te', db_reply_a := ([], [])\<rparr>) :: (unit, ('z, 'p, 'r) pir_database) outcome)"
    "(int (group_order g) * zn_lift (pr_base (db_ring db)) scale) mod t = 1"
    "let S = \<lambda>y i. slot_value y N (stored_entry db scale A (reversed_column g i)); len = loop_len g in
      entries_held (db_rns_base db) N len te (S (fst ys), S (snd ys)) \<and>
      (requires_conj g \<longrightarrow> entries_held (db_rns_base db) N len te' (\<lambda>i. S (fst ys) (len + i), \<lambda>i. S (snd ys) (len + i)))"
    using set_transformed_holds [OF dok y(1) tr entries, where 'e = unit] unfolding g_def A_def t_def by blast
  define db1 where "db1 = db\<lparr>db_transformed_entries := te, db_transformed_entries_conj := te', db_reply_a := ([], [])\<rparr>"
  have same: "db_index_group db1 = g" "db_ciphertext_ring db1 = db_ciphertext_ring db" "db_use_seeds db1 = db_use_seeds db"
    "query_content rng sks db1 k f queries = query_content rng sks db k f queries" for k f
    by (simp_all add: db1_def query_content_def g_def)
  have ok1: "evaluation_ok N ys inv_g db1" using ok by (simp add: evaluation_ok_def database_ok_def db1_def)
  then have dok1: "database_ok N ys inv_g db1" by (simp add: evaluation_ok_def)
  let ?E = "\<lambda>y i. slot_value y N (stored_entry db scale A (reversed_column g i))"
  let ?E' = "\<lambda>y i. slot_value y N (stored_entry db scale A (reversed_column g (loop_len g + i)))"
  have ld: "loaded N db1 (?E (fst ys), ?E (snd ys)) (?E' (fst ys), ?E' (snd ys))"
    using st(3) mem by (simp add: loaded_def memory_sized_def Let_def db1_def g_def)
  have keys1: "keys_encrypt inv_g rng bound sks db1 queries" using keys(1) by (simp add: keys_encrypt_def db1_def)
  have conj1: "requires_conj (db_index_group db1) \<longrightarrow> (\<forall>q \<in> set queries. qr_qry_conj_b q \<noteq> None)" using conj by (simp only: same(1) g_def)
  have even1: "even (loop_len (db_index_group db1))" using even by (simp only: same(1) g_def)
  obtain db' a b noise where ev: "preprocess_db rng inv_g db1 = (Ok db' :: (unit, ('z, 'p, 'r) pir_database) outcome)"
    "get_a db' = (Ok a :: (unit, 'r list) outcome)" "perform_pir_split inv_g queries db' = (Ok b :: (unit, 'r list) outcome)"
    "length a = 8" "length b = 8" "\<forall>n < N. \<forall>l < 8. \<bar>noise n l\<bar> \<le> 2 * int (loop_len g) * (int N * ((2 ^ 25 + 2 ^ 24) * bound))"
    "\<forall>j < N. \<forall>l < 8.
      slot_value (fst ys) N (decrypted (db_ciphertext_ring db) sks a b) j l mod Q_FACTOR1 =
        (shard_answer (fst ys) N (loop_len g) (requires_conj g) (?E (fst ys)) (?E' (fst ys)) F F' j l + slot_value (fst ys) N noise j l) mod Q_FACTOR1 \<and>
      slot_value (snd ys) N (decrypted (db_ciphertext_ring db) sks a b) j l mod Q_FACTOR2 =
        (shard_answer (snd ys) N (loop_len g) (requires_conj g) (?E (snd ys)) (?E' (snd ys)) F F' j l + slot_value (snd ys) N noise j l) mod Q_FACTOR2"
    using evaluation_slots [OF ok1 ld even1 keys(3) conj1 keys1 keys(2), where 'e = unit]
    unfolding same fst_conv snd_conv F_def F'_def by (elim exE conjE) assumption
  have set: "set_db_entries rng pow inv_g entries db = (Ok db' :: (unit, ('z, 'p, 'r) pir_database) outcome)"
    using st(1) ev(1) by (simp add: set_db_entries_def db1_def)
  have N: "N = 2 ^ Suc m" using T by (simp add: group_ok_def)
  have "decrypted (db_ciphertext_ring db) sks a b n l mod FIXED_Q = (both_answers N inv_g g (stored_entry db scale A) F F' n l + noise n l) mod FIXED_Q"
    if "n < N" "l < 8" for n l
    using ev(7) that(2) by (intro reply_coefficients [OF y d(4) N that(1)]) simp_all
  then show ?thesis using set ev(2-6) st(2) by blast
qed

text \<open>
  The noise of a ciphertext that should decrypt to \<open>x\<close>: what \<open>dec\<close> finds before rounding, less the payload of \<open>x\<close>, as the
  residue of smallest absolute value.
\<close>

definition reply_noise :: "('w, 'p) poly_ring \<Rightarrow> ('z, 'r) poly_ring \<Rightarrow> 'r \<Rightarrow> 'r \<times> 'r \<Rightarrow> 'p \<Rightarrow> nat \<Rightarrow> int" where
  "reply_noise P C sk ct x n = (case (modulus_inv (pr_base P) (pr_base C) :: (unit, 'z) outcome) of
     Ok u \<Rightarrow> zn_smallest_lift (pr_base C) (zn_of_int (pr_base C) (coeff C (pr_add C (pr_mul C (fst ct) sk) (snd ct)) n -
       zn_lift (pr_base C) (rescale (pr_base P) (pr_base C) u (pr_basis P x ! n))))
   | _ \<Rightarrow> 0)"

lemma least_residue:
  fixes q a b :: int
  assumes "a mod q = b mod q" "2 * \<bar>a\<bar> \<le> q"
  shows "\<bar>a\<bar> \<le> \<bar>b\<bar>"
proof (rule ccontr)
  assume c: "\<not> \<bar>a\<bar> \<le> \<bar>b\<bar>"
  have "q dvd a - b" using assms(1) by (simp add: mod_eq_dvd_iff)
  moreover have "\<bar>a - b\<bar> < q" using c assms(2) by linarith
  ultimately have "a - b = 0" using dvd_imp_le_int [of "a - b" q] c by fastforce
  then show False using c by simp
qed

lemma reply_noise_least:
  assumes C: "poly_spec C" and u: "modulus_inv (pr_base P) (pr_base C) = (Ok u :: (unit, 'z) outcome)" and n: "n < pr_rank C"
    and c: "coeff C (pr_add C (pr_mul C (fst ct) sk) (snd ct)) n = (zn_lift (pr_base C) (rescale (pr_base P) (pr_base C) u (pr_basis P x ! n)) + e) mod zn_modulus (pr_base C)"
  shows "\<bar>reply_noise P (C :: ('z, 'r) poly_ring) sk ct x n\<bar> \<le> \<bar>e\<bar>"
proof (rule least_residue)
  let ?q = "zn_modulus (pr_base C)"
  have R: "zn_arith_spec (pr_base C)" by (rule poly_base [OF C])
  show "2 * \<bar>reply_noise P C sk ct x n\<bar> \<le> ?q" using zn_smallest(2) [OF R] by (simp add: reply_noise_def u)
  show "reply_noise P C sk ct x n mod ?q = e mod ?q"
    unfolding reply_noise_def u outcome.case c zn_smallest(1) [OF R] zn_lift_of_int [OF R]
    by (simp add: mod_diff_left_eq)
qed

lemma reply_noise_holds:
  assumes C: "poly_spec C" and u: "modulus_inv (pr_base P) (pr_base C) = (Ok u :: (unit, 'z) outcome)"
  shows "coeff (C :: ('z, 'r) poly_ring) (pr_add C (pr_mul C (fst ct) sk) (snd ct)) n =
    (zn_lift (pr_base C) (rescale (pr_base P) (pr_base C) u (pr_basis P x ! n)) + reply_noise P C sk ct x n) mod zn_modulus (pr_base C)"
proof -
  have R: "zn_arith_spec (pr_base C)" by (rule poly_base [OF C])
  let ?c = "coeff C (pr_add C (pr_mul C (fst ct) sk) (snd ct)) n" and ?p = "zn_lift (pr_base C) (rescale (pr_base P) (pr_base C) u (pr_basis P x ! n))"
  have "reply_noise P C sk ct x n mod zn_modulus (pr_base C) = (?c - ?p) mod zn_modulus (pr_base C)"
    unfolding reply_noise_def u outcome.case zn_smallest(1) [OF R] zn_lift_of_int [OF R] by simp
  then have "(?p + reply_noise P C sk ct x n) mod zn_modulus (pr_base C) = (?p + (?c - ?p)) mod zn_modulus (pr_base C)" by (rule mod_add_cong [OF refl])
  then show ?thesis using zn_lift_range(3) [OF R] by (simp add: coeff_def)
qed

lemma dec_reply:
  assumes P: "poly_spec (P :: ('w, 'p) poly_ring)" and C: "poly_spec (C :: ('z, 'r) poly_ring)" and rank: "pr_rank P = pr_rank C"
    and cop: "coprime (zn_modulus (pr_base P)) (zn_modulus (pr_base C))"
    and small: "\<And>n. n < pr_rank C \<Longrightarrow> 2 * zn_modulus (pr_base P) * \<bar>reply_noise P C sk ct x n\<bar> + zn_modulus (pr_base P) < zn_modulus (pr_base C)"
  shows "\<exists>y. dec P C sk ct = (Ok y :: ('e, 'p) outcome) \<and> (\<forall>n < pr_rank P. coeff P y n = coeff P x n)"
proof -
  have R: "zn_arith_spec (pr_base C)" by (rule poly_base [OF C])
  obtain u where u: "modulus_inv (pr_base P) (pr_base C) = (Ok u :: (unit, 'z) outcome)"
    "(zn_modulus (pr_base P) * zn_lift (pr_base C) u) mod zn_modulus (pr_base C) = 1"
    using modulus_inv_Ok [OF R cop, where 'e = unit] by blast
  from reply_noise_holds [OF C u(1)] show ?thesis by (rule dec_noisy [OF P C rank cop u(2) _ small])
qed

lemma lane_content:
  fixes db :: "('z, 'p, 'r) pir_database"
  assumes ok: "database_ok N ys inv_g db" and R: "poly_spec (db_ring db)" "gen_pow_spec (db_ring db)" and g: "group_ok (db_index_group db) N m"
    and cop: "coprime (zn_modulus (pr_base (db_ring db))) FIXED_Q"
    and bq: "0 \<le> bq" and len: "length queries = 8"
    and ql: "query_lane rng (db_ring db) (db_ciphertext_ring db) (db_index_group db) (db_use_seeds db) bq (sks ! l) i (queries ! l)" and l: "l < 8"
    and scale: "(int (group_order (db_index_group db)) * zn_lift (pr_base (db_ring db)) scale) mod zn_modulus (pr_base (db_ring db)) = 1"
    and D: "\<And>n. n < N \<Longrightarrow> \<bar>err n l\<bar> \<le> 2 * int (loop_len (db_index_group db)) * (int N * ((2 ^ 25 + 2 ^ 24) * bk))"
      "\<And>n. n < N \<Longrightarrow> decrypted (db_ciphertext_ring db) sks as bs n l mod FIXED_Q =
        (both_answers N inv_g (db_index_group db) (stored_entry db scale (entry_coeff (db_ring db) entries))
          (query_content rng sks db 0 qr_qry_b queries) (query_content rng sks db 1 (the \<circ> qr_qry_conj_b) queries) n l + err n l) mod FIXED_Q"
  defines "t \<equiv> zn_modulus (pr_base (db_ring db))" and "entry \<equiv> entries ! (i * SIMD_COUNT + l)"
  shows "\<forall>n < N. t * \<bar>reply_noise (db_ring db) (db_ciphertext_ring db) (sks ! l) (as ! l, bs ! l) entry n\<bar> \<le> noise_limit N (db_index_group db) t bq bk"
proof -
  let ?R = "db_ring db" and ?C = "db_ciphertext_ring db" and ?g = "db_index_group db"
  note d = database_okD [OF ok]
  note q = lane_query [OF ok len ql l]
  have cop': "coprime (zn_modulus (pr_base ?R)) (zn_modulus (pr_base ?C))" using cop by (simp only: d(7))
  obtain u where inv: "modulus_inv (pr_base ?R) (pr_base ?C) = (Ok u :: (unit, 'z) outcome)"
    and u: "(zn_modulus (pr_base ?R) * zn_lift (pr_base ?C) u) mod zn_modulus (pr_base ?C) = 1"
    using modulus_inv_Ok [OF d(8) cop', where 'e = unit] by blast
  let ?pay = "\<lambda>n. zn_lift (pr_base ?C) (rescale (pr_base ?R) (pr_base ?C) u (pr_basis ?R entry ! n))"
  have A: "entry_coeff ?R entries i n l = coeff ?R entry n" for n by (simp add: entry_coeff_def entry_def)
  have "\<exists>\<eta>. both_answers N inv_g ?g (stored_entry db scale (entry_coeff ?R entries)) (query_content rng sks db 0 qr_qry_b queries)
      (query_content rng sks db 1 (the \<circ> qr_qry_conj_b) queries) n l mod FIXED_Q = (?pay n + \<eta>) mod FIXED_Q \<and>
      t * \<bar>\<eta>\<bar> \<le> t div 2 + int (group_order ?g) * (int N * (t div 2 * (t div 2))) + t * (int (group_order ?g) * (int N * (t div 2 * bq)))" if "n < N" for n
    unfolding t_def by (rule lane_answer [where A = "entry_coeff ?R entries" and entry = entry and l = l and
          F = "query_content rng sks db 0 qr_qry_b queries" and F' = "query_content rng sks db 1 (the \<circ> qr_qry_conj_b) queries", OF ok R g q(1) that A scale q(2,4) u [unfolded d(7)] refl bq])
  then obtain \<epsilon> where \<epsilon>: "\<And>n. n < N \<Longrightarrow> both_answers N inv_g ?g (stored_entry db scale (entry_coeff ?R entries)) (query_content rng sks db 0 qr_qry_b queries)
      (query_content rng sks db 1 (the \<circ> qr_qry_conj_b) queries) n l mod FIXED_Q = (?pay n + \<epsilon> n) mod FIXED_Q"
    "\<And>n. n < N \<Longrightarrow> t * \<bar>\<epsilon> n\<bar> \<le> t div 2 + int (group_order ?g) * (int N * (t div 2 * (t div 2))) + t * (int (group_order ?g) * (int N * (t div 2 * bq)))"
    by metis
  have t: "0 < t" using zn_modulus_gt_1 [OF poly_base [OF R(1)]] by (simp add: t_def)
  define \<eta> where "\<eta> = (\<lambda>n. \<epsilon> n + err n l)"
  have limit: "t * \<bar>\<eta> n\<bar> \<le> noise_limit N ?g t bq bk" if n: "n < N" for n
  proof -
    have "t * \<bar>\<eta> n\<bar> \<le> t * (\<bar>\<epsilon> n\<bar> + \<bar>err n l\<bar>)" unfolding \<eta>_def using t by (intro mult_left_mono abs_triangle_ineq) simp
    moreover have "t * \<bar>err n l\<bar> \<le> t * (2 * int (loop_len ?g) * (int N * ((2 ^ 25 + 2 ^ 24) * bk)))"
      using D(1) [OF n] t by (intro mult_left_mono) simp_all
    ultimately show ?thesis using \<epsilon>(2) [OF n] unfolding noise_limit_def Let_def distrib_left by linarith
  qed
  have content: "coeff ?C (pr_add ?C (pr_mul ?C (fst (as ! l, bs ! l)) (sks ! l)) (snd (as ! l, bs ! l))) n = (?pay n + \<eta> n) mod zn_modulus (pr_base ?C)"
    if n: "n < pr_rank ?C" for n
  proof -
    have n': "n < N" using n by (simp only: d(2))
    have "decrypted ?C sks as bs n l mod FIXED_Q = ((?pay n + \<epsilon> n) + err n l) mod FIXED_Q"
      unfolding D(2) [OF n'] by (intro mod_add_cong \<epsilon>(1) [OF n'] refl)
    then have "decrypted ?C sks as bs n l mod FIXED_Q = (?pay n + \<eta> n) mod FIXED_Q" by (simp only: \<eta>_def add.assoc)
    moreover have "decrypted ?C sks as bs n l mod FIXED_Q = decrypted ?C sks as bs n l"
      unfolding decrypted_def coeff_def d(7) [symmetric] by (rule zn_lift_range(3) [OF d(8)])
    ultimately show ?thesis by (simp only: decrypted_def fst_conv snd_conv d(7))
  qed
  have "t * \<bar>reply_noise ?R ?C (sks ! l) (as ! l, bs ! l) entry n\<bar> \<le> noise_limit N ?g t bq bk" if n: "n < N" for n
  proof -
    have "n < pr_rank ?C" using n by (simp only: d(2))
    then have "\<bar>reply_noise ?R ?C (sks ! l) (as ! l, bs ! l) entry n\<bar> \<le> \<bar>\<eta> n\<bar>" by (intro reply_noise_least [OF d(6) inv _ content])
    then have "t * \<bar>reply_noise ?R ?C (sks ! l) (as ! l, bs ! l) entry n\<bar> \<le> t * \<bar>\<eta> n\<bar>" using t by (intro mult_left_mono) simp_all
    then show ?thesis using limit [OF n] by (rule order_trans)
  qed
  then show ?thesis by blast
qed


section \<open>A database with the full group\<close>

definition ref_pow :: "'z special_zn \<Rightarrow> m512i \<Rightarrow> nat \<Rightarrow> m512i" where
  "ref_pow r v e = ((\<lambda>x. mul_assign r x v) ^^ e) (from_int r 1)"

lemma ref_pow_represents:
  assumes r: "special_ok r" and v: "represents r (2 * pm r) v (\<lambda>_. z)"
  shows "represents r (2 * pm r) (ref_pow r v e) (\<lambda>_. z ^ e)"
proof (induction e)
  case 0
  then show ?case using represents_two [OF r from_int_represents [OF r, of 1]] by (simp add: ref_pow_def)
next
  case (Suc e)
  then show ?case using mul_assign_represents [OF r Suc.IH v] by (simp add: ref_pow_def mult.commute)
qed

lemma ref_pow_ok: "pow_ok ref_pow (field_ring 26) (replicate 8 15432174)"
proof -
  let ?r = "field_ring 26" and ?zeta = "replicate 8 15432174 :: m512i"
  have r: "special_ok ?r" by (rule field_ring_ok) simp
  obtain z where z: "represents ?r (2 * pm ?r) ?zeta (\<lambda>_. z)" "(z * 514051) mod pm ?r = 1"
    using small_root_ok(1) by (auto simp: root_ok_def)
  have p: "pm ?r > 1" using demo_ring_ok(2) by (simp add: field_ring_ok(2))
  have "checked_left_div ?r (from_int ?r 1) (ref_pow ?r ?zeta e) \<noteq> None" for e
  proof (rule field_division [OF _ ref_pow_represents [OF r z(1)]])
    have "(z * 514051) ^ e mod pm ?r = 1 ^ e mod pm ?r" using z(2) p by (metis power_mod mod_pos_pos_trivial zero_le_one)
    then show "(z ^ e * 514051 ^ e) mod pm ?r = 1" using p by (simp add: power_mult_distrib)
  qed simp
  then show ?thesis using ref_pow_represents [OF r] by (simp add: pow_ok_def)
qed

definition full_db :: "(int, int list, int list) pir_database" where
  "full_db = small_db\<lparr>db_index_group := full_group 16, db_len_subgroup_order_ntts := db_len_N_ntts small_db,
     db_inner_prod_gk := replicate 2 (replicate 128 [], replicate 128 []),
     db_inner_prod_conj_gk := replicate 2 (replicate 128 [], replicate 128 [])\<rparr>"

definition demo_entry :: "nat \<Rightarrow> int list" where
  "demo_entry e = map (\<lambda>n. int (e + n)) [0..<16]"

definition demo_entries :: "int list list" where
  "demo_entries = map demo_entry [0..<128]"

definition full_query :: "nat \<Rightarrow> int list query_ref" where
  "full_query l = (let enc = \<lambda>seed k. (case enc_sym_b unit_noise (int_poly 16 1025) (int_poly 16 FIXED_Q) seed 0 (demo_secret l) (pr_gen_pow (int_poly 16 1025) k)
       of Ok (b, g) \<Rightarrow> b | (_ :: (unit, int list \<times> nat) outcome) \<Rightarrow> [])
     in (demo_query l)\<lparr>qr_qry_b := enc (SEEDS ! 2) (2 * l), qr_qry_conj_b := Some (enc (SEEDS ! 3) (32 - 2 * l))\<rparr>)"

lemma full_parts:
  "db_ring full_db = int_poly 16 1025" "db_ciphertext_ring full_db = int_poly 16 FIXED_Q" "db_index_group full_db = full_group 16"
  "requires_conj (full_group 16)" "group_order (full_group 16) = 16" "loop_len (full_group 16) = 8" "query_base_power (full_group 16) = 1"
  "db_rns_base full_db = field_pair" "db_zeta full_db = (replicate 8 15432174, replicate 8 10089674)" "db_use_seeds full_db = FirstSet"
  by (simp_all add: full_db_def small_db_def index_group_defs)

lemma full_plain: "poly_spec (int_poly 16 1025)" "poly_spec (int_poly 16 FIXED_Q)" "coprime 1025 FIXED_Q"
proof -
  show "poly_spec (int_poly 16 1025)" "poly_spec (int_poly 16 FIXED_Q)" by (rule int_poly_spec, simp add: q_values)+
  show "coprime 1025 FIXED_Q" by (simp add: q_values coprime_iff_gcd_eq_1 gcd_non_0_int)
qed

lemma full_transform_ok: "transform_ok ref_pow 16 3 (514051, 878186) full_db"
proof -
  have "group_ok (full_group 16) 16 3" by (simp add: group_ok_def full_group_def)
  moreover have "ntt_spec (field_ring 26) 16 (514051 ^ 2) (fst (db_len_subgroup_order_ntts full_db))"
    using small_root_ok(1) by (simp add: root_ok_def full_db_def small_db_def)
  moreover have "coprime 16 (1025 :: int)" by (simp add: coprime_iff_gcd_eq_1 gcd_non_0_int)
  ultimately show ?thesis
    using ref_pow_ok full_plain(1) by (simp add: transform_ok_def Let_def full_parts int_poly_rank field_pair_def q_values)
qed

lemma full_memory: "memory_sized 16 full_db"
  by (simp add: memory_sized_def Let_def full_parts) (simp add: full_db_def sized_def)

lemma full_gen_pow: "gen_pow_spec (int_poly 16 1025)"
proof -
  have "coeff (int_poly 16 1025) (pr_gen_pow (int_poly 16 1025) e) n = mono 16 (int e) n l mod 1025" if n: "n < 16" for e n l
  proof -
    have m: "mono 16 (int e) n l = (if (int n - int e) mod 32 = 0 then 1 else if (int n - int e) mod 32 = 16 then - 1 else 0)"
      using ext_one [of 16 "int n - int e" l] by (simp add: mono_def shift_def)
    have c: "coeff (int_poly 16 1025) (pr_gen_pow (int_poly 16 1025) e) n = (if e mod 32 = n then 1 else if e mod 32 = n + 16 then - 1 else 0) mod 1025"
      using n by (simp add: coeff_def int_poly_def int_arith_def Let_def)
    define r where "r = e mod 32"
    have r: "r < 32" "(int n - int e) mod 32 = (int n - int r) mod 32" by (simp_all add: r_def zmod_int mod_diff_right_eq)
    have "(int n - int r) mod 32 = (if r \<le> n then int n - int r else int n - int r + 32)"
    proof (cases "r \<le> n")
      case False
      have "(int n - int r) mod 32 = (int n - int r + 32) mod 32" by (simp only: mod_add_self2)
      also have "\<dots> = int n - int r + 32" using False r(1) n by (intro mod_pos_pos_trivial) simp_all
      finally show ?thesis using False by simp
    qed (use n in simp)
    then have "(int n - int e) mod 32 = 0 \<longleftrightarrow> e mod 32 = n" "(int n - int e) mod 32 = 16 \<longleftrightarrow> e mod 32 = n + 16"
      unfolding r_def [symmetric] r(2) using n r(1) by auto
    then show ?thesis unfolding m c by (simp only:)
  qed
  then show ?thesis by (simp add: gen_pow_spec_def int_poly_rank)
qed

lemma full_entries: "length demo_entries = 16 * SIMD_COUNT" "entries_fit full_db demo_entries"
proof -
  show "length demo_entries = 16 * SIMD_COUNT" by (simp add: demo_entries_def SIMD_COUNT_def)
  have "zn_lift (sz_component_ring (field_ring 26)) (pr_basis (int_poly 16 1025) (demo_entry e) ! n) = coeff (int_poly 16 1025) (demo_entry e) n"
    if "n < 16" "e < 128" for e n
    using that by (simp add: demo_entry_def coeff_def int_poly_def int_arith_def Let_def field_ring_def truncated_ring)
  then show "entries_fit full_db demo_entries" by (auto simp: entries_fit_def full_parts int_poly_rank field_pair_def demo_entries_def)
qed

lemma full_client_keys: "client_keys unit_noise (int_arith 32) 1 (map demo_secret [0..<8]) full_db (map full_query [0..<8])"
proof -
  have "qr_gk_b (map full_query [0..<8] ! l) = qr_gk_b (map demo_query [0..<8] ! l)" if "l < 8" for l
    using that by (simp add: full_query_def Let_def)
  moreover have "db_ciphertext_ring full_db = db_ciphertext_ring small_db" "db_use_seeds full_db = db_use_seeds small_db" by (simp_all add: full_db_def)
  ultimately show ?thesis using demo_client_keys unfolding client_keys_def SIMD_COUNT_def by simp
qed

lemma full_client_queries: "client_queries unit_noise (map demo_secret [0..<8]) (\<lambda>l. 2 * l) full_db (map full_query [0..<8])"
proof -
  have cop: "coprime (zn_modulus (pr_base (int_poly 16 1025))) (zn_modulus (pr_base (int_poly 16 FIXED_Q)))"
    using full_plain(3) by (simp add: int_poly_rank)
  have "\<exists>b s'. enc_sym_b unit_noise (int_poly 16 1025) (int_poly 16 FIXED_Q) seed 0 sk msg = (Ok (b, s') :: (unit, int list \<times> nat) outcome)" for seed sk msg
    using modulus_inv_Ok [OF poly_base [OF full_plain(2)] cop, where 'e = unit] by (auto simp: enc_sym_b_def Let_def split_beta)
  note enc = this
  have "\<exists>s'. enc_sym_b unit_noise (int_poly 16 1025) (int_poly 16 FIXED_Q) (SEEDS ! 2) 0 (demo_secret l) (pr_gen_pow (int_poly 16 1025) (2 * l)) =
      (Ok (qr_qry_b (full_query l), s') :: (unit, int list \<times> nat) outcome)" for l
    using enc [of "SEEDS ! 2" "demo_secret l" "pr_gen_pow (int_poly 16 1025) (2 * l)"] by (auto simp: full_query_def Let_def)
  then have "\<exists>s s'. enc_sym_b unit_noise (int_poly 16 1025) (int_poly 16 FIXED_Q) (SEEDS ! 2) s (demo_secret l) (pr_gen_pow (int_poly 16 1025) (2 * l)) =
      (Ok (qr_qry_b (full_query l), s') :: (unit, int list \<times> nat) outcome)" for l by blast
  moreover have "\<exists>b s'. qr_qry_conj_b (full_query l) = Some b \<and>
      enc_sym_b unit_noise (int_poly 16 1025) (int_poly 16 FIXED_Q) (SEEDS ! 3) 0 (demo_secret l) (pr_gen_pow (int_poly 16 1025) (32 - 2 * l)) =
      (Ok (b, s') :: (unit, int list \<times> nat) outcome)" for l
    using enc [of "SEEDS ! 3" "demo_secret l" "pr_gen_pow (int_poly 16 1025) (32 - 2 * l)"] by (auto simp: full_query_def Let_def)
  then have "\<exists>b s s'. qr_qry_conj_b (full_query l) = Some b \<and>
      enc_sym_b unit_noise (int_poly 16 1025) (int_poly 16 FIXED_Q) (SEEDS ! 3) s (demo_secret l) (pr_gen_pow (int_poly 16 1025) (32 - 2 * l)) =
      (Ok (b, s') :: (unit, int list \<times> nat) outcome)" for l by blast
  ultimately show ?thesis
    by (simp add: client_queries_def client_query_def Let_def full_parts int_poly_rank SIMD_COUNT_def)
qed


section \<open>Property\<close>

text \<open>
  C3. Retrieval from a shard. A database loaded with plaintext entries by \<open>set_transformed_entries\<close> and preprocessed answers
  eight clients without a panic. The noise of the reply in every lane, against the entry its client asked for and scaled by the
  plaintext modulus, never exceeds \<open>noise_limit\<close>; and whenever it leaves room for rounding, the reply decrypts with \<open>dec\<close> to
  that entry, coefficient by coefficient. The clients' keys and queries are what \<open>gen_gk_b\<close> and \<open>enc_sym_b\<close> give
  them. This covers both index groups: the subgroup generated by 5, and the full group with the conjugated query.
\<close>

theorem shard_retrieval:
  assumes "evaluation_ok N ys inv_g db" "transform_ok pow N m ys db" "memory_sized N db" "even (loop_len (db_index_group db))"
    and "coprime (zn_modulus (pr_base (db_ring db))) FIXED_Q" "gen_pow_spec (db_ring db)"
    and "length entries = group_order (db_index_group db) * SIMD_COUNT" "entries_fit db entries"
    and "client_keys rng Gal bound sks db queries" "client_queries rng sks idx db queries"
  shows "\<exists>db' a b. set_db_entries rng pow inv_g entries db = (Ok db' :: (unit, ('z, 'p, 'r) pir_database) outcome) \<and>
    get_a db' = (Ok a :: (unit, 'r list) outcome) \<and> perform_pir_split inv_g queries db' = (Ok b :: (unit, 'r list) outcome) \<and>
    (\<forall>l < SIMD_COUNT. let t = zn_modulus (pr_base (db_ring db)); entry = entries ! (idx l * SIMD_COUNT + l);
        \<eta> = reply_noise (db_ring db) (db_ciphertext_ring db) (sks ! l) (a ! l, b ! l) entry in
      (\<forall>n < N. t * \<bar>\<eta> n\<bar> \<le> noise_limit N (db_index_group db) t bound bound) \<and>
      ((\<forall>n < N. 2 * t * \<bar>\<eta> n\<bar> + t < FIXED_Q) \<longrightarrow>
        (\<exists>x. dec (db_ring db) (db_ciphertext_ring db) (sks ! l) (a ! l, b ! l) = (Ok x :: (unit, 'p) outcome) \<and>
          (\<forall>n < N. coeff (db_ring db) x n = coeff (db_ring db) entry n))))"
proof -
  have ok: "database_ok N ys inv_g db" using assms(1) by (simp add: evaluation_ok_def)
  note d = database_okD [OF ok]
  note keys = client_keys_encrypt [OF assms(9) ok]
  have T: "group_ok (db_index_group db) N m" "poly_spec (db_ring db)" using assms(2) unfolding transform_ok_def Let_def by blast+
  have noise: "\<bar>fst (rng_gauss rng s)\<bar> \<le> bound" for s using assms(9) by (simp add: client_keys_def)
  have q: "client_query rng (db_ring db) (db_ciphertext_ring db) (db_index_group db) (db_use_seeds db) (sks ! l) (idx l) (queries ! l)" if "l < 8" for l using assms(10) that by (simp add: client_queries_def SIMD_COUNT_def)
  have cop: "coprime (zn_modulus (pr_base (db_ring db))) (zn_modulus (pr_base (db_ciphertext_ring db)))" using assms(5) by (simp only: d(7))
  have rank: "pr_rank (db_ring db) = pr_rank (db_ciphertext_ring db)" by (simp only: d(1,2))
  note lane = client_query_lane [OF T(2) d(6) rank cop noise q]
  have conj: "requires_conj (db_index_group db) \<longrightarrow> (\<forall>q \<in> set queries. qr_qry_conj_b q \<noteq> None)"
    using lane_query(3) [OF ok keys(3) lane] keys(3) by (auto simp: in_set_conv_nth)
  from loaded_evaluation [OF assms(1-4,7,8) keys conj] obtain db' a b scale err where ev:
    "set_db_entries rng pow inv_g entries db = (Ok db' :: (unit, ('z, 'p, 'r) pir_database) outcome)"
    "get_a db' = (Ok a :: (unit, 'r list) outcome)" "perform_pir_split inv_g queries db' = (Ok b :: (unit, 'r list) outcome)"
    "(int (group_order (db_index_group db)) * zn_lift (pr_base (db_ring db)) scale) mod zn_modulus (pr_base (db_ring db)) = 1"
    and D: "\<forall>n < N. \<forall>l < 8. \<bar>err n l\<bar> \<le> 2 * int (loop_len (db_index_group db)) * (int N * ((2 ^ 25 + 2 ^ 24) * bound)) \<and>
      decrypted (db_ciphertext_ring db) sks a b n l mod FIXED_Q =
        (both_answers N inv_g (db_index_group db) (stored_entry db scale (entry_coeff (db_ring db) entries))
          (query_content rng sks db 0 qr_qry_b queries) (query_content rng sks db 1 (the \<circ> qr_qry_conj_b) queries) n l + err n l) mod FIXED_Q"
    by (elim exE conjE)
  note limit = lane_content [where err = err and as = a and bs = b and entries = entries, OF ok T(2) assms(6) T(1) assms(5) keys(2,3) lane _ ev(4)]
  show ?thesis
    unfolding Let_def
    by (intro exI [of _ db'] exI [of _ a] exI [of _ b] conjI ev(1-3) allI impI)
      (use D limit dec_reply [OF T(2) d(6) rank cop, where 'e = unit] in \<open>simp_all add: SIMD_COUNT_def d(1,2,7)\<close>)
qed

text \<open>Lane 5 asks for group element 10, which is entry 85; its coefficients are 85, 86 and so on.\<close>

theorem shard_retrieval_witness:
  "\<exists>db' a b x. set_db_entries unit_noise ref_pow 13 demo_entries full_db = (Ok db' :: (unit, (int, int list, int list) pir_database) outcome) \<and>
    get_a db' = (Ok a :: (unit, int list list) outcome) \<and> perform_pir_split 13 (map full_query [0..<8]) db' = (Ok b :: (unit, int list list) outcome) \<and>
    dec (int_poly 16 1025) (int_poly 16 FIXED_Q) (demo_secret 5) (a ! 5, b ! 5) = (Ok x :: (unit, int list) outcome) \<and>
    coeff (int_poly 16 1025) x 0 = 85 \<and> coeff (int_poly 16 1025) x 7 = 92"
proof -
  have ok: "evaluation_ok 16 (514051, 878186) 13 full_db"
    using small_evaluation_ok by (simp add: evaluation_ok_def database_ok_def full_db_def)
  have side: "even (loop_len (db_index_group full_db))" "coprime (zn_modulus (pr_base (db_ring full_db))) FIXED_Q" "gen_pow_spec (db_ring full_db)"
    "length demo_entries = group_order (db_index_group full_db) * SIMD_COUNT"
    using full_plain(3) full_gen_pow full_entries(1) by (simp_all add: full_parts int_poly_rank)
  from shard_retrieval [OF ok full_transform_ok full_memory side full_entries(2) full_client_keys full_client_queries] obtain db' a b where
    r: "set_db_entries unit_noise ref_pow 13 demo_entries full_db = (Ok db' :: (unit, (int, int list, int list) pir_database) outcome)"
    "get_a db' = (Ok a :: (unit, int list list) outcome)" "perform_pir_split 13 (map full_query [0..<8]) db' = (Ok b :: (unit, int list list) outcome)"
    and lanes: "\<forall>l < SIMD_COUNT. let t = zn_modulus (pr_base (db_ring full_db)); entry = demo_entries ! (2 * l * SIMD_COUNT + l);
        \<eta> = reply_noise (db_ring full_db) (db_ciphertext_ring full_db) (map demo_secret [0..<8] ! l) (a ! l, b ! l) entry in
      (\<forall>n < 16. t * \<bar>\<eta> n\<bar> \<le> noise_limit 16 (db_index_group full_db) t 1 1) \<and>
      ((\<forall>n < 16. 2 * t * \<bar>\<eta> n\<bar> + t < FIXED_Q) \<longrightarrow>
        (\<exists>x. dec (db_ring full_db) (db_ciphertext_ring full_db) (map demo_secret [0..<8] ! l) (a ! l, b ! l) = (Ok x :: (unit, int list) outcome) \<and>
          (\<forall>n < 16. coeff (db_ring full_db) x n = coeff (db_ring full_db) entry n)))"
    by (elim exE conjE)
  have five: "5 < SIMD_COUNT" by (simp add: SIMD_COUNT_def)
  have at: "map demo_secret [0..<8] ! 5 = demo_secret 5" "demo_entries ! (2 * 5 * SIMD_COUNT + 5) = demo_entry 85"
    by (simp_all add: SIMD_COUNT_def demo_entries_def)
  define \<eta> where "\<eta> = reply_noise (int_poly 16 1025) (int_poly 16 FIXED_Q) (demo_secret 5) (a ! 5, b ! 5) (demo_entry 85)"
  have \<eta>: "\<forall>n < 16. 1025 * \<bar>\<eta> n\<bar> \<le> noise_limit 16 (full_group 16) 1025 1 1"
    "(\<forall>n < 16. 2 * 1025 * \<bar>\<eta> n\<bar> + 1025 < FIXED_Q) \<longrightarrow>
        (\<exists>x. dec (int_poly 16 1025) (int_poly 16 FIXED_Q) (demo_secret 5) (a ! 5, b ! 5) = (Ok x :: (unit, int list) outcome) \<and>
          (\<forall>n < 16. coeff (int_poly 16 1025) x n = coeff (int_poly 16 1025) (demo_entry 85) n))"
    using mp [OF spec [OF lanes, of 5] five] unfolding Let_def full_parts int_poly_rank at \<eta>_def by blast+
  have "2 * noise_limit 16 (full_group 16) 1025 1 1 + 1025 < FIXED_Q" by (simp add: noise_limit_def Let_def full_parts q_values)
  then have "\<forall>n < 16. 2 * 1025 * \<bar>\<eta> n\<bar> + 1025 < FIXED_Q" using \<eta>(1) by fastforce
  then obtain x where "dec (int_poly 16 1025) (int_poly 16 FIXED_Q) (demo_secret 5) (a ! 5, b ! 5) = (Ok x :: (unit, int list) outcome)"
    "\<forall>n < 16. coeff (int_poly 16 1025) x n = coeff (int_poly 16 1025) (demo_entry 85) n" using \<eta>(2) by blast
  moreover have "coeff (int_poly 16 1025) (demo_entry 85) 0 = 85" "coeff (int_poly 16 1025) (demo_entry 85) 7 = 92"
    by (simp_all add: coeff_def int_poly_def int_arith_def Let_def demo_entry_def)
  ultimately show ?thesis using r by (intro exI [of _ db'] exI [of _ a] exI [of _ b] exI [of _ x]) simp
qed

end
