(* ===== verification/Creation.thy ===== *)
theory Creation
  imports Retrieval
begin

text \<open>
  \<open>create\<close> of \<open>base_pir.rs\<close>: from what the library promises of rings, roots of unity and transform tables, the database it
  builds in a memory slice satisfies every condition that the correctness of loading and answering rests on.
\<close>

section \<open>The library\<close>

text \<open>
  Documented behaviour of \<open>feanor_math\<close> for the prime of \<open>K\<close> bits: \<open>get_prim_root_of_unity_pow2\<close> finds a root of order
  \<open>2 ^ k\<close> when it divides \<open>p - 1\<close> (both primes are one more than a multiple of \<open>2 ^ 12\<close>), \<open>pow\<close> raises
  vectors to powers, units have inverses, and \<open>CooleyTuckeyFFT::new_with_hom\<close> gives the transform for its root.
\<close>

definition root_of_order :: "int \<Rightarrow> int \<Rightarrow> nat \<Rightarrow> bool" where
  "root_of_order p w k \<longleftrightarrow> (if k = 0 then w mod p = 1 else half_turn p (2 ^ (k - 1)) w)"

definition prime_setup :: "'z ntt_setup \<Rightarrow> nat \<Rightarrow> bool" where
  "prime_setup su K \<longleftrightarrow> (let r = new_rns su K; Zq = new_component su K; p = pm r in
     (\<forall>k < 12. \<exists>z. prim_root su Zq (k + 1) = Some z \<and> half_turn p (2 ^ k) (zn_lift Zq z)) \<and>
     (\<forall>v z e. represents r (2 * p) v (\<lambda>_. z) \<longrightarrow> represents r (2 * p) (pow_zeta su r v e) (\<lambda>_. z ^ e)) \<and>
     (\<forall>v z y. represents r (2 * p) v (\<lambda>_. z) \<and> (z * y) mod p = 1 \<longrightarrow> checked_left_div r (from_int r 1) v \<noteq> None) \<and>
     (\<forall>v w y k. represents r (2 * p) v (\<lambda>_. w) \<and> (w * y) mod p = 1 \<and> root_of_order p w k \<longrightarrow>
       ntt_spec r (2 ^ k) y (new_ntt su r v k)))"

definition setup_spec :: "'z ntt_setup \<Rightarrow> bool" where
  "setup_spec su \<longleftrightarrow> prime_pair (new_rns su 26, new_rns su 25) (new_component su 26, new_component su 25) \<and>
     prime_setup su 26 \<and> prime_setup su 25"


section \<open>Roots and tables\<close>

lemma half_turn_inverse:
  assumes z: "half_turn p N z" and N: "0 < N"
  shows "(z * z ^ (2 * N - 1)) mod p = 1" "half_turn p N (z ^ (2 * N - 1))"
proof -
  have "z * z ^ (2 * N - 1) = z ^ (2 * N * 1)" using N by (simp flip: power_Suc)
  then show "(z * z ^ (2 * N - 1)) mod p = 1" by (simp only: full_turn [OF z])
  have "odd (2 * N - 1)" using N by simp
  from half_turn_power [OF z this] have "((z ^ (2 * N - 1)) ^ N + 1) mod p = (- 1 + 1) mod p" by (intro mod_add_cong refl)
  then show "half_turn p N (z ^ (2 * N - 1))" using z by (simp add: half_turn_def)
qed

lemma inverse_power: "(z * y) mod p = 1 \<Longrightarrow> 1 < p \<Longrightarrow> (z ^ e * y ^ e) mod p = (1 :: int)"
  using power_mod [of "z * y" p e] by (simp add: power_mult_distrib)

lemma root_power_order:
  assumes z: "half_turn p (2 ^ k) z" and j: "j \<le> k"
  shows "root_of_order p (z ^ (2 * 2 ^ (k - j))) j"
proof (cases j)
  case 0
  then show ?thesis using full_turn [OF z, of 1] by (simp add: root_of_order_def)
next
  case (Suc i)
  have "2 * 2 ^ (k - j) * 2 ^ i = (2 ^ (k - j + j) :: nat)" unfolding Suc power_add by simp
  then have "2 * 2 ^ (k - j) * 2 ^ i = (2 ^ k :: nat)" using j by simp
  then have "(z ^ (2 * 2 ^ (k - j))) ^ (2 ^ i) = z ^ 2 ^ k" by (simp only: power_mult [symmetric])
  then show ?thesis using z by (simp add: root_of_order_def half_turn_def Suc)
qed

text \<open>What \<open>create\<close> computes for one prime and the rank \<open>2 ^ k\<close>.\<close>

lemma prime_tables:
  assumes su: "prime_setup su K" and r: "special_ok (new_rns su K)" and k: "k < 12"
    and same: "zn_lift (sz_component_ring (new_rns su K)) = zn_lift (new_component su K)"
  defines "r \<equiv> new_rns su K" and "Zq \<equiv> new_component su K"
  shows "\<exists>z y. prim_root su Zq (k + 1) = Some z \<and> half_turn (pm r) (2 ^ k) y \<and>
    (let zeta = from_components r (replicate 8 z); tab = \<lambda>e. new_ntt su r (pow_zeta su r (rev_delegate r zeta) e) in
      root_ok r (2 ^ k) zeta y (tab 2 k) \<and> pow_ok (pow_zeta su) r zeta \<and>
      (\<forall>j \<le> k. ntt_spec r (2 ^ j) (y ^ (2 * 2 ^ k div 2 ^ j)) (tab (2 * 2 ^ (k - j)) j)))"
proof -
  note s = su [unfolded prime_setup_def Let_def, folded r_def Zq_def]
  obtain z where z: "prim_root su Zq (k + 1) = Some z" "half_turn (pm r) (2 ^ k) (zn_lift Zq z)" using s k by blast
  let ?Z = "zn_lift Zq z" and ?zeta = "from_components r (replicate 8 z)" and ?y = "zn_lift Zq z ^ (2 * 2 ^ k - 1)"
  have p: "1 < pm r" using z(2) by (simp add: half_turn_def)
  note ok = r [folded r_def]
  have zeta: "represents r (2 * pm r) ?zeta (\<lambda>_. ?Z)"
    by (rule represents_two [OF ok represents_cong [OF from_components_represents [OF ok]]]) (simp add: same [folded r_def Zq_def])
  have red: "represents r (2 * pm r) (rev_delegate r ?zeta) (\<lambda>_. ?Z)"
    using represents_mono [OF reduce_from_2p_represents [OF ok zeta], of "2 * pm r"] by (simp add: rev_delegate_def)
  have inv: "(?Z * ?y) mod pm r = 1" and y: "half_turn (pm r) (2 ^ k) ?y" by (rule half_turn_inverse [OF z(2)]; simp)+
  have powers: "(?Z ^ e * ?y ^ e) mod pm r = 1" for e by (rule inverse_power [OF inv p])
  have pow: "represents r (2 * pm r) (pow_zeta su r v e) (\<lambda>_. w ^ e)" if "represents r (2 * pm r) v (\<lambda>_. w)" for v w e using s that by blast
  have unit: "checked_left_div r (from_int r 1) v \<noteq> None" if "represents r (2 * pm r) v (\<lambda>_. w)" "(w * y') mod pm r = 1" for v w y' using s that by blast
  have tab: "ntt_spec r (2 ^ j) (?y ^ (2 * 2 ^ (k - j))) (new_ntt su r (pow_zeta su r (rev_delegate r ?zeta) (2 * 2 ^ (k - j))) j)" if "j \<le> k" for j
    using s pow [OF red] powers root_power_order [OF z(2) that] by blast
  have "pow_ok (pow_zeta su) r ?zeta" unfolding pow_ok_def using pow unit [OF pow [OF zeta] powers] by blast
  moreover have "root_ok r (2 ^ k) ?zeta ?y (new_ntt su r (pow_zeta su r (rev_delegate r ?zeta) 2) k)"
    unfolding root_ok_def using ok zeta inv unit [OF zeta inv] tab [of k] by auto
  moreover have "2 * 2 ^ k div 2 ^ j = (2 * 2 ^ (k - j) :: nat)" if "j \<le> k" for j
  proof -
    have "(2 :: nat) * 2 ^ k = 2 * 2 ^ (k - j) * 2 ^ j" using that by (simp flip: power_add)
    then show ?thesis by simp
  qed
  ultimately show ?thesis using z(1) y tab unfolding Let_def by (intro exI [of _ z] exI [of _ ?y]) simp
qed


section \<open>Memory\<close>

lemma split_memory_Ok:
  assumes "(if requires_conj g then 12 else 6) * sz \<le> length memory"
  shows "\<exists>te te' gk0 gk1 c0 c1 rest. split_memory g sz memory = (Ok (te, te', [gk0, gk1], [c0, c1], rest) ::
      ('e, compressed_rns_el \<times> compressed_rns_el \<times> compressed_rns_el list \<times> compressed_rns_el list \<times> compressed list) outcome) \<and>
    sized sz [gk0, gk1] \<and> (requires_conj g \<longrightarrow> sized sz [c0, c1])"
  using assms
  by (cases "requires_conj g"; simp add: split_memory_def take_pair_def take_pair_when_def sized_def less_2_cases_iff; intro conjI impI; arith)


section \<open>A database\<close>

lemma lg_power:
  assumes "abs_log2_ceil_spec lg"
  shows "lg (int (2 ^ k)) = Some k"
proof -
  have "int (2 ^ k) \<noteq> 0" by simp
  then obtain j where j: "lg (int (2 ^ k)) = Some j" "\<bar>int (2 ^ k)\<bar> \<le> 2 ^ j" "j = 0 \<or> 2 ^ (j - 1) < \<bar>int (2 ^ k)\<bar>"
    using assms unfolding abs_log2_ceil_spec_def by blast
  have "k \<le> j" using j(2) by simp
  moreover have "j \<le> k" using j(3) by (cases j) simp_all
  ultimately show ?thesis using j(1) by simp
qed

text \<open>
  One level of the deployment: a rank \<open>N\<close> that the roots of both primes allow, a group for it, the plaintext ring \<open>P\<close> and the
  ciphertext ring \<open>C\<close>. \<open>inv_g\<close> is the inverse of the generator.
\<close>

definition level_ok ::
    "nat \<Rightarrow> nat \<Rightarrow> nat \<Rightarrow> (int \<Rightarrow> nat option) \<Rightarrow> 'z ntt_setup \<Rightarrow> ('z, 'p) poly_ring \<Rightarrow> ('z, 'r) poly_ring \<Rightarrow> index_group \<Rightarrow> bool" where
  "level_ok N m inv_g lg su P C g \<longleftrightarrow> abs_log2_ceil_spec lg \<and> setup_spec su \<and> 3 \<le> m \<and> m \<le> 10 \<and> (gen_H * inv_g) mod (2 * N) = 1 \<and>
     group_ok g N m \<and> even (loop_len g) \<and>
     poly_spec P \<and> gen_pow_spec P \<and> pr_rank P = N \<and> zn_modulus (pr_base P) = 1025 \<and>
     poly_spec C \<and> poly_mul_spec C \<and> pr_rank C = N \<and> zn_modulus (pr_base C) = FIXED_Q"

lemma group_power:
  assumes "group_ok g N m"
  obtains j where "j \<le> Suc m" "group_order g = 2 ^ j"
  using assms that [of "Suc m"] that [OF le_SucI] by (auto simp: group_ok_def group_order_def)

lemma memory_of_group:
  assumes "group_ok g N m"
  shows "required_memory_general g N = (if requires_conj g then 12 else 6) * (N * loop_len g)"
  using group_halves(1) [OF assms] by (simp add: required_memory_general_def GK_DIGITS_def)

lemma create_database:
  assumes lv: "level_ok N m inv_g lg su P C g" and mem: "length memory = required_memory_general g N"
  shows "\<exists>db ys. create lg su P C g seeds memory = (Ok db :: ('e, ('z, 'p, 'r) pir_database) outcome) \<and>
    db_ring db = P \<and> db_ciphertext_ring db = C \<and> db_index_group db = g \<and> db_use_seeds db = seeds \<and>
    fst (db_rns_base db) = new_rns su 26 \<and>
    evaluation_ok N ys inv_g db \<and> transform_ok (pow_zeta su) N m ys db \<and> memory_sized N db"
proof -
  note lvl = lv [unfolded level_ok_def setup_spec_def]
  let ?r0 = "new_rns su 26" and ?r1 = "new_rns su 25" and ?Z0 = "new_component su 26" and ?Z1 = "new_component su 25"
  have pair: "prime_pair (?r0, ?r1) (?Z0, ?Z1)" and ps: "prime_setup su 26" "prime_setup su 25" using lvl by blast+
  note pp = prime_pairD [OF pair, unfolded fst_conv snd_conv]
  have g: "group_ok g N m" using lvl by blast
  then have N: "N = 2 ^ Suc m" "ig_N g = N" by (simp_all add: group_ok_def)
  have m: "3 \<le> m" "Suc m < 12" using lvl by simp_all
  obtain j where j: "j \<le> Suc m" "group_order g = 2 ^ j" using group_power [OF g] .
  obtain z0 y0 where z0: "prim_root su ?Z0 (Suc m + 1) = Some z0" "half_turn (pm ?r0) (2 ^ Suc m) y0"
    and t0: "let zeta = from_components ?r0 (replicate 8 z0); tab = \<lambda>e. new_ntt su ?r0 (pow_zeta su ?r0 (rev_delegate ?r0 zeta) e) in
      root_ok ?r0 (2 ^ Suc m) zeta y0 (tab 2 (Suc m)) \<and> pow_ok (pow_zeta su) ?r0 zeta \<and>
      (\<forall>j \<le> Suc m. ntt_spec ?r0 (2 ^ j) (y0 ^ (2 * 2 ^ Suc m div 2 ^ j)) (tab (2 * 2 ^ (Suc m - j)) j))"
    using prime_tables [OF ps(1) pp(1) m(2) pp(9)] by blast
  obtain z1 y1 where z1: "prim_root su ?Z1 (Suc m + 1) = Some z1" "half_turn (pm ?r1) (2 ^ Suc m) y1"
    and t1: "let zeta = from_components ?r1 (replicate 8 z1); tab = \<lambda>e. new_ntt su ?r1 (pow_zeta su ?r1 (rev_delegate ?r1 zeta) e) in
      root_ok ?r1 (2 ^ Suc m) zeta y1 (tab 2 (Suc m)) \<and> pow_ok (pow_zeta su) ?r1 zeta \<and>
      (\<forall>j \<le> Suc m. ntt_spec ?r1 (2 ^ j) (y1 ^ (2 * 2 ^ Suc m div 2 ^ j)) (tab (2 * 2 ^ (Suc m - j)) j))"
    using prime_tables [OF ps(2) pp(2) m(2) pp(10)] by blast
  have lg: "lg (int N) = Some (Suc m)" "lg (int (group_order g)) = Some j"
    using lg_power [of lg] lvl N(1) j(2) by metis+
  have "(if requires_conj g then 12 else 6) * (N * loop_len g) \<le> length memory" using mem memory_of_group [OF g] by simp
  from split_memory_Ok [OF this, where 'e = 'e] obtain te te' gk0 gk1 c0 c1 rest where sp:
    "split_memory g (N * loop_len g) memory = (Ok (te, te', [gk0, gk1], [c0, c1], rest) ::
      ('e, compressed_rns_el \<times> compressed_rns_el \<times> compressed_rns_el list \<times> compressed_rns_el list \<times> compressed list) outcome)"
    "sized (N * loop_len g) [gk0, gk1]" "requires_conj g \<longrightarrow> sized (N * loop_len g) [c0, c1]" by (elim exE conjE)
  let ?s0 = "from_components ?r0 (replicate 8 z0)" and ?s1 = "from_components ?r1 (replicate 8 z1)"
  let ?tab0 = "\<lambda>e. new_ntt su ?r0 (pow_zeta su ?r0 (rev_delegate ?r0 ?s0) e)" and ?tab1 = "\<lambda>e. new_ntt su ?r1 (pow_zeta su ?r1 (rev_delegate ?r1 ?s1) e)"
  let ?db = "\<lparr>db_ring = P, db_ciphertext_ring = C, db_index_group = g,
             db_transformed_entries = te, db_transformed_entries_conj = te',
             db_reply_a = ([], []), db_inner_prod_gk = [gk0, gk1], db_inner_prod_conj_gk = [c0, c1],
             db_rns_base = (?r0, ?r1), db_component_rings = (?Z0, ?Z1),
             db_len_N_ntts = (?tab0 2 (Suc m), ?tab1 2 (Suc m)),
             db_len_subgroup_order_ntts = (?tab0 (2 * 2 ^ (Suc m - j)) j, ?tab1 (2 * 2 ^ (Suc m - j)) j),
             db_zeta = (?s0, ?s1), db_use_seeds = seeds\<rparr>"
  have rank: "pr_rank P = N" "pr_rank C = N" "zn_modulus (pr_base C) = FIXED_Q" using lvl by blast+
  have cr: "create lg su P C g seeds memory = (Ok ?db :: ('e, ('z, 'p, 'r) pir_database) outcome)"
    using N mem z0(1) z1(1) lg sp(1) pp(7,8) by (simp add: create_def Let_def rank unwrap_def FIXED_Q_def)
  have "N mod 16 = 0"
  proof -
    have "Suc m = 4 + (m - 3)" using m(1) by simp
    then have "N = 2 ^ 4 * 2 ^ (m - 3)" unfolding N(1) by (simp only: power_add)
    then show ?thesis by simp
  qed
  then have "database_ok N (y0, y1) inv_g ?db"
    using lvl pair t0 t1 N(1) by (simp add: database_ok_def rns_ok_def Let_def)
  then have ev: "evaluation_ok N (y0, y1) inv_g ?db"
    using z0(2) z1(2) lvl N(1) by (simp add: evaluation_ok_def pp(3,4))
  have "2 * 1025 * int N < Q_FACTOR1"
  proof -
    have "(2 :: int) ^ Suc m \<le> 2 ^ 11" using m(2) by (intro power_increasing) simp_all
    then show ?thesis unfolding N(1) by (simp add: Q_FACTOR1_def)
  qed
  moreover have "coprime (int (group_order g)) 1025"
  proof -
    have "coprime (2 :: int) 1025" by (simp add: coprime_iff_gcd_eq_1 gcd_non_0_int)
    then show ?thesis by (simp add: j(2))
  qed
  moreover have "ntt_spec ?r0 (group_order g) (y0 ^ (2 * N div group_order g)) (?tab0 (2 * 2 ^ (Suc m - j)) j)"
    using t0 j N(1) by (simp add: Let_def)
  ultimately have tr: "transform_ok (pow_zeta su) N m (y0, y1) ?db"
    using lvl t0 by (simp add: transform_ok_def Let_def)
  have "memory_sized N ?db" using sp(2,3) by (simp add: memory_sized_def Let_def)
  with cr ev tr show ?thesis by (intro exI [of _ ?db] exI [of _ "(y0, y1)"]) simp
qed

end
