(* ===== verification/Reference_Setup.thy ===== *)
theory Reference_Setup
  imports Creation
begin

text \<open>
  The library parameters of \<open>create\<close> written out: roots of unity of the two primes, powers by repeated products, and
  transform tables as sums. They satisfy the contract of \<open>Creation\<close>, so that databases can be created and evaluated.
\<close>

section \<open>Roots of unity\<close>

text \<open>An element of order \<open>2 ^ 12\<close> for each prime.\<close>

definition big_root :: "int \<Rightarrow> int" where
  "big_root p = (if p = Q_FACTOR1 then 14983530 else 5423236)"

primrec squarings :: "int \<Rightarrow> nat \<Rightarrow> int \<Rightarrow> int" where
  "squarings p 0 z = z mod p"
| "squarings p (Suc k) z = squarings p k ((z * z) mod p)"

lemma squarings_power: "squarings p k z = z ^ 2 ^ k mod p"
proof (induction k arbitrary: z)
  case (Suc k)
  have "squarings p (Suc k) z = ((z * z) mod p) ^ 2 ^ k mod p" by (simp add: Suc.IH)
  also have "\<dots> = (z * z) ^ 2 ^ k mod p" by (rule power_mod)
  also have "(z * z) ^ 2 ^ k = z ^ 2 ^ Suc k" by (simp add: power_mult power2_eq_square)
  finally show ?case .
qed simp

lemma big_root_order:
  assumes "p = Q_FACTOR1 \<or> p = Q_FACTOR2"
  shows "(big_root p ^ 2 ^ 11 + 1) mod p = 0"
proof -
  have eleven: "11 = Suc (Suc (Suc (Suc (Suc (Suc (Suc (Suc (Suc (Suc (Suc 0))))))))))" by simp
  have "squarings 67104769 11 14983530 = 67104768" "squarings 33550337 11 5423236 = 33550336"
    unfolding eleven by simp_all
  then have "squarings p 11 (big_root p) = p - 1" using assms by (auto simp: big_root_def q_values)
  then have "(big_root p ^ 2 ^ 11 mod p + 1) mod p = 0" by (simp only: squarings_power) simp
  then show ?thesis by (simp only: mod_add_left_eq)
qed

text \<open>The inverse of the root in the lanes of a vector, and a transform of size \<open>2 ^ k\<close>; \<open>(p + 1) div 2\<close> is one half.\<close>

definition ref_table :: "int special_zn \<Rightarrow> m512i \<Rightarrow> nat \<Rightarrow> ntt_table" where
  "ref_table r v k = (let p = zn_modulus (sz_component_ring r) in ref_ntt r (2 ^ k) (uint (v ! 0) ^ (2 ^ k - 1) mod p) (((p + 1) div 2) ^ k))"

definition ref_setup :: "int ntt_setup" where
  "ref_setup = \<lparr>new_rns = field_ring, new_component = (\<lambda>K. field_arith (if K = 26 then Q_FACTOR1 else Q_FACTOR2)),
     prim_root = (\<lambda>Zq k. Some (big_root (zn_modulus Zq) ^ 2 ^ (12 - k))), pow_zeta = ref_pow, new_ntt = ref_table\<rparr>"

lemma ntt_spec_cong:
  assumes t: "ntt_spec r n w t" and w: "w mod pm r = w' mod pm r"
  shows "ntt_spec r n w' t"
proof -
  have same: "fft_value w n F j l mod pm r = fft_value w' n F j l mod pm r" for F j l
    unfolding fft_value_def using w by (intro sum_mod_cong mod_mult_cong refl) (metis power_mod)
  show ?thesis
    unfolding ntt_spec_def
  proof (intro conjI allI impI)
    fix vs F assume "vec r n vs F"
    then have "vec r n (fft t vs) (fft_value w n F)" using t by (simp add: ntt_spec_def)
    then show "vec r n (fft t vs) (fft_value w' n F)" by (rule vec_cong) (rule same)
  next
    fix vs V assume "vec r n vs V"
    then show "\<exists>F. vec r n (inv_fft t vs) F \<and> (\<forall>j < n. \<forall>l < 8. fft_value w' n F j l mod pm r = V j l mod pm r)"
      using t unfolding ntt_spec_def same by blast
  qed
qed

lemma order_powers:
  assumes w: "root_of_order p w k" and p: "1 < p" "odd p"
  shows "w ^ 2 ^ k mod p = 1" "0 < d \<Longrightarrow> d < 2 ^ k \<Longrightarrow> coprime (w ^ d - 1) p"
proof -
  show "w ^ 2 ^ k mod p = 1"
  proof (cases k)
    case (Suc i)
    then show ?thesis using full_turn [of p "2 ^ i" w 1] w by (simp add: root_of_order_def)
  qed (use w in \<open>simp add: root_of_order_def\<close>)
  assume "0 < d" "d < 2 ^ k"
  then show "coprime (w ^ d - 1) p"
    using w half_turn_powers_coprime [OF _ p(2)] by (cases k) (simp_all add: root_of_order_def)
qed

lemma root_inverse_order:
  assumes w: "root_of_order p w k" and p: "1 < p"
  shows "root_of_order p (w ^ (2 ^ k - 1)) k"
proof (cases k)
  case (Suc i)
  then have h: "half_turn p (2 ^ i) w" using w by (simp add: root_of_order_def)
  have "0 < (2 ^ i :: nat)" by simp
  from half_turn_inverse(2) [OF h this] show ?thesis using Suc by (simp add: root_of_order_def)
qed (use p in \<open>simp add: root_of_order_def\<close>)

lemma root_of_order_cong: "root_of_order p w k \<Longrightarrow> w mod p = w' mod p \<Longrightarrow> root_of_order p w' k"
proof -
  assume a: "root_of_order p w k" and w: "w mod p = w' mod p"
  have "(w ^ n + 1) mod p = (w' ^ n + 1) mod p" for n using w by (intro mod_add_cong refl) (metis power_mod)
  then show ?thesis using a w by (simp add: root_of_order_def half_turn_def split: if_splits)
qed

lemma ref_table_spec:
  assumes K: "K = 26 \<or> K = 25" and v: "represents (field_ring K) (2 * pm (field_ring K)) v (\<lambda>_. w)"
    and y: "(w * y) mod pm (field_ring K) = 1" and w: "root_of_order (pm (field_ring K)) w k"
  shows "ntt_spec (field_ring K) (2 ^ k) y (ref_table (field_ring K) v k)"
proof -
  let ?r = "field_ring K"
  let ?p = "pm ?r"
  have r: "special_ok ?r" by (rule field_ring_ok(1) [OF K])
  have p: "odd ?p" "?p > 1" using field_ring_ok(2) [OF K] K demo_ring_ok(2) demo_ring_25_ok(2) by auto
  let ?u = "uint (v ! 0)"
  have u: "?u mod ?p = w mod ?p" using v by (auto simp: represents_def)
  have uo: "root_of_order ?p ?u k" by (rule root_of_order_cong [OF w u [symmetric]])
  let ?y = "?u ^ (2 ^ k - 1) mod ?p"
  have yo: "root_of_order ?p ?y k" by (rule root_of_order_cong [OF root_inverse_order [OF uo p(2)]]) simp
  have half: "(2 ^ k * ((?p + 1) div 2) ^ k) mod ?p = 1"
  proof -
    have "2 * ((?p + 1) div 2) = ?p + 1" using p(1) by presburger
    then have "(2 * ((?p + 1) div 2)) mod ?p = 1" using p(2) by (simp only: mod_add_self1) simp
    then show ?thesis using inverse_power [OF _ p(2)] by blast
  qed
  have "ntt_spec ?r (2 ^ k) ?y (ref_ntt ?r (2 ^ k) ?y (((?p + 1) div 2) ^ k))"
    using order_powers [OF yo p(2,1)] half p(2) by (intro ref_ntt_spec [OF r]) simp_all
  moreover have "?y mod ?p = y mod ?p"
  proof -
    have "(?u ^ 2 ^ k * y) mod ?p = (1 * y) mod ?p" using order_powers(1) [OF uo p(2,1)] p(2) by (intro mod_mult_cong) simp_all
    moreover have "?u ^ 2 ^ k * y = ?u ^ (2 ^ k - 1) * (?u * y)" by (cases "2 ^ k :: nat") (simp_all add: ac_simps)
    moreover have "(?u ^ (2 ^ k - 1) * (?u * y)) mod ?p = (?u ^ (2 ^ k - 1) * 1) mod ?p"
    proof (rule mod_mult_cong [OF refl])
      have "(?u * y) mod ?p = (w * y) mod ?p" using u by (intro mod_mult_cong refl)
      then show "(?u * y) mod ?p = 1 mod ?p" using y p(2) by simp
    qed
    ultimately show ?thesis by simp
  qed
  ultimately show ?thesis
    using special_okD(5) [OF r] by (simp add: ref_table_def Let_def ntt_spec_cong)
qed

lemma ref_setup_spec: "setup_spec ref_setup"
proof -
  have q: "pm (field_ring 26) = Q_FACTOR1" "pm (field_ring 25) = Q_FACTOR2"
    using demo_ring_ok(2) demo_ring_25_ok(2) by (simp_all add: field_ring_ok(2) q_values)
  have "prime_setup ref_setup K" if K: "K = 26 \<or> K = 25" for K
  proof -
    let ?r = "field_ring K"
    let ?p = "pm ?r"
    have p: "?p = (if K = 26 then Q_FACTOR1 else Q_FACTOR2)" "?p > 1" using K q by (auto simp: q_values)
    have "half_turn ?p (2 ^ k) ((big_root ?p ^ 2 ^ (12 - (k + 1))) mod ?p)" if k: "k < 12" for k
    proof -
      have "((big_root ?p ^ 2 ^ (12 - (k + 1))) mod ?p) ^ 2 ^ k mod ?p = big_root ?p ^ (2 ^ (11 - k + k)) mod ?p"
        by (simp add: power_mod flip: power_mult power_add)
      also have "11 - k + k = 11" using k by simp
      finally have "(((big_root ?p ^ 2 ^ (12 - (k + 1))) mod ?p) ^ 2 ^ k + 1) mod ?p = (big_root ?p ^ 2 ^ 11 + 1) mod ?p" by (intro mod_add_cong refl)
      then show ?thesis using big_root_order [of ?p] p by (simp add: half_turn_def split: if_splits)
    qed
    then have root: "\<exists>z. prim_root ref_setup (new_component ref_setup K) (k + 1) = Some z \<and> half_turn ?p (2 ^ k) (zn_lift (new_component ref_setup K) z)"
      if "k < 12" for k using that by (simp add: ref_setup_def flip: p(1))
    have parts: "new_rns ref_setup K = ?r" "pow_zeta ref_setup = ref_pow" "new_ntt ref_setup = ref_table" by (simp_all add: ref_setup_def)
    show ?thesis
      unfolding prime_setup_def Let_def parts
      by (intro conjI allI impI; (elim conjE)?)
        (rule root ref_pow_represents [OF field_ring_ok(1) [OF K]] field_division [OF K] ref_table_spec [OF K]; assumption)+
  qed
  moreover have "prime_pair (new_rns ref_setup 26, new_rns ref_setup 25) (new_component ref_setup 26, new_component ref_setup 25)"
    using field_pair_ok by (simp add: ref_setup_def field_pair_def field_scalars_def)
  ultimately show ?thesis by (simp add: setup_spec_def)
qed

text \<open>A level of rank 16 for the full group and for the subgroups of even order.\<close>

lemma demo_level:
  assumes "g = full_group 16 \<or> g = \<lparr>ig_N = 16, ig_l = 2\<rparr>"
  shows "level_ok 16 3 13 abs_log2_ceil_ref ref_setup (int_poly 16 1025) (int_poly 16 FIXED_Q) g"
proof -
  have "poly_mul_spec (int_poly 16 FIXED_Q)" using small_evaluation_ok by (simp add: evaluation_ok_def) (simp add: small_db_def)
  moreover have "group_ok g 16 3"
  proof -
    have "\<exists>r \<le> 3. (2 :: nat) = 2 ^ r" by (intro exI [of _ 1]) simp
    then show ?thesis using assms by (auto simp: group_ok_def full_group_def)
  qed
  moreover have "even (loop_len g)" using assms by (auto simp: index_group_defs)
  ultimately show ?thesis
    using full_plain(1,2) full_gen_pow ref_setup_spec abs_log2_ceil_ref_spec by (simp add: level_ok_def int_poly_rank gen_H_def)
qed

end
