(* ===== verification/Shard_Level.thy ===== *)
theory Shard_Level
  imports Reference_Setup Double_Pir_Correct
begin

text \<open>
  One level of the deployment from the contracts alone: a database is created in a memory slice, loaded, preprocessed and
  asked by eight lanes, some of them idle. The noise of every reply is bounded against the entry its client asked for.
\<close>

section \<open>Secrets\<close>

text \<open>The secret of \<open>gen_sk\<close> has coefficients \<open>- 1\<close>, \<open>0\<close> and \<open>1\<close>.\<close>

lemma gen_sk_loop_ternary:
  assumes "length cs = N" "\<forall>c \<in> set cs. \<exists>e. \<bar>e\<bar> \<le> 1 \<and> c = zn_of_int (pr_base C) e"
  shows "length (fst (gen_sk_loop rng C hwt cs g)) = N \<and> (\<forall>c \<in> set (fst (gen_sk_loop rng C hwt cs g)). \<exists>e. \<bar>e\<bar> \<le> 1 \<and> c = zn_of_int (pr_base C) e)"
  using assms
proof (induction hwt arbitrary: cs g)
  case (Suc hwt)
  obtain w g1 where w: "rng_next_u64 rng g = (w, g1)" by fastforce
  obtain v g2 where v: "rng_next_u32 rng g1 = (v, g2)" by fastforce
  let ?e = "int (unat v mod 3) - 1"
  have "\<bar>?e\<bar> \<le> 1" using mod_less_divisor [of 3 "unat v"] by linarith
  then have "\<forall>c \<in> set (cs[unat w mod pr_rank C := zn_of_int (pr_base C) ?e]). \<exists>e. \<bar>e\<bar> \<le> 1 \<and> c = zn_of_int (pr_base C) e"
    using Suc.prems(2) set_update_subset_insert by fastforce
  then show ?case using Suc.IH [of "cs[unat w mod pr_rank C := zn_of_int (pr_base C) ?e]" g2] Suc.prems(1) by (simp add: w v)
qed simp

lemma gen_sk_ternary:
  assumes "poly_spec C"
  shows "\<exists>\<sigma>. \<forall>n < pr_rank C. \<bar>\<sigma> n\<bar> \<le> 1 \<and> coeff C (gen_sk rng C g hwt) n = \<sigma> n mod zn_modulus (pr_base C)"
proof -
  let ?cs = "fst (gen_sk_loop rng C hwt (replicate (pr_rank C) (zn_of_int (pr_base C) 0)) g)"
  have cs: "length ?cs = pr_rank C" "\<forall>c \<in> set ?cs. \<exists>e. \<bar>e\<bar> \<le> 1 \<and> c = zn_of_int (pr_base C) e"
    using gen_sk_loop_ternary [of "replicate (pr_rank C) (zn_of_int (pr_base C) 0)" "pr_rank C" C rng hwt g] by force+
  then have "\<forall>n. \<exists>e. n < pr_rank C \<longrightarrow> \<bar>e\<bar> \<le> 1 \<and> ?cs ! n = zn_of_int (pr_base C) e" using nth_mem [of _ ?cs] by fastforce
  then obtain \<sigma> where "\<forall>n < pr_rank C. \<bar>\<sigma> n\<bar> \<le> 1 \<and> ?cs ! n = zn_of_int (pr_base C) (\<sigma> n)" by (rule choice [elim_format]) blast
  then show ?thesis
    using cs(1) by (intro exI [of _ \<sigma>]) (simp add: gen_sk_def coeff_from_basis [OF assms] zn_lift_of_int [OF poly_base [OF assms]])
qed


section \<open>Lanes\<close>

text \<open>The Galois keys of one lane decrypt to the rotated secret of its owner.\<close>

definition key_lane :: "nat \<Rightarrow> 'g rng_ops \<Rightarrow> int \<Rightarrow> ('z, 'r) poly_ring \<Rightarrow> 'r \<Rightarrow> 'r list \<Rightarrow> bool" where
  "key_lane inv_g rng bound C sk gk \<longleftrightarrow> (\<forall>k < 2. \<forall>n < pr_rank C. \<exists>err. \<bar>err\<bar> \<le> bound \<and>
     coeff C (pr_add C (pr_mul C (expand rng C (get_gk_seeds FirstSet ! k)) sk) (gk ! k)) n =
       (2 ^ (LOG2_B * k) * auto5 (pr_rank C) inv_g (\<lambda>i _. coeff C sk i) n 0 + err) mod zn_modulus (pr_base C))"

lemma key_lane_client:
  assumes C: "poly_spec C" and Gal: "zn_arith_spec Gal" "zn_modulus Gal = 2 * int (pr_rank C)" and g: "(gen_H * inv_g) mod (2 * pr_rank C) = 1"
    and noise: "\<And>s. \<bar>fst (rng_gauss rng s)\<bar> \<le> bound"
    and gen: "gen_gk_b rng Gal C (get_gk_seeds FirstSet) s sk gen_H GK_DIGITS LOG2_B = (Ok (gk, s') :: (unit, 'r list \<times> 'g) outcome)"
  shows "key_lane inv_g (rng :: 'g rng_ops) bound (C :: ('z, 'r) poly_ring) sk gk"
  unfolding key_lane_def
  using gen_gk_b_decrypts [OF C Gal g noise gen] by (simp add: get_gk_seeds_def GK_DIGITS_def)

lemma auto5_zero: "(\<And>i. i < N \<Longrightarrow> F i l = 0) \<Longrightarrow> 0 < N \<Longrightarrow> auto5 N e F n l = 0"
proof -
  assume a: "\<And>i. i < N \<Longrightarrow> F i l = 0" "0 < N"
  have "e * n mod (2 * N) < 2 * N" using a(2) by simp
  then show ?thesis using a(1) by (simp add: auto5_def Let_def)
qed

lemma key_lane_idle:
  assumes C: "poly_spec C" "poly_mul_spec C" and z: "\<And>n. n < pr_rank C \<Longrightarrow> coeff C z n = 0" and b: "0 \<le> bound"
  shows "key_lane inv_g rng bound C z (replicate GK_DIGITS z)"
  unfolding key_lane_def
proof (intro allI impI)
  fix k n :: nat assume k: "k < 2" and n: "n < pr_rank C"
  let ?a = "expand rng C (get_gk_seeds FirstSet ! k)"
  have "coeff C (pr_mul C ?a z) n = nega (pr_rank C) (\<lambda>i _. coeff C ?a i) (\<lambda>i _. coeff C z i) n 0 mod zn_modulus (pr_base C)"
    using C(2) n by (simp add: poly_mul_spec_def)
  also have "nega (pr_rank C) (\<lambda>i _. coeff C ?a i) (\<lambda>i _. coeff C z i) n 0 = nega (pr_rank C) (\<lambda>i _. coeff C ?a i) (\<lambda>i _. 0) n 0"
    using nega_mod [of "pr_rank C" "\<lambda>i _. coeff C ?a i" 0 0 "\<lambda>i _. coeff C ?a i" "\<lambda>i _. coeff C z i" "\<lambda>i _. 0" n] z n by simp
  finally have "coeff C (pr_mul C ?a z) n = 0" by (simp add: nega_def cong: if_cong)
  then have "coeff C (pr_add C (pr_mul C ?a z) (replicate GK_DIGITS z ! k)) n = 0"
    using k n z by (simp add: coeff_ops(1) [OF C(1) n] GK_DIGITS_def)
  moreover have "auto5 (pr_rank C) inv_g (\<lambda>i _. coeff C z i) n 0 = 0" using n by (intro auto5_zero z) simp_all
  ultimately show "\<exists>err. \<bar>err\<bar> \<le> bound \<and> coeff C (pr_add C (pr_mul C ?a z) (replicate GK_DIGITS z ! k)) n =
       (2 ^ (LOG2_B * k) * auto5 (pr_rank C) inv_g (\<lambda>i _. coeff C z i) n 0 + err) mod zn_modulus (pr_base C)"
    using b by (intro exI [of _ 0]) simp
qed

lemma keys_from_lanes:
  assumes len: "length queries = 8" and lanes: "\<And>l. l < 8 \<Longrightarrow> key_lane inv_g rng bound (db_ciphertext_ring db) (sks ! l) (qr_gk_b (queries ! l))"
  shows "keys_encrypt inv_g rng bound sks db queries"
  unfolding keys_encrypt_def Let_def
proof (intro allI impI)
  fix k l n :: nat assume kln: "k < 2" "l < 8" "n < pr_rank (db_ciphertext_ring db)"
  let ?C = "db_ciphertext_ring db"
  have seeds: "get_gk_seeds (db_use_seeds db) = get_gk_seeds FirstSet" by (simp add: get_gk_seeds_def)
  have lane: "auto5 (pr_rank ?C) inv_g (lane_coeff ?C sks) n l = auto5 (pr_rank ?C) inv_g (\<lambda>i _. coeff ?C (sks ! l) i) n 0"
    by (simp add: auto5_def lane_coeff_def Let_def)
  show "\<exists>err. \<bar>err\<bar> \<le> bound \<and>
     decrypted ?C sks (replicate 8 (expand rng ?C (get_gk_seeds (db_use_seeds db) ! k))) (map (\<lambda>q. qr_gk_b q ! k) queries) n l =
       (2 ^ (LOG2_B * k) * auto5 (pr_rank ?C) inv_g (lane_coeff ?C sks) n l + err) mod zn_modulus (pr_base ?C)"
    using lanes [OF kln(2)] kln len unfolding lane seeds key_lane_def by (simp add: decrypted_def)
qed


section \<open>Creating, loading and asking\<close>

lemma set_db_entries_keeps:
  assumes "set_db_entries rng pow inv_g entries db = (Ok db' :: ('e, ('z, 'p, 'r) pir_database) outcome)"
  shows "db_ring db' = db_ring db" "db_ciphertext_ring db' = db_ciphertext_ring db" "db_index_group db' = db_index_group db"
    "db_use_seeds db' = db_use_seeds db" "length entries = group_order (db_index_group db) * SIMD_COUNT"
proof -
  obtain db1 where 1: "set_transformed_entries pow inv_g entries db = (Ok db1 :: ('e, ('z, 'p, 'r) pir_database) outcome)"
    "preprocess_db rng inv_g db1 = (Ok db' :: ('e, ('z, 'p, 'r) pir_database) outcome)"
    using assms by (auto simp: set_db_entries_def)
  have "db_ring db1 = db_ring db \<and> db_ciphertext_ring db1 = db_ciphertext_ring db \<and> db_index_group db1 = db_index_group db \<and>
    db_use_seeds db1 = db_use_seeds db \<and> length entries = group_order (db_index_group db) * SIMD_COUNT"
    using 1(1) unfolding set_transformed_entries_def Let_def by (auto split: if_splits)
  moreover have "db_ring db' = db_ring db1 \<and> db_ciphertext_ring db' = db_ciphertext_ring db1 \<and> db_index_group db' = db_index_group db1 \<and>
    db_use_seeds db' = db_use_seeds db1"
    using 1(2) unfolding preprocess_db_def Let_def by (auto split: if_splits)
  ultimately show "db_ring db' = db_ring db" "db_ciphertext_ring db' = db_ciphertext_ring db" "db_index_group db' = db_index_group db"
    "db_use_seeds db' = db_use_seeds db" "length entries = group_order (db_index_group db) * SIMD_COUNT" by simp_all
qed

text \<open>A plaintext whose coefficients are representatives below the first prime as well.\<close>

definition entry_fits :: "'z ntt_setup \<Rightarrow> ('z, 'p) poly_ring \<Rightarrow> 'p \<Rightarrow> bool" where
  "entry_fits su P x \<longleftrightarrow> (\<forall>n < pr_rank P. zn_lift (sz_component_ring (new_rns su 26)) (pr_basis P x ! n) = coeff P x n)"

lemma modulus_coprime: "coprime 1025 FIXED_Q"
  by (simp add: q_values coprime_iff_gcd_eq_1 gcd_non_0_int)

lemma level_evaluation:
  fixes P :: "('z, 'p) poly_ring" and C :: "('z, 'r) poly_ring" and rng :: "'g rng_ops"
  assumes lv: "level_ok N m inv_g lg su P C g" and mem: "length memory = required_memory_general g N"
    and entries: "length entries = group_order g * SIMD_COUNT" "\<forall>x \<in> set entries. entry_fits su P x"
    and bounds: "0 \<le> bq" "0 \<le> bk" and len: "length queries = 8"
    and keys: "\<And>l. l < 8 \<Longrightarrow> key_lane inv_g rng bk C (sks ! l) (qr_gk_b (queries ! l))"
    and conj: "\<And>l. requires_conj g \<Longrightarrow> l < 8 \<Longrightarrow> qr_qry_conj_b (queries ! l) \<noteq> None"
  shows "\<exists>db0 db a b. create lg su P C g seeds memory = (Ok db0 :: (unit, ('z, 'p, 'r) pir_database) outcome) \<and>
    set_db_entries rng (pow_zeta su) inv_g entries db0 = (Ok db :: (unit, ('z, 'p, 'r) pir_database) outcome) \<and>
    get_a db = (Ok a :: (unit, 'r list) outcome) \<and> perform_pir_split inv_g queries db = (Ok b :: (unit, 'r list) outcome) \<and>
    length a = 8 \<and> length b = 8 \<and>
    (\<forall>l < 8. \<forall>i. query_lane rng P C g seeds bq (sks ! l) i (queries ! l) \<longrightarrow>
      (\<forall>n < N. 1025 * \<bar>reply_noise P C (sks ! l) (a ! l, b ! l) (entries ! (i * SIMD_COUNT + l)) n\<bar> \<le> noise_limit N g 1025 bq bk))"
proof -
  obtain db0 ys where c: "create lg su P C g seeds memory = (Ok db0 :: (unit, ('z, 'p, 'r) pir_database) outcome)"
    "db_ring db0 = P" "db_ciphertext_ring db0 = C" "db_index_group db0 = g" "db_use_seeds db0 = seeds" "fst (db_rns_base db0) = new_rns su 26"
    and ok: "evaluation_ok N ys inv_g db0" "transform_ok (pow_zeta su) N m ys db0" "memory_sized N db0"
    using create_database [OF lv mem, where seeds = seeds and 'e = unit] by (elim exE conjE)
  note lvl = lv [unfolded level_ok_def]
  have P: "poly_spec (db_ring db0)" "gen_pow_spec (db_ring db0)" "group_ok (db_index_group db0) N m" "even (loop_len (db_index_group db0))"
    using lvl unfolding c by blast+
  have t: "zn_modulus (pr_base (db_ring db0)) = 1025" using lvl unfolding c by blast
  have cop: "coprime (zn_modulus (pr_base (db_ring db0))) FIXED_Q" unfolding t by (rule modulus_coprime)
  have dok: "database_ok N ys inv_g db0" using ok(1) by (simp add: evaluation_ok_def)
  have fit: "entries_fit db0 entries" using entries(2) by (simp add: entries_fit_def entry_fits_def c)
  have ent: "length entries = group_order (db_index_group db0) * SIMD_COUNT" using entries(1) by (simp only: c(4))
  have ks: "keys_encrypt inv_g rng bk sks db0 queries" using keys by (intro keys_from_lanes [OF len]) (simp only: c(3))
  have cj: "requires_conj (db_index_group db0) \<longrightarrow> (\<forall>q \<in> set queries. qr_qry_conj_b q \<noteq> None)"
    using conj len unfolding c(4) by (metis in_set_conv_nth)
  from loaded_evaluation [OF ok P(4) ent fit ks bounds(2) len cj] obtain db a bs scale err where ev:
    "set_db_entries rng (pow_zeta su) inv_g entries db0 = (Ok db :: (unit, ('z, 'p, 'r) pir_database) outcome)"
    "get_a db = (Ok a :: (unit, 'r list) outcome)" "perform_pir_split inv_g queries db = (Ok bs :: (unit, 'r list) outcome)" "length a = 8" "length bs = 8"
    "(int (group_order (db_index_group db0)) * zn_lift (pr_base (db_ring db0)) scale) mod zn_modulus (pr_base (db_ring db0)) = 1"
    and D: "\<forall>n < N. \<forall>l < 8. \<bar>err n l\<bar> \<le> 2 * int (loop_len (db_index_group db0)) * (int N * ((2 ^ 25 + 2 ^ 24) * bk)) \<and>
      decrypted (db_ciphertext_ring db0) sks a bs n l mod FIXED_Q =
        (both_answers N inv_g (db_index_group db0) (stored_entry db0 scale (entry_coeff (db_ring db0) entries))
          (query_content rng sks db0 0 qr_qry_b queries) (query_content rng sks db0 1 (the \<circ> qr_qry_conj_b) queries) n l + err n l) mod FIXED_Q"
    by (elim exE conjE)
  have "\<forall>n < N. 1025 * \<bar>reply_noise P C (sks ! l) (a ! l, bs ! l) (entries ! (i * SIMD_COUNT + l)) n\<bar> \<le> noise_limit N g 1025 bq bk"
    if "l < 8" "query_lane rng P C g seeds bq (sks ! l) i (queries ! l)" for l i
  proof -
    have q: "query_lane rng (db_ring db0) (db_ciphertext_ring db0) (db_index_group db0) (db_use_seeds db0) bq (sks ! l) i (queries ! l)"
      using that(2) by (simp only: c)
    have "\<forall>n < N. zn_modulus (pr_base (db_ring db0)) * \<bar>reply_noise (db_ring db0) (db_ciphertext_ring db0) (sks ! l) (a ! l, bs ! l) (entries ! (i * SIMD_COUNT + l)) n\<bar> \<le>
        noise_limit N (db_index_group db0) (zn_modulus (pr_base (db_ring db0))) bq bk"
      by (rule lane_content [where err = err, OF dok P(1-3) cop bounds(1) len q that(1) ev(6)]) (use D that(1) in blast)+
    then show ?thesis unfolding t unfolding c .
  qed
  then show ?thesis using c(1) ev(1-5) by blast
qed

text \<open>A shard as the server prepares it.\<close>

definition shard_built ::
    "(int \<Rightarrow> nat option) \<Rightarrow> 'z ntt_setup \<Rightarrow> nat \<Rightarrow> 'g rng_ops \<Rightarrow> ('z, 'p) poly_ring \<Rightarrow> ('z, 'r) poly_ring \<Rightarrow> index_group \<Rightarrow> used_seeds \<Rightarrow> 'p list \<Rightarrow>
     ('z, 'p, 'r) pir_database \<Rightarrow> bool" where
  "shard_built lg su inv_g rng P C g seeds entries db \<longleftrightarrow>
     (\<exists>memory db0. create lg su P C g seeds memory = (Ok db0 :: (unit, ('z, 'p, 'r) pir_database) outcome) \<and>
        set_db_entries rng (pow_zeta su) inv_g entries db0 = (Ok db :: (unit, ('z, 'p, 'r) pir_database) outcome))"

lemma shard_built_parts:
  assumes "shard_built lg su inv_g rng P C g seeds entries db" "level_ok N m inv_g lg su P C g"
  obtains memory db0 where "create lg su P C g seeds memory = (Ok db0 :: (unit, ('z, 'p, 'r) pir_database) outcome)"
    "set_db_entries rng (pow_zeta su) inv_g entries db0 = (Ok db :: (unit, ('z, 'p, 'r) pir_database) outcome)"
    "length memory = required_memory_general g N" "length entries = group_order g * SIMD_COUNT"
    "db_ciphertext_ring db = C" "db_index_group db = g" "db_use_seeds db = seeds"
proof -
  obtain memory db0 where c: "create lg su P C g seeds memory = (Ok db0 :: (unit, ('z, 'p, 'r) pir_database) outcome)"
    and s: "set_db_entries rng (pow_zeta su) inv_g entries db0 = (Ok db :: (unit, ('z, 'p, 'r) pir_database) outcome)"
    using assms(1) unfolding shard_built_def by blast
  have "pr_rank P = N" using assms(2) by (simp add: level_ok_def)
  then have mem: "length memory = required_memory_general g N"
    using c by (auto simp: create_def Let_def split: if_splits)
  obtain ys db1 where "create lg su P C g seeds memory = (Ok db1 :: (unit, ('z, 'p, 'r) pir_database) outcome)"
    "db_ciphertext_ring db1 = C" "db_index_group db1 = g" "db_use_seeds db1 = seeds"
    using create_database [OF assms(2) mem, where 'e = unit] by blast
  then have "db_ciphertext_ring db0 = C" "db_index_group db0 = g" "db_use_seeds db0 = seeds" using c by simp_all
  then show ?thesis using that [OF c s mem] set_db_entries_keeps [OF s] by simp
qed

text \<open>The query of one client answered by one shard, all eight lanes with the same query.\<close>

lemma shard_answers:
  fixes P :: "('z, 'p) poly_ring" and C :: "('z, 'r) poly_ring" and rng :: "'g rng_ops"
  assumes lv: "level_ok N m inv_g lg su P C g" and built: "shard_built lg su inv_g rng P C g seeds entries db"
    and fit: "\<forall>x \<in> set entries. entry_fits su P x" and bounds: "0 \<le> bq" "0 \<le> bk"
    and key: "key_lane inv_g rng bk C sk (qr_gk_b q)" and q: "query_lane rng P C g seeds bq sk i q"
  shows "\<exists>a b. get_a db = (Ok a :: (unit, 'r list) outcome) \<and> perform_pir inv_g q db = (Ok b :: (unit, 'r list) outcome) \<and> length a = 8 \<and> length b = 8 \<and>
    (\<forall>l < 8. \<forall>n < N. 1025 * \<bar>reply_noise P C sk (a ! l, b ! l) (entries ! (i * SIMD_COUNT + l)) n\<bar> \<le> noise_limit N g 1025 bq bk)"
proof -
  obtain memory db0 where s: "create lg su P C g seeds memory = (Ok db0 :: (unit, ('z, 'p, 'r) pir_database) outcome)"
    "set_db_entries rng (pow_zeta su) inv_g entries db0 = (Ok db :: (unit, ('z, 'p, 'r) pir_database) outcome)"
    "length memory = required_memory_general g N" "length entries = group_order g * SIMD_COUNT"
    using shard_built_parts [OF built lv] by blast
  have "qr_qry_conj_b q \<noteq> None" if "requires_conj g" using q that by (auto simp: query_lane_def Let_def)
  then have "\<exists>db0 db a b. create lg su P C g seeds memory = (Ok db0 :: (unit, ('z, 'p, 'r) pir_database) outcome) \<and>
    set_db_entries rng (pow_zeta su) inv_g entries db0 = (Ok db :: (unit, ('z, 'p, 'r) pir_database) outcome) \<and>
    get_a db = (Ok a :: (unit, 'r list) outcome) \<and> perform_pir_split inv_g (replicate 8 q) db = (Ok b :: (unit, 'r list) outcome) \<and>
    length a = 8 \<and> length b = 8 \<and>
    (\<forall>l < 8. \<forall>i. query_lane rng P C g seeds bq (replicate 8 sk ! l) i (replicate 8 q ! l) \<longrightarrow>
      (\<forall>n < N. 1025 * \<bar>reply_noise P C (replicate 8 sk ! l) (a ! l, b ! l) (entries ! (i * SIMD_COUNT + l)) n\<bar> \<le> noise_limit N g 1025 bq bk))"
    using key by (intro level_evaluation [OF lv s(3,4) fit bounds]) simp_all
  then show ?thesis using s(1,2) q by (auto simp: perform_pir_def SIMD_COUNT_def)
qed


section \<open>Property\<close>

lemma zero_element:
  assumes "poly_spec C"
  shows "\<exists>z. \<forall>n < pr_rank C. coeff C z n = 0"
proof -
  have "coeff C (pr_from_basis C (replicate (pr_rank C) (zn_of_int (pr_base C) 0))) n = 0" if "n < pr_rank C" for n
    using that by (simp add: coeff_from_basis [OF assms] zn_lift_of_int [OF poly_base [OF assms]])
  then show ?thesis by blast
qed

lemma shard_builds:
  fixes P :: "('z, 'p) poly_ring" and C :: "('z, 'r) poly_ring" and rng :: "'g rng_ops"
  assumes lv: "level_ok N m inv_g lg su P C g" and fit: "\<forall>x \<in> set entries. entry_fits su P x" and mem: "length memory = required_memory_general g N"
    and len: "length entries = group_order g * SIMD_COUNT"
  shows "\<exists>db0 db. create lg su P C g seeds memory = (Ok db0 :: (unit, ('z, 'p, 'r) pir_database) outcome) \<and>
    set_db_entries rng (pow_zeta su) inv_g entries db0 = (Ok db :: (unit, ('z, 'p, 'r) pir_database) outcome)"
proof -
  note lvl = lv [unfolded level_ok_def]
  have C: "poly_spec C" "poly_mul_spec C" using lvl by blast+
  obtain db0 ys where c: "create lg su P C g seeds memory = (Ok db0 :: (unit, ('z, 'p, 'r) pir_database) outcome)"
    "db_ring db0 = P" "db_ciphertext_ring db0 = C" "db_index_group db0 = g" "fst (db_rns_base db0) = new_rns su 26"
    and ok: "evaluation_ok N ys inv_g db0" "transform_ok (pow_zeta su) N m ys db0" "memory_sized N db0"
    using create_database [OF lv mem, where seeds = seeds and 'e = unit] by (elim exE conjE)
  have even: "even (loop_len (db_index_group db0))" using lvl unfolding c by blast
  have fits0: "entries_fit db0 entries" using fit by (simp add: entries_fit_def entry_fits_def c)
  obtain z where z: "\<forall>n < pr_rank C. coeff C z n = 0" using zero_element [OF C(1)] ..
  let ?idle = "replicate 8 \<lparr>qr_qry_b = z, qr_qry_conj_b = Some z, qr_gk_b = replicate GK_DIGITS z\<rparr>"
  have "key_lane inv_g rng 0 C z (replicate GK_DIGITS z)" by (rule key_lane_idle [OF C _ order_refl]) (use z in blast)
  then have keys: "keys_encrypt inv_g rng 0 (replicate 8 z) db0 ?idle" by (intro keys_from_lanes) (simp_all add: c(3))
  have "length entries = group_order (db_index_group db0) * SIMD_COUNT" using len by (simp only: c(4))
  from loaded_evaluation [OF ok even this fits0 keys] show ?thesis using c(1) by auto
qed

text \<open>
  C37. Preparing a shard. On a memory slice of exactly the size \<open>required_memory_general\<close> computes, \<open>create\<close> builds a database
  over the given rings, group and seeds, and \<open>set_db_entries\<close> loads and preprocesses any list with \<open>SIMD_COUNT\<close> entries for every
  group element without a panic; on a slice of any other size \<open>create\<close> panics, and so does loading a list of any other length.
\<close>

theorem shard_preparation:
  fixes P :: "('z, 'p) poly_ring" and C :: "('z, 'r) poly_ring" and rng :: "'g rng_ops"
  assumes "level_ok N m inv_g lg su P C g" "\<forall>x \<in> set entries. entry_fits su P x"
  shows "if length memory \<noteq> required_memory_general g N then create lg su P C g seeds memory = (Panic :: (unit, ('z, 'p, 'r) pir_database) outcome)
    else \<exists>db0. create lg su P C g seeds memory = (Ok db0 :: (unit, ('z, 'p, 'r) pir_database) outcome) \<and>
      db_ring db0 = P \<and> db_ciphertext_ring db0 = C \<and> db_index_group db0 = g \<and> db_use_seeds db0 = seeds \<and>
      (if length entries = group_order g * SIMD_COUNT
       then \<exists>db. set_db_entries rng (pow_zeta su) inv_g entries db0 = (Ok db :: (unit, ('z, 'p, 'r) pir_database) outcome)
       else set_db_entries rng (pow_zeta su) inv_g entries db0 = (Panic :: (unit, ('z, 'p, 'r) pir_database) outcome))"
proof -
  note lv = assms(1)
  note lvl = lv [unfolded level_ok_def]
  have P: "pr_rank P = N" and lg: "abs_log2_ceil_spec lg" and g: "group_ok g N m" using lvl by blast+
  have lgN: "lg (int N) = Some (Suc m)" using lg_power [OF lg, of "Suc m"] g by (simp add: group_ok_def)
  have wrong: "create lg su P C g seeds memory = (Panic :: (unit, ('z, 'p, 'r) pir_database) outcome)" if "length memory \<noteq> required_memory_general g N"
  proof -
    have "(required_memory_general g N \<noteq> length memory) = True" using that by simp
    then show ?thesis unfolding create_def Let_def P unwrap_def lgN option.case bind_outcome.simps by (simp only: simp_thms if_True)
  qed
  have right: "\<exists>db0. create lg su P C g seeds memory = (Ok db0 :: (unit, ('z, 'p, 'r) pir_database) outcome) \<and>
      db_ring db0 = P \<and> db_ciphertext_ring db0 = C \<and> db_index_group db0 = g \<and> db_use_seeds db0 = seeds \<and>
      (if length entries = group_order g * SIMD_COUNT
       then \<exists>db. set_db_entries rng (pow_zeta su) inv_g entries db0 = (Ok db :: (unit, ('z, 'p, 'r) pir_database) outcome)
       else set_db_entries rng (pow_zeta su) inv_g entries db0 = (Panic :: (unit, ('z, 'p, 'r) pir_database) outcome))"
    if mem: "length memory = required_memory_general g N"
  proof -
    obtain db0 where c: "create lg su P C g seeds memory = (Ok db0 :: (unit, ('z, 'p, 'r) pir_database) outcome)"
      "db_ring db0 = P" "db_ciphertext_ring db0 = C" "db_index_group db0 = g" "db_use_seeds db0 = seeds"
      using create_database [OF lv mem, where seeds = seeds and 'e = unit] by blast
    have "\<exists>db. set_db_entries rng (pow_zeta su) inv_g entries db0 = (Ok db :: (unit, ('z, 'p, 'r) pir_database) outcome)"
      if "length entries = group_order g * SIMD_COUNT" using shard_builds [OF lv assms(2) mem that, of seeds rng] c(1) by auto
    moreover have "set_db_entries rng (pow_zeta su) inv_g entries db0 = (Panic :: (unit, ('z, 'p, 'r) pir_database) outcome)"
      if "length entries \<noteq> group_order g * SIMD_COUNT" using that by (simp add: set_db_entries_def set_transformed_entries_def Let_def c(4))
    ultimately show ?thesis using c(1-5) by simp
  qed
  show ?thesis using wrong right by simp
qed

text \<open>Plaintexts of the reference ring with reduced coefficients.\<close>

lemma reduced_fits:
  assumes "\<forall>c \<in> set x. 0 \<le> c \<and> c < 1025" "length x = 16"
  shows "entry_fits ref_setup (int_poly 16 1025) x"
proof -
  have "zn_lift (sz_component_ring (new_rns ref_setup 26)) (pr_basis (int_poly 16 1025) x ! n) = coeff (int_poly 16 1025) x n" if "n < 16" for n
  proof -
    have c: "0 \<le> x ! n" "x ! n < 1025" using assms that by simp_all
    then have "x ! n mod 67104769 = x ! n" "x ! n mod 1025 = x ! n" by (simp_all add: mod_pos_pos_trivial)
    then show ?thesis using that assms(2) by (simp add: ref_setup_def field_ring_def truncated_ring coeff_def int_poly_def int_arith_def Let_def)
  qed
  then show ?thesis by (simp add: entry_fits_def int_poly_rank)
qed

lemma demo_entry_fits: "e < 128 \<Longrightarrow> entry_fits ref_setup (int_poly 16 1025) (demo_entry e)"
  by (rule reduced_fits) (auto simp: demo_entry_def)

theorem shard_preparation_witness:
  "create abs_log2_ceil_ref ref_setup (int_poly 16 1025) (int_poly 16 FIXED_Q) (full_group 16) FirstSet (replicate 96 (replicate 8 0)) =
     (Panic :: (unit, (int, int list, int list) pir_database) outcome) \<and>
   (\<exists>db0 db. create abs_log2_ceil_ref ref_setup (int_poly 16 1025) (int_poly 16 FIXED_Q) (full_group 16) FirstSet (replicate 1536 (replicate 8 0)) =
       (Ok db0 :: (unit, (int, int list, int list) pir_database) outcome) \<and>
     set_db_entries unit_noise (pow_zeta ref_setup) 13 demo_entries db0 = (Ok db :: (unit, (int, int list, int list) pir_database) outcome))"
proof -
  have lv: "level_ok 16 3 13 abs_log2_ceil_ref ref_setup (int_poly 16 1025) (int_poly 16 FIXED_Q) (full_group 16)" by (rule demo_level) simp
  have fit: "\<forall>x \<in> set demo_entries. entry_fits ref_setup (int_poly 16 1025) x" using demo_entry_fits by (auto simp: demo_entries_def)
  have sizes: "required_memory_general (full_group 16) 16 = 1536" "group_order (full_group 16) = 16" "length demo_entries = 16 * SIMD_COUNT"
    by (simp_all add: required_memory_general_def GK_DIGITS_def index_group_defs demo_entries_def SIMD_COUNT_def)
  note prepared = shard_preparation [where rng = unit_noise and seeds = FirstSet, OF lv fit, unfolded sizes]
  show ?thesis
    using prepared [of "replicate 96 (replicate 8 0)"] prepared [of "replicate 1536 (replicate 8 0)"] by auto
qed

end
