(* ===== verification/Double_Retrieval.thy ===== *)
theory Double_Retrieval
  imports Shard_Level
begin

text \<open>
  \<open>perform_batched_double_pir\<close> of \<open>double_pir.rs\<close> from end to end: the shards of two fleets answer the primary queries, their
  replies become the entries of the second-level database, which answers the secondary queries; and \<open>dec_double_pir\<close>
  returns the entries the clients asked for.
\<close>

section \<open>The query of a client\<close>

definition primary_ref :: "'r double_query \<Rightarrow> 'r query_ref" where
  "primary_ref q = \<lparr>qr_qry_b = dq_primary q, qr_qry_conj_b = dq_primary_conj q, qr_gk_b = dq_gk q\<rparr>"

definition secondary_ref :: "'r double_query \<Rightarrow> 'r query_ref" where
  "secondary_ref q = \<lparr>qr_qry_b = dq_secondary q, qr_qry_conj_b = dq_secondary_conj q, qr_gk_b = dq_gk q\<rparr>"

lemma enc_double_pir_client:
  assumes enc: "enc_double_pir rng Gal s P1 P2 g1 g2 C sk pidx sidx = (Ok (dq, s') :: (unit, 'r double_query \<times> 'g) outcome)"
    and rank: "pr_rank P1 = pr_rank P2"
  shows "client_query rng P1 C g1 FirstSet sk (pidx div SIMD_COUNT) (primary_ref dq)"
    "client_query rng P2 C g2 SecondSet sk (sidx * SIMD_COUNT + pidx mod SIMD_COUNT) (secondary_ref dq)"
    "\<exists>s s'. gen_gk_b rng Gal C (get_gk_seeds FirstSet) s sk gen_H GK_DIGITS LOG2_B = (Ok (dq_gk dq, s') :: (unit, 'r list \<times> 'g) outcome)"
    "dq_primary_conj dq \<noteq> None \<longleftrightarrow> requires_conj g1"
proof -
  have idx: "pidx < group_order g1 * SIMD_COUNT" "sidx < group_order g2 div SIMD_COUNT"
    using enc by (auto simp: enc_double_pir_def Let_def split: if_splits)
  have pos: "pidx div SIMD_COUNT < group_order g1" "sidx * SIMD_COUNT + pidx mod SIMD_COUNT < group_order g2"
    using idx by (simp_all add: SIMD_COUNT_def less_mult_imp_div_less)
  obtain gk ga pr gb pc gc se gd sc where e: "gen_gk_b rng Gal C (get_gk_seeds FirstSet) s sk 5 GK_DIGITS LOG2_B = (Ok (gk, ga) :: (unit, 'r list \<times> 'g) outcome)"
    "enc_sym_b rng P1 C (get_qry_seeds FirstSet ! 0) ga sk (pr_gen_pow P1 (pidx div SIMD_COUNT * query_base_power g1)) = (Ok (pr, gb) :: (unit, 'r \<times> 'g) outcome)"
    "enc_when (requires_conj g1) (\<lambda>g. enc_sym_b rng P1 C (get_qry_seeds FirstSet ! 1) g sk
       (pr_gen_pow P1 (2 * pr_rank P1 - pidx div SIMD_COUNT * query_base_power g1))) gb = (Ok (pc, gc) :: (unit, 'r option \<times> 'g) outcome)"
    "enc_sym_b rng P2 C (get_qry_seeds SecondSet ! 0) gc sk (pr_gen_pow P2 ((sidx * SIMD_COUNT + pidx mod SIMD_COUNT) * query_base_power g2)) =
       (Ok (se, gd) :: (unit, 'r \<times> 'g) outcome)"
    "enc_when (requires_conj g2) (\<lambda>g. enc_sym_b rng P2 C (get_qry_seeds SecondSet ! 1) g sk
       (pr_gen_pow P2 (2 * pr_rank P1 - (sidx * SIMD_COUNT + pidx mod SIMD_COUNT) * query_base_power g2))) gd = (Ok (sc, s') :: (unit, 'r option \<times> 'g) outcome)"
    "dq = \<lparr>dq_primary = pr, dq_primary_conj = pc, dq_secondary = se, dq_secondary_conj = sc, dq_gk = gk\<rparr>"
    using enc unfolding enc_double_pir_def Let_def by (auto split: if_splits)
  have when_conj: "(b \<noteq> None \<longleftrightarrow> needed) \<and> (needed \<longrightarrow> (\<exists>x. b = Some x \<and> f g = Ok (x, g')))"
    if "enc_when needed f g = (Ok (b, g') :: (unit, 'r option \<times> 'g) outcome)" for needed f g b g'
    using that by (auto simp: enc_when_def split: if_splits)
  note c1 = when_conj [OF e(3)] and c2 = when_conj [OF e(5)]
  show "client_query rng P1 C g1 FirstSet sk (pidx div SIMD_COUNT) (primary_ref dq)"
    using pos(1) e(2) c1 unfolding client_query_def Let_def primary_ref_def e(6) by auto
  show "client_query rng P2 C g2 SecondSet sk (sidx * SIMD_COUNT + pidx mod SIMD_COUNT) (secondary_ref dq)"
    using pos(2) e(4) c2 unfolding client_query_def Let_def secondary_ref_def e(6) rank by auto
  show "\<exists>s s'. gen_gk_b rng Gal C (get_gk_seeds FirstSet) s sk gen_H GK_DIGITS LOG2_B = (Ok (dq_gk dq, s') :: (unit, 'r list \<times> 'g) outcome)"
    using e(1,6) by (auto simp: gen_H_def)
  show "dq_primary_conj dq \<noteq> None \<longleftrightarrow> requires_conj g1" using c1 e(6) by simp
qed


text \<open>
  What the server needs of a query, fresh or switched: Galois keys with noise at most \<open>bk\<close>, and queries for the group
  elements of entry \<open>pidx\<close> of shard \<open>sidx\<close> with noise at most \<open>bq\<close>.
\<close>

definition double_ok ::
    "'g rng_ops \<Rightarrow> ('w, 'p) poly_ring \<Rightarrow> ('w, 'p) poly_ring \<Rightarrow> ('z, 'r) poly_ring \<Rightarrow> index_group \<Rightarrow> index_group \<Rightarrow> nat \<Rightarrow> int \<Rightarrow> int \<Rightarrow>
     'r \<Rightarrow> nat \<Rightarrow> nat \<Rightarrow> 'r double_query \<Rightarrow> bool" where
  "double_ok rng P1 P2 C g1 g2 inv_g bq bk sk pidx sidx q \<longleftrightarrow> key_lane inv_g rng bk C sk (dq_gk q) \<and>
     query_lane rng P1 C g1 FirstSet bq sk (pidx div SIMD_COUNT) (primary_ref q) \<and>
     query_lane rng P2 C g2 SecondSet bq sk (sidx * SIMD_COUNT + pidx mod SIMD_COUNT) (secondary_ref q) \<and>
     (dq_primary_conj q \<noteq> None \<longleftrightarrow> requires_conj g1)"

lemma fresh_double_ok:
  fixes P1 P2 :: "('z, 'p) poly_ring" and C :: "('z, 'r) poly_ring" and rng :: "'g rng_ops" and Gal :: "'v zn_arith"
  assumes lv: "level_ok N m inv_g lg su P1 C g1" "level_ok N m inv_g lg su P2 C g2"
    and Gal: "zn_arith_spec Gal" "zn_modulus Gal = 2 * int N" and noise: "\<And>s. \<bar>fst (rng_gauss rng s)\<bar> \<le> bound"
    and enc: "enc_double_pir rng Gal s P1 P2 g1 g2 C sk pidx sidx = (Ok (q, s') :: (unit, 'r double_query \<times> 'g) outcome)"
  shows "double_ok rng P1 P2 C g1 g2 inv_g bound bound sk pidx sidx q"
proof -
  note one = lv(1) [unfolded level_ok_def] and two = lv(2) [unfolded level_ok_def]
  have P: "poly_spec P1" "poly_spec P2" and C: "poly_spec C" "pr_rank C = N" and g: "(gen_H * inv_g) mod (2 * N) = 1" using one two by blast+
  have ranks: "pr_rank P1 = pr_rank C" "pr_rank P2 = pr_rank C" "pr_rank P1 = pr_rank P2" using one two by simp_all
  have cop: "coprime (zn_modulus (pr_base P1)) (zn_modulus (pr_base C))" "coprime (zn_modulus (pr_base P2)) (zn_modulus (pr_base C))"
    using one two modulus_coprime by simp_all
  note e = enc_double_pir_client [OF enc ranks(3)]
  obtain u u' where gen: "gen_gk_b rng Gal C (get_gk_seeds FirstSet) u sk gen_H GK_DIGITS LOG2_B = (Ok (dq_gk q, u') :: (unit, 'r list \<times> 'g) outcome)"
    using e(3) by blast
  have "key_lane inv_g rng bound C sk (dq_gk q)"
    using Gal(2) g C(2) by (intro key_lane_client [OF C(1) Gal(1) _ _ noise gen]) simp_all
  then show ?thesis
    unfolding double_ok_def
    using client_query_lane [OF P(1) C(1) ranks(1) cop(1) noise e(1)] client_query_lane [OF P(2) C(1) ranks(2) cop(2) noise e(2)] e(4) by blast
qed


section \<open>First-level results as plaintexts\<close>

definition plain_fits :: "'z ntt_setup \<Rightarrow> ('z, 'p) poly_ring \<Rightarrow> bool" where
  "plain_fits su P \<longleftrightarrow> (\<forall>ks. length ks = pr_rank P \<longrightarrow> entry_fits su P (pr_from_basis P (map (zn_of_int (pr_base P)) ks)))"

lemma split_digits_ints: "\<exists>ks. fst (split_digits Zt k current) = map (zn_of_int Zt) ks \<and> length ks = k"
proof (induction k arbitrary: current)
  case (Suc k)
  obtain ks where "fst (split_digits Zt k (current div word_of_int SECONDARY_PLAIN_MODULUS)) = map (zn_of_int Zt) ks" "length ks = k"
    using Suc.IH by blast
  then show ?case
    by (intro exI [of _ "sint (current mod word_of_int SECONDARY_PLAIN_MODULUS) # ks"]) (simp add: Let_def split_beta)
qed simp

lemma result_parts_fit:
  assumes P: "plain_fits su P" and res: "result_parts rdiv P C ct = (Ok parts :: ('e, 'p list) outcome)" and x: "x \<in> set parts"
  shows "entry_fits su (P :: ('z, 'p) poly_ring) x"
proof -
  obtain va vb digits where d: "try_map (\<lambda>i. encode_ciphertext_plaintext (va ! i) (vb ! i) (pr_base P)) [0..<pr_rank P] = (Ok digits :: ('e, 'z list list) outcome)"
    "parts = map (\<lambda>j. pr_from_basis P (map (\<lambda>ds. ds ! j) digits)) [0..<CTXT_PARTS]"
    using res by (auto simp: result_parts_def)
  have each: "\<exists>ks. ds = map (zn_of_int (pr_base P)) ks \<and> length ks = CTXT_PARTS"
    if "encode_ciphertext_plaintext a b (pr_base P) = (Ok ds :: ('e, 'z list) outcome)" for a b ds
    using that split_digits_ints [of "pr_base P" CTXT_PARTS] by (auto simp: encode_ciphertext_plaintext_def Let_def split_beta split: if_splits)
  have "list_all (\<lambda>ds. \<exists>ks. ds = map (zn_of_int (pr_base P)) ks \<and> length ks = CTXT_PARTS) zs \<and> length zs = length is"
    if "try_map (\<lambda>i. encode_ciphertext_plaintext (va ! i) (vb ! i) (pr_base P)) is = (Ok zs :: ('e, 'z list list) outcome)" for "is" zs
    using that each by (induction "is" arbitrary: zs) auto
  from this [OF d(1)] have digits: "\<forall>ds \<in> set digits. \<exists>ks. ds = map (zn_of_int (pr_base P)) ks \<and> length ks = CTXT_PARTS" "length digits = pr_rank P"
    by (simp_all add: list_all_iff)
  obtain j where j: "j < CTXT_PARTS" "x = pr_from_basis P (map (\<lambda>ds. ds ! j) digits)" using x by (auto simp: d(2))
  have "\<exists>e. ds ! j = zn_of_int (pr_base P) e" if "ds \<in> set digits" for ds using digits(1) that j(1) by fastforce
  then have "\<exists>es. map (\<lambda>ds. ds ! j) digits = map (zn_of_int (pr_base P)) es" by (simp add: ex_map_conv)
  then obtain es where es: "map (\<lambda>ds. ds ! j) digits = map (zn_of_int (pr_base P)) es" ..
  then have "length es = pr_rank P" using digits(2) by (metis length_map)
  then show ?thesis using P unfolding plain_fits_def j(2) es by blast
qed


section \<open>Modulus switching\<close>

definition switch_limit :: "nat \<Rightarrow> int" where
  "switch_limit N = int N * ((FIXED_Q + 2 ^ 18) div 2 ^ 18) + (FIXED_Q + 2 ^ 13) div 2 ^ 13"

lemma switched_error:
  assumes C: "poly_spec (C :: ('z, 'r) poly_ring)" and rdiv: "rounded_div_spec rdiv" and BITS: "0 < BITS" "BITS \<le> 64" and q: "zn_modulus (pr_base C) < 2 ^ 63"
    and y: "switched rdiv BITS C x = (Ok y :: ('e, 'r) outcome)"
  shows "\<exists>err. \<forall>n < pr_rank C. coeff C y n = (coeff C x n + err n) mod zn_modulus (pr_base C) \<and>
    \<bar>err n\<bar> \<le> (zn_modulus (pr_base C) + 2 ^ (BITS + 1)) div 2 ^ (BITS + 1)"
proof -
  let ?q = "zn_modulus (pr_base C)"
  have "\<forall>n. \<exists>err. n < pr_rank C \<longrightarrow> coeff C y n = (coeff C x n + err) mod ?q \<and> 2 ^ (BITS + 1) * \<bar>err\<bar> \<le> ?q + 2 ^ (BITS + 1)"
    using mod_switch_coeffs [OF C rdiv BITS q, of x, where 'e = 'e] y unfolding switched_def by fastforce
  then obtain err where err: "\<forall>n. n < pr_rank C \<longrightarrow> coeff C y n = (coeff C x n + err n) mod ?q \<and> 2 ^ (BITS + 1) * \<bar>err n\<bar> \<le> ?q + 2 ^ (BITS + 1)"
    by (rule choice [elim_format]) blast
  have "\<bar>e\<bar> \<le> (?q + 2 ^ (BITS + 1)) div 2 ^ (BITS + 1)" if "2 ^ (BITS + 1) * \<bar>e\<bar> \<le> ?q + 2 ^ (BITS + 1)" for e :: int
    using zdiv_mono1 [OF that, of "2 ^ (BITS + 1)"] by (simp del: power_Suc)
  then show ?thesis using err by (intro exI [of _ err]) simp
qed

lemma nega_add_left: "nega N (\<lambda>n l. F n l + G n l) H n l = nega N F H n l + nega N G H n l"
  unfolding nega_def sum.distrib [symmetric] by (intro sum.cong refl) (simp add: algebra_simps)

lemma switched_noise:
  assumes P: "poly_spec P" and C: "poly_spec (C :: ('z, 'r) poly_ring)" "poly_mul_spec C" and rdiv: "rounded_div_spec rdiv"
    and rank: "pr_rank C = N" and moduli: "zn_modulus (pr_base P) = 1025" "zn_modulus (pr_base C) = FIXED_Q"
    and sk: "\<And>n. n < N \<Longrightarrow> \<bar>\<sigma> n\<bar> \<le> 1" "\<And>n. n < N \<Longrightarrow> coeff C sk n = \<sigma> n mod FIXED_Q"
    and sw: "switched rdiv 17 C a = (Ok a' :: ('e, 'r) outcome)" "switched rdiv 12 C b = (Ok b' :: ('e, 'r) outcome)" and n: "n < N"
  shows "\<bar>reply_noise P C sk (a', b') x n\<bar> \<le> \<bar>reply_noise P C sk (a, b) x n\<bar> + switch_limit N"
proof -
  have q: "zn_modulus (pr_base C) < 2 ^ 63" by (simp add: moduli(2) q_values)
  obtain ea where ea: "\<forall>n < N. coeff C a' n = (coeff C a n + ea n) mod FIXED_Q \<and> \<bar>ea n\<bar> \<le> (FIXED_Q + 2 ^ 18) div 2 ^ 18"
    using switched_error [OF C(1) rdiv _ _ q sw(1)] unfolding rank moduli by auto
  obtain eb where eb: "\<forall>n < N. coeff C b' n = (coeff C b n + eb n) mod FIXED_Q \<and> \<bar>eb n\<bar> \<le> (FIXED_Q + 2 ^ 13) div 2 ^ 13"
    using switched_error [OF C(1) rdiv _ _ q sw(2)] unfolding rank moduli by auto
  have n': "n < pr_rank C" using n rank by simp
  have cop: "coprime (zn_modulus (pr_base P)) (zn_modulus (pr_base C))" unfolding moduli by (rule modulus_coprime)
  obtain u where u: "modulus_inv (pr_base P) (pr_base C) = (Ok u :: (unit, 'z) outcome)"
    using modulus_inv_Ok [OF poly_base [OF C(1)] cop, where 'e = unit] by blast
  let ?A = "\<lambda>i (_ :: nat). coeff C a i" and ?S = "\<lambda>i (_ :: nat). coeff C sk i" and ?E = "\<lambda>i (_ :: nat). ea i" and ?\<sigma> = "\<lambda>i (_ :: nat). \<sigma> i"
  let ?d = "nega N ?E ?\<sigma> n 0 + eb n"
  have dec: "coeff C (pr_add C (pr_mul C x sk) y) n = (nega N (\<lambda>i _. coeff C x i) ?S n 0 + coeff C y n) mod FIXED_Q" for x y
  proof -
    have "coeff C (pr_mul C x sk) n = nega N (\<lambda>i _. coeff C x i) ?S n 0 mod FIXED_Q"
      using C(2) n unfolding poly_mul_spec_def rank moduli by blast
    then show ?thesis by (simp only: coeff_ops(1) [OF C(1) n'] moduli mod_add_left_eq)
  qed
  have "nega N (\<lambda>i _. coeff C a' i) ?S n 0 mod FIXED_Q = nega N (\<lambda>i l. ?A i l + ?E i l) ?\<sigma> n 0 mod FIXED_Q"
    by (rule nega_mod [OF _ _ n]) (use ea sk(2) in simp_all)
  also have "\<dots> = (nega N ?A ?\<sigma> n 0 + nega N ?E ?\<sigma> n 0) mod FIXED_Q" by (simp only: nega_add_left)
  also have "\<dots> = (nega N ?A ?S n 0 + nega N ?E ?\<sigma> n 0) mod FIXED_Q"
    by (intro mod_add_cong nega_mod [OF _ _ n] refl) (use sk(2) in simp_all)
  finally have "(nega N (\<lambda>i _. coeff C a' i) ?S n 0 + coeff C b' n) mod FIXED_Q = ((nega N ?A ?S n 0 + nega N ?E ?\<sigma> n 0) + (coeff C b n + eb n)) mod FIXED_Q"
    using eb n by (intro mod_add_cong) simp_all
  also have "\<dots> = ((nega N ?A ?S n 0 + coeff C b n) mod FIXED_Q + ?d) mod FIXED_Q" by (simp only: mod_add_left_eq) (simp only: ac_simps)
  finally have "coeff C (pr_add C (pr_mul C a' sk) b') n = (coeff C (pr_add C (pr_mul C a sk) b) n + ?d) mod FIXED_Q" by (simp only: dec)
  also have "\<dots> = (zn_lift (pr_base C) (rescale (pr_base P) (pr_base C) u (pr_basis P x ! n)) + (reply_noise P C sk (a, b) x n + ?d)) mod FIXED_Q"
    using reply_noise_holds [OF C(1) u, of "(a, b)" sk n x] unfolding fst_conv snd_conv moduli by (simp only: mod_add_left_eq add.assoc)
  finally have "\<bar>reply_noise P C sk (a', b') x n\<bar> \<le> \<bar>reply_noise P C sk (a, b) x n + ?d\<bar>"
    by (intro reply_noise_least [OF C(1) u n']) (simp only: fst_conv snd_conv moduli)
  moreover have "\<bar>nega N ?E ?\<sigma> n 0\<bar> \<le> int N * ((FIXED_Q + 2 ^ 18) div 2 ^ 18 * 1)" by (rule nega_bound [OF _ _ n]) (use ea sk(1) in simp_all)
  moreover have "\<bar>eb n\<bar> \<le> (FIXED_Q + 2 ^ 13) div 2 ^ 13" using eb n by simp
  ultimately show ?thesis unfolding switch_limit_def mult_1_right by linarith
qed


section \<open>The first level\<close>

text \<open>
  What a shard contributes to lane \<open>l\<close>: the three plaintexts stored at the second level, and the ciphertext that they stand for,
  the reply of the shard after both modulus switches.
\<close>

definition first_level ::
    "nat \<Rightarrow> (int \<Rightarrow> int \<Rightarrow> int) \<Rightarrow> ('z, 'p) poly_ring \<Rightarrow> ('z, 'r) poly_ring \<Rightarrow> ('z, 'p, 'r) pir_database \<Rightarrow> 'r double_query \<Rightarrow> nat \<Rightarrow>
     (unit, 'p list \<times> 'r \<times> 'r) outcome" where
  "first_level inv_g rdiv P2 C db q l =
     bind_outcome (get_a db) (\<lambda>a. bind_outcome (perform_pir inv_g (primary_ref q) db) (\<lambda>b.
     bind_outcome (result_parts rdiv P2 C (a ! l, b ! l)) (\<lambda>parts.
     bind_outcome (switched rdiv PRIMARY_A_LOG2_RESPONSE_Q C (a ! l)) (\<lambda>a'.
     bind_outcome (switched rdiv PRIMARY_B_LOG2_RESPONSE_Q C (b ! l)) (\<lambda>b'. Ok (parts, a', b'))))))"

text \<open>The plaintexts fit the second level, undo to the ciphertext, and the ciphertext holds the entry up to \<open>limit\<close>.\<close>

definition first_ok ::
    "'z ntt_setup \<Rightarrow> ('z, 'p) poly_ring \<Rightarrow> ('z, 'p) poly_ring \<Rightarrow> ('z, 'r) poly_ring \<Rightarrow> 'r \<Rightarrow> int \<Rightarrow> 'p \<Rightarrow> 'p list \<times> 'r \<times> 'r \<Rightarrow> bool" where
  "first_ok su P1 P2 C sk limit entry res \<longleftrightarrow> length (fst res) = 3 \<and> (\<forall>x \<in> set (fst res). entry_fits su P2 x) \<and>
     (\<forall>reply. (\<forall>k < 3. \<exists>m. dec P2 C sk (reply ! k) = (Ok m :: (unit, 'p) outcome) \<and> (\<forall>i < pr_rank P2. coeff P2 m i = coeff P2 (fst res ! k) i)) \<longrightarrow>
       dec_double_pir P1 P2 C sk reply = (dec P1 C sk (snd res) :: (unit, 'p) outcome)) \<and>
     (\<forall>n < pr_rank P1. 1025 * \<bar>reply_noise P1 C sk (snd res) entry n\<bar> \<le> limit)"

lemma first_level_block:
  fixes P1 P2 :: "('z, 'p) poly_ring" and C :: "('z, 'r) poly_ring" and rng :: "'g rng_ops"
  assumes lv: "level_ok N m inv_g lg su P1 C g" and built: "shard_built lg su inv_g rng P1 C g FirstSet entries db"
    and fit: "\<forall>x \<in> set entries. entry_fits su P1 x" and bounds: "0 \<le> bq" "0 \<le> bk" and rdiv: "rounded_div_spec rdiv"
    and P2: "poly_spec P2" "zn_modulus (pr_base P2) = 1025" "pr_rank P2 = N" "plain_fits su P2"
    and sk: "sk = gen_sk rng C s hwt" and key: "key_lane inv_g rng bk C sk (dq_gk q)"
    and q: "query_lane rng P1 C g FirstSet bq sk i (primary_ref q)"
  shows "\<exists>a b block. get_a db = (Ok a :: (unit, 'r list) outcome) \<and> perform_pir inv_g (primary_ref q) db = (Ok b :: (unit, 'r list) outcome) \<and>
    try_map (\<lambda>k. result_parts rdiv P2 C (a ! k, b ! k)) [0..<8] = (Ok block :: (unit, 'p list list) outcome) \<and> length block = 8 \<and>
    (\<forall>l < 8. \<exists>ct. first_level inv_g rdiv P2 C db q l = Ok (block ! l, ct) \<and>
      first_ok su P1 P2 C sk (noise_limit N g 1025 bq bk + 1025 * switch_limit N) (entries ! (i * SIMD_COUNT + l)) (block ! l, ct))"
proof -
  note lvl = lv [unfolded level_ok_def]
  have P1: "poly_spec P1" "zn_modulus (pr_base P1) = 1025" "pr_rank P1 = N" and C: "poly_spec C" "poly_mul_spec C" "pr_rank C = N" "zn_modulus (pr_base C) = FIXED_Q"
    using lvl by blast+
  have small: "zn_modulus (pr_base C) < 2 ^ 63" by (simp add: C(4) q_values)
  have ranks: "pr_rank P1 = pr_rank P2" "pr_rank C = pr_rank P2" using P1(3) C(3) P2(3) by simp_all
  obtain \<sigma> where \<sigma>: "\<And>n. n < N \<Longrightarrow> \<bar>\<sigma> n\<bar> \<le> 1" "\<And>n. n < N \<Longrightarrow> coeff C sk n = \<sigma> n mod FIXED_Q"
    using gen_sk_ternary [OF C(1), of rng s hwt] unfolding C(3,4) sk by blast
  have key': "key_lane inv_g rng bk C sk (qr_gk_b (primary_ref q))" using key by (simp add: primary_ref_def)
  obtain a b where ab: "get_a db = (Ok a :: (unit, 'r list) outcome)" "perform_pir inv_g (primary_ref q) db = (Ok b :: (unit, 'r list) outcome)"
    and limit: "\<And>l n. l < 8 \<Longrightarrow> n < N \<Longrightarrow> 1025 * \<bar>reply_noise P1 C sk (a ! l, b ! l) (entries ! (i * SIMD_COUNT + l)) n\<bar> \<le> noise_limit N g 1025 bq bk"
    using shard_answers [OF lv built fit bounds key' q] by blast
  let ?res = "\<lambda>l parts. result_parts rdiv P2 C (a ! l, b ! l) = (Ok parts :: (unit, 'p list) outcome) \<and> (\<exists>ct. first_level inv_g rdiv P2 C db q l = Ok (parts, ct) \<and>
      first_ok su P1 P2 C sk (noise_limit N g 1025 bq bk + 1025 * switch_limit N) (entries ! (i * SIMD_COUNT + l)) (parts, ct))"
  have "\<exists>parts. ?res l parts" if l: "l < 8" for l
  proof -
    obtain parts a' b' where r: "result_parts rdiv P2 C (a ! l, b ! l) = (Ok parts :: (unit, 'p list) outcome)" "length parts = 3"
      "switched rdiv 17 C (a ! l) = (Ok a' :: (unit, 'r) outcome)" "switched rdiv 12 C (b ! l) = (Ok b' :: (unit, 'r) outcome)"
      "\<forall>reply. (\<forall>k < 3. \<exists>m. dec P2 C sk (reply ! k) = (Ok m :: (unit, 'p) outcome) \<and> (\<forall>i < pr_rank P2. coeff P2 m i = coeff P2 (parts ! k) i)) \<longrightarrow>
        dec_double_pir P1 P2 C sk reply = (dec P1 C sk (a', b') :: (unit, 'p) outcome)"
      using reply_of_parts [OF P2(1) C(1) rdiv small P1(2) P2(2) ranks, of "(a ! l, b ! l)" sk, where 'e = unit] unfolding fst_conv snd_conv by blast
    have "first_level inv_g rdiv P2 C db q l = Ok (parts, a', b')"
      using ab r(1,3,4) by (simp add: first_level_def double_consts)
    moreover have "\<forall>x \<in> set parts. entry_fits su P2 x" using result_parts_fit [OF P2(4) r(1)] by blast
    moreover have "1025 * \<bar>reply_noise P1 C sk (a', b') (entries ! (i * SIMD_COUNT + l)) n\<bar> \<le> noise_limit N g 1025 bq bk + 1025 * switch_limit N" if n: "n < N" for n
      using switched_noise [OF P1(1) C(1,2) rdiv C(3) P1(2) C(4) \<sigma> r(3,4) n, of "entries ! (i * SIMD_COUNT + l)"] limit [OF l n] by linarith
    ultimately show ?thesis using r by (intro exI [of _ parts] conjI exI [of _ "(a', b')"]) (simp_all add: first_ok_def P1(3))
  qed
  from try_map_upto [of 8 "\<lambda>k. result_parts rdiv P2 C (a ! k, b ! k)" "\<lambda>l parts. ?res l parts"] this
  obtain block where "try_map (\<lambda>k. result_parts rdiv P2 C (a ! k, b ! k)) [0..<8] = (Ok block :: (unit, 'p list list) outcome)" "length block = 8"
    "\<forall>l < 8. ?res l (block ! l)" by blast
  then show ?thesis using ab by blast
qed

text \<open>A fleet: the parts of all its shards, in order.\<close>

lemma try_map_nth: "try_map f xs = try_map (\<lambda>i. f (xs ! i)) [0..<length xs]"
proof -
  have "try_map f (map g is) = try_map (\<lambda>i. f (g i)) is" for g and "is" :: "nat list" by (induction "is") simp_all
  from this [of "(!) xs" "[0..<length xs]"] show ?thesis by (simp only: map_nth)
qed

lemma fleet_parts:
  assumes shards: "\<And>db. db \<in> set dbs \<Longrightarrow> requires_conj (db_index_group db) = (dq_primary_conj q \<noteq> None)"
    and blocks: "\<And>d. d < length dbs \<Longrightarrow> \<exists>a b block. get_a (dbs ! d) = (Ok a :: (unit, 'r list) outcome) \<and>
      perform_pir inv_g (primary_ref q) (dbs ! d) = (Ok b :: (unit, 'r list) outcome) \<and>
      try_map (\<lambda>k. result_parts rdiv P2 C (a ! k, b ! k)) [0..<8] = (Ok block :: (unit, 'p list list) outcome) \<and> length block = 8 \<and> (\<forall>l < 8. Q d l (block ! l))"
  shows "\<exists>rs. part_results_of inv_g rdiv P2 C dbs q = (Ok rs :: (unit, 'p list list) outcome) \<and> length rs = length dbs * 8 \<and>
    (\<forall>d < length dbs. \<forall>l < 8. Q d l (rs ! (d * 8 + l)))"
proof -
  let ?f = "\<lambda>db. if requires_conj (db_index_group db) \<noteq> (dq_primary_conj q \<noteq> None) then Panic
       else bind_outcome (get_a db) (\<lambda>a.
         bind_outcome (perform_pir inv_g \<lparr>qr_qry_b = dq_primary q, qr_qry_conj_b = dq_primary_conj q, qr_gk_b = dq_gk q\<rparr> db) (\<lambda>b.
         try_map (\<lambda>k. result_parts rdiv P2 C (a ! k, b ! k)) [0..<SIMD_COUNT])) :: (unit, 'p list list) outcome"
  have e: "try_map ?f dbs = try_map (\<lambda>d. ?f (dbs ! d)) [0..<length dbs]" by (rule try_map_nth)
  have "\<exists>zs. try_map (\<lambda>d. ?f (dbs ! d)) [0..<length dbs] = Ok zs \<and> length zs = length dbs \<and> (\<forall>d < length dbs. length (zs ! d) = 8 \<and> (\<forall>l < 8. Q d l (zs ! d ! l)))"
  proof (rule try_map_upto)
    fix d assume d: "d < length dbs"
    then show "\<exists>z. ?f (dbs ! d) = Ok z \<and> length z = 8 \<and> (\<forall>l < 8. Q d l (z ! l))"
      using shards [OF nth_mem [OF d]] blocks [OF d] by (auto simp: primary_ref_def SIMD_COUNT_def)
  qed
  then obtain zs where zs: "try_map ?f dbs = Ok zs" "length zs = length dbs" "\<forall>d < length dbs. length (zs ! d) = 8 \<and> (\<forall>l < 8. Q d l (zs ! d ! l))"
    unfolding e [symmetric] by blast
  have z: "zs = map (\<lambda>d. zs ! d) [0..<length dbs]" using zs(2) by (metis map_nth)
  have "part_results_of inv_g rdiv P2 C dbs q = (Ok (concat zs) :: (unit, 'p list list) outcome)"
    unfolding part_results_of_def zs(1) by simp
  moreover have "length (concat zs) = length dbs * 8"
    by (subst z, rule length_concat_groups) (use zs(3) in simp)
  moreover have "concat zs ! (d * 8 + l) = zs ! d ! l" if "d < length dbs" "l < 8" for d l
    by (subst z, rule nth_concat_groups) (use zs(3) that in simp_all)
  ultimately show ?thesis using zs(3) by (intro exI [of _ "concat zs"]) simp
qed


section \<open>The second level\<close>

lemma secondary_entries_all:
  assumes "Q zero" "\<And>f rs i k. f < BATCH_COUNT \<Longrightarrow> part_results ! f = Some rs \<Longrightarrow> i < SIMD_COUNT * lens ! f \<Longrightarrow> k < CTXT_PARTS \<Longrightarrow> Q (rs ! i ! k)"
  shows "\<forall>x \<in> set (secondary_entries zero order lens part_results). Q x"
proof -
  have "Q (case part_results ! (j div CTXT_PARTS) of Some rs \<Rightarrow> rs ! i ! (j mod CTXT_PARTS) | None \<Rightarrow> zero)"
    if "j < CTXT_PARTS * BATCH_COUNT" "i < SIMD_COUNT * lens ! (j div CTXT_PARTS)" for i j
  proof -
    have "j div CTXT_PARTS < BATCH_COUNT" using that(1) by (simp add: CTXT_PARTS_def BATCH_COUNT_def)
    then show ?thesis using assms(1) assms(2) [of "j div CTXT_PARTS" _ i "j mod CTXT_PARTS"] that(2) by (auto simp: CTXT_PARTS_def split: option.splits)
  qed
  then show ?thesis using assms(1) by (auto simp: secondary_entries_def)
qed

text \<open>The queries of the eight lanes: three for each client, and zeros.\<close>

definition zero_ref :: "'r \<Rightarrow> 'r query_ref" where
  "zero_ref zero_r = \<lparr>qr_qry_b = zero_r, qr_qry_conj_b = Some zero_r, qr_gk_b = replicate GK_DIGITS zero_r\<rparr>"

definition lane_refs :: "'r \<Rightarrow> 'r double_query option list \<Rightarrow> 'r query_ref list" where
  "lane_refs zero_r queries = map (\<lambda>i. if i div CTXT_PARTS < length queries
     then (case queries ! (i div CTXT_PARTS) of Some q \<Rightarrow> secondary_ref q | None \<Rightarrow> zero_ref zero_r) else zero_ref zero_r) [0..<SIMD_COUNT]"

lemma second_level:
  fixes P :: "('z, 'p) poly_ring" and C :: "('z, 'r) poly_ring" and rng :: "'g rng_ops"
  assumes lv: "level_ok N m inv_g lg su P C g" and bounds: "0 \<le> bq" "0 \<le> bk"
    and zeros: "entry_fits su P zero_p" "\<forall>n < N. coeff C zero_r n = 0" and len: "length queries = 2"
    and clients: "\<forall>f < 2. \<forall>q. queries ! f = Some q \<longrightarrow> key_lane inv_g rng bk C (sk f) (dq_gk q) \<and> query_lane rng P C g SecondSet bq (sk f) (j f) (secondary_ref q)"
    and parts: "\<forall>f < 2. \<forall>rs. part_results ! f = Some rs \<longrightarrow> (\<forall>i < 8 * lens ! f. \<forall>k < 3. entry_fits su P (rs ! i ! k))"
  defines "entries \<equiv> secondary_entries zero_p (group_order g) lens part_results"
  shows "\<exists>db0 db a b. create lg su P C g SecondSet (replicate (required_memory_general g N) (replicate 8 0)) = (Ok db0 :: (unit, ('z, 'p, 'r) pir_database) outcome) \<and>
    set_db_entries rng (pow_zeta su) inv_g entries db0 = (Ok db :: (unit, ('z, 'p, 'r) pir_database) outcome) \<and>
    get_a db = (Ok a :: (unit, 'r list) outcome) \<and> perform_pir_split inv_g (lane_refs zero_r queries) db = (Ok b :: (unit, 'r list) outcome) \<and>
    length a = 8 \<and> length b = 8 \<and>
    (\<forall>f < 2. queries ! f \<noteq> None \<longrightarrow> (\<forall>k < 3. \<forall>n < N.
      1025 * \<bar>reply_noise P C (sk f) (a ! (f * 3 + k), b ! (f * 3 + k)) (entries ! (j f * SIMD_COUNT + (f * 3 + k))) n\<bar> \<le> noise_limit N g 1025 bq bk))"
proof -
  note lvl = lv [unfolded level_ok_def]
  have C: "poly_spec C" "poly_mul_spec C" and rank: "pr_rank C = N" using lvl by blast+
  have idle: "key_lane inv_g rng bk C zero_r (replicate GK_DIGITS zero_r)" by (rule key_lane_idle [OF C _ bounds(2)]) (use zeros(2) rank in simp)
  have ent: "length entries = group_order g * SIMD_COUNT" by (simp add: entries_def length_secondary_entries)
  have fit: "\<forall>x \<in> set entries. entry_fits su P x"
    unfolding entries_def using parts by (intro secondary_entries_all zeros(1)) (simp add: BATCH_COUNT_def CTXT_PARTS_def SIMD_COUNT_def)
  let ?sks = "map (\<lambda>i. if i div 3 < 2 \<and> queries ! (i div 3) \<noteq> None then sk (i div 3) else zero_r) [0..<8]"
  have at: "lane_refs zero_r queries ! i = (if i div 3 < 2 then (case queries ! (i div 3) of Some q \<Rightarrow> secondary_ref q | None \<Rightarrow> zero_ref zero_r) else zero_ref zero_r)"
    if "i < 8" for i using that len by (simp add: lane_refs_def CTXT_PARTS_def SIMD_COUNT_def)
  have keys: "key_lane inv_g rng bk C (?sks ! l) (qr_gk_b (lane_refs zero_r queries ! l))" if "l < 8" for l
    using that clients idle by (auto simp: at secondary_ref_def zero_ref_def split: option.splits)
  have conj: "qr_qry_conj_b (lane_refs zero_r queries ! l) \<noteq> None" if "requires_conj g" "l < 8" for l
  proof -
    have "qr_qry_conj_b (secondary_ref q) \<noteq> None" if "f < 2" "queries ! f = Some q" for f q
      using clients that \<open>requires_conj g\<close> by (auto simp: query_lane_def Let_def)
    then show ?thesis using that(2) by (auto simp: at zero_ref_def split: option.splits)
  qed
  let ?memory = "replicate (required_memory_general g N) (replicate 8 0) :: compressed list"
  have mem: "length ?memory = required_memory_general g N" and eight: "length (lane_refs zero_r queries) = 8" by (simp_all add: lane_refs_def SIMD_COUNT_def)
  have "\<exists>db0 db a b. create lg su P C g SecondSet ?memory = (Ok db0 :: (unit, ('z, 'p, 'r) pir_database) outcome) \<and>
    set_db_entries rng (pow_zeta su) inv_g entries db0 = (Ok db :: (unit, ('z, 'p, 'r) pir_database) outcome) \<and>
    get_a db = (Ok a :: (unit, 'r list) outcome) \<and> perform_pir_split inv_g (lane_refs zero_r queries) db = (Ok b :: (unit, 'r list) outcome) \<and>
    length a = 8 \<and> length b = 8 \<and>
    (\<forall>l < 8. \<forall>i. query_lane rng P C g SecondSet bq (?sks ! l) i (lane_refs zero_r queries ! l) \<longrightarrow>
      (\<forall>n < N. 1025 * \<bar>reply_noise P C (?sks ! l) (a ! l, b ! l) (entries ! (i * SIMD_COUNT + l)) n\<bar> \<le> noise_limit N g 1025 bq bk))"
    by (rule level_evaluation [OF lv mem ent fit bounds eight]) (rule keys conj; assumption)+
  then obtain db0 db a b where ev: "create lg su P C g SecondSet ?memory = (Ok db0 :: (unit, ('z, 'p, 'r) pir_database) outcome)"
    "set_db_entries rng (pow_zeta su) inv_g entries db0 = (Ok db :: (unit, ('z, 'p, 'r) pir_database) outcome)"
    "get_a db = (Ok a :: (unit, 'r list) outcome)" "perform_pir_split inv_g (lane_refs zero_r queries) db = (Ok b :: (unit, 'r list) outcome)"
    "length a = 8" "length b = 8"
    and limit: "\<forall>l < 8. \<forall>i. query_lane rng P C g SecondSet bq (?sks ! l) i (lane_refs zero_r queries ! l) \<longrightarrow>
      (\<forall>n < N. 1025 * \<bar>reply_noise P C (?sks ! l) (a ! l, b ! l) (entries ! (i * SIMD_COUNT + l)) n\<bar> \<le> noise_limit N g 1025 bq bk)"
    by (elim exE conjE)
  have "1025 * \<bar>reply_noise P C (sk f) (a ! (f * 3 + k), b ! (f * 3 + k)) (entries ! (j f * SIMD_COUNT + (f * 3 + k))) n\<bar> \<le> noise_limit N g 1025 bq bk"
    if "f < 2" "queries ! f \<noteq> None" "k < 3" "n < N" for f k n
  proof -
    from that(2) obtain q where q: "queries ! f = Some q" by blast
    have l: "f * 3 + k < 8" "(f * 3 + k) div 3 = f" using that(1,3) by simp_all
    then have lane: "?sks ! (f * 3 + k) = sk f" "lane_refs zero_r queries ! (f * 3 + k) = secondary_ref q" using that(1) q by (simp_all add: at)
    have "query_lane rng P C g SecondSet bq (?sks ! (f * 3 + k)) (j f) (lane_refs zero_r queries ! (f * 3 + k))"
      unfolding lane using clients that(1) q by blast
    from limit [rule_format, OF l(1) this that(4)] show ?thesis unfolding lane .
  qed
  then show ?thesis using ev by blast
qed


section \<open>The batch\<close>

text \<open>
  Two fleets of shards: shard \<open>d\<close> of fleet \<open>f\<close> is built from \<open>entries f d\<close>. At most two clients: the one of fleet \<open>f\<close> asks for
  entry \<open>pidx f\<close> of shard \<open>sidx f\<close> with a fresh secret.
\<close>

definition fleets_built ::
    "nat \<Rightarrow> nat \<Rightarrow> nat \<Rightarrow> (int \<Rightarrow> nat option) \<Rightarrow> 'z ntt_setup \<Rightarrow> 'g rng_ops \<Rightarrow> ('z, 'p) poly_ring \<Rightarrow> ('z, 'r) poly_ring \<Rightarrow> (nat \<Rightarrow> index_group) \<Rightarrow>
     (nat \<Rightarrow> nat \<Rightarrow> 'p list) \<Rightarrow> ('z, 'p, 'r) pir_database list list \<Rightarrow> bool" where
  "fleets_built N m inv_g lg su rng P1 C g1 entries databases \<longleftrightarrow> length databases = BATCH_COUNT \<and> databases ! 0 \<noteq> [] \<and>
     (\<forall>f < BATCH_COUNT. level_ok N m inv_g lg su P1 C (g1 f) \<and> (\<forall>d < length (databases ! f).
       shard_built lg su inv_g rng P1 C (g1 f) FirstSet (entries f d) (databases ! f ! d) \<and> (\<forall>x \<in> set (entries f d). entry_fits su P1 x)))"

definition batch_ok ::
    "'g rng_ops \<Rightarrow> ('w, 'p) poly_ring \<Rightarrow> ('w, 'p) poly_ring \<Rightarrow> ('z, 'r) poly_ring \<Rightarrow> (nat \<Rightarrow> index_group) \<Rightarrow> index_group \<Rightarrow> nat \<Rightarrow> int \<Rightarrow> int \<Rightarrow>
     (nat \<Rightarrow> 'r) \<Rightarrow> (nat \<Rightarrow> nat) \<Rightarrow> (nat \<Rightarrow> nat) \<Rightarrow> nat list \<Rightarrow> 'r double_query option list \<Rightarrow> bool" where
  "batch_ok rng P1 P2 C g1 g2 inv_g bq bk sk pidx sidx lens queries \<longleftrightarrow> length queries = BATCH_COUNT \<and>
     (\<forall>f < BATCH_COUNT. \<forall>q. queries ! f = Some q \<longrightarrow> sidx f < lens ! f \<and> (\<exists>s hwt. sk f = gen_sk rng C s hwt) \<and>
       double_ok rng P1 P2 C (g1 f) g2 inv_g bq bk (sk f) (pidx f) (sidx f) q)"

definition clients_ask ::
    "'g rng_ops \<Rightarrow> 'v zn_arith \<Rightarrow> ('z, 'p) poly_ring \<Rightarrow> ('z, 'p) poly_ring \<Rightarrow> ('z, 'r) poly_ring \<Rightarrow> (nat \<Rightarrow> index_group) \<Rightarrow> index_group \<Rightarrow>
     (nat \<Rightarrow> 'r) \<Rightarrow> (nat \<Rightarrow> nat) \<Rightarrow> (nat \<Rightarrow> nat) \<Rightarrow> nat list \<Rightarrow> 'r double_query option list \<Rightarrow> bool" where
  "clients_ask rng Gal P1 P2 C g1 g2 sk pidx sidx lens queries \<longleftrightarrow> length queries = BATCH_COUNT \<and>
     (\<forall>f < BATCH_COUNT. \<forall>q. queries ! f = Some q \<longrightarrow> sidx f < lens ! f \<and> (\<exists>s hwt. sk f = gen_sk rng C s hwt) \<and>
       (\<exists>s s'. enc_double_pir rng Gal s P1 P2 (g1 f) g2 C (sk f) (pidx f) (sidx f) = (Ok (q, s') :: (unit, 'r double_query \<times> 'g) outcome)))"

lemma fleet_result:
  fixes P1 P2 :: "('z, 'p) poly_ring" and C :: "('z, 'r) poly_ring" and rng :: "'g rng_ops"
  assumes fl: "fleets_built N m inv_g lg su rng P1 C g1 entries databases" and f: "f < BATCH_COUNT" and q: "queries ! f = Some q"
    and lv: "level_ok N m inv_g lg su P2 C g2" "plain_fits su P2" and rdiv: "rounded_div_spec rdiv" and bounds: "0 \<le> bq" "0 \<le> bk"
    and ok: "batch_ok rng P1 P2 C g1 g2 inv_g bq bk sk pidx sidx lens queries"
  defines "limit \<equiv> noise_limit N (g1 f) 1025 bq bk + 1025 * switch_limit N"
  shows "key_lane inv_g rng bk C (sk f) (dq_gk q)" "query_lane rng P2 C g2 SecondSet bq (sk f) (sidx f * SIMD_COUNT + pidx f mod SIMD_COUNT) (secondary_ref q)"
    "\<exists>rs. part_results_of inv_g rdiv P2 C (databases ! f) q = (Ok rs :: (unit, 'p list list) outcome) \<and> length rs = length (databases ! f) * 8 \<and>
      (\<forall>d < length (databases ! f). \<forall>l < 8. \<exists>ct. first_level inv_g rdiv P2 C (databases ! f ! d) q l = Ok (rs ! (d * 8 + l), ct) \<and>
        first_ok su P1 P2 C (sk f) limit (entries f d ! (pidx f div SIMD_COUNT * SIMD_COUNT + l)) (rs ! (d * 8 + l), ct))"
proof -
  have l1: "level_ok N m inv_g lg su P1 C (g1 f)" and built: "\<And>d. d < length (databases ! f) \<Longrightarrow> shard_built lg su inv_g rng P1 C (g1 f) FirstSet (entries f d) (databases ! f ! d)"
    and fit: "\<And>d. d < length (databases ! f) \<Longrightarrow> \<forall>x \<in> set (entries f d). entry_fits su P1 x"
    using fl f unfolding fleets_built_def by blast+
  obtain s hwt where sk: "sk f = gen_sk rng C s hwt" and dq: "double_ok rng P1 P2 C (g1 f) g2 inv_g bq bk (sk f) (pidx f) (sidx f) q"
    using ok f q unfolding batch_ok_def by blast
  note e = dq [unfolded double_ok_def]
  have P: "poly_spec P2" "zn_modulus (pr_base P2) = 1025" "pr_rank P2 = N" using lv(1) [unfolded level_ok_def] by blast+
  show key: "key_lane inv_g rng bk C (sk f) (dq_gk q)" and "query_lane rng P2 C g2 SecondSet bq (sk f) (sidx f * SIMD_COUNT + pidx f mod SIMD_COUNT) (secondary_ref q)" using e by blast+
  have prim: "query_lane rng P1 C (g1 f) FirstSet bq (sk f) (pidx f div SIMD_COUNT) (primary_ref q)" using e by blast
  show "\<exists>rs. part_results_of inv_g rdiv P2 C (databases ! f) q = (Ok rs :: (unit, 'p list list) outcome) \<and> length rs = length (databases ! f) * 8 \<and>
      (\<forall>d < length (databases ! f). \<forall>l < 8. \<exists>ct. first_level inv_g rdiv P2 C (databases ! f ! d) q l = Ok (rs ! (d * 8 + l), ct) \<and>
        first_ok su P1 P2 C (sk f) limit (entries f d ! (pidx f div SIMD_COUNT * SIMD_COUNT + l)) (rs ! (d * 8 + l), ct))"
  proof (rule fleet_parts)
    fix db assume "db \<in> set (databases ! f)"
    then obtain d where d: "d < length (databases ! f)" "db = databases ! f ! d" by (metis in_set_conv_nth)
    have "db_index_group db = g1 f" using shard_built_parts [OF built [OF d(1)] l1] d(2) by blast
    then show "requires_conj (db_index_group db) = (dq_primary_conj q \<noteq> None)" using e by simp
  next
    fix d assume d: "d < length (databases ! f)"
    show "\<exists>a b block. get_a (databases ! f ! d) = (Ok a :: (unit, 'r list) outcome) \<and>
      perform_pir inv_g (primary_ref q) (databases ! f ! d) = (Ok b :: (unit, 'r list) outcome) \<and>
      try_map (\<lambda>k. result_parts rdiv P2 C (a ! k, b ! k)) [0..<8] = (Ok block :: (unit, 'p list list) outcome) \<and> length block = 8 \<and>
      (\<forall>l < 8. \<exists>ct. first_level inv_g rdiv P2 C (databases ! f ! d) q l = Ok (block ! l, ct) \<and>
        first_ok su P1 P2 C (sk f) limit (entries f d ! (pidx f div SIMD_COUNT * SIMD_COUNT + l)) (block ! l, ct))"
      unfolding limit_def by (rule first_level_block [OF l1 built [OF d] fit [OF d] bounds rdiv P lv(2) sk key prim])
  qed
qed

text \<open>A reply whose noise leaves room at both levels is decoded to the entry.\<close>

lemma reply_decoded:
  fixes P1 P2 :: "('z, 'p) poly_ring" and C :: "('z, 'r) poly_ring"
  assumes P1: "poly_spec P1" "zn_modulus (pr_base P1) = 1025" "pr_rank P1 = N" and P2: "poly_spec P2" "zn_modulus (pr_base P2) = 1025" "pr_rank P2 = N"
    and C: "poly_spec C" "pr_rank C = N" "zn_modulus (pr_base C) = FIXED_Q" and ok: "first_ok su P1 P2 C sk limit entry (parts, ct)"
    and small: "\<forall>k < 3. \<forall>n < N. 2 * 1025 * \<bar>reply_noise P2 C sk (reply ! k) (parts ! k) n\<bar> + 1025 < FIXED_Q"
      "\<forall>n < N. 2 * 1025 * \<bar>reply_noise P1 C sk ct entry n\<bar> + 1025 < FIXED_Q"
  shows "\<exists>x. dec_double_pir P1 P2 C sk reply = (Ok x :: (unit, 'p) outcome) \<and> (\<forall>n < N. coeff P1 x n = coeff P1 entry n)"
proof -
  have cop: "coprime (zn_modulus (pr_base P1)) (zn_modulus (pr_base C))" "coprime (zn_modulus (pr_base P2)) (zn_modulus (pr_base C))"
    unfolding P1 P2 C by (rule modulus_coprime)+
  have ranks: "pr_rank P1 = pr_rank C" "pr_rank P2 = pr_rank C" by (simp_all only: P1 P2 C)
  have "\<exists>m. dec P2 C sk (reply ! k) = (Ok m :: (unit, 'p) outcome) \<and> (\<forall>i < pr_rank P2. coeff P2 m i = coeff P2 (parts ! k) i)" if "k < 3" for k
    using small(1) that by (intro dec_reply [OF P2(1) C(1) ranks(2) cop(2)]) (simp add: P2 C)
  then have "dec_double_pir P1 P2 C sk reply = (dec P1 C sk ct :: (unit, 'p) outcome)" using ok unfolding first_ok_def by simp
  moreover have "\<exists>x. dec P1 C sk ct = (Ok x :: (unit, 'p) outcome) \<and> (\<forall>n < pr_rank P1. coeff P1 x n = coeff P1 entry n)"
    using small(2) by (intro dec_reply [OF P1(1) C(1) ranks(1) cop(1)]) (simp add: P1 C)
  ultimately show ?thesis using P1(3) by simp
qed

lemma batch_runs:
  fixes databases :: "('z, 'p, 'r) pir_database list list"
  assumes P: "zn_modulus (pr_base P) = 1025" "pr_rank P = N" and some: "databases ! 0 \<noteq> []" and C: "db_ciphertext_ring (databases ! 0 ! 0) = C"
    and seeds: "\<forall>dbs \<in> set databases. \<forall>db \<in> set dbs. db_use_seeds db = FirstSet" and sizes: "\<forall>dbs \<in> set databases. length dbs * SIMD_COUNT \<le> group_order g"
    and parts: "try_map (\<lambda>k. case queries ! k of None \<Rightarrow> Ok None
      | Some query \<Rightarrow> bind_outcome (part_results_of inv_g rdiv P C (databases ! k) query) (\<lambda>rs. Ok (Some rs))) [0..<BATCH_COUNT] =
        (Ok prs :: (unit, 'p list list option list) outcome)"
    and zipped: "list_all (\<lambda>(res, len). len * SIMD_COUNT = length res) (zip (List.map_filter id prs) (map length databases))"
    and run: "create lg su P C g SecondSet (replicate (required_memory_general g N) (replicate 8 0)) = (Ok db0 :: (unit, ('z, 'p, 'r) pir_database) outcome)"
      "set_db_entries rng (pow_zeta su) inv_g (secondary_entries zero_p (group_order g) (map length databases) prs) db0 = (Ok db :: (unit, ('z, 'p, 'r) pir_database) outcome)"
      "get_a db = (Ok a :: (unit, 'r list) outcome)" "perform_pir_split inv_g (lane_refs zero_r queries) db = (Ok b :: (unit, 'r list) outcome)"
  shows "perform_batched_double_pir lg rng su inv_g rdiv 10 zero_p zero_r databases P queries g =
    (Ok (map (\<lambda>i. if queries ! i = None then None else Some (map (\<lambda>k. zip a b ! (i * CTXT_PARTS + k)) [0..<CTXT_PARTS])) [0..<BATCH_COUNT]) ::
      (unit, ('r \<times> 'r) list option list) outcome)"
proof -
  have checks: "SECONDARY_PLAIN_MODULUS = zn_modulus (pr_base P)" "CTXT_PARTS = (PRIMARY_A_LOG2_RESPONSE_Q + PRIMARY_B_LOG2_RESPONSE_Q - 1) div 10 + 1"
    "CTXT_PARTS * BATCH_COUNT \<le> SIMD_COUNT" "list_all (list_all (\<lambda>db. db_use_seeds db = FirstSet)) databases"
    "list_all (\<lambda>len. len * SIMD_COUNT \<le> group_order g) (map length databases)"
    using P(1) seeds sizes by (simp_all add: double_consts SIMD_COUNT_def list_all_iff)
  note refs = run(4) [unfolded lane_refs_def secondary_ref_def zero_ref_def]
  show ?thesis
    unfolding perform_batched_double_pir_def Let_def C P(2)
    using checks some by (simp add: parts zipped run(1-3) refs)
qed

lemma batch_answers:
  fixes P1 P2 :: "('z, 'p) poly_ring" and C :: "('z, 'r) poly_ring" and rng :: "'g rng_ops"
  assumes fl: "fleets_built N m inv_g lg su rng P1 C g1 entries databases"
    and lv: "level_ok N m inv_g lg su P2 C g2" and plain: "plain_fits su P2" and zeros: "entry_fits su P2 zero_p" "\<forall>n < N. coeff C zero_r n = 0"
    and rdiv: "rounded_div_spec rdiv" and bounds: "0 \<le> bq" "0 \<le> bk"
    and fit_sizes: "\<And>f. f < BATCH_COUNT \<Longrightarrow> length (databases ! f) * SIMD_COUNT \<le> group_order g2"
    and ok: "batch_ok rng P1 P2 C g1 g2 inv_g bq bk sk pidx sidx (map length databases) queries"
    and absent: "queries ! 0 = None \<Longrightarrow> length (databases ! 0) = length (databases ! 1)"
  shows "\<exists>replies. perform_batched_double_pir lg rng su inv_g rdiv 10 zero_p zero_r databases P2 queries g2 = (Ok replies :: (unit, ('r \<times> 'r) list option list) outcome) \<and>
    length replies = BATCH_COUNT \<and> (\<forall>f < BATCH_COUNT. case queries ! f of None \<Rightarrow> replies ! f = None
      | Some q \<Rightarrow> \<exists>reply parts ct. replies ! f = Some reply \<and> length reply = CTXT_PARTS \<and>
          first_level inv_g rdiv P2 C (databases ! f ! sidx f) q (pidx f mod SIMD_COUNT) = Ok (parts, ct) \<and>
          first_ok su P1 P2 C (sk f) (noise_limit N (g1 f) 1025 bq bk + 1025 * switch_limit N) (entries f (sidx f) ! pidx f) (parts, ct) \<and>
          (\<forall>k < CTXT_PARTS. \<forall>n < N. 1025 * \<bar>reply_noise P2 C (sk f) (reply ! k) (parts ! k) n\<bar> \<le> noise_limit N g2 1025 bq bk))"
proof -
  have two: "BATCH_COUNT = 2" "CTXT_PARTS = 3" "SIMD_COUNT = 8" by (simp_all add: double_consts SIMD_COUNT_def)
  note fleet = fl [unfolded fleets_built_def] and ask = ok [unfolded batch_ok_def]
  have dbs: "length databases = 2" "databases ! 0 \<noteq> []" and len: "length queries = 2" using fleet ask two by simp_all
  define limit where "limit f = noise_limit N (g1 f) 1025 bq bk + 1025 * switch_limit N" for f
  let ?e = "\<lambda>f d l. entries f d ! (pidx f div SIMD_COUNT * SIMD_COUNT + l)" and ?lens = "map length databases"
  let ?held = "\<lambda>f q rs. length rs = length (databases ! f) * 8 \<and> (\<forall>d < length (databases ! f). \<forall>l < 8. \<exists>ct.
      first_level inv_g rdiv P2 C (databases ! f ! d) q l = Ok (rs ! (d * 8 + l), ct) \<and> first_ok su P1 P2 C (sk f) (limit f) (?e f d l) (rs ! (d * 8 + l), ct))"
  let ?pr = "\<lambda>k. (case queries ! k of None \<Rightarrow> Ok None
      | Some query \<Rightarrow> bind_outcome (part_results_of inv_g rdiv P2 C (databases ! k) query) (\<lambda>rs. Ok (Some rs))) :: (unit, 'p list list option) outcome"
  note res = fleet_result [OF fl _ _ lv plain rdiv bounds ok, folded limit_def]
  have "\<exists>prs. try_map ?pr [0..<BATCH_COUNT] = Ok prs \<and> length prs = BATCH_COUNT \<and> (\<forall>f < BATCH_COUNT.
      case queries ! f of None \<Rightarrow> prs ! f = None | Some q \<Rightarrow> \<exists>rs. prs ! f = Some rs \<and> ?held f q rs)"
  proof (rule try_map_upto)
    fix f assume f: "f < BATCH_COUNT"
    show "\<exists>z. ?pr f = Ok z \<and> (case queries ! f of None \<Rightarrow> z = None | Some q \<Rightarrow> \<exists>rs. z = Some rs \<and> ?held f q rs)"
    proof (cases "queries ! f")
      case (Some q)
      from res(3) [OF f Some] show ?thesis unfolding Some by (elim exE conjE) (simp; blast)
    qed simp
  qed
  then obtain prs where prs: "try_map ?pr [0..<BATCH_COUNT] = Ok prs" "length prs = 2"
    and held: "\<And>f. f < 2 \<Longrightarrow> case queries ! f of None \<Rightarrow> prs ! f = None | Some q \<Rightarrow> \<exists>rs. prs ! f = Some rs \<and> ?held f q rs"
    unfolding two(1) by blast
  have keys: "key_lane inv_g rng bk C (sk f) (dq_gk q)" "query_lane rng P2 C g2 SecondSet bq (sk f) (sidx f * SIMD_COUNT + pidx f mod SIMD_COUNT) (secondary_ref q)"
    if "f < 2" "queries ! f = Some q" for f q
    using res(1,2) [of f q] that unfolding two(1) by blast+
  have asked: "\<exists>q. queries ! f = Some q \<and> ?held f q rs" if "f < 2" "prs ! f = Some rs" for f rs
    using held [OF that(1)] that(2) by (cases "queries ! f") auto
  have fit: "entry_fits su P2 (rs ! i ! k)" if "f < 2" "prs ! f = Some rs" "i < 8 * ?lens ! f" "k < 3" for f rs i k
  proof -
    have d: "i div 8 < length (databases ! f)" "i mod 8 < 8" using that(1,3) dbs(1) by (simp_all add: less_mult_imp_div_less mult.commute)
    with asked [OF that(1,2)] obtain ct limit e where "first_ok su P1 P2 C (sk f) limit e (rs ! (i div 8 * 8 + i mod 8), ct)" by blast
    then have "first_ok su P1 P2 C (sk f) limit e (rs ! i, ct)" by (simp only: div_mult_mod_eq)
    then show ?thesis using that(4) by (simp add: first_ok_def)
  qed
  let ?entries = "secondary_entries zero_p (group_order g2) ?lens prs" and ?j = "\<lambda>f. sidx f * SIMD_COUNT + pidx f mod SIMD_COUNT"
  from second_level [where sk = sk and j = ?j and part_results = prs and lens = ?lens, OF lv bounds zeros len] keys fit
  obtain db0 db a b where ev: "create lg su P2 C g2 SecondSet (replicate (required_memory_general g2 N) (replicate 8 0)) = (Ok db0 :: (unit, ('z, 'p, 'r) pir_database) outcome)"
    "set_db_entries rng (pow_zeta su) inv_g ?entries db0 = (Ok db :: (unit, ('z, 'p, 'r) pir_database) outcome)"
    "get_a db = (Ok a :: (unit, 'r list) outcome)" "perform_pir_split inv_g (lane_refs zero_r queries) db = (Ok b :: (unit, 'r list) outcome)"
    "length a = 8" "length b = 8"
    and limit2: "\<forall>f < 2. queries ! f \<noteq> None \<longrightarrow> (\<forall>k < 3. \<forall>n < N.
      1025 * \<bar>reply_noise P2 C (sk f) (a ! (f * 3 + k), b ! (f * 3 + k)) (?entries ! (?j f * SIMD_COUNT + (f * 3 + k))) n\<bar> \<le> noise_limit N g2 1025 bq bk)"
    by blast
  have zipped: "list_all (\<lambda>(res, len). len * SIMD_COUNT = length res) (zip (List.map_filter id prs) ?lens)"
  proof -
    obtain p0 p1 d0 d1 where lists: "prs = [p0, p1]" "databases = [d0, d1]"
      using prs(2) dbs(1) by (auto simp: numeral_2_eq_2 length_Suc_conv)
    have "p0 = Some rs \<Longrightarrow> length rs = length d0 * 8" "p1 = Some rs \<Longrightarrow> length rs = length d1 * 8" for rs
      using asked [of 0 rs] asked [of 1 rs] by (auto simp: lists)
    moreover have "length d0 = length d1" if "p0 = None"
      using absent held [of 0] that by (auto simp: lists split: option.splits)
    ultimately show ?thesis by (cases p0; cases p1) (simp_all add: lists two map_filter_simps)
  qed
  have shard: "shard_built lg su inv_g rng P1 C (g1 f) FirstSet (entries f d) (databases ! f ! d)" "level_ok N m inv_g lg su P1 C (g1 f)"
    if "f < 2" "d < length (databases ! f)" for f d using fleet that unfolding two(1) by blast+
  have made: "db_ciphertext_ring (databases ! f ! d) = C" "db_use_seeds (databases ! f ! d) = FirstSet" if "f < 2" "d < length (databases ! f)" for f d
    using shard_built_parts [OF shard [OF that]] by blast+
  have C0: "db_ciphertext_ring (databases ! 0 ! 0) = C" using made(1) [of 0 0] dbs(2) by simp
  have seeds: "\<forall>dbs \<in> set databases. \<forall>db \<in> set dbs. db_use_seeds db = FirstSet"
    using made(2) dbs(1) by (metis in_set_conv_nth)
  have sizes: "\<forall>dbs \<in> set databases. length dbs * SIMD_COUNT \<le> group_order g2" using fit_sizes dbs(1) unfolding two(1) by (metis in_set_conv_nth)
  note P2 = lv [unfolded level_ok_def]
  have moduli: "zn_modulus (pr_base P2) = 1025" "pr_rank P2 = N" using P2 by blast+
  let ?replies = "map (\<lambda>i. if queries ! i = None then None else Some (map (\<lambda>k. zip a b ! (i * CTXT_PARTS + k)) [0..<CTXT_PARTS])) [0..<BATCH_COUNT]"
  have run: "perform_batched_double_pir lg rng su inv_g rdiv 10 zero_p zero_r databases P2 queries g2 = (Ok ?replies :: (unit, ('r \<times> 'r) list option list) outcome)"
    by (rule batch_runs [OF moduli dbs(2) C0 seeds sizes prs(1) zipped ev(1-4)])
  have client: "\<exists>reply parts ct. ?replies ! f = Some reply \<and> length reply = CTXT_PARTS \<and>
          first_level inv_g rdiv P2 C (databases ! f ! sidx f) q (pidx f mod SIMD_COUNT) = Ok (parts, ct) \<and>
          first_ok su P1 P2 C (sk f) (noise_limit N (g1 f) 1025 bq bk + 1025 * switch_limit N) (entries f (sidx f) ! pidx f) (parts, ct) \<and>
          (\<forall>k < CTXT_PARTS. \<forall>n < N. 1025 * \<bar>reply_noise P2 C (sk f) (reply ! k) (parts ! k) n\<bar> \<le> noise_limit N g2 1025 bq bk)"
    if f: "f < 2" and q: "queries ! f = Some q" for f q
  proof -
    let ?l = "pidx f mod 8" and ?reply = "map (\<lambda>k. zip a b ! (f * CTXT_PARTS + k)) [0..<CTXT_PARTS]"
    have d: "sidx f < length (databases ! f)" "?l < 8" using ask f q dbs(1) by (auto simp: two)
    obtain rs where rs: "prs ! f = Some rs" "?held f q rs" using held [OF f] q by auto
    then obtain ct where ct: "first_level inv_g rdiv P2 C (databases ! f ! sidx f) q ?l = Ok (rs ! (sidx f * 8 + ?l), ct)"
      "first_ok su P1 P2 C (sk f) (limit f) (?e f (sidx f) ?l) (rs ! (sidx f * 8 + ?l), ct)" using d by blast
    let ?parts = "rs ! (sidx f * 8 + ?l)"
    have entry: "?e f (sidx f) ?l = entries f (sidx f) ! pidx f" unfolding two by (simp only: div_mult_mod_eq)
    have shape: "?replies ! f = Some ?reply" using f q by (simp add: two)
    have reply: "?reply ! k = (a ! (f * 3 + k), b ! (f * 3 + k))" if "k < 3" for k using that f ev(5,6) by (simp add: two)
    have stored: "?entries ! (?j f * SIMD_COUNT + (f * 3 + k)) = ?parts ! k" if k: "k < 3" for k
    proof -
      have "?j f < group_order g2" using keys(2) [OF f q] by (simp add: query_lane_def Let_def)
      moreover have "?j f < SIMD_COUNT * ?lens ! f" using d f dbs(1) by (simp add: two)
      ultimately show ?thesis
        using second_level_layout [of "?j f" "group_order g2" f k zero_p ?lens prs] f k rs(1) by (simp add: two)
    qed
    have second: "1025 * \<bar>reply_noise P2 C (sk f) (?reply ! k) (?parts ! k) n\<bar> \<le> noise_limit N g2 1025 bq bk" if "k < 3" "n < N" for k n
      using limit2 f q that unfolding reply [OF that(1)] stored [OF that(1), symmetric] by blast
    have "length ?reply = CTXT_PARTS" by simp
    then show ?thesis
      using shape ct(1) ct(2) [unfolded entry limit_def] second unfolding two(2,3) by blast
  qed
  show ?thesis
    by (intro exI [of _ ?replies] conjI run allI impI) (use client in \<open>simp_all add: two split: option.splits\<close>)
qed


section \<open>Property\<close>

text \<open>
  C2. Double retrieval, from the two secrets of a batch to the two entries. Shards of two fleets are built by \<open>create\<close> and
  \<open>set_db_entries\<close>, clients with secrets of \<open>gen_sk\<close> encrypt their queries with \<open>enc_double_pir\<close>. Then
  \<open>perform_batched_double_pir\<close> returns a reply for every query and none where a query is absent. For every reply, the noise of
  its three ciphertexts against the re-encoded first-level result, and the noise of that result after both modulus switches against
  the entry, stay below \<open>noise_limit\<close> (and \<open>switch_limit\<close>); and whenever they leave room for rounding, \<open>dec_double_pir\<close>
  returns entry \<open>pidx\<close> of shard \<open>sidx\<close>, coefficient by coefficient. When the first query is absent the fleets must have
  the same number of shards: the server compares the results of the second fleet with the size of the first.
\<close>

theorem double_retrieval:
  fixes P1 P2 :: "('z, 'p) poly_ring" and C :: "('z, 'r) poly_ring" and rng :: "'g rng_ops" and Gal :: "'v zn_arith"
  assumes "fleets_built N m inv_g lg su rng P1 C g1 entries databases"
    and "level_ok N m inv_g lg su P2 C g2" "plain_fits su P2" "entry_fits su P2 zero_p" "\<forall>n < N. coeff C zero_r n = 0"
    and "rounded_div_spec rdiv" "\<And>s. \<bar>fst (rng_gauss rng s)\<bar> \<le> bound" "zn_arith_spec Gal" "zn_modulus Gal = 2 * int N"
    and "\<And>f. f < BATCH_COUNT \<Longrightarrow> length (databases ! f) * SIMD_COUNT \<le> group_order g2"
    and "clients_ask rng Gal P1 P2 C g1 g2 sk pidx sidx (map length databases) queries"
    and "queries ! 0 = None \<Longrightarrow> length (databases ! 0) = length (databases ! 1)"
  shows "\<exists>replies. perform_batched_double_pir lg rng su inv_g rdiv 10 zero_p zero_r databases P2 queries g2 = (Ok replies :: (unit, ('r \<times> 'r) list option list) outcome) \<and>
    length replies = BATCH_COUNT \<and> (\<forall>f < BATCH_COUNT. case queries ! f of None \<Rightarrow> replies ! f = None
      | Some q \<Rightarrow> \<exists>reply parts ct. let entry = entries f (sidx f) ! pidx f in replies ! f = Some reply \<and>
          first_level inv_g rdiv P2 C (databases ! f ! sidx f) q (pidx f mod SIMD_COUNT) = Ok (parts, ct) \<and>
          (\<forall>k < CTXT_PARTS. \<forall>n < N. 1025 * \<bar>reply_noise P2 C (sk f) (reply ! k) (parts ! k) n\<bar> \<le> noise_limit N g2 1025 bound bound) \<and>
          (\<forall>n < N. 1025 * \<bar>reply_noise P1 C (sk f) ct entry n\<bar> \<le> noise_limit N (g1 f) 1025 bound bound + 1025 * switch_limit N) \<and>
          ((\<forall>k < CTXT_PARTS. \<forall>n < N. 2 * 1025 * \<bar>reply_noise P2 C (sk f) (reply ! k) (parts ! k) n\<bar> + 1025 < FIXED_Q) \<and>
           (\<forall>n < N. 2 * 1025 * \<bar>reply_noise P1 C (sk f) ct entry n\<bar> + 1025 < FIXED_Q) \<longrightarrow>
             (\<exists>x. dec_double_pir P1 P2 C (sk f) reply = (Ok x :: (unit, 'p) outcome) \<and> (\<forall>n < N. coeff P1 x n = coeff P1 entry n))))"
proof -
  note fl = assms(1) and lv = assms(2) and noise = assms(7) and ask = assms(11) [unfolded clients_ask_def]
  have bound: "0 \<le> bound" using noise [of undefined] by linarith
  have one: "level_ok N m inv_g lg su P1 C (g1 f)" if "f < BATCH_COUNT" for f using fl that by (simp add: fleets_built_def)
  have "batch_ok rng P1 P2 C g1 g2 inv_g bound bound sk pidx sidx (map length databases) queries"
    unfolding batch_ok_def using ask fresh_double_ok [OF one lv assms(8,9) noise] by blast
  from batch_answers [OF fl lv assms(3-6) bound bound assms(10) this assms(12)] obtain replies where
    run: "perform_batched_double_pir lg rng su inv_g rdiv 10 zero_p zero_r databases P2 queries g2 = (Ok replies :: (unit, ('r \<times> 'r) list option list) outcome)"
      "length replies = BATCH_COUNT"
    and all: "\<forall>f < BATCH_COUNT. case queries ! f of None \<Rightarrow> replies ! f = None
      | Some q \<Rightarrow> \<exists>reply parts ct. replies ! f = Some reply \<and> length reply = CTXT_PARTS \<and>
          first_level inv_g rdiv P2 C (databases ! f ! sidx f) q (pidx f mod SIMD_COUNT) = Ok (parts, ct) \<and>
          first_ok su P1 P2 C (sk f) (noise_limit N (g1 f) 1025 bound bound + 1025 * switch_limit N) (entries f (sidx f) ! pidx f) (parts, ct) \<and>
          (\<forall>k < CTXT_PARTS. \<forall>n < N. 1025 * \<bar>reply_noise P2 C (sk f) (reply ! k) (parts ! k) n\<bar> \<le> noise_limit N g2 1025 bound bound)"
    by blast
  have P2: "poly_spec P2" "zn_modulus (pr_base P2) = 1025" "pr_rank P2 = N" and C: "poly_spec C" "pr_rank C = N" "zn_modulus (pr_base C) = FIXED_Q"
    using lv [unfolded level_ok_def] by blast+
  have decoded: "\<exists>x. dec_double_pir P1 P2 C (sk f) reply = (Ok x :: (unit, 'p) outcome) \<and> (\<forall>n < N. coeff P1 x n = coeff P1 entry n)"
    if "f < BATCH_COUNT" "first_ok su P1 P2 C (sk f) limit entry (parts, ct)"
      "\<forall>k < CTXT_PARTS. \<forall>n < N. 2 * 1025 * \<bar>reply_noise P2 C (sk f) (reply ! k) (parts ! k) n\<bar> + 1025 < FIXED_Q"
      "\<forall>n < N. 2 * 1025 * \<bar>reply_noise P1 C (sk f) ct entry n\<bar> + 1025 < FIXED_Q" for f limit entry parts ct reply
    using one [OF that(1)] that(2-4) unfolding level_ok_def CTXT_PARTS_def by (intro reply_decoded [OF _ _ _ P2 C]) blast+
  have held: "\<forall>n < N. 1025 * \<bar>reply_noise P1 C (sk f) ct entry n\<bar> \<le> limit"
    if "f < BATCH_COUNT" "first_ok su P1 P2 C (sk f) limit entry (parts, ct)" for f limit entry parts ct
    using one [OF that(1)] that(2) unfolding level_ok_def first_ok_def by simp
  have "case queries ! f of None \<Rightarrow> replies ! f = None
      | Some q \<Rightarrow> \<exists>reply parts ct. let entry = entries f (sidx f) ! pidx f in replies ! f = Some reply \<and>
          first_level inv_g rdiv P2 C (databases ! f ! sidx f) q (pidx f mod SIMD_COUNT) = Ok (parts, ct) \<and>
          (\<forall>k < CTXT_PARTS. \<forall>n < N. 1025 * \<bar>reply_noise P2 C (sk f) (reply ! k) (parts ! k) n\<bar> \<le> noise_limit N g2 1025 bound bound) \<and>
          (\<forall>n < N. 1025 * \<bar>reply_noise P1 C (sk f) ct entry n\<bar> \<le> noise_limit N (g1 f) 1025 bound bound + 1025 * switch_limit N) \<and>
          ((\<forall>k < CTXT_PARTS. \<forall>n < N. 2 * 1025 * \<bar>reply_noise P2 C (sk f) (reply ! k) (parts ! k) n\<bar> + 1025 < FIXED_Q) \<and>
           (\<forall>n < N. 2 * 1025 * \<bar>reply_noise P1 C (sk f) ct entry n\<bar> + 1025 < FIXED_Q) \<longrightarrow>
             (\<exists>x. dec_double_pir P1 P2 C (sk f) reply = (Ok x :: (unit, 'p) outcome) \<and> (\<forall>n < N. coeff P1 x n = coeff P1 entry n)))"
    if f: "f < BATCH_COUNT" for f
  proof (cases "queries ! f")
    case (Some q)
    with mp [OF spec [OF all, of f] f] obtain reply parts ct where r: "replies ! f = Some reply"
      "first_level inv_g rdiv P2 C (databases ! f ! sidx f) q (pidx f mod SIMD_COUNT) = Ok (parts, ct)"
      "first_ok su P1 P2 C (sk f) (noise_limit N (g1 f) 1025 bound bound + 1025 * switch_limit N) (entries f (sidx f) ! pidx f) (parts, ct)"
      "\<forall>k < CTXT_PARTS. \<forall>n < N. 1025 * \<bar>reply_noise P2 C (sk f) (reply ! k) (parts ! k) n\<bar> \<le> noise_limit N g2 1025 bound bound"
      by (simp only: option.case) (elim exE conjE)
    then show ?thesis unfolding Some option.case Let_def using held [OF f r(3)] decoded [OF f r(3)] by blast
  qed (use mp [OF spec [OF all, of f] f] in simp)
  then show ?thesis using run by blast
qed


section \<open>Two shards\<close>

text \<open>A fleet of two shards for the group of two elements, and one client; the second client is absent.\<close>

lemma demo_plain_fits: "plain_fits ref_setup (int_poly 16 1025)"
  unfolding plain_fits_def
proof (intro allI impI)
  fix ks :: "int list" assume "length ks = pr_rank (int_poly 16 1025)"
  then have "length (map (zn_of_int (pr_base (int_poly 16 1025))) ks) = 16" by (simp add: int_poly_rank)
  moreover have "\<forall>c \<in> set (map (zn_of_int (pr_base (int_poly 16 1025))) ks). 0 \<le> c \<and> c < 1025" by (simp add: int_poly_def int_arith_def Let_def)
  ultimately have "entry_fits ref_setup (int_poly 16 1025) (map (zn_of_int (pr_base (int_poly 16 1025))) ks)" by (intro reduced_fits)
  then show "entry_fits ref_setup (int_poly 16 1025) (pr_from_basis (int_poly 16 1025) (map (zn_of_int (pr_base (int_poly 16 1025))) ks))"
    by (simp add: int_poly_def Let_def)
qed

definition pair_group :: index_group where
  "pair_group = \<lparr>ig_N = 16, ig_l = 2\<rparr>"

definition pair_entries :: "nat \<Rightarrow> int list list" where
  "pair_entries d = map (\<lambda>e. demo_entry (100 * d + e)) [0..<16]"

definition demo_sk :: "int list" where
  "demo_sk = gen_sk unit_noise (int_poly 16 FIXED_Q) 5 3"

lemma pair_shard:
  assumes "d < 2"
  shows "\<exists>db. shard_built abs_log2_ceil_ref ref_setup 13 unit_noise (int_poly 16 1025) (int_poly 16 FIXED_Q) pair_group FirstSet (pair_entries d) (db :: (int, int list, int list) pir_database)"
    "\<forall>x \<in> set (pair_entries d). entry_fits ref_setup (int_poly 16 1025) x"
proof -
  have lv: "level_ok 16 3 13 abs_log2_ceil_ref ref_setup (int_poly 16 1025) (int_poly 16 FIXED_Q) pair_group" by (rule demo_level) (simp add: pair_group_def)
  show fit: "\<forall>x \<in> set (pair_entries d). entry_fits ref_setup (int_poly 16 1025) x" using assms demo_entry_fits by (auto simp: pair_entries_def)
  have len: "length (pair_entries d) = group_order pair_group * SIMD_COUNT" by (simp add: pair_entries_def pair_group_def index_group_defs SIMD_COUNT_def)
  show "\<exists>db. shard_built abs_log2_ceil_ref ref_setup 13 unit_noise (int_poly 16 1025) (int_poly 16 FIXED_Q) pair_group FirstSet (pair_entries d) (db :: (int, int list, int list) pir_database)"
    using shard_builds [OF lv fit length_replicate len] unfolding shard_built_def by blast
qed

lemma demo_double_query:
  "\<exists>q s'. enc_double_pir unit_noise (int_arith 32) 0 (int_poly 16 1025) (int_poly 16 1025) pair_group (full_group 16) (int_poly 16 FIXED_Q) demo_sk 13 1 =
    (Ok (q, s') :: (unit, int list double_query \<times> nat) outcome)"
proof -
  have set: "bfv_setting unit_noise (int_poly 16 1025) (int_poly 16 FIXED_Q) 1"
    using full_plain by (simp add: bfv_setting_def int_poly_rank unit_noise_def q_values)
  have Gal: "zn_arith_spec (int_arith 32)" "zn_modulus (int_arith 32) = 2 * int (pr_rank (int_poly 16 FIXED_Q))" "coprime 5 (2 * int (pr_rank (int_poly 16 FIXED_Q)))"
    using int_arith_spec [of 32] by (simp_all add: int_poly_rank coprime_iff_gcd_eq_1 gcd_non_0_int) (simp add: int_arith_def)
  have idx: "ig_N pair_group = pr_rank (int_poly 16 FIXED_Q)" "13 < group_order pair_group * SIMD_COUNT" "1 < group_order (full_group 16) div SIMD_COUNT + 0"
    by (simp_all add: pair_group_def int_poly_rank index_group_defs SIMD_COUNT_def)
  show ?thesis using query_ciphertexts [OF set set Gal idx(1,2), of 1 "full_group 16" 0 demo_sk] idx(3) by auto
qed

lemma small_limits:
  "2 * noise_limit 16 (full_group 16) 1025 1 1 + 1025 < FIXED_Q"
  "2 * (noise_limit 16 pair_group 1025 1 1 + 1025 * switch_limit 16) + 1025 < FIXED_Q"
  by (simp_all add: noise_limit_def switch_limit_def pair_group_def index_group_defs Let_def q_values)

lemma pair_fleets:
  assumes "\<And>d. d < 2 \<Longrightarrow> shard_built abs_log2_ceil_ref ref_setup 13 unit_noise (int_poly 16 1025) (int_poly 16 FIXED_Q) pair_group FirstSet (pair_entries d) (dbs d)"
  shows "fleets_built 16 3 13 abs_log2_ceil_ref ref_setup unit_noise (int_poly 16 1025) (int_poly 16 FIXED_Q) (\<lambda>_. pair_group) (\<lambda>_. pair_entries) [[dbs 0, dbs 1], [dbs 0]]"
proof -
  have "level_ok 16 3 13 abs_log2_ceil_ref ref_setup (int_poly 16 1025) (int_poly 16 FIXED_Q) pair_group" by (rule demo_level) (simp add: pair_group_def)
  then show ?thesis
    using assms pair_shard(2) by (auto simp: fleets_built_def BATCH_COUNT_def less_2_cases_iff less_Suc_eq nth_Cons')
qed

text \<open>The client asks for entry 13 of shard 1, whose coefficients are 113, 114 and so on.\<close>

theorem double_retrieval_witness:
  "\<exists>dbs q s' replies reply x. (\<forall>d < 2. shard_built abs_log2_ceil_ref ref_setup 13 unit_noise (int_poly 16 1025) (int_poly 16 FIXED_Q) pair_group FirstSet (pair_entries d) (dbs d)) \<and>
    enc_double_pir unit_noise (int_arith 32) 0 (int_poly 16 1025) (int_poly 16 1025) pair_group (full_group 16) (int_poly 16 FIXED_Q) demo_sk 13 1 =
      (Ok (q, s') :: (unit, int list double_query \<times> nat) outcome) \<and>
    perform_batched_double_pir abs_log2_ceil_ref unit_noise ref_setup 13 rounding 10 (replicate 16 0) (replicate 16 0) [[dbs 0, dbs 1], [dbs 0]]
      (int_poly 16 1025) [Some q, None] (full_group 16) = (Ok replies :: (unit, (int list \<times> int list) list option list) outcome) \<and>
    replies = [Some reply, None] \<and>
    dec_double_pir (int_poly 16 1025) (int_poly 16 1025) (int_poly 16 FIXED_Q) demo_sk reply = (Ok x :: (unit, int list) outcome) \<and>
    coeff (int_poly 16 1025) x 0 = 113 \<and> coeff (int_poly 16 1025) x 7 = 120"
proof -
  let ?P = "int_poly 16 1025" and ?C = "int_poly 16 FIXED_Q"
  obtain dbs :: "nat \<Rightarrow> (int, int list, int list) pir_database" where dbs: "\<And>d. d < 2 \<Longrightarrow>
      shard_built abs_log2_ceil_ref ref_setup 13 unit_noise ?P ?C pair_group FirstSet (pair_entries d) (dbs d)"
    using pair_shard(1) by metis
  obtain q s' where q: "enc_double_pir unit_noise (int_arith 32) 0 ?P ?P pair_group (full_group 16) ?C demo_sk 13 1 =
      (Ok (q, s') :: (unit, int list double_query \<times> nat) outcome)" using demo_double_query by blast
  let ?dbs = "[[dbs 0, dbs 1], [dbs 0]]" and ?queries = "[Some q, None]"
  have lv: "level_ok 16 3 13 abs_log2_ceil_ref ref_setup ?P ?C (full_group 16)" by (rule demo_level) simp
  have zero: "entry_fits ref_setup ?P (replicate 16 0)" by (rule reduced_fits) simp_all
  have zero_r: "\<forall>n < 16. coeff ?C (replicate 16 0) n = 0" by (simp add: coeff_def int_poly_def int_arith_def Let_def)
  have noise: "\<bar>fst (rng_gauss unit_noise s)\<bar> \<le> 1" for s by (simp add: unit_noise_def)
  have Gal: "zn_arith_spec (int_arith 32)" "zn_modulus (int_arith 32) = 2 * int 16" using int_arith_spec [of 32] by (simp_all add: int_arith_def)
  have sizes: "length (?dbs ! f) * SIMD_COUNT \<le> group_order (full_group 16)" if "f < BATCH_COUNT" for f
    using that by (auto simp: BATCH_COUNT_def less_2_cases_iff index_group_defs SIMD_COUNT_def)
  have ask: "clients_ask unit_noise (int_arith 32) ?P ?P ?C (\<lambda>_. pair_group) (full_group 16) (\<lambda>_. demo_sk) (\<lambda>_. 13) (\<lambda>_. 1) (map length ?dbs) ?queries"
    using q by (auto simp: clients_ask_def BATCH_COUNT_def less_2_cases_iff nth_Cons' demo_sk_def)
  have both: "length (?dbs ! 0) = length (?dbs ! 1)" if "?queries ! 0 = None" using that by simp
  from double_retrieval [OF pair_fleets [OF dbs] lv demo_plain_fits zero zero_r rounding_spec noise Gal sizes ask both] obtain replies where
    run: "perform_batched_double_pir abs_log2_ceil_ref unit_noise ref_setup 13 rounding 10 (replicate 16 0) (replicate 16 0) ?dbs ?P ?queries (full_group 16) =
      (Ok replies :: (unit, (int list \<times> int list) list option list) outcome)" "length replies = BATCH_COUNT"
    and all: "\<forall>f < BATCH_COUNT. case ?queries ! f of None \<Rightarrow> replies ! f = None
      | Some q \<Rightarrow> \<exists>reply parts ct. let entry = pair_entries 1 ! 13 in replies ! f = Some reply \<and>
          first_level 13 rounding ?P ?C (?dbs ! f ! 1) q (13 mod SIMD_COUNT) = Ok (parts, ct) \<and>
          (\<forall>k < CTXT_PARTS. \<forall>n < 16. 1025 * \<bar>reply_noise ?P ?C demo_sk (reply ! k) (parts ! k) n\<bar> \<le> noise_limit 16 (full_group 16) 1025 1 1) \<and>
          (\<forall>n < 16. 1025 * \<bar>reply_noise ?P ?C demo_sk ct entry n\<bar> \<le> noise_limit 16 pair_group 1025 1 1 + 1025 * switch_limit 16) \<and>
          ((\<forall>k < CTXT_PARTS. \<forall>n < 16. 2 * 1025 * \<bar>reply_noise ?P ?C demo_sk (reply ! k) (parts ! k) n\<bar> + 1025 < FIXED_Q) \<and>
           (\<forall>n < 16. 2 * 1025 * \<bar>reply_noise ?P ?C demo_sk ct entry n\<bar> + 1025 < FIXED_Q) \<longrightarrow>
             (\<exists>x. dec_double_pir ?P ?P ?C demo_sk reply = (Ok x :: (unit, int list) outcome) \<and> (\<forall>n < 16. coeff ?P x n = coeff ?P entry n)))"
    by blast
  have two: "0 < BATCH_COUNT" "1 < BATCH_COUNT" by (simp_all add: BATCH_COUNT_def)
  have none: "replies ! 1 = None" using spec [OF all, of 1] two(2) by simp
  have room: "2 * 1025 * \<bar>e\<bar> + 1025 < FIXED_Q" if "1025 * \<bar>e\<bar> \<le> b" "2 * b + 1025 < FIXED_Q" for e b :: int using that by linarith
  have "?queries ! 0 = Some q" by simp
  with mp [OF spec [OF all, of 0] two(1)] obtain reply parts ct where reply: "replies ! 0 = Some reply"
    and limits: "\<forall>k < CTXT_PARTS. \<forall>n < 16. 1025 * \<bar>reply_noise ?P ?C demo_sk (reply ! k) (parts ! k) n\<bar> \<le> noise_limit 16 (full_group 16) 1025 1 1"
      "\<forall>n < 16. 1025 * \<bar>reply_noise ?P ?C demo_sk ct (pair_entries 1 ! 13) n\<bar> \<le> noise_limit 16 pair_group 1025 1 1 + 1025 * switch_limit 16"
    and decoded: "(\<forall>k < CTXT_PARTS. \<forall>n < 16. 2 * 1025 * \<bar>reply_noise ?P ?C demo_sk (reply ! k) (parts ! k) n\<bar> + 1025 < FIXED_Q) \<and>
           (\<forall>n < 16. 2 * 1025 * \<bar>reply_noise ?P ?C demo_sk ct (pair_entries 1 ! 13) n\<bar> + 1025 < FIXED_Q) \<longrightarrow>
             (\<exists>x. dec_double_pir ?P ?P ?C demo_sk reply = (Ok x :: (unit, int list) outcome) \<and> (\<forall>n < 16. coeff ?P x n = coeff ?P (pair_entries 1 ! 13) n))"
    unfolding Let_def by (simp only: option.case) (elim exE conjE)
  have "\<forall>k < CTXT_PARTS. \<forall>n < 16. 2 * 1025 * \<bar>reply_noise ?P ?C demo_sk (reply ! k) (parts ! k) n\<bar> + 1025 < FIXED_Q"
    "\<forall>n < 16. 2 * 1025 * \<bar>reply_noise ?P ?C demo_sk ct (pair_entries 1 ! 13) n\<bar> + 1025 < FIXED_Q"
    using limits room [OF _ small_limits(1)] room [OF _ small_limits(2)] by blast+
  then obtain x where x: "dec_double_pir ?P ?P ?C demo_sk reply = (Ok x :: (unit, int list) outcome)" "\<forall>n < 16. coeff ?P x n = coeff ?P (pair_entries 1 ! 13) n"
    using decoded by blast
  have "replies = [Some reply, None]" using run(2) reply none by (auto simp: BATCH_COUNT_def numeral_2_eq_2 length_Suc_conv)
  moreover have "coeff ?P (pair_entries 1 ! 13) 0 = 113" "coeff ?P (pair_entries 1 ! 13) 7 = 120"
    by (simp_all add: coeff_def int_poly_def int_arith_def Let_def demo_entry_def pair_entries_def)
  ultimately show ?thesis using dbs q run(1) x by (intro exI [of _ dbs] exI [of _ q] exI [of _ s'] exI [of _ replies] exI [of _ reply] exI [of _ x]) simp
qed

end
