(* ===== verification/Cli.thy ===== *)
theory Cli
  imports Client Server
begin

text \<open>
  \<open>crates/dns-over-pir/src/main.rs\<close>: the argument loops of the sub-commands \<open>client\<close>, \<open>server\<close> and \<open>bench\<close>, the
  server address of a command line, and the exit codes. Arguments are the strings of \<open>std::env::args\<close>, the
  program's name first.
\<close>

section \<open>Numbers and addresses\<close>

text \<open>\<open>from_str_radix(10)\<close> of an unsigned type with largest value \<open>limit\<close>: an optional plus sign, then digits.\<close>

definition parse_unsigned :: "nat \<Rightarrow> string \<Rightarrow> nat option" where
  "parse_unsigned limit s =
     (let ds = (case s of [] \<Rightarrow> [] | c # t \<Rightarrow> if c = CHR ''+'' then t else s)
      in case read_number 10 limit (length ds) True ds of Some (n, []) \<Rightarrow> Some n | _ \<Rightarrow> None)"

text \<open>
  \<open>SocketAddr::from_str\<close> and \<open>IpAddr::from_str\<close>: the whole text has to be read. \<open>socket_addr\<close> has no place for
  the scope of a link-local address, which is read and dropped.
\<close>

definition read_port :: "u16 parser" where
  "read_port s =
     (case read_char (CHR '':'') s of None \<Rightarrow> None
      | Some (_, s) \<Rightarrow> (case read_number 10 65535 (length s) True s of None \<Rightarrow> None | Some (n, s) \<Rightarrow> Some (of_nat n, s)))"

definition read_scope_id :: "nat parser" where
  "read_scope_id s =
     (case read_char (CHR ''%'') s of None \<Rightarrow> None | Some (_, s) \<Rightarrow> read_number 10 (2 ^ 32 - 1) (length s) True s)"

definition read_socket_addr_v4 :: "socket_addr parser" where
  "read_socket_addr_v4 s =
     (case read_ipv4_addr s of None \<Rightarrow> None
      | Some (ip, s) \<Rightarrow> (case read_port s of None \<Rightarrow> None | Some (port, s) \<Rightarrow> Some (SocketAddr (V4 ip) port, s)))"

definition read_socket_addr_v6 :: "socket_addr parser" where
  "read_socket_addr_v6 s =
     (case read_char (CHR ''['') s of None \<Rightarrow> None
      | Some (_, s) \<Rightarrow>
     (case read_ipv6_addr s of None \<Rightarrow> None
      | Some (ip, s) \<Rightarrow>
     (case read_char (CHR '']'') (case read_scope_id s of None \<Rightarrow> s | Some (_, s) \<Rightarrow> s) of None \<Rightarrow> None
      | Some (_, s) \<Rightarrow>
     (case read_port s of None \<Rightarrow> None | Some (port, s) \<Rightarrow> Some (SocketAddr (V6 ip) port, s)))))"

definition parse_socket_addr :: "string \<Rightarrow> socket_addr option" where
  "parse_socket_addr s =
     (case (case read_socket_addr_v4 s of Some r \<Rightarrow> Some r | None \<Rightarrow> read_socket_addr_v6 s) of
        Some (addr, []) \<Rightarrow> Some addr | _ \<Rightarrow> None)"

definition parse_ip_addr :: "string \<Rightarrow> ip_addr option" where
  "parse_ip_addr s =
     (case (case read_ipv4_addr s of Some (ip, r) \<Rightarrow> Some (V4 ip, r)
            | None \<Rightarrow> map_option (\<lambda>(ip, r). (V6 ip, r)) (read_ipv6_addr s)) of
        Some (ip, []) \<Rightarrow> Some ip | _ \<Rightarrow> None)"

definition parse_server :: "string \<Rightarrow> socket_addr option" where
  "parse_server s =
     (case parse_socket_addr s of
        Some addr \<Rightarrow> Some addr
      | None \<Rightarrow> (case parse_ip_addr s of Some ip \<Rightarrow> Some (SocketAddr ip DEFAULT_PORT) | None \<Rightarrow> None))"


section \<open>The argument loops\<close>

text \<open>A refused command line, with the argument its message quotes; all of them end in exit code 2.\<close>

datatype cli_error =
  Print_Usage string
| Requires_Argument string
| Bad_Server string
| Bad_Port string
| Bad_Number string string
| Unexpected string
| Missing string

fun client_args :: "socket_addr option \<Rightarrow> string option \<Rightarrow> string list \<Rightarrow> (cli_error, string \<times> socket_addr option) outcome" where
  "client_args server domain [] = (case domain of Some domain \<Rightarrow> Ok (domain, server) | None \<Rightarrow> Err (Missing ''<domain_name>''))"
| "client_args server domain (arg # args) =
     (if arg = ''--server'' then
        (case args of [] \<Rightarrow> Err (Requires_Argument ''--server'')
         | v # args \<Rightarrow> (case parse_server v of Some s \<Rightarrow> client_args (Some s) domain args | None \<Rightarrow> Err (Bad_Server v)))
      else if domain \<noteq> None then Err (Unexpected arg)
      else client_args server (Some arg) args)"

fun server_args :: "u16 \<Rightarrow> string option \<Rightarrow> bool \<Rightarrow> string list \<Rightarrow> (cli_error, string \<times> u16 \<times> bool) outcome" where
  "server_args port zone_file always_dump [] =
     (case zone_file of Some zone_file \<Rightarrow> Ok (zone_file, port, always_dump) | None \<Rightarrow> Err (Missing ''<zone_file>''))"
| "server_args port zone_file always_dump (arg # args) =
     (if arg = ''--port'' then
        (case args of [] \<Rightarrow> Err (Requires_Argument ''--port'')
         | v # args \<Rightarrow> (case parse_unsigned 65535 v of Some p \<Rightarrow> server_args (of_nat p) zone_file always_dump args | None \<Rightarrow> Err (Bad_Port v)))
      else if arg = ''--always-dump'' then server_args port zone_file True args
      else if zone_file \<noteq> None then Err (Unexpected arg)
      else server_args port (Some arg) always_dump args)"

definition positive_usize :: "string \<Rightarrow> nat option" where
  "positive_usize v = (case parse_unsigned (2 ^ 64 - 1) v of Some n \<Rightarrow> if n > 0 then Some n else None | None \<Rightarrow> None)"

fun bench_args :: "nat \<Rightarrow> nat option \<Rightarrow> bool \<Rightarrow> string list \<Rightarrow> (cli_error, nat \<times> nat option \<times> bool) outcome" where
  "bench_args db_entries preprocessed_db_count force_full_dbs [] = Ok (db_entries, preprocessed_db_count, force_full_dbs)"
| "bench_args db_entries preprocessed_db_count force_full_dbs (arg # args) =
     (if arg = ''--db-entries'' then
        (case args of [] \<Rightarrow> Err (Requires_Argument arg)
         | v # args \<Rightarrow> (case positive_usize v of
               Some n \<Rightarrow> bench_args n preprocessed_db_count force_full_dbs args | None \<Rightarrow> Err (Bad_Number arg v)))
      else if arg = ''--preprocessed-db-count'' then
        (case args of [] \<Rightarrow> Err (Requires_Argument arg)
         | v # args \<Rightarrow> (case positive_usize v of
               Some n \<Rightarrow> bench_args db_entries (Some n) force_full_dbs args | None \<Rightarrow> Err (Bad_Number arg v)))
      else if arg = ''--force-full-dbs'' then bench_args db_entries preprocessed_db_count True args
      else Err (Unexpected arg))"


section \<open>Dispatch and exit codes\<close>

text \<open>The call \<open>main\<close> makes: \<open>dns::client::run\<close>, \<open>dns::server::run\<close> or \<open>bench_wrapped_pir\<close>, with the arguments it passes.\<close>

datatype cli_call =
  Client_Run string "socket_addr option"
| Server_Run string u16 bool
| Bench_Run "nat option" nat nat bool

definition cli_main :: "string list \<Rightarrow> (cli_error, cli_call) outcome" where
  "cli_main args =
     (if length args < 2 then (case args of [] \<Rightarrow> Panic | name # _ \<Rightarrow> Err (Print_Usage name))
      else if args ! 1 = ''client'' then
        bind_outcome (client_args None None (drop 2 args)) (\<lambda>(domain, server). Ok (Client_Run domain server))
      else if args ! 1 = ''server'' then
        bind_outcome (server_args DEFAULT_PORT None False (drop 2 args)) (\<lambda>(zone_file, port, always_dump). Ok (Server_Run zone_file port always_dump))
      else if args ! 1 = ''bench'' then
        bind_outcome (bench_args (RING_N * RING_N) None False (drop 2 args))
          (\<lambda>(db_entries, preprocessed_db_count, force_full_dbs). Ok (Bench_Run preprocessed_db_count db_entries 1 force_full_dbs))
      else Err (Print_Usage (args ! 0)))"

text \<open>
  The exit code, given what the calls return: \<open>client\<close> as \<open>run_inner\<close> does, \<open>server\<close> the state it listens with
  (on success the accept loop never returns, \<open>None\<close>), the benchmark nothing.
\<close>

definition exit_code :: "(io_error, 'a) outcome \<Rightarrow> (unit, nat option) outcome" where
  "exit_code r = (case r of Ok _ \<Rightarrow> Ok (Some 0) | Err _ \<Rightarrow> Ok (Some 1) | Panic \<Rightarrow> Panic)"

definition run_main ::
    "(string \<Rightarrow> socket_addr option \<Rightarrow> (io_error, run_report) outcome) \<Rightarrow> (string \<Rightarrow> u16 \<Rightarrow> bool \<Rightarrow> (io_error, server_state) outcome) \<Rightarrow>
     (nat option \<Rightarrow> nat \<Rightarrow> nat \<Rightarrow> bool \<Rightarrow> (io_error, unit) outcome) \<Rightarrow> string list \<Rightarrow> (unit, nat option) outcome" where
  "run_main client server bench args =
     (case cli_main args of
        Panic \<Rightarrow> Panic
      | Err _ \<Rightarrow> Ok (Some 2)
      | Ok (Client_Run domain addr) \<Rightarrow> exit_code (client domain addr)
      | Ok (Server_Run zone_file port always_dump) \<Rightarrow>
          (case server zone_file port always_dump of Ok _ \<Rightarrow> Ok None | Err _ \<Rightarrow> Ok (Some 1) | Panic \<Rightarrow> Panic)
      | Ok (Bench_Run count entries try_seeds force) \<Rightarrow> exit_code (bench count entries try_seeds force))"


text \<open>\<open>run\<close> of the server up to the accept loop; \<open>read_file\<close> opens and reads the zone file.\<close>

definition start_server ::
    "(int \<Rightarrow> nat option) \<Rightarrow> codec \<Rightarrow> (zone \<Rightarrow> nat \<Rightarrow> bool) \<Rightarrow> (string \<Rightarrow> (io_error, string) outcome) \<Rightarrow> string \<Rightarrow> u16 \<Rightarrow> bool \<Rightarrow>
     (io_error, server_state) outcome" where
  "start_server lg compress fits read_file zone_file port always_dump =
     bind_outcome (read_file zone_file) (\<lambda>content. bind_outcome (parse_zone content) (\<lambda>zone. build_state lg compress fits zone always_dump))"


section \<open>Printed addresses are read back\<close>

fun show_ip :: "ip_addr \<Rightarrow> string" where
  "show_ip (V4 ip) = show_v4 ip"
| "show_ip (V6 ip) = show_v6 ip"

fun show_socket_addr :: "socket_addr \<Rightarrow> string" where
  "show_socket_addr (SocketAddr (V4 ip) port) = show_v4 ip @ CHR '':'' # show_radix 10 (unat port)"
| "show_socket_addr (SocketAddr (V6 ip) port) = CHR ''['' # show_v6 ip @ CHR '']'' # CHR '':'' # show_radix 10 (unat port)"

lemma read_digits_snoc:
  assumes "read_digits radix limit m acc count xs = Some (n, c', [])" "to_digit radix c = Some d" "n * radix + d \<le> limit" "c' < m"
  shows "read_digits radix limit m acc count (xs @ [c]) = Some (n * radix + d, c' + 1, [])"
  using assms(1)
proof (induction xs arbitrary: acc count)
  case Nil
  then show ?case using assms(2-4) by simp
qed (simp split: option.splits if_splits)

lemma read_digits_show:
  assumes "n \<le> limit" "length (show_radix 10 n) \<le> m"
  shows "read_digits 10 limit m 0 0 (show_radix 10 n) = Some (n, length (show_radix 10 n), [])"
  using assms
proof (induction n rule: less_induct)
  case (less n)
  show ?case
  proof (cases "n < 10")
    case True
    then have e: "show_radix 10 n = [digit_char n]" by (subst show_radix.simps) simp
    show ?thesis using less.prems True unfolding e by (simp add: to_digit_char)
  next
    case False
    then have e: "show_radix 10 n = show_radix 10 (n div 10) @ [digit_char (n mod 10)]"
      by (subst show_radix.simps) simp
    have "read_digits 10 limit m 0 0 (show_radix 10 (n div 10)) = Some (n div 10, length (show_radix 10 (n div 10)), [])"
      using less.prems False e by (intro less.IH) auto
    from read_digits_snoc [OF this, of "digit_char (n mod 10)" "n mod 10"] show ?thesis
      using less.prems by (simp add: e to_digit_char)
  qed
qed

lemma read_number_show:
  assumes "n \<le> limit"
  shows "read_number 10 limit (length (show_radix 10 n)) True (show_radix 10 n) = Some (n, [])"
  using read_digits_show [OF assms order_refl] by (simp add: read_number_def)

lemma hd_show_radix: "\<exists>d < 10. hd (show_radix 10 n) = digit_char d"
proof (induction n rule: less_induct)
  case (less n)
  show ?case
  proof (cases "n < 10")
    case True
    then have "show_radix 10 n = [digit_char n]" by (subst show_radix.simps) simp
    then show ?thesis using True by auto
  next
    case False
    then have "show_radix 10 n = show_radix 10 (n div 10) @ [digit_char (n mod 10)]" by (subst show_radix.simps) simp
    then show ?thesis using less.IH [of "n div 10"] False by simp
  qed
qed

lemma parse_unsigned_show: "n \<le> limit \<Longrightarrow> parse_unsigned limit (show_radix 10 n) = Some n"
proof -
  assume n: "n \<le> limit"
  obtain c t where s: "show_radix 10 n = c # t" by (cases "show_radix 10 n") simp_all
  have "c \<noteq> CHR ''+''"
  proof
    assume "c = CHR ''+''"
    then obtain d where "d < 10" "digit_char d = CHR ''+''" using hd_show_radix [of n] s by auto
    then show False using to_digit_char [of d 10] by (simp add: to_digit_def)
  qed
  then show ?thesis using read_number_show [OF n] by (simp add: parse_unsigned_def s)
qed

lemma read_port_show: "read_port (CHR '':'' # show_radix 10 (unat port)) = Some (port, [])"
proof -
  have "unat port \<le> 65535" using unsigned_less [of port, where 'a = nat] by simp
  from read_number_show [OF this] show ?thesis by (simp add: read_port_def)
qed

lemma parse_show_socket_addr [simp]: "parse_socket_addr (show_socket_addr addr) = Some addr"
proof (cases addr rule: show_socket_addr.cases)
  case (1 ip port)
  have "read_ipv4_addr (show_v4 ip @ CHR '':'' # show_radix 10 (unat port)) = Some (ip, CHR '':'' # show_radix 10 (unat port))"
    by (rule read_ipv4_show) simp
  then show ?thesis by (simp add: 1 parse_socket_addr_def read_socket_addr_v4_def read_port_show)
next
  case (2 ip port)
  have "read_ipv4_addr (CHR ''['' # s) = None" for s
    using read_ipv4_Some_dot [of "CHR ''['' # s"] by (cases "read_ipv4_addr (CHR ''['' # s)") (auto simp: to_digit_def)
  moreover have "read_ipv6_addr (show_v6 ip @ CHR '']'' # CHR '':'' # show_radix 10 (unat port)) =
      Some (ip, CHR '']'' # CHR '':'' # show_radix 10 (unat port))"
    by (rule read_show_v6) (simp add: at_end_def)
  moreover have "read_scope_id (CHR '']'' # s) = None" for s by (simp add: read_scope_id_def)
  ultimately show ?thesis
    by (simp add: 2 parse_socket_addr_def read_socket_addr_v4_def read_socket_addr_v6_def read_port_show)
qed


text \<open>A printed IPv6 address starts with hexadecimal digits up to a colon, so that nothing else is read from it.\<close>

lemma fmt_subslice_head:
  obtains hs rest where "fmt_subslice gs @ CHR '':'' # t = hs @ rest" "\<forall>x \<in> set hs. to_digit 16 x \<noteq> None" "hd rest = CHR '':''" "rest \<noteq> []"
proof (cases gs)
  case (Cons g gs')
  have "hd (tail_text gs' @ CHR '':'' # t) = CHR '':''" by (cases gs') simp_all
  moreover have "to_digit 16 x \<noteq> None" if "x \<in> set (show_radix 16 (unat g))" for x
    by (rule set_show_16 [OF unat_u16_lt that])
  ultimately show ?thesis using that [of "show_radix 16 (unat g)" "tail_text gs' @ CHR '':'' # t"] Cons by simp
qed (use that [of "[]" "CHR '':'' # t"] in simp)

lemma show_v6_head:
  obtains hs rest where "show_v6 ip = hs @ rest" "\<forall>x \<in> set hs. to_digit 16 x \<noteq> None" "rest \<noteq> []" "hd rest = CHR '':''"
proof (cases "to_ipv4_mapped (v6_segments ip)")
  case (Some v4)
  then show ?thesis using that [of "[]" "''::ffff:'' @ show_v4 v4"] by (simp add: show_v6_def Let_def)
next
  case None
  obtain start len where z: "longest_zeroes 0 (0, 0) (0, 0) (v6_segments ip) = (start, len)"
    by (cases "longest_zeroes 0 (0, 0) (0, 0) (v6_segments ip)")
  show ?thesis
  proof (cases "len > 1")
    case True
    obtain hs rest where "fmt_subslice (take start (v6_segments ip)) @ CHR '':'' # CHR '':'' # fmt_subslice (drop (start + len) (v6_segments ip)) = hs @ rest"
      "\<forall>x \<in> set hs. to_digit 16 x \<noteq> None" "hd rest = CHR '':''" "rest \<noteq> []"
      by (rule fmt_subslice_head)
    then show ?thesis using that [of hs rest] True by (simp add: show_v6_def None z Let_def)
  next
    case False
    obtain g g' gs where g: "v6_segments ip = g # g' # gs" by (cases ip) simp
    have "show_v6 ip = fmt_subslice (v6_segments ip)" using False by (simp add: show_v6_def None z Let_def)
    then have "show_v6 ip = show_radix 16 (unat g) @ tail_text (g' # gs)" unfolding g by simp
    then show ?thesis
      using that [of "show_radix 16 (unat g)" "tail_text (g' # gs)"] set_show_16 [OF unat_u16_lt [of g]] by simp
  qed
qed

lemma no_bracket:
  assumes "s = hs @ rest" "\<forall>x \<in> set hs. to_digit 16 x \<noteq> None" "rest = [] \<or> hd rest = CHR '':'' \<or> hd rest = CHR ''.''"
  shows "read_socket_addr_v6 s = None"
proof (cases s)
  case (Cons c t)
  have "c \<noteq> CHR ''[''"
  proof
    assume c: "c = CHR ''[''"
    then show False using assms Cons by (cases hs) (auto simp: to_digit_def)
  qed
  then show ?thesis by (simp add: Cons read_socket_addr_v6_def)
qed (simp add: read_socket_addr_v6_def)

lemma parse_server_ip: "parse_server (show_ip ip) = Some (SocketAddr ip DEFAULT_PORT)"
proof (cases ip)
  case (V4 ip4)
  have r: "read_ipv4_addr (show_v4 ip4) = Some (ip4, [])" using read_ipv4_show [of "[]" ip4] by simp
  obtain d t where "show_v4 ip4 = digit_char d # t" "d < 10"
  proof (cases ip4)
    case (Ipv4Addr a b c d)
    obtain x xs where x: "show_radix 10 (unat a) = x # xs" by (cases "show_radix 10 (unat a)") simp_all
    then show ?thesis using that hd_show_radix [of "unat a"] by (auto simp: Ipv4Addr)
  qed
  then have "read_socket_addr_v6 (show_v4 ip4) = None"
    using to_digit_char [of d 10] by (auto simp: read_socket_addr_v6_def to_digit_def)
  then show ?thesis
    using r by (simp add: V4 parse_server_def parse_socket_addr_def read_socket_addr_v4_def read_port_def parse_ip_addr_def)
next
  case (V6 ip6)
  obtain hs rest where s: "show_v6 ip6 = hs @ rest" "\<forall>x \<in> set hs. to_digit 16 x \<noteq> None" "rest \<noteq> []" "hd rest = CHR '':''"
    by (rule show_v6_head)
  have "read_ipv4_addr (show_v6 ip6) = None" unfolding s(1) using s(2,4) by (intro read_ipv4_none) auto
  moreover have "read_socket_addr_v6 (show_v6 ip6) = None" by (rule no_bracket [OF s(1,2)]) (simp add: s(4))
  moreover have "read_ipv6_addr (show_v6 ip6) = Some (ip6, [])" using read_show_v6 [of "[]" ip6] by (simp add: at_end_def)
  ultimately show ?thesis
    by (simp add: V6 parse_server_def parse_socket_addr_def read_socket_addr_v4_def parse_ip_addr_def)
qed

lemma parse_server_socket: "parse_server (show_socket_addr addr) = Some addr"
  by (simp add: parse_server_def)


section \<open>Command lines\<close>

text \<open>What a user can ask for, one option at a time, and the arguments that say so.\<close>

datatype client_option = At_Server socket_addr | At_Host ip_addr | Resolve string

fun client_words :: "client_option \<Rightarrow> string list" where
  "client_words (At_Server addr) = [''--server'', show_socket_addr addr]"
| "client_words (At_Host ip) = [''--server'', show_ip ip]"
| "client_words (Resolve domain) = [domain]"

datatype server_option = On_Port u16 | Always_Dump | Zone_File string

fun server_words :: "server_option \<Rightarrow> string list" where
  "server_words (On_Port port) = [''--port'', show_radix 10 (unat port)]"
| "server_words Always_Dump = [''--always-dump'']"
| "server_words (Zone_File path) = [path]"

text \<open>The meaning of a list of options: the last server or port counts, and there is exactly one name.\<close>

fun client_addr :: "client_option list \<Rightarrow> socket_addr option \<Rightarrow> socket_addr option" where
  "client_addr [] addr = addr"
| "client_addr (At_Server a # opts) addr = client_addr opts (Some a)"
| "client_addr (At_Host ip # opts) addr = client_addr opts (Some (SocketAddr ip DEFAULT_PORT))"
| "client_addr (Resolve d # opts) addr = client_addr opts addr"

fun server_port :: "server_option list \<Rightarrow> u16 \<Rightarrow> u16" where
  "server_port [] port = port"
| "server_port (On_Port p # opts) port = server_port opts p"
| "server_port (opt # opts) port = server_port opts port"

fun client_names :: "client_option list \<Rightarrow> string list" where
  "client_names [] = []"
| "client_names (Resolve d # opts) = d # client_names opts"
| "client_names (opt # opts) = client_names opts"

fun server_names :: "server_option list \<Rightarrow> string list" where
  "server_names [] = []"
| "server_names (Zone_File z # opts) = z # server_names opts"
| "server_names (opt # opts) = server_names opts"

text \<open>The one name of a command line; \<open>what\<close> is the message when there is none.\<close>

fun one_name :: "string \<Rightarrow> string list \<Rightarrow> (cli_error, string) outcome" where
  "one_name what [] = Err (Missing what)"
| "one_name what [name] = Ok name"
| "one_name what (name # other # names) = Err (Unexpected other)"

lemma client_args_words:
  assumes "''--server'' \<notin> set (client_names opts)"
  shows "client_args addr domain (concat (map client_words opts)) =
    bind_outcome (one_name ''<domain_name>'' ((case domain of Some d \<Rightarrow> [d] | None \<Rightarrow> []) @ client_names opts))
      (\<lambda>d. Ok (d, client_addr opts addr))"
  using assms
proof (induction opts arbitrary: addr domain rule: client_names.induct)
  case (2 d opts)
  then show ?case by (cases domain) auto
qed (auto simp: parse_server_ip parse_server_socket split: option.splits)

lemma server_args_words:
  assumes "''--port'' \<notin> set (server_names opts)" "''--always-dump'' \<notin> set (server_names opts)"
  shows "server_args port zone_file dump (concat (map server_words opts)) =
    bind_outcome (one_name ''<zone_file>'' ((case zone_file of Some z \<Rightarrow> [z] | None \<Rightarrow> []) @ server_names opts))
      (\<lambda>z. Ok (z, server_port opts port, dump \<or> Always_Dump \<in> set opts))"
  using assms
proof (induction opts arbitrary: port zone_file dump)
  case (Cons opt opts)
  show ?case
  proof (cases opt)
    case (On_Port p)
    have "unat p \<le> 65535" using unsigned_less [of p, where 'a = nat] by simp
    from parse_unsigned_show [OF this] show ?thesis using Cons On_Port by simp
  next
    case (Zone_File z)
    then show ?thesis using Cons by (cases zone_file) auto
  qed (use Cons in simp)
qed (simp split: option.splits)




end
