(* ===== verification/Spec2Isabelle.thy ===== *)
theory Spec2Isabelle
  imports Deployment Condense_Correct Pir_Wire Double_Retrieval Cli
begin

text \<open>
  DNSPIR: DNS over private information retrieval. An authoritative server (\<open>crates/dns-over-pir\<close>)
  hashes the names of its zone into fixed-size buckets, packs each bucket into the coefficients of one
  plaintext polynomial and answers encrypted queries for a bucket without learning which; a resolver
  walks from server to server, asking each for the labels of its target. The retrieval engine
  (\<open>crates/pir\<close>) is a two-level scheme: every shard of a fleet is evaluated under the first index, and
  the results become the database of the second.

  A Rust function becomes a HOL function of the same name. Fixed-width integers are words of that
  width, a \<open>str\<close> is the list of its UTF-8 bytes as characters, structs are records, enums datatypes.
  A fallible function returns an \<open>outcome\<close>: \<open>Ok\<close>, \<open>Err\<close> with the error the code returns, or \<open>Panic\<close> for
  every \<open>assert!\<close>, \<open>unwrap\<close>, out-of-range index and division by zero the code can reach. Mutable state is
  passed in and returned. \<open>debug_assert!\<close> is compiled out, as in the release build.

  \<^bold>\<open>Foundations.\<close> \<open>Dns_Prelude\<close> (words, outcomes, byte order, slices), \<open>Rust_Text\<close> and \<open>Ip_Text\<close> (the parts of
  \<open>str\<close> and \<open>std::net\<close> the program uses, printing and parsing of addresses), \<open>Net_Addr\<close>.

  \<^bold>\<open>Buckets\<close> (\<open>dns/bucket.rs\<close>). \<open>Bucket\<close> holds the hash functions, slots, tags and the bucket layout;
  \<open>Bucket_Layout\<close> shows that decoding inverts encoding and when encoding fails; \<open>Coeff_Packing\<close> that bucket
  bytes and vectors of 10-bit coefficients correspond one to one.

  \<^bold>\<open>Zones\<close> (\<open>dns/zone.rs\<close>). \<open>Zone\<close> is the parser, the interned name-server pool and the serializer;
  \<open>Zone_Correct\<close> the invariant every parsed zone has.

  \<^bold>\<open>Protocol\<close> (\<open>dns/protocol.rs\<close>). \<open>Protocol\<close> has frames over a connection given by its two byte queues and
  counters, and the \<open>INFO\<close> reply, with their round trips.

  \<^bold>\<open>Server\<close> (\<open>dns/server.rs\<close>). \<open>Server\<close> sizes the database, builds the buckets with a per-bucket salt,
  builds the start-up state and answers requests; \<open>Server_Correct\<close> describes the grid of buckets it builds;
  \<open>Deployment\<close> the state it starts in and its request loop.

  \<^bold>\<open>Client\<close> (\<open>dns/client.rs\<close>). \<open>Client\<close> is the walk over one server, the iterative resolver, local zones,
  sessions and the cache. \<open>Client_Correct\<close> states the contract \<open>name_service\<close> of a server as a locale and
  interprets it with local zones and with a fleet of buckets; \<open>Resolver\<close> proves soundness, completeness and
  the hop bound of the resolver as a state machine.

  \<^bold>\<open>Retrieval engine.\<close> \<open>Pir_Shape\<close>: index groups and the database shape derived from the entry count
  (\<open>base_pir.rs\<close>, \<open>pir_wrapper.rs\<close>). \<open>Avx\<close>, \<open>Simd_Zn\<close>, \<open>Simd_Zn_Correct\<close>: vector registers as eight 64-bit
  lanes, the two implementations of each operation (\<open>avx.rs\<close>), and lazily reduced arithmetic modulo the two
  primes (\<open>simd_zn.rs\<close>). \<open>Permute\<close>: in-place permutation (\<open>permute.rs\<close>) and the row permutation of an
  automorphism. \<open>Bfv\<close>, \<open>Bfv_Correct\<close>: keys, encryption, decryption, Galois keys and modulus switching
  (\<open>bfv.rs\<close>). \<open>Double_Pir\<close>, \<open>Double_Pir_Correct\<close>: the contents of a query, the second-level database and the
  decoding of a reply (\<open>double_pir.rs\<close>). \<open>Condense\<close>, \<open>Condense_Correct\<close>, \<open>Pir_Wire\<close>: bit packing and the
  bytes of queries and replies (\<open>pir_wrapper.rs\<close>).

  \<^bold>\<open>Shards\<close> (\<open>base_pir.rs\<close>). \<open>Main_Loop\<close> is the streaming inner product \<open>main_pir_loop\<close>, register by register with
  its preloads, its two buffers and the reductions every \<open>reduce_every_iterations\<close> passes;
  \<open>Main_Loop_Correct\<close> shows that it computes the sum of the rotated products modulo the prime, without
  overflow. \<open>Base_Pir\<close> has the weighted transforms, the gadget decomposition and \<open>partial_gal\<close>;
  \<open>Gadget_Correct\<close> shows that the two digits recompose the coefficient modulo both primes. \<open>Ntt_Correct\<close> states
  the contract of the Fourier transform (\<open>ntt_spec\<close>) and shows that \<open>weighted_ntt\<close> evaluates a polynomial in the slots
  of the ring; \<open>Partial_Gal_Correct\<close> that \<open>partial_gal\<close> applies the automorphism and the key product;
  \<open>Preprocess_Correct\<close> and \<open>Answer_Correct\<close> follow preprocessing and answering in the slots. \<open>Negacyclic\<close> relates
  slots to products modulo \<open>X ^ N + 1\<close> (\<open>poly_mul_spec\<close>); \<open>Evaluation\<close> collects the noise of the keys into one
  polynomial with a bound; \<open>Reference_Engine\<close> gives concrete fields, transforms and a database that meet every
  contract; \<open>Shard_Answer\<close> has the theorem of the whole evaluation, from the clients' keys to the decrypted reply.
  \<open>Turns\<close> treats coefficients as functions that change sign with every \<open>N\<close>, shows that the conjugates of a
  nontrivial power of \<open>X\<close> cancel (\<open>select_subgroup\<close>, \<open>select_full\<close>), and that slots determine coefficients;
  \<open>Coset_Correct\<close> and \<open>Transformed_Correct\<close> follow loading: \<open>coset_ntt\<close>, and what \<open>set_transformed_entries\<close>
  stores; \<open>Ring_Answer\<close> is the answer as an integer polynomial, and \<open>Retrieval\<close> has the theorem that every client
  decrypts its entry, with a concrete database over the full group.
  \<open>Creation\<close> derives from the contract of the library's tables (\<open>setup_spec\<close>) that a database made by \<open>create\<close>
  meets everything the theorems above ask of one, and \<open>Reference_Setup\<close> builds tables that satisfy the contract.
  \<open>Shard_Level\<close> joins creation, loading, preprocessing and answering for fresh, switched and idle queries.
  \<open>Double_Retrieval\<close> follows a batch from the secrets of two clients through the shards of two fleets, both modulus
  switches, the second-level database and \<open>dec_double_pir\<close> to the entries they asked for.
  \<open>Pir_Database\<close> is the record \<open>PIRDatabase\<close> with creation, loading, preprocessing and answering, and
  \<open>perform_batched_double_pir\<close>, which runs the two levels.

  \<^bold>\<open>Command line\<close> (\<open>main.rs\<close>). \<open>Cli\<close> has the argument loops, the parsing of addresses and the exit codes, and shows
  what every well-formed command line means.


  This theory composes them: what a client reads from a started server is what the zone holds.

  \<^bold>\<open>Parameters.\<close> Code of other crates is an argument of the definitions that call it. \<open>feanor_math\<close>: \<open>lg\<close> is
  \<open>abs_log2_ceil\<close> (\<open>abs_log2_ceil_spec\<close>), \<open>rdiv\<close> is \<open>rounded_div\<close> (\<open>rounded_div_spec\<close>), the records
  \<open>zn_ring\<close>, \<open>zn_arith\<close> and \<open>poly_ring\<close> are its rings (\<open>zn_spec\<close>, \<open>zn_arith_spec\<close>, \<open>poly_spec\<close>, \<open>poly_mul_spec\<close>), \<open>ntt_table\<close> and \<open>ntt_setup\<close> its
  Fourier transforms and roots of unity (\<open>ntt_spec\<close>, \<open>setup_spec\<close>). \<open>rand\<close>: the
  record \<open>rng_ops\<close>. \<open>flate2\<close>: \<open>compress\<close> and \<open>decompress\<close>. The test of \<open>pick_num_entries\<close>, which is
  floating-point arithmetic, is the predicate \<open>fits\<close>. The specifications state documented behaviour, and each
  is met by a concrete instance used in the witnesses (\<open>abs_log2_ceil_ref\<close>, \<open>rounding\<close>, \<open>int_arith\<close>,
  \<open>int_poly\<close>, \<open>counting_rng\<close>, \<open>unit_noise\<close>, \<open>field_arith\<close>, \<open>ref_ntt\<close>, \<open>ref_setup\<close>).

  \<^bold>\<open>Termination.\<close> No definition uses fuel: \<open>handle\<close> consumes its input, the resolver counts its hops, the salt
  searches count up to the bounds of the code, permutations mark an index in every step, and the digit
  loops divide.

  \<^bold>\<open>Not modelled.\<close> Threads, the accept loop, memory-mapped files, time-outs, printing, timing and byte
  counters; errors of the operating system other than end of input; allocation and alignment of memory
  (\<open>align.rs\<close>); the prefetch hint; the benchmark drivers; the crate root,
  which only declares modules. The transforms of other crates are parameters and nothing is assumed of
  them where they only pass through. The noise of an answer is computed exactly (\<open>reply_noise\<close>) and has a worst-case
  bound at each level (\<open>noise_limit\<close>, \<open>switch_limit\<close>), which the deployed parameters exceed; that it stays small enough
  with them rests on the distribution of the noise, which is not modelled, so that retrieval is stated for replies whose noise
  leaves room for rounding.
\<close>

section \<open>Serving a zone through PIR\<close>



text \<open>
  C4. The buckets themselves: when \<open>build_buckets\<close> succeeds, every name's slot lies inside the fleet,
  the bucket there has \<open>BUCKET_BYTES\<close> bytes, and reading it as the client does (salt header, then the
  name's discriminator under that salt) gives the records of the name; a foreign name can only be
  answered through a discriminator it shares with a name of the zone.
\<close>

theorem build_buckets_lookup:
  assumes "abs_log2_ceil_spec lg" "1 \<le> n" "n \<le> RING_N * RING_N" "zone_wf zone"
    and "build_buckets lg zone n g = Ok buckets"
    and "slot lg name n g = (Ok (sh, pri) :: (build_error, nat \<times> nat) outcome)"
  shows "sh < length buckets \<and> pri < length (buckets ! sh) \<and>
    (let bucket = buckets ! sh ! pri; disc = (\<lambda>q. discriminator q g (read_bucket_salt bucket)) in
     length bucket = BUCKET_BYTES \<and>
     (name \<in> set (zone_names zone) \<longrightarrow> decode_bucket_matching bucket (disc name) = zone_answer zone name) \<and>
     (decode_bucket_matching bucket (disc name) \<noteq> [] \<longrightarrow>
       (\<exists>other \<in> set (zone_names zone). disc other = disc name \<and>
          decode_bucket_matching bucket (disc name) = zone_answer zone other)))"
  using build_buckets_faithful [OF assms] unfolding Let_def faithful_at_def bucket_answer_def by blast

theorem build_buckets_lookup_witness:
  "\<exists>buckets sh pri. build_buckets abs_log2_ceil_ref demo_zone 8192 0 = Ok buckets \<and>
     decode_bucket_matching (buckets ! sh ! pri) (discriminator ''a.org'' 0 (read_bucket_salt (buckets ! sh ! pri))) =
       [Rec_A (Ipv4Addr 1 2 3 4)]"
proof -
  have n: "1 \<le> (8192 :: nat)" "8192 \<le> RING_N * RING_N" by (simp_all add: RING_N_eq)
  obtain buckets where b: "build_buckets abs_log2_ceil_ref demo_zone 8192 0 = Ok buckets"
    using demo_buckets [OF n] by blast
  obtain sh pri where s: "slot abs_log2_ceil_ref ''a.org'' 8192 0 = (Ok (sh, pri) :: (build_error, nat \<times> nat) outcome)"
    using slot_in_range [OF abs_log2_ceil_ref_spec n] by metis
  have "decode_bucket_matching (buckets ! sh ! pri) (discriminator ''a.org'' 0 (read_bucket_salt (buckets ! sh ! pri))) =
      [Rec_A (Ipv4Addr 1 2 3 4)]"
    using build_buckets_lookup [OF abs_log2_ceil_ref_spec n demo_zone_facts(1) b s]
    unfolding Let_def demo_zone_facts by simp
  with b show ?thesis by blast
qed

text \<open>
  C5. \<open>build_buckets\<close> never panics, and it fails only for the two reasons it reports: a slot whose names
  collide under every one of the 65536 bucket salts, or a bucket whose entries exceed its bytes.
\<close>

theorem build_buckets_outcome:
  assumes "abs_log2_ceil_spec lg" "1 \<le> n" "n \<le> RING_N * RING_N" "zone_wf zone"
  shows "build_buckets lg zone n g \<noteq> Panic \<and>
    (\<forall>e. build_buckets lg zone n g = Err e \<longrightarrow>
      (\<exists>sh < shard_count n. \<exists>pri < shard_size n. let names = names_of_slot lg zone n g sh pri in
        e = No_Salt sh pri (length names) (shard_count n) \<and>
          (\<forall>b < MAX_BUCKET_SALT_ATTEMPTS. \<not> distinct (map (\<lambda>q. discriminator q g (of_nat b)) names)) \<or>
        (\<exists>needed > BUCKET_BYTES. e = Bucket_Failure sh pri (Overflow needed BUCKET_BYTES) (shard_count n))))"
proof -
  obtain nib where nib: "\<And>sh pri. sh < shard_count n \<Longrightarrow> pri < shard_size n \<Longrightarrow> nib ! sh ! pri = names_of_slot lg zone n g sh pri"
    and eq: "build_buckets lg zone n g =
      collect_ok (\<lambda>sh. collect_ok (\<lambda>pri. fill_bucket zone g (shard_count n) sh pri (nib ! sh ! pri)
        (replicate BUCKET_BYTES 0)) [0..<shard_size n]) [0..<shard_count n]"
    using build_buckets_eq [OF assms(1-3), where zone = zone and g = g] by blast
  note fill = fill_bucket_cases [OF assms(4) names_of_slot_subset [of lg zone n g]]
  have "build_buckets lg zone n g \<noteq> Panic"
    unfolding eq by (intro collect_ok_no_panic) (use fill(1) nib in auto)
  moreover have "\<exists>sh < shard_count n. \<exists>pri < shard_size n. let names = names_of_slot lg zone n g sh pri in
        e = No_Salt sh pri (length names) (shard_count n) \<and>
          (\<forall>b < MAX_BUCKET_SALT_ATTEMPTS. \<not> distinct (map (\<lambda>q. discriminator q g (of_nat b)) names)) \<or>
        (\<exists>needed > BUCKET_BYTES. e = Bucket_Failure sh pri (Overflow needed BUCKET_BYTES) (shard_count n))"
    if err: "build_buckets lg zone n g = Err e" for e
  proof -
    obtain sh where sh: "sh \<in> set [0..<shard_count n]"
      "collect_ok (\<lambda>pri. fill_bucket zone g (shard_count n) sh pri (nib ! sh ! pri)
        (replicate BUCKET_BYTES 0)) [0..<shard_size n] = Err e"
      using collect_ok_Err [OF err [unfolded eq]] by blast
    obtain pri where "pri \<in> set [0..<shard_size n]"
      "fill_bucket zone g (shard_count n) sh pri (nib ! sh ! pri) (replicate BUCKET_BYTES 0) = Err e"
      using collect_ok_Err [OF sh(2)] by blast
    with sh(1) have r: "sh < shard_count n" "pri < shard_size n"
      and "fill_bucket zone g (shard_count n) sh pri (nib ! sh ! pri) (replicate BUCKET_BYTES 0) = Err e"
      by simp_all
    then have "fill_bucket zone g (shard_count n) sh pri (names_of_slot lg zone n g sh pri) (replicate BUCKET_BYTES 0) = Err e"
      using nib [OF r] by simp
    from fill(2) [OF this] r show ?thesis unfolding Let_def by blast
  qed
  ultimately show ?thesis by blast
qed

theorem build_buckets_outcome_witness:
  "build_buckets abs_log2_ceil_ref demo_zone 8192 1 \<noteq> Panic"
  using build_buckets_outcome [OF abs_log2_ceil_ref_spec _ _ demo_zone_facts(1), of 8192 1]
  by (simp add: RING_N_eq)

section \<open>The shape of the fleet\<close>

text \<open>
  C15. The database shape both sides derive from the number of entries: up to \<open>N\<^sup>2/16\<close> entries neither the
  primary nor the secondary query needs its conjugated ciphertext, from there up to \<open>N\<^sup>2/2\<close> only the
  primary one does, above that both do; outside \<open>1..N\<^sup>2\<close> the shape panics. There are at most 256
  databases, together they hold all entries, and the secondary group has a place for each of them.
\<close>

theorem database_shape:
  assumes "abs_log2_ceil_spec lg"
  shows "if 1 \<le> n \<and> n \<le> RING_N * RING_N then
      \<exists>primary secondary shards. get_database_shape lg n = (Ok (primary, secondary) :: (unit, index_group \<times> index_group) outcome) \<and>
        num_databases lg n = (Ok shards :: (unit, nat) outcome) \<and>
        (requires_conj primary \<longleftrightarrow> RING_N * RING_N div 16 < n) \<and>
        (requires_conj secondary \<longleftrightarrow> RING_N * RING_N div 2 < n) \<and>
        1 \<le> shards \<and> shards \<le> 256 \<and> n \<le> shards * (SIMD_COUNT * group_order primary) \<and>
        (shards - 1) * (SIMD_COUNT * group_order primary) < n \<and>
        shards * SIMD_COUNT \<le> group_order secondary
    else get_database_shape lg n = (Panic :: (unit, index_group \<times> index_group) outcome)"
proof (cases "1 \<le> n \<and> n \<le> RING_N * RING_N")
  case True
  then have n: "1 \<le> n" "n \<le> RING_N * RING_N" by simp_all
  let ?s = "shard_count n"
  note s = shard_count_bounds [OF n]
  note sec = choose_secondary_ok [OF assms s]
  have pos: "0 < shard_size n" by (rule shard_size_pos)
  have ge: "n \<le> ?s * shard_size n"
    unfolding shard_count_def by (rule div_ceil_ge [OF pos])
  have lt: "(?s - 1) * shard_size n < n"
    unfolding shard_count_def using n by (intro div_ceil_least [OF _ pos]) simp
  have "128 < ?s \<longleftrightarrow> RING_N * RING_N div 2 < n"
  proof (cases "HALF_SIZE_PRIMARY_MAX_ENTRIES < n")
    case True
    then have "shard_size n = 16384"
      by (simp add: primary_group_def index_group_defs pir_consts)
    then show ?thesis using ge lt by (simp add: pir_consts) linarith
  next
    case False
    then have "shard_size n = 8192"
      by (simp add: primary_group_def index_group_defs pir_consts)
    then show ?thesis using False lt by (simp add: pir_consts)
  qed
  moreover have "requires_conj (primary_group n) \<longleftrightarrow> RING_N * RING_N div 16 < n"
    using primary_group_facts(4) [of n] by (simp add: pir_consts)
  ultimately show ?thesis
    using True s sec ge lt by (simp add: get_database_shape_ok [OF assms n] num_databases_ok [OF assms n])
next
  case False
  then have "n = 0 \<or> RING_N * RING_N < n" by linarith
  then show ?thesis using False get_database_shape_panics by auto
qed

theorem database_shape_witness:
  "\<exists>primary secondary. get_database_shape abs_log2_ceil_ref 300000 = (Ok (primary, secondary) :: (unit, index_group \<times> index_group) outcome) \<and>
     requires_conj primary \<and> \<not> requires_conj secondary"
  using database_shape [OF abs_log2_ceil_ref_spec, of 300000] by (auto simp: pir_consts)

text \<open>
  C14. Slots address the fleet: for every name and salt, the shard index is below the number of databases
  and the index within the shard below the number of entries a shard stores; the slot never is one of
  the padding places behind the last entry.
\<close>

theorem slot_addresses_fleet:
  assumes "abs_log2_ceil_spec lg" "1 \<le> n" "n \<le> RING_N * RING_N"
  shows "\<exists>sh pri shards eps. slot lg name n salt = (Ok (sh, pri) :: (unit, nat \<times> nat) outcome) \<and>
    num_databases lg n = (Ok shards :: (unit, nat) outcome) \<and> entries_per_shard lg n = (Ok eps :: (unit, nat) outcome) \<and>
    sh < shards \<and> pri < eps \<and> sh * eps + pri < n"
proof -
  let ?i = "slot_index n salt name"
  have i: "?i < n" using assms(2) by (simp add: slot_index_def)
  then have "?i div shard_size n < shard_count n"
    unfolding shard_count_def by (rule less_div_ceil [OF shard_size_pos])
  moreover have "?i mod shard_size n < shard_size n"
    by (rule mod_less_divisor [OF shard_size_pos])
  moreover have "?i div shard_size n * shard_size n + ?i mod shard_size n = ?i"
    by (rule div_mult_mod_eq)
  ultimately show ?thesis
    using i slot_ok [OF assms] entries_per_shard_ok [OF assms] num_databases_ok [OF assms] by metis
qed

theorem slot_addresses_fleet_witness:
  "\<exists>sh pri. slot abs_log2_ceil_ref ''a.org'' 8192 0 = (Ok (sh, pri) :: (unit, nat \<times> nat) outcome) \<and> pri < 8192"
  using slot_addresses_fleet [OF abs_log2_ceil_ref_spec, of 8192 "''a.org''" 0] entries_per_shard_ok [OF abs_log2_ceil_ref_spec, of 8192]
  by (fastforce simp: primary_group_def index_group_defs pir_consts)

text \<open>
  C16. \<open>pick_num_entries\<close>, for any outcome of its floating-point test: the result is the smallest
  candidate that passes, or the largest one when none does; and every candidate consists of shards
  that are completely used.
\<close>

theorem pick_num_entries_least:
  "(let n = pick_num_entries fits in
    (\<forall>c \<in> set entry_candidates. fits c \<longrightarrow> fits n \<and> n \<le> c) \<and>
    ((\<forall>c \<in> set entry_candidates. \<not> fits c) \<longrightarrow> n = RING_N * RING_N) \<and>
    n \<in> set entry_candidates \<and> n = shard_count n * shard_size n)"
proof -
  let ?n = "pick_num_entries fits"
  have full: "c = shard_count c * shard_size c" if "c \<in> set entry_candidates" for c
  proof -
    have "c \<in> (\<lambda>k. k * 8192) ` {1..<33} \<or> c \<in> (\<lambda>k. k * 16384) ` {17..<257}"
      using that unfolding entry_candidates_eq by (simp only: set_append set_map set_upt Un_iff)
    then obtain k where "c = k * 8192 \<and> c \<le> 262144 \<or> c = k * 16384 \<and> 262144 < c"
      by auto
    then show ?thesis
      by (auto simp: shard_count_def primary_group_def index_group_defs pir_consts div_ceil_def)
  qed
  have "last entry_candidates = RING_N * RING_N"
    by (simp add: entry_candidates_eq RING_N_eq last_map)
  then show ?thesis
    using first_fitting_least [OF sorted_entry_candidates, of _ fits 0]
      first_fitting_none [OF _ entry_candidates_nonempty, of fits 0]
      pick_num_entries_in [of fits] full [OF pick_num_entries_in]
    by (simp add: pick_num_entries_def Let_def)
qed

theorem pick_num_entries_least_witness:
  "pick_num_entries (\<lambda>n. n \<ge> 100000) \<le> 106496 \<and> pick_num_entries (\<lambda>n. False) = 4194304"
proof -
  have "106496 \<in> (\<lambda>k. k * 8192) ` {1..<33 :: nat}"
    by (rule image_eqI [of _ _ 13]) simp_all
  then have "106496 \<in> set entry_candidates"
    unfolding entry_candidates_eq by (simp only: set_append set_map set_upt Un_iff) blast
  then show ?thesis
    using pick_num_entries_least [of "\<lambda>n. n \<ge> 100000"] pick_num_entries_least [of "\<lambda>n. False"]
    by (auto simp: Let_def RING_N_eq)
qed


section \<open>Salts\<close>

text \<open>
  \<open>find_bucket_salt\<close> returns the least of the 65536 candidate salts under which the discriminators
  of the names are pairwise distinct, with the number of salts tried, and \<open>None\<close> exactly when there is
  none.
\<close>

theorem find_bucket_salt_least:
  "case find_bucket_salt names g of
     None \<Rightarrow> \<forall>j < 65536. \<not> distinct (map (\<lambda>q. discriminator q g (of_nat j)) names)
   | Some (b, attempts) \<Rightarrow> \<exists>j < 65536. b = of_nat j \<and> attempts = of_nat j + 1 \<and>
       distinct (map (\<lambda>q. discriminator q g b) names) \<and>
       (\<forall>i < j. \<not> distinct (map (\<lambda>q. discriminator q g (of_nat i)) names))"
proof (cases "find_bucket_salt names g")
  case None
  then show ?thesis
    using find_salt_from_None [of names g 0 65536]
    by (simp add: find_bucket_salt_def MAX_BUCKET_SALT_ATTEMPTS_def collision_free_iff)
next
  case (Some r)
  then obtain b k where r: "r = (b, k)" "find_salt_from names g 0 65536 = Some (b, k)"
    by (cases r) (simp add: find_bucket_salt_def MAX_BUCKET_SALT_ATTEMPTS_def)
  from find_salt_from_Some [OF r(2)] show ?thesis
    by (auto simp: Some r(1) collision_free_iff)
qed

theorem find_bucket_salt_least_witness:
  "find_bucket_salt [''a.org''] 7 = Some (0, 1) \<and> distinct (map (\<lambda>q. discriminator q 7 0) [''a.org''])"
  using find_bucket_salt_least [where names = "[''a.org'']" and g = 7] by (auto simp: find_bucket_salt_single)

text \<open>
  \<open>try_salts\<close> uses the salt of the first attempt at which the builder succeeds: all earlier salts
  failed, the salt of attempt 0 is 0, and at most 16 salts are tried.
\<close>

theorem try_salts_first_success:
  assumes "try_salts MAX_REHASH_RETRIES builder = Ok (t, salt)"
  shows "builder salt = Ok t \<and> (\<exists>i < 16. salt = of_nat i * 0x9E3779B97F4A7C15 \<and>
    (\<forall>j < i. \<exists>e. builder (of_nat j * 0x9E3779B97F4A7C15) = Err e))"
proof -
  have salt: "salt_for_attempt w = w * 0x9E3779B97F4A7C15" for w
    by (simp add: salt_for_attempt_def)
  show ?thesis
    using assms by (auto simp: try_salts_def MAX_REHASH_RETRIES_def salt dest!: try_salts_from_Ok)
qed

theorem try_salts_first_success_witness:
  "try_salts MAX_REHASH_RETRIES (\<lambda>s. if s = 0 then Err ''collision'' else Ok s) = Ok (0x9E3779B97F4A7C15, 0x9E3779B97F4A7C15) \<and>
   (\<exists>i < 16. (0x9E3779B97F4A7C15 :: u64) = of_nat i * 0x9E3779B97F4A7C15)"
proof -
  have "try_salts_from m 0 (Suc (Suc n)) None (\<lambda>s. if s = 0 then Err ''collision'' else Ok s) =
      Ok (0x9E3779B97F4A7C15, 0x9E3779B97F4A7C15)" for m n
    by (simp add: salt_for_attempt_def)
  from this [of 16 14] have t: "try_salts MAX_REHASH_RETRIES (\<lambda>s. if s = 0 then Err ''collision'' else Ok s) = Ok (0x9E3779B97F4A7C15, 0x9E3779B97F4A7C15)"
    by (simp add: try_salts_def MAX_REHASH_RETRIES_def)
  show ?thesis
    using try_salts_first_success [OF t] t by blast
qed


section \<open>Connections\<close>

text \<open>
  C17. The request loop answers a pipelined sequence of requests in order: for every list of requests
  whose replies are defined and small enough for a frame, the connection ends cleanly with exactly
  the framed replies sent, the input used up and both byte counters advanced by the bytes on the wire.
\<close>

theorem handle_answers_in_order:
  assumes "list_all2 (\<lambda>req reply. length req \<le> MAX_FRAME \<and> length reply < 2 ^ 32 \<and>
      reply_to answer_query state req = Ok reply) reqs replies"
    and "inbox c = concat (map frame_bytes reqs)"
  shows "handle answer_query state c =
    (Ok (), c\<lparr>inbox := [], outbox := outbox c @ concat (map frame_bytes replies),
               cn_bytes_sent := cn_bytes_sent c + of_nat (total_frames replies),
               cn_bytes_recvd := cn_bytes_recvd c + of_nat (total_frames reqs)\<rparr>)"
proof -
  have "c\<lparr>inbox := concat (map frame_bytes reqs)\<rparr> = c" using assms(2) by simp
  then show ?thesis using handle_requests [OF assms(1), of c] by simp
qed

definition demo_state :: server_state where
  "demo_state = \<lparr>st_zone_name = ''org'', st_pir = None, st_dump = Some [31, 139], st_hash_salt = 0\<rparr>"

theorem handle_answers_in_order_witness:
  "outbox (snd (handle (\<lambda>_ _. Panic) demo_state (fresh_conn (frame_bytes [CMD_DUMP] @ frame_bytes [CMD_QUERY, 5])))) =
     frame_bytes [31, 139] @ frame_bytes [0xFF]"
  using handle_answers_in_order [of "\<lambda>_ _. Panic" demo_state "[[CMD_DUMP], [CMD_QUERY, 5]]" "[[31, 139], [0xFF]]"
      "fresh_conn (frame_bytes [CMD_DUMP] @ frame_bytes [CMD_QUERY, 5])"]
  by (simp add: reply_to_def protocol_consts demo_state_def fresh_conn_def MAX_FRAME_def RESP_UNAVAILABLE_def)

text \<open>
  A peer that goes away in the middle of a frame is treated like one that closes between requests:
  when the input ends inside the header or the body of a frame, the handler ends without an error and
  sends nothing more.
\<close>

theorem handle_truncated_request:
  assumes "length (inbox c) < 4 \<or>
    unat (from_be_bytes (take 4 (inbox c)) :: u32) \<le> MAX_FRAME \<and>
    length (inbox c) < 4 + unat (from_be_bytes (take 4 (inbox c)) :: u32)"
  shows "handle answer_query state c = (Ok (), c\<lparr>inbox := []\<rparr>)"
  using assms by (intro handle_eof) (simp add: Let_def)

theorem handle_truncated_request_witness:
  "handle (\<lambda>_ _. Panic) demo_state (fresh_conn [0, 0, 0, 9, 1, 2]) = (Ok (), fresh_conn [])"
  using handle_truncated_request [of "fresh_conn [0, 0, 0, 9, 1, 2]" "\<lambda>_ _. Panic" demo_state]
  by (simp add: fresh_conn_def from_be_bytes_def MAX_FRAME_def)

text \<open>
  C18. What a started server announces: it offers exactly one of PIR and dump, and the \<open>INFO\<close> reply the
  client decodes carries the zone name, the number of PIR slots without truncation (0 in dump mode)
  and the salt.
\<close>

theorem info_announces_state:
  assumes "abs_log2_ceil_spec lg" "zone_wf zone" "build_state lg compress fits zone always_dump = Ok st"
    and "valid_utf8 (zn_zone_name zone)" "length (zn_zone_name zone) < 2 ^ 32"
  shows "\<exists>info. decode_info (encode_info (info_of_state st)) = Ok info \<and>
    (has_pir info \<longleftrightarrow> st_pir st \<noteq> None) \<and> (has_dump info \<longleftrightarrow> st_dump st \<noteq> None) \<and> (has_pir info \<longleftrightarrow> \<not> has_dump info) \<and>
    ir_zone_name info = zn_zone_name zone \<and> ir_hash_salt info = st_hash_salt st \<and>
    unat (ir_num_entries info) = (case st_pir st of Some p \<Rightarrow> pir_num_entries p | None \<Rightarrow> 0)"
proof -
  have name: "st_zone_name st = zn_zone_name zone" and one: "st_pir st \<noteq> None \<longleftrightarrow> st_dump st = None"
    and small: "\<And>p. st_pir st = Some p \<Longrightarrow> pir_num_entries p < 2 ^ 32"
    using build_state_pir [OF assms(1-3)] build_state_dump [OF assms(3)]
      entry_candidates_range [OF pick_num_entries_in [of "fits zone"]]
    by (cases "st_pir st"; fastforce simp: RING_N_eq)+
  have zn: "ir_zone_name (info_of_state st) = zn_zone_name zone" "ir_hash_salt (info_of_state st) = st_hash_salt st"
    by (simp_all add: info_of_state_def name Let_def)
  have n: "unat (ir_num_entries (info_of_state st)) = (case st_pir st of Some p \<Rightarrow> pir_num_entries p | None \<Rightarrow> 0)"
    using small by (auto simp: info_of_state_def Let_def of_nat_inverse split: option.splits)
  have "decode_info (encode_info (info_of_state st)) = Ok (info_of_state st)"
    using decode_encode_info [of "info_of_state st" "[]"] assms(4,5) zn by simp
  then show ?thesis
    using zn n one flags_of_state [of st] by auto
qed

theorem info_announces_state_witness:
  "\<exists>st info. build_state abs_log2_ceil_ref no_compress (\<lambda>_ _. True) demo_zone False = Ok st \<and>
     decode_info (encode_info (info_of_state st)) = Ok info \<and> has_pir info \<and> ir_zone_name info = ''a.org''"
proof -
  obtain st pir where st: "build_state abs_log2_ceil_ref no_compress (\<lambda>_ _. True) demo_zone False = Ok st"
    "st_pir st = Some pir"
    using demo_state_pir by blast
  show ?thesis
    using info_announces_state [OF abs_log2_ceil_ref_spec demo_zone_facts(1) st(1)] st
    by (auto simp: demo_zone_def)
qed

end
